(* ===== verification/Prelude.thy ===== *)
theory Prelude
  imports Main "HOL-Library.Monad_Syntax"
begin

text \<open>
  Shared vocabulary of the development: C strings and byte arrays, the C++
  container operations the sources use (checked indexing, erasing the first
  occurrence, popping a deque), the exceptions of the C++ standard library
  that can escape the code, and the generic lemmas the component theories
  rely on.

  Conventions used everywhere:
  \<^item> \<open>None\<close> in an \<open>option\<close>-valued operation is a failed \<open>assert\<close> or undefined
    behaviour of the C++ code (an access out of bounds, a null dereference);
  \<^item> a value of type \<open>cpp_exn + 'a\<close> is a computation that may throw.
\<close>

named_theorems bytes_simps \<open>sizes and round trips of byte-level encodings\<close>
named_theorems option_simps \<open>inversion of computations in the option monad\<close>

declare bind_eq_Some_conv [option_simps] bind_eq_None_conv [option_simps]

section \<open>Word-splitting lemmas shared by the printers and parsers\<close>

lemma takeWhile_append_delim:
  "\<forall>c \<in> set w. c \<noteq> d \<Longrightarrow> takeWhile (\<lambda>c. c \<noteq> d) (w @ d # r) = w"
  by (induction w) auto

lemma dropWhile_append_delim:
  "\<forall>c \<in> set w. c \<noteq> d \<Longrightarrow> dropWhile (\<lambda>c. c \<noteq> d) (w @ d # r) = d # r"
  by (induction w) auto

lemma dropWhile_no_delim: "d \<notin> set w \<Longrightarrow> dropWhile (\<lambda>c. c \<noteq> d) w = []"
  by (induction w) auto

lemma takeWhile_no_delim: "d \<notin> set w \<Longrightarrow> takeWhile (\<lambda>c. c \<noteq> d) w = w"
  by (induction w) auto

lemma length_tl_dropWhile: "s \<noteq> [] \<Longrightarrow> length (tl (dropWhile P s)) < length s"
proof -
  assume "s \<noteq> []"
  then have "0 < length s" by simp
  with length_dropWhile_le [of P s] have "length (dropWhile P s) - 1 < length s" by linarith
  then show ?thesis by simp
qed

lemma set_tl_dropWhile: "set (tl (dropWhile P s)) \<subseteq> set s"
  by (induction s) auto

section \<open>C strings\<close>

abbreviation NUL :: char where
  "NUL \<equiv> CHR 0x00"

text \<open>The characters a \<^verbatim>\<open>char const*\<close> denotes: everything before the first null byte.\<close>

definition c_str :: "char list \<Rightarrow> string" where
  "c_str bs = takeWhile (\<lambda>c. c \<noteq> NUL) bs"

text \<open>
  \<^verbatim>\<open>strcpy(dst, src)\<close> into an array of \<open>length dst\<close> bytes: the bytes after the
  terminator keep their old value; a source that does not fit is undefined behaviour.
\<close>

definition strcpy :: "char list \<Rightarrow> string \<Rightarrow> char list option" where
  "strcpy dst src =
     (if length src < length dst then Some (src @ NUL # drop (Suc (length src)) dst) else None)"

text \<open>\<^verbatim>\<open>strcmp(a, b) == 0\<close>.\<close>

definition strcmp_eq :: "char list \<Rightarrow> char list \<Rightarrow> bool" where
  "strcmp_eq a b \<longleftrightarrow> c_str a = c_str b"

lemma c_str_no_NUL [simp]: "NUL \<notin> set (c_str bs)"
  by (auto simp: c_str_def dest: set_takeWhileD)

lemma c_str_id: "NUL \<notin> set s \<Longrightarrow> c_str s = s"
  unfolding c_str_def takeWhile_eq_all_conv by blast

lemma c_str_terminated [simp]: "NUL \<notin> set s \<Longrightarrow> c_str (s @ NUL # r) = s"
  unfolding c_str_def by (rule takeWhile_append_delim) blast

lemma strcpy_length [bytes_simps]: "strcpy dst src = Some dst' \<Longrightarrow> length dst' = length dst"
  by (auto simp: strcpy_def split: if_splits)

lemma strcpy_c_str [bytes_simps]:
  "strcpy dst src = Some dst' \<Longrightarrow> NUL \<notin> set src \<Longrightarrow> c_str dst' = src"
  by (auto simp: strcpy_def split: if_splits)

lemma strcpy_fits: "length src < length dst \<Longrightarrow> \<exists>dst'. strcpy dst src = Some dst'"
  by (simp add: strcpy_def)

section \<open>Containers\<close>

text \<open>Indexing an array or vector: out of range is undefined behaviour.\<close>

definition at :: "'a list \<Rightarrow> nat \<Rightarrow> 'a option" where
  "at xs i = (if i < length xs then Some (xs ! i) else None)"

text \<open>\<^verbatim>\<open>c.erase(std::find(c.begin(), c.end(), x))\<close>: erasing \<^verbatim>\<open>end()\<close> is undefined behaviour.\<close>

definition erase_first :: "'a \<Rightarrow> 'a list \<Rightarrow> 'a list option" where
  "erase_first x xs = (if x \<in> set xs then Some (remove1 x xs) else None)"

lemma at_Some_iff [option_simps]: "at xs i = Some x \<longleftrightarrow> i < length xs \<and> xs ! i = x"
  by (auto simp: at_def)

lemma erase_first_Some_iff [option_simps]:
  "erase_first x xs = Some ys \<longleftrightarrow> x \<in> set xs \<and> ys = remove1 x xs"
  by (auto simp: erase_first_def)

text \<open>A loop whose body may abort.\<close>

fun fold_option :: "('a \<Rightarrow> 'b \<Rightarrow> 'b option) \<Rightarrow> 'a list \<Rightarrow> 'b \<Rightarrow> 'b option" where
  "fold_option f [] s = Some s"
| "fold_option f (x # xs) s = do { s' \<leftarrow> f x s; fold_option f xs s' }"

lemma fold_option_append:
  "fold_option f (xs @ ys) s = do { s' \<leftarrow> fold_option f xs s; fold_option f ys s' }"
  by (induction xs arbitrary: s) (auto split: Option.bind_splits)

text \<open>The assertion macro: continue with \<open>()\<close>, or abort.\<close>

definition cassert :: "bool \<Rightarrow> unit option" where
  "cassert b = (if b then Some () else None)"

lemma cassert_Some_iff [option_simps, simp]: "cassert b = Some u \<longleftrightarrow> b"
  by (auto simp: cassert_def)

lemma cassert_True [simp]: "cassert True = Some ()"
  by (simp add: cassert_def)

section \<open>Postconditions of computations that may abort\<close>

text \<open>\<open>yields P m\<close>: whatever \<open>m\<close> returns satisfies \<open>P\<close>; the rules follow the syntax of the handlers.\<close>

definition yields :: "('a \<Rightarrow> bool) \<Rightarrow> 'a option \<Rightarrow> bool" where
  "yields P m \<longleftrightarrow> (\<forall>x. m = Some x \<longrightarrow> P x)"

lemma yieldsD: "yields P m \<Longrightarrow> m = Some x \<Longrightarrow> P x"
  by (simp add: yields_def)

lemma yields_Some: "P x \<Longrightarrow> yields P (Some x)"
  by (simp add: yields_def)

lemma yields_None: "yields P None"
  by (simp add: yields_def)

lemma yields_bind: "(\<And>x. m = Some x \<Longrightarrow> yields P (f x)) \<Longrightarrow> yields P (m \<bind> f)"
  by (auto simp: yields_def bind_eq_Some_conv)

lemma yields_if: "(b \<Longrightarrow> yields P m) \<Longrightarrow> (\<not> b \<Longrightarrow> yields P n) \<Longrightarrow> yields P (if b then m else n)"
  by simp

lemma yields_option:
  "(x = None \<Longrightarrow> yields P m) \<Longrightarrow> (\<And>y. x = Some y \<Longrightarrow> yields P (f y)) \<Longrightarrow> yields P (case x of None \<Rightarrow> m | Some y \<Rightarrow> f y)"
  by (cases x) auto

lemma yields_list:
  "(xs = [] \<Longrightarrow> yields P m) \<Longrightarrow> (\<And>y ys. xs = y # ys \<Longrightarrow> yields P (f y ys)) \<Longrightarrow>
   yields P (case xs of [] \<Rightarrow> m | y # ys \<Rightarrow> f y ys)"
  by (cases xs) auto

lemma yields_sum:
  "(\<And>y. x = Inl y \<Longrightarrow> yields P (f y)) \<Longrightarrow> (\<And>y. x = Inr y \<Longrightarrow> yields P (g y)) \<Longrightarrow>
   yields P (case x of Inl y \<Rightarrow> f y | Inr y \<Rightarrow> g y)"
  by (cases x) auto

lemma yields_prod: "(\<And>a b. x = (a, b) \<Longrightarrow> yields P (f a b)) \<Longrightarrow> yields P (case x of (a, b) \<Rightarrow> f a b)"
  by (cases x) auto

lemma yields_Let: "(\<And>y. y = x \<Longrightarrow> yields P (f y)) \<Longrightarrow> yields P (let y = x in f y)"
  by simp

lemmas yields_intros = yields_bind yields_if yields_option yields_list yields_sum yields_prod yields_Let yields_None

text \<open>\<open>returns P m\<close>: \<open>m\<close> does not abort, and what it returns satisfies \<open>P\<close>.\<close>

definition returns :: "('a \<Rightarrow> bool) \<Rightarrow> 'a option \<Rightarrow> bool" where
  "returns P m \<longleftrightarrow> (\<exists>x. m = Some x \<and> P x)"

lemma returns_Some: "P x \<Longrightarrow> returns P (Some x)"
  by (simp add: returns_def)

lemma returns_bind: "returns Q m \<Longrightarrow> (\<And>x. m = Some x \<Longrightarrow> Q x \<Longrightarrow> returns P (f x)) \<Longrightarrow> returns P (m \<bind> f)"
  by (auto simp: returns_def)

lemma returns_mono: "returns Q m \<Longrightarrow> (\<And>x. m = Some x \<Longrightarrow> Q x \<Longrightarrow> P x) \<Longrightarrow> returns P m"
  by (auto simp: returns_def)

lemma returnsE: "returns P m \<Longrightarrow> (\<And>x. m = Some x \<Longrightarrow> P x \<Longrightarrow> thesis) \<Longrightarrow> thesis"
  by (auto simp: returns_def)

lemma returnsD: "returns P m \<Longrightarrow> m = Some x \<Longrightarrow> P x"
  by (auto simp: returns_def)

lemma returns_not_None: "returns P m \<Longrightarrow> m \<noteq> None"
  by (auto simp: returns_def)

lemma returns_if: "(b \<Longrightarrow> returns P m) \<Longrightarrow> (\<not> b \<Longrightarrow> returns P n) \<Longrightarrow> returns P (if b then m else n)"
  by simp

section \<open>Exceptions of the standard library\<close>

datatype cpp_exn = Invalid_argument | Out_of_range

section \<open>Invariants of transition systems\<close>

text \<open>
  A system with an invariant: the initial states satisfy it and every step keeps it. The
  clients of the locale get it for all reachable states.
\<close>

locale invariant_system =
  fixes initial :: "'s \<Rightarrow> bool" and trans :: "'s \<Rightarrow> 's \<Rightarrow> bool" and inv :: "'s \<Rightarrow> bool"
  assumes inv_initial: "initial s \<Longrightarrow> inv s"
    and inv_trans: "inv s \<Longrightarrow> trans s t \<Longrightarrow> inv t"
begin

lemma inv_steps: "trans\<^sup>*\<^sup>* s t \<Longrightarrow> inv s \<Longrightarrow> inv t"
  by (induction rule: rtranclp_induct) (auto intro: inv_trans)

lemma inv_reachable: "initial s \<Longrightarrow> trans\<^sup>*\<^sup>* s t \<Longrightarrow> inv t"
  using inv_initial inv_steps by blast

text \<open>A property of single steps from states with the invariant holds along every run.\<close>

lemma step_property:
  assumes "\<And>s t. inv s \<Longrightarrow> trans s t \<Longrightarrow> Q s t"
    and "initial s" "trans\<^sup>*\<^sup>* s t" "trans t u"
  shows "Q t u"
  using assms inv_reachable by blast

end

text \<open>Runs whose steps carry a label.\<close>

primrec run_of :: "('c \<Rightarrow> 's \<Rightarrow> 's \<Rightarrow> bool) \<Rightarrow> 's \<Rightarrow> 'c list \<Rightarrow> 's \<Rightarrow> bool" where
  "run_of step s [] u \<longleftrightarrow> u = s"
| "run_of step s (c # cs) u \<longleftrightarrow> (\<exists>t. step c s t \<and> run_of step t cs u)"

lemma run_of_append: "run_of step s (cs @ ds) u \<longleftrightarrow> (\<exists>t. run_of step s cs t \<and> run_of step t ds u)"
  by (induction cs arbitrary: s) auto

locale labelled_system =
  fixes initial :: "'s \<Rightarrow> bool" and step :: "'c \<Rightarrow> 's \<Rightarrow> 's \<Rightarrow> bool" and inv :: "'s \<Rightarrow> bool"
  assumes labelled_initial: "initial s \<Longrightarrow> inv s"
    and labelled_step: "inv s \<Longrightarrow> step c s t \<Longrightarrow> inv t"
begin

lemma inv_run: "run_of step s cs t \<Longrightarrow> inv s \<Longrightarrow> inv t"
  by (induction cs arbitrary: s) (auto dest: labelled_step)

lemma inv_run_initial: "initial s \<Longrightarrow> run_of step s cs t \<Longrightarrow> inv t"
  using labelled_initial inv_run by blast

end

sublocale labelled_system \<subseteq> invariant_system initial "\<lambda>s t. \<exists>c. step c s t" inv
  by unfold_locales (auto intro: labelled_initial labelled_step)

text \<open>A system that refines an abstract one: every step from a state with the invariant is a step of its abstraction.\<close>

locale refinement_system = labelled_system +
  fixes abs :: "'s \<Rightarrow> 'a" and astep :: "'c \<Rightarrow> 'a \<Rightarrow> 'a \<Rightarrow> bool"
  assumes simulates: "inv s \<Longrightarrow> step c s t \<Longrightarrow> astep c (abs s) (abs t)"
begin

lemma run_refines: "run_of step s cs t \<Longrightarrow> inv s \<Longrightarrow> run_of astep (abs s) cs (abs t)"
  by (induction cs arbitrary: s) (auto dest: labelled_step simulates)

lemma run_refines_initial: "initial s \<Longrightarrow> run_of step s cs t \<Longrightarrow> run_of astep (abs s) cs (abs t)"
  using labelled_initial run_refines by blast

end

text \<open>
  A system whose runs are followed step by step by an abstract one that may choose: the states are
  related, and what the abstract system may do can depend on the state of the concrete one.
\<close>

definition alongside :: "('c \<Rightarrow> 's \<Rightarrow> 's \<Rightarrow> bool) \<Rightarrow> ('s \<Rightarrow> 'c \<Rightarrow> 'a \<Rightarrow> 'a \<Rightarrow> bool) \<Rightarrow> 'c \<Rightarrow> 's \<times> 'a \<Rightarrow> 's \<times> 'a \<Rightarrow> bool" where
  "alongside step astep c x y \<longleftrightarrow> step c (fst x) (fst y) \<and> astep (fst x) c (snd x) (snd y)"

locale forward_simulation =
  fixes step :: "'c \<Rightarrow> 's \<Rightarrow> 's \<Rightarrow> bool" and rel :: "'s \<Rightarrow> 'a \<Rightarrow> bool" and astep :: "'s \<Rightarrow> 'c \<Rightarrow> 'a \<Rightarrow> 'a \<Rightarrow> bool"
  assumes follows: "rel s a \<Longrightarrow> step c s t \<Longrightarrow> \<exists>b. astep s c a b \<and> rel t b"
begin

lemma run_follows: "run_of step s cs t \<Longrightarrow> rel s a \<Longrightarrow> \<exists>b. run_of (alongside step astep) (s, a) cs (t, b) \<and> rel t b"
proof (induction cs arbitrary: s a)
  case (Cons c cs)
  then obtain u where u: "step c s u" "run_of step u cs t" by auto
  then obtain b where b: "astep s c a b" "rel u b" using follows Cons.prems(2) by blast
  then obtain d where "run_of (alongside step astep) (u, b) cs (t, d)" "rel t d" using Cons.IH [OF u(2)] by blast
  moreover have "alongside step astep c (s, a) (u, b)" using u(1) b(1) by (simp add: alongside_def)
  ultimately show ?case by auto
qed simp

end

end
