(* ===== verification/Requests.thy ===== *)
theory Requests
  imports Prelude
begin

text \<open>
  The requests of the network file server, \<^verbatim>\<open>src/request.h\<close> and the limits of
  \<^verbatim>\<open>src/fs_param.h\<close>: the variant type of the four requests and the printers that
  produce the response header.
\<close>

definition FS_BLOCKSIZE :: nat where "FS_BLOCKSIZE = 512"
definition FS_MAXFILEBLOCKS :: nat where "FS_MAXFILEBLOCKS = 124"
definition FS_MAXFILENAME :: nat where "FS_MAXFILENAME = 59"
definition FS_MAXPATHNAME :: nat where "FS_MAXPATHNAME = 128"
definition FS_MAXUSERNAME :: nat where "FS_MAXUSERNAME = 10"

lemmas fs_param_defs = FS_BLOCKSIZE_def FS_MAXFILEBLOCKS_def FS_MAXFILENAME_def
  FS_MAXPATHNAME_def FS_MAXUSERNAME_def

type_synonym Path = "string list"

text \<open>
  The four structs and the variant over them. The data pointer of \<^verbatim>\<open>FS_WRITEBLOCK\<close> is
  \<open>None\<close> while it is \<^verbatim>\<open>nullptr\<close>.
\<close>

datatype Request =
    FS_READBLOCK (username: string) (path: Path) (block: nat)
  | FS_WRITEBLOCK (username: string) (path: Path) (block: nat) (data: "char list option")
  | FS_CREATE (username: string) (path: Path) (ftype: char)
  | FS_DELETE (username: string) (path: Path)

text \<open>\<^verbatim>\<open>std::to_string\<close> on an unsigned value.\<close>

definition digit_char :: "nat \<Rightarrow> char" where
  "digit_char k = char_of (48 + k)"

fun to_string :: "nat \<Rightarrow> string" where
  "to_string n = (if n < 10 then [digit_char n] else to_string (n div 10) @ [digit_char (n mod 10)])"

declare to_string.simps [simp del]

fun path_to_string :: "Path \<Rightarrow> string" where
  "path_to_string [] = ''''"
| "path_to_string (node # rest) = ''/'' @ node @ path_to_string rest"

fun request_string :: "Request \<Rightarrow> string" where
  "request_string (FS_READBLOCK u p b) =
     ''FS_READBLOCK '' @ u @ '' '' @ path_to_string p @ '' '' @ to_string b"
| "request_string (FS_WRITEBLOCK u p b d) =
     ''FS_WRITEBLOCK '' @ u @ '' '' @ path_to_string p @ '' '' @ to_string b"
| "request_string (FS_CREATE u p t) =
     ''FS_CREATE '' @ u @ '' '' @ path_to_string p @ '' '' @ [t]"
| "request_string (FS_DELETE u p) = ''FS_DELETE '' @ u @ '' '' @ path_to_string p"

section \<open>Decimal digits\<close>

definition is_digit :: "char \<Rightarrow> bool" where
  "is_digit c \<longleftrightarrow> 48 \<le> (of_char c :: nat) \<and> (of_char c :: nat) \<le> 57"

definition digit_val :: "char \<Rightarrow> nat" where
  "digit_val c = of_char c - 48"

definition nat_of_digits :: "string \<Rightarrow> nat" where
  "nat_of_digits ds = foldl (\<lambda>n c. 10 * n + digit_val c) 0 ds"

lemma of_char_digit_char: "k < 10 \<Longrightarrow> of_char (digit_char k) = 48 + k"
  by (simp add: digit_char_def)

lemma is_digit_digit_char: "k < 10 \<Longrightarrow> is_digit (digit_char k)"
  by (simp add: is_digit_def of_char_digit_char)

lemma digit_val_digit_char: "k < 10 \<Longrightarrow> digit_val (digit_char k) = k"
  by (simp add: digit_val_def of_char_digit_char)

lemma to_string_digits: "c \<in> set (to_string n) \<Longrightarrow> is_digit c"
proof (induction n rule: to_string.induct)
  case (1 n)
  then show ?case
    by (cases "n < 10") (auto simp: to_string.simps [of n] intro: is_digit_digit_char)
qed

lemma to_string_nonempty: "to_string n \<noteq> []"
  by (subst to_string.simps) simp

lemma nat_of_digits_to_string: "nat_of_digits (to_string n) = n"
proof (induction n rule: to_string.induct)
  case (1 n)
  show ?case
  proof (cases "n < 10")
    case True
    then show ?thesis
      by (simp add: to_string.simps [of n] nat_of_digits_def digit_val_digit_char)
  next
    case False
    with "1.IH" have "nat_of_digits (to_string (n div 10)) = n div 10" by simp
    with False show ?thesis
      by (simp add: to_string.simps [of n] nat_of_digits_def digit_val_digit_char)
  qed
qed

text \<open>The decimal form is canonical: a leading zero only in \<open>''0''\<close> itself.\<close>

lemma to_string_canonical: "hd (to_string n) = CHR ''0'' \<Longrightarrow> n = 0"
proof (induction n rule: to_string.induct)
  case (1 n)
  show ?case
  proof (cases "n < 10")
    case True
    with "1.prems" have "of_char (digit_char n) = (48 :: nat)"
      by (simp add: to_string.simps [of n])
    with True show ?thesis by (simp add: of_char_digit_char)
  next
    case False
    with "1.prems" have "hd (to_string (n div 10)) = CHR ''0''"
      by (simp add: to_string.simps [of n] to_string_nonempty)
    with "1.IH" False have "n div 10 = 0" by simp
    with False show ?thesis by simp
  qed
qed

lemma to_string_zero: "to_string 0 = ''0''"
  by (simp add: to_string.simps [of 0] digit_char_def) code_simp

lemma path_to_string_append: "path_to_string (p @ q) = path_to_string p @ path_to_string q"
  by (induction p) auto

end
