(* ===== verification/Parsing.thy ===== *)
theory Parsing
  imports Requests
begin

text \<open>
  The request parser, \<^verbatim>\<open>src/parsing.cpp\<close>: \<open>split\<close> (the \<^verbatim>\<open>getline\<close> loop), the part of
  \<^verbatim>\<open>std::stoul\<close> it uses, and \<open>parse_request\<close> with every rejection and every exception
  that can leave it. The results: what an accepted request satisfies, exactly when an
  exception escapes, and that parsing inverts printing on well-formed requests.
\<close>

section \<open>Tokenizer\<close>

text \<open>
  One \<^verbatim>\<open>getline\<close> per token: characters up to the delimiter, which is consumed; the loop
  ends when the stream is exhausted, so a trailing delimiter yields no empty token.
\<close>

function getline_loop :: "string \<Rightarrow> char \<Rightarrow> string list" where
  "getline_loop s d =
     (if s = [] then []
      else takeWhile (\<lambda>c. c \<noteq> d) s # getline_loop (tl (dropWhile (\<lambda>c. c \<noteq> d) s)) d)"
  by pat_completeness auto
termination
  by (relation "measure (\<lambda>(s, d). length s)") (auto simp del: length_tl intro: length_tl_dropWhile)

declare getline_loop.simps [simp del]

definition split :: "char list \<Rightarrow> char \<Rightarrow> string list" where
  "split msg delimeter = getline_loop (c_str msg) delimeter"

section \<open>Unsigned conversion\<close>

definition is_space :: "char \<Rightarrow> bool" where
  "is_space c \<longleftrightarrow> c = CHR '' '' \<or> (9 \<le> (of_char c :: nat) \<and> (of_char c :: nat) \<le> 13)"

definition strtoul_sign :: "string \<Rightarrow> bool \<times> string" where
  "strtoul_sign s =
     (case s of
        [] \<Rightarrow> (False, [])
      | c # r \<Rightarrow> if c = CHR ''-'' then (True, r) else if c = CHR ''+'' then (False, r) else (False, s))"

text \<open>
  \<^verbatim>\<open>std::stoul\<close> on a 64-bit target: leading white space, an optional sign, decimal
  digits, anything after them ignored; a minus sign negates modulo \<open>2 ^ 64\<close>.
\<close>

definition stoul :: "string \<Rightarrow> cpp_exn + nat" where
  "stoul s =
     (let (neg, t) = strtoul_sign (dropWhile is_space s);
          ds = takeWhile is_digit t; n = nat_of_digits ds
      in if ds = [] then Inl Invalid_argument
         else if 2 ^ 64 \<le> n then Inl Out_of_range
         else Inr (if neg then (2 ^ 64 - n) mod 2 ^ 64 else n))"

section \<open>The parser\<close>

text \<open>
  The block operand of \<^verbatim>\<open>FS_READBLOCK\<close> and \<^verbatim>\<open>FS_WRITEBLOCK\<close> (the two \<^verbatim>\<open>try\<close> blocks are the
  same code): \<^verbatim>\<open>at(0)\<close> throws on an empty token, \<^verbatim>\<open>stoul\<close> throws on overflow, and only
  \<^verbatim>\<open>invalid_argument\<close> is caught.
\<close>

definition parse_block_token :: "string \<Rightarrow> cpp_exn + nat option" where
  "parse_block_token tok =
     (case tok of
        [] \<Rightarrow> Inl Out_of_range
      | c # _ \<Rightarrow>
          if c = CHR ''0'' \<and> length tok \<noteq> 1 then Inr None
          else case stoul tok of
                 Inl Invalid_argument \<Rightarrow> Inr None
               | Inl Out_of_range \<Rightarrow> Inl Out_of_range
               | Inr n \<Rightarrow>
                   (let blk = n mod 2 ^ 32
                    in if FS_MAXFILEBLOCKS < blk then Inr None else Inr (Some blk)))"

text \<open>The path validation: \<^verbatim>\<open>at(0)\<close> throws on an empty token.\<close>

definition parse_path_token :: "string \<Rightarrow> cpp_exn + Path option" where
  "parse_path_token ptok =
     (if ptok = [] then Inl Out_of_range
      else if ptok ! 0 \<noteq> CHR ''/'' \<or> (last ptok = CHR ''/'' \<and> length ptok \<noteq> 1) then Inr None
      else if FS_MAXPATHNAME < length ptok then Inr None
      else let pth = split (drop 1 ptok) (CHR ''/'')
           in if \<exists>node \<in> set pth. FS_MAXFILENAME < length node then Inr None else Inr (Some pth))"

text \<open>The dispatch on the command and the number of tokens.\<close>

definition parse_command :: "string list \<Rightarrow> string \<Rightarrow> Path \<Rightarrow> cpp_exn + Request option" where
  "parse_command tokens user pth =
     (let cmd = tokens ! 0 in
      if cmd = ''FS_READBLOCK'' \<and> length tokens = 4 then
        map_sum id (map_option (\<lambda>blk. FS_READBLOCK user pth blk)) (parse_block_token (tokens ! 3))
      else if cmd = ''FS_WRITEBLOCK'' \<and> length tokens = 4 then
        map_sum id (map_option (\<lambda>blk. FS_WRITEBLOCK user pth blk None)) (parse_block_token (tokens ! 3))
      else if cmd = ''FS_CREATE'' \<and> length tokens = 4 then
        (if tokens ! 3 \<noteq> ''f'' \<and> tokens ! 3 \<noteq> ''d'' then Inr None
         else Inr (Some (FS_CREATE user pth (hd (tokens ! 3)))))
      else if cmd = ''FS_DELETE'' \<and> length tokens = 3 then
        Inr (Some (FS_DELETE user pth))
      else Inr None)"

definition parse_request :: "char list \<Rightarrow> cpp_exn + Request option" where
  "parse_request msg =
     (let tokens = split msg (CHR '' '') in
      if length tokens < 3 then Inr None
      else let user = tokens ! 1 in
      if FS_MAXUSERNAME < length user then Inr None
      else case parse_path_token (tokens ! 2) of
             Inl e \<Rightarrow> Inl e
           | Inr None \<Rightarrow> Inr None
           | Inr (Some pth) \<Rightarrow> parse_command tokens user pth)"

section \<open>What a request looks like\<close>

text \<open>
  The well-formed requests: what a client may send and, up to the empty path, what the
  parser accepts.
\<close>

definition wf_name :: "string \<Rightarrow> bool" where
  "wf_name n \<longleftrightarrow> length n \<le> FS_MAXFILENAME \<and> CHR ''/'' \<notin> set n \<and> CHR '' '' \<notin> set n \<and> NUL \<notin> set n"

definition wf_user :: "string \<Rightarrow> bool" where
  "wf_user u \<longleftrightarrow> length u \<le> FS_MAXUSERNAME \<and> CHR '' '' \<notin> set u \<and> NUL \<notin> set u"

definition wf_path :: "Path \<Rightarrow> bool" where
  "wf_path p \<longleftrightarrow> (\<forall>n \<in> set p. wf_name n) \<and> (p \<noteq> [] \<longrightarrow> last p \<noteq> [])
     \<and> length (path_to_string p) \<le> FS_MAXPATHNAME"

definition wf_operand :: "Request \<Rightarrow> bool" where
  "wf_operand r =
     (case r of
        FS_READBLOCK _ _ b \<Rightarrow> b \<le> FS_MAXFILEBLOCKS
      | FS_WRITEBLOCK _ _ b d \<Rightarrow> b \<le> FS_MAXFILEBLOCKS \<and> d = None
      | FS_CREATE _ _ t \<Rightarrow> t \<in> {CHR ''f'', CHR ''d''}
      | FS_DELETE _ _ \<Rightarrow> True)"

definition wf_request :: "Request \<Rightarrow> bool" where
  "wf_request r \<longleftrightarrow> wf_user (username r) \<and> wf_path (path r) \<and> wf_operand r"

section \<open>Tokenizer lemmas\<close>

lemma getline_loop_Nil [simp]: "getline_loop [] d = []"
  by (simp add: getline_loop.simps)

lemma getline_loop_delim:
  assumes "d \<notin> set w"
  shows "getline_loop (w @ d # r) d = w # getline_loop r d"
proof -
  have "\<forall>c \<in> set w. c \<noteq> d" using assms by auto
  then show ?thesis
    by (subst getline_loop.simps) (simp add: takeWhile_append_delim dropWhile_append_delim)
qed

lemma getline_loop_last:
  assumes "d \<notin> set w" "w \<noteq> []"
  shows "getline_loop w d = [w]"
  using assms by (subst getline_loop.simps) (simp add: takeWhile_no_delim dropWhile_no_delim)

lemma getline_loop_tokens: "w \<in> set (getline_loop s d) \<Longrightarrow> d \<notin> set w \<and> set w \<subseteq> set s"
proof (induction s d arbitrary: w rule: getline_loop.induct)
  case (1 s d)
  have "set (tl (dropWhile (\<lambda>c. c \<noteq> d) s)) \<subseteq> set s" by (rule set_tl_dropWhile)
  moreover have "d \<notin> set (takeWhile (\<lambda>c. c \<noteq> d) s)" "set (takeWhile (\<lambda>c. c \<noteq> d) s) \<subseteq> set s"
    by (auto dest: set_takeWhileD)
  ultimately show ?case
    using 1 by (cases "s = []") (force simp: getline_loop.simps [of s d])+
qed

text \<open>Printing a path and splitting it again: the loop over the components.\<close>

lemma getline_loop_path:
  assumes "\<forall>n \<in> set (m # ms). CHR ''/'' \<notin> set n" "last (m # ms) \<noteq> []"
  shows "getline_loop (m @ path_to_string ms) (CHR ''/'') = m # ms"
  using assms
proof (induction ms arbitrary: m)
  case Nil
  then show ?case by (simp add: getline_loop_last)
next
  case (Cons n ns)
  then have "getline_loop (n @ path_to_string ns) (CHR ''/'') = n # ns" by auto
  then show ?case using Cons.prems by (simp add: getline_loop_delim)
qed

text \<open>Conversely, splitting loses only a trailing delimiter.\<close>

lemma getline_loop_join:
  "s \<noteq> [] \<Longrightarrow> last s \<noteq> d \<Longrightarrow>
   (case getline_loop s d of [] \<Rightarrow> [] | w # ws \<Rightarrow> w @ concat (map (\<lambda>x. d # x) ws)) = s
     \<and> last (getline_loop s d) \<noteq> [] \<and> getline_loop s d \<noteq> []"
proof (induction s d rule: getline_loop.induct)
  case (1 s d)
  show ?case
  proof (cases "d \<in> set s")
    case False
    with 1(2) show ?thesis by (simp add: getline_loop_last)
  next
    case True
    then obtain w r where s: "s = w @ d # r" and w: "d \<notin> set w"
      by (meson split_list_first)
    then have tl: "tl (dropWhile (\<lambda>c. c \<noteq> d) s) = r"
      using dropWhile_append_delim [of w d r] by (metis list.sel(3))
    from s 1(3) have "r \<noteq> []" "last r \<noteq> d" by (auto split: if_splits)
    with 1(1) [OF 1(2)] tl have "(case getline_loop r d of [] \<Rightarrow> [] | w # ws \<Rightarrow> w @ concat (map (\<lambda>x. d # x) ws)) = r
        \<and> last (getline_loop r d) \<noteq> [] \<and> getline_loop r d \<noteq> []" by simp
    with s w show ?thesis by (cases "getline_loop r d") (auto simp: getline_loop_delim)
  qed
qed

lemma path_to_string_concat: "path_to_string p = concat (map (\<lambda>x. CHR ''/'' # x) p)"
  by (induction p) auto

lemma split_c_str: "NUL \<notin> set s \<Longrightarrow> split s d = getline_loop s d"
  by (simp add: split_def c_str_id)

lemma split_token:
  assumes "w \<in> set (split msg d)"
  shows "d \<notin> set w" and "NUL \<notin> set w" and "set w \<subseteq> set (c_str msg)"
  using getline_loop_tokens [OF assms [unfolded split_def]] c_str_no_NUL [of msg] by auto

lemma split_print:
  assumes "NUL \<notin> set cmd \<union> set u \<union> set pt" "d \<notin> set cmd \<union> set u \<union> set pt" "d \<noteq> NUL"
  shows "pt \<noteq> [] \<Longrightarrow> split (cmd @ d # u @ d # pt) d = [cmd, u, pt]"
    and "NUL \<notin> set opd \<Longrightarrow> d \<notin> set opd \<Longrightarrow> opd \<noteq> [] \<Longrightarrow>
      split (cmd @ d # u @ d # pt @ d # opd) d = [cmd, u, pt, opd]"
  using assms by (auto simp: split_c_str getline_loop_delim getline_loop_last)

lemma split_path_print:
  assumes "wf_path p" "p \<noteq> []"
  shows "split (drop 1 (path_to_string p)) (CHR ''/'') = p"
proof -
  obtain m ms where p: "p = m # ms" using assms(2) by (cases p) auto
  have "NUL \<notin> set (m @ path_to_string ms)"
    using assms(1) by (auto simp: p wf_path_def wf_name_def path_to_string_concat)
  moreover have "getline_loop (m @ path_to_string ms) (CHR ''/'') = m # ms"
    using assms(1) by (intro getline_loop_path) (auto simp: p wf_path_def wf_name_def)
  ultimately show ?thesis by (simp add: p split_c_str)
qed

lemma path_print_token:
  assumes "wf_path p" "p \<noteq> []"
  shows "path_to_string p ! 0 = CHR ''/''" "path_to_string p \<noteq> []"
    "last (path_to_string p) \<noteq> CHR ''/''" "length (path_to_string p) \<le> FS_MAXPATHNAME"
    "CHR '' '' \<notin> set (path_to_string p)" "NUL \<notin> set (path_to_string p)"
    "\<forall>n \<in> set p. length n \<le> FS_MAXFILENAME"
proof -
  obtain q n where p: "p = q @ [n]" using assms(2) by (cases p rule: rev_cases) auto
  have "n \<noteq> []" "CHR ''/'' \<notin> set n" using assms(1) by (auto simp: p wf_path_def wf_name_def)
  then have "last n \<noteq> CHR ''/''" by (metis last_in_set)
  with \<open>n \<noteq> []\<close> show "last (path_to_string p) \<noteq> CHR ''/''"
    by (simp add: p path_to_string_append)
  show "path_to_string p ! 0 = CHR ''/''" "path_to_string p \<noteq> []"
    using assms(2) by (cases p; simp)+
qed (use assms in \<open>auto simp: wf_path_def wf_name_def path_to_string_concat\<close>)

section \<open>Numbers\<close>

lemma is_digit_not_sign: "is_digit c \<Longrightarrow> \<not> is_space c \<and> c \<noteq> CHR ''-'' \<and> c \<noteq> CHR ''+''"
  by (auto simp: is_digit_def is_space_def)

lemma stoul_to_string: "n < 2 ^ 64 \<Longrightarrow> stoul (to_string n) = Inr n"
proof -
  assume n: "n < 2 ^ 64"
  have dig: "\<forall>c \<in> set (to_string n). is_digit c" by (simp add: to_string_digits)
  obtain c r where cr: "to_string n = c # r" using to_string_nonempty by (cases "to_string n") auto
  with dig have "is_digit c" by simp
  then have "dropWhile is_space (to_string n) = to_string n"
    and "strtoul_sign (to_string n) = (False, to_string n)"
    by (auto simp: cr strtoul_sign_def dest: is_digit_not_sign)
  moreover have tw: "takeWhile is_digit (to_string n) = to_string n" using dig by simp
  ultimately show ?thesis
    using n to_string_nonempty [of n] by (simp add: stoul_def Let_def nat_of_digits_to_string tw)
qed

lemma parse_block_token_to_string:
  assumes "b \<le> FS_MAXFILEBLOCKS"
  shows "parse_block_token (to_string b) = Inr (Some b)"
proof -
  obtain c r where cr: "to_string b = c # r" using to_string_nonempty by (cases "to_string b") auto
  have "length (to_string b) = 1" if "c = CHR ''0''"
    using to_string_canonical [of b] that by (simp add: cr) (metis cr length_Cons list.size(3) to_string_zero One_nat_def length_0_conv list.inject)
  moreover have "stoul (c # r) = Inr b"
    using assms stoul_to_string [of b] by (simp add: cr fs_param_defs)
  ultimately show ?thesis using assms by (auto simp: cr parse_block_token_def fs_param_defs)
qed

lemma parse_block_token_bound:
  "parse_block_token t = Inr (Some b) \<Longrightarrow> b \<le> FS_MAXFILEBLOCKS"
  by (auto simp: parse_block_token_def Let_def split: list.splits if_splits sum.splits cpp_exn.splits)

lemma parse_block_token_exn:
  "parse_block_token t = Inl e \<longleftrightarrow>
     e = Out_of_range \<and> (t = [] \<or> (\<not> (hd t = CHR ''0'' \<and> length t \<noteq> 1) \<and> stoul t = Inl Out_of_range))"
  by (auto simp: parse_block_token_def Let_def split: list.splits if_splits sum.splits cpp_exn.splits)

section \<open>Accepted requests\<close>

lemma split_ptok:
  assumes "ptok ! 0 = CHR ''/''" "ptok \<noteq> []" "last ptok \<noteq> CHR ''/''" "NUL \<notin> set ptok"
  shows "path_to_string (split (drop 1 ptok) (CHR ''/'')) = ptok"
    and "last (split (drop 1 ptok) (CHR ''/'')) \<noteq> []"
proof -
  obtain r where ptok: "ptok = CHR ''/'' # r" using assms(1,2) by (cases ptok) auto
  with assms(3,4) have r: "r \<noteq> []" "last r \<noteq> CHR ''/''" "NUL \<notin> set r" by (auto split: if_splits)
  from getline_loop_join [OF r(1,2)]
  show "path_to_string (split (drop 1 ptok) (CHR ''/'')) = ptok"
    and "last (split (drop 1 ptok) (CHR ''/'')) \<noteq> []"
    using r(3) by (auto simp: ptok split_c_str path_to_string_concat split: list.splits)
qed

text \<open>What the checks on the path token establish for the path.\<close>

lemma split_ptok_wf:
  assumes "ptok \<in> set (split msg (CHR '' ''))" "ptok \<noteq> []" "ptok ! 0 = CHR ''/''"
    "\<not> (last ptok = CHR ''/'' \<and> length ptok \<noteq> 1)" "length ptok \<le> FS_MAXPATHNAME"
    "\<forall>n \<in> set (split (drop 1 ptok) (CHR ''/'')). length n \<le> FS_MAXFILENAME"
  shows "wf_path (split (drop 1 ptok) (CHR ''/''))"
proof -
  let ?p = "split (drop 1 ptok) (CHR ''/'')"
  have tok: "CHR '' '' \<notin> set ptok" "NUL \<notin> set ptok" using split_token [OF assms(1)] by auto
  have "set (c_str (drop 1 ptok)) \<subseteq> set ptok"
    by (auto simp: c_str_def dest: set_takeWhileD in_set_dropD)
  with tok split_token [of _ "drop 1 ptok" "CHR ''/''"] assms(6)
  have names: "\<forall>n \<in> set ?p. wf_name n" by (fastforce simp: wf_name_def)
  show ?thesis
  proof (cases "last ptok = CHR ''/''")
    case True
    with assms(4) have "drop 1 ptok = []" by simp
    then show ?thesis by (simp add: wf_path_def split_def c_str_def)
  next
    case False
    with names split_ptok [OF assms(3,2) False tok(2)] assms(5) show ?thesis
      by (simp add: wf_path_def)
  qed
qed

lemma parse_path_token_accepts:
  assumes "parse_path_token ptok = Inr (Some p)" "ptok \<in> set (split msg (CHR '' ''))"
  shows "wf_path p"
  using assms split_ptok_wf [OF assms(2)]
  by (auto simp: parse_path_token_def Let_def not_less split: if_splits)

lemma parse_command_accepts:
  assumes "parse_command toks u p = Inr (Some r)"
  shows "username r = u" "path r = p" "wf_operand r"
  using assms
  by (auto simp: parse_command_def Let_def wf_operand_def map_sum_def
      split: if_splits sum.splits option.splits dest: parse_block_token_bound)

lemma parse_command_exn:
  "parse_command toks u p = Inl e \<longleftrightarrow>
     length toks = 4 \<and> toks ! 0 \<in> {''FS_READBLOCK'', ''FS_WRITEBLOCK''}
     \<and> parse_block_token (toks ! 3) = Inl e"
  by (cases "parse_block_token (toks ! 3)") (auto simp: parse_command_def Let_def)

text \<open>A printed path token is accepted and gives the path back.\<close>

lemma parse_path_token_print:
  assumes "wf_path p" "p \<noteq> []"
  shows "parse_path_token (path_to_string p) = Inr (Some p)"
proof -
  note pt = path_print_token [OF assms] and sp = split_path_print [OF assms]
  have "\<not> (\<exists>node \<in> set p. FS_MAXFILENAME < length node)" using pt(7) by auto
  with pt(1-4) sp show ?thesis by (simp add: parse_path_token_def Let_def)
qed

lemma parse_print:
  assumes "wf_user u" "wf_path p" "p \<noteq> []" "CHR '' '' \<notin> set cmd" "NUL \<notin> set cmd"
  shows "CHR '' '' \<notin> set opd \<Longrightarrow> NUL \<notin> set opd \<Longrightarrow> opd \<noteq> [] \<Longrightarrow>
      parse_request (cmd @ CHR '' '' # u @ CHR '' '' # path_to_string p @ CHR '' '' # opd)
        = parse_command [cmd, u, path_to_string p, opd] u p"
    and "parse_request (cmd @ CHR '' '' # u @ CHR '' '' # path_to_string p)
        = parse_command [cmd, u, path_to_string p] u p"
  using assms path_print_token [OF assms(2,3)] split_print(1) [of cmd u "path_to_string p" "CHR '' ''"]
    split_print(2) [of cmd u "path_to_string p" "CHR '' ''" opd]
  by (simp_all add: parse_request_def wf_user_def parse_path_token_print not_less)

lemma to_string_clean: "CHR '' '' \<notin> set (to_string b)" "NUL \<notin> set (to_string b)"
  by (auto dest!: to_string_digits simp: is_digit_def)

text \<open>The parser reads back what the printer writes.\<close>

lemma parse_print_request:
  assumes "wf_request r" "path r \<noteq> []"
  shows "parse_request (request_string r) = Inr (Some r)"
proof -
  have u: "wf_user (username r)" and p: "wf_path (path r)" and op: "wf_operand r"
    using assms(1) by (simp_all add: wf_request_def)
  note print = parse_print [OF u p assms(2)]
  show ?thesis
    using op print(1) [of "''FS_READBLOCK''" "to_string (block r)"]
      print(1) [of "''FS_WRITEBLOCK''" "to_string (block r)"]
      print(1) [of "''FS_CREATE''" "[ftype r]"] print(2) [of "''FS_DELETE''"]
    by (cases r) (auto simp: wf_operand_def parse_command_def parse_block_token_to_string
        to_string_clean to_string_nonempty)
qed

lemma parse_request_accepts:
  assumes "parse_request msg = Inr (Some r)"
  shows "wf_request r"
proof -
  let ?t = "split msg (CHR '' '')"
  obtain p where t: "3 \<le> length ?t" "length (?t ! 1) \<le> FS_MAXUSERNAME"
    and p: "parse_path_token (?t ! 2) = Inr (Some p)" and r: "parse_command ?t (?t ! 1) p = Inr (Some r)"
    using assms by (auto simp: parse_request_def Let_def split: if_splits sum.splits option.splits)
  have "wf_path p" using p t(1) by (auto intro!: parse_path_token_accepts [of _ _ msg])
  moreover have "wf_user (?t ! 1)"
    using t split_token [of "?t ! 1" msg "CHR '' ''"] by (simp add: wf_user_def)
  ultimately show ?thesis using parse_command_accepts [OF r] by (simp add: wf_request_def)
qed

section \<open>Properties\<close>

text \<open>
  C37. Printing a well-formed request and parsing the text gives the request back: the
  parser accepts every request a client may send on a non-root path, and the response
  header the server prints is one its own parser reads as the same request.
\<close>

theorem parse_request_string:
  assumes "wf_request r" "path r \<noteq> []"
  shows "parse_request (request_string r) = Inr (Some r)"
  by (rule parse_print_request [OF assms])

theorem parse_request_string_witness:
  "parse_request (request_string (FS_READBLOCK ''alice'' [''dir'', ''file''] 12))
     = Inr (Some (FS_READBLOCK ''alice'' [''dir'', ''file''] 12))"
  by (rule parse_request_string)
    (simp_all add: wf_request_def wf_user_def wf_path_def wf_name_def wf_operand_def fs_param_defs)

text \<open>
  C38. Every accepted request respects the server's limits: a user name of at most ten
  characters, path components of at most 59 characters without separator, blank or null
  byte, a non-empty last component, a path text of at most 128 characters, a block number
  of at most 124, a type that is f or d, and no data pointer yet.
\<close>

theorem parse_request_wf:
  assumes "parse_request msg = Inr (Some r)"
  shows "wf_request r"
  by (rule parse_request_accepts [OF assms])

theorem parse_request_wf_witness:
  "wf_request (FS_CREATE ''bob'' [''x''] (CHR ''f''))"
proof (rule parse_request_wf)
  show "parse_request ''FS_CREATE bob /x f'' = Inr (Some (FS_CREATE ''bob'' [''x''] (CHR ''f'')))"
    by (simp add: parse_request_def parse_path_token_def parse_command_def split_def c_str_def
        getline_loop.simps fs_param_defs)
qed

text \<open>
  C39. Exactly when an exception escapes the parser (nothing in \<^verbatim>\<open>handle_connection\<close>
  catches it): it is always \<^verbatim>\<open>std::out_of_range\<close>, and it is thrown when a message with a
  short enough user name has an empty third token, or is a read or write whose path is
  acceptable and whose block token is empty or a number of \<open>2 ^ 64\<close> or more.
\<close>

theorem parse_request_throws:
  "parse_request msg = Inl e \<longleftrightarrow>
     (let toks = split msg (CHR '' ''); ptok = toks ! 2 in
      e = Out_of_range \<and> 3 \<le> length toks \<and> length (toks ! 1) \<le> FS_MAXUSERNAME
      \<and> (ptok = []
         \<or> (ptok ! 0 = CHR ''/'' \<and> \<not> (last ptok = CHR ''/'' \<and> length ptok \<noteq> 1)
            \<and> length ptok \<le> FS_MAXPATHNAME
            \<and> list_all (\<lambda>n. length n \<le> FS_MAXFILENAME) (split (drop 1 ptok) (CHR ''/''))
            \<and> length toks = 4 \<and> toks ! 0 \<in> {''FS_READBLOCK'', ''FS_WRITEBLOCK''}
            \<and> (toks ! 3 = []
               \<or> \<not> (hd (toks ! 3) = CHR ''0'' \<and> length (toks ! 3) \<noteq> 1)
                 \<and> stoul (toks ! 3) = Inl Out_of_range))))"
proof -
  have pe: "parse_path_token t = Inl e \<longleftrightarrow> t = [] \<and> e = Out_of_range" for t
    by (auto simp: parse_path_token_def Let_def)
  have pp: "(\<exists>p. parse_path_token t = Inr (Some p)) \<longleftrightarrow>
      t \<noteq> [] \<and> t ! 0 = CHR ''/'' \<and> \<not> (last t = CHR ''/'' \<and> length t \<noteq> 1) \<and> length t \<le> FS_MAXPATHNAME
      \<and> list_all (\<lambda>n. length n \<le> FS_MAXFILENAME) (split (drop 1 t) (CHR ''/''))" for t
    by (auto simp: parse_path_token_def Let_def list_all_iff linorder_not_le [symmetric])
  have rq: "parse_request msg = Inl e \<longleftrightarrow>
      (let toks = split msg (CHR '' '') in 3 \<le> length toks \<and> length (toks ! 1) \<le> FS_MAXUSERNAME
        \<and> (parse_path_token (toks ! 2) = Inl e
           \<or> (\<exists>p. parse_path_token (toks ! 2) = Inr (Some p)) \<and> length toks = 4
             \<and> toks ! 0 \<in> {''FS_READBLOCK'', ''FS_WRITEBLOCK''} \<and> parse_block_token (toks ! 3) = Inl e))"
    by (auto simp: parse_request_def Let_def parse_command_exn split: if_splits sum.splits option.splits)
  show ?thesis unfolding rq pe pp Let_def parse_block_token_exn by blast
qed

end
