(* ===== verification/Disk.thy ===== *)
theory Disk
  imports Requests
begin

text \<open>
  The on-disk data structures of \<^verbatim>\<open>src/fs_server.h\<close>, byte for byte: a block of 512 bytes
  is read as an inode, as eight directory entries or as data, depending on the pointer
  that \<^verbatim>\<open>disk_readblock\<close> is given. The disk itself is infrastructure outside the
  repository, so it is a parameter: a record of its two operations, with the documented
  behaviour as the predicate \<open>disk_laws\<close>.
\<close>

definition FS_DISKSIZE :: nat where "FS_DISKSIZE = 4096"
definition FS_DIRENTRIES :: nat where "FS_DIRENTRIES = 8"

section \<open>Structures\<close>

record fs_direntry =
  dname :: "char list"
  inode_block :: nat

record fs_inode =
  itype :: char
  owner :: "char list"
  isize :: nat
  blocks :: "nat list"

text \<open>Little-endian 32-bit unsigned integers.\<close>

definition le32 :: "nat \<Rightarrow> char list" where
  "le32 n = [char_of n, char_of (n div 256), char_of (n div 256 div 256), char_of (n div 256 div 256 div 256)]"

definition of_le32 :: "char list \<Rightarrow> nat" where
  "of_le32 bs =
     of_char (bs ! 0) + 256 * (of_char (bs ! 1) + 256 * (of_char (bs ! 2) + 256 * of_char (bs ! 3)))"

text \<open>\<open>chunks n w bs\<close>: the first \<open>n\<close> consecutive pieces of \<open>w\<close> bytes.\<close>

fun chunks :: "nat \<Rightarrow> nat \<Rightarrow> 'a list \<Rightarrow> 'a list list" where
  "chunks 0 w bs = []"
| "chunks (Suc n) w bs = take w bs # chunks n w (drop w bs)"

definition enc_direntry :: "fs_direntry \<Rightarrow> char list" where
  "enc_direntry e = dname e @ le32 (inode_block e)"

definition dec_direntry :: "char list \<Rightarrow> fs_direntry" where
  "dec_direntry bs = \<lparr>dname = take 60 bs, inode_block = of_le32 (drop 60 bs)\<rparr>"

definition enc_direntries :: "fs_direntry list \<Rightarrow> char list" where
  "enc_direntries es = concat (map enc_direntry es)"

definition dec_direntries :: "char list \<Rightarrow> fs_direntry list" where
  "dec_direntries bs = map dec_direntry (chunks FS_DIRENTRIES 64 bs)"

definition enc_inode :: "fs_inode \<Rightarrow> char list" where
  "enc_inode i = itype i # owner i @ le32 (isize i) @ concat (map le32 (blocks i))"

definition dec_inode :: "char list \<Rightarrow> fs_inode" where
  "dec_inode bs =
     \<lparr>itype = bs ! 0, owner = take 11 (drop 1 bs), isize = of_le32 (take 4 (drop 12 bs)),
      blocks = map of_le32 (chunks FS_MAXFILEBLOCKS 4 (drop 16 bs))\<rparr>"

text \<open>Values that fit the C structures.\<close>

definition wf_direntry :: "fs_direntry \<Rightarrow> bool" where
  "wf_direntry e \<longleftrightarrow> length (dname e) = FS_MAXFILENAME + 1 \<and> inode_block e < 2 ^ 32"

definition wf_inode :: "fs_inode \<Rightarrow> bool" where
  "wf_inode i \<longleftrightarrow> length (owner i) = FS_MAXUSERNAME + 1 \<and> isize i < 2 ^ 32
     \<and> length (blocks i) = FS_MAXFILEBLOCKS \<and> (\<forall>b \<in> set (blocks i). b < 2 ^ 32)"

section \<open>The disk\<close>

text \<open>
  \<^verbatim>\<open>disk_readblock\<close> and \<^verbatim>\<open>disk_writeblock\<close>; \<open>None\<close> is the assertion failure the interface
  documents.
\<close>

record 'd disk_ops =
  disk_readblock :: "'d \<Rightarrow> nat \<Rightarrow> char list option"
  disk_writeblock :: "'d \<Rightarrow> nat \<Rightarrow> char list \<Rightarrow> 'd option"

text \<open>
  The documented contract: blocks are numbered from 0 to \<open>FS_DISKSIZE - 1\<close>, a read copies
  the block out, a write replaces that block and no other.
\<close>

definition disk_laws :: "'d disk_ops \<Rightarrow> bool" where
  "disk_laws io \<longleftrightarrow>
     (\<forall>d b. b < FS_DISKSIZE \<longrightarrow>
        (\<exists>bs. disk_readblock io d b = Some bs \<and> length bs = FS_BLOCKSIZE))
   \<and> (\<forall>d b bs. b < FS_DISKSIZE \<and> length bs = FS_BLOCKSIZE \<longrightarrow>
        (\<exists>d'. disk_writeblock io d b bs = Some d'
           \<and> (\<forall>b'. disk_readblock io d' b' = (if b' = b then Some bs else disk_readblock io d b'))))"

section \<open>Round trips\<close>

lemma length_le32 [simp]: "length (le32 n) = 4"
  by (simp add: le32_def)

lemma of_char_less_256 [simp]: "(of_char c :: nat) < 256"
  using mod_less_divisor [of 256 "of_char c :: nat"] by simp

lemma of_le32_less [simp]: "of_le32 bs < 2 ^ 32"
proof -
  have "of_char (bs ! k) \<le> (255 :: nat)" for k
    using of_char_less_256 [of "bs ! k"] by linarith
  from this [of 0] this [of 1] this [of 2] this [of 3] show ?thesis
    by (simp add: of_le32_def)
qed

lemma of_le32_le32 [bytes_simps]: "n < 2 ^ 32 \<Longrightarrow> of_le32 (le32 n) = n"
proof -
  assume "n < 2 ^ 32"
  then have "n div 256 div 256 div 256 mod 256 = n div 256 div 256 div 256"
    by (simp flip: div_mult2_eq)
  then show ?thesis by (simp add: of_le32_def le32_def)
qed

lemma le32_of_le32 [bytes_simps]: "length bs = 4 \<Longrightarrow> le32 (of_le32 bs) = bs"
proof -
  assume "length bs = 4"
  then have "length bs = Suc (Suc (Suc (Suc 0)))" by simp
  then obtain a b c d where bs: "bs = [a, b, c, d]" by (auto simp: length_Suc_conv)
  have "char_of (of_char x + 256 * n) = x" "(of_char x + 256 * n) div 256 = n" for x :: char and n :: nat
    by (auto intro: of_char_eqI [where ?'a = nat])
  note peel = this this(1) [of _ 0, simplified]
  show ?thesis
    by (simp add: bs le32_def of_le32_def peel del: distrib_left_numeral)
qed

lemma chunks_concat [bytes_simps]:
  "\<forall>x \<in> set xs. length x = w \<Longrightarrow> length xs = n \<Longrightarrow> chunks n w (concat xs) = xs"
  by (induction xs arbitrary: n) auto

lemma length_chunks [simp]: "length (chunks n w bs) = n"
  by (induction n arbitrary: bs) auto

lemma concat_chunks: "length bs = n * w \<Longrightarrow> concat (chunks n w bs) = bs"
  by (induction n arbitrary: bs) auto

lemma chunks_length: "length bs = n * w \<Longrightarrow> c \<in> set (chunks n w bs) \<Longrightarrow> length c = w"
proof (induction n arbitrary: bs)
  case (Suc n)
  then show ?case using Suc.IH [of "drop w bs"] by auto
qed simp

lemma length_enc_direntry: "wf_direntry e \<Longrightarrow> length (enc_direntry e) = 64"
  by (simp add: enc_direntry_def wf_direntry_def fs_param_defs)

lemma dec_enc_direntry: "wf_direntry e \<Longrightarrow> dec_direntry (enc_direntry e) = e"
  by (simp add: enc_direntry_def dec_direntry_def wf_direntry_def fs_param_defs of_le32_le32)

lemma dec_enc_direntries [bytes_simps]:
  assumes "\<forall>e \<in> set es. wf_direntry e" "length es = FS_DIRENTRIES"
  shows "dec_direntries (enc_direntries es) = es" "length (enc_direntries es) = FS_BLOCKSIZE"
proof -
  have "chunks FS_DIRENTRIES 64 (concat (map enc_direntry es)) = map enc_direntry es"
    using assms by (intro chunks_concat) (auto simp: length_enc_direntry)
  then show "dec_direntries (enc_direntries es) = es"
    using assms(1) by (simp add: dec_direntries_def enc_direntries_def dec_enc_direntry map_idI)
  have "length (concat (map enc_direntry es)) = 64 * length es"
    using assms(1) by (induction es) (auto simp: length_enc_direntry)
  with assms(2) show "length (enc_direntries es) = FS_BLOCKSIZE"
    by (simp add: enc_direntries_def fs_param_defs FS_DIRENTRIES_def)
qed

lemma dec_enc_inode [bytes_simps]:
  assumes "wf_inode i"
  shows "dec_inode (enc_inode i) = i" "length (enc_inode i) = FS_BLOCKSIZE"
proof -
  have len: "length (owner i) = 11" "length (blocks i) = FS_MAXFILEBLOCKS"
    using assms by (simp_all add: wf_inode_def fs_param_defs)
  have "chunks FS_MAXFILEBLOCKS 4 (concat (map le32 (blocks i))) = map le32 (blocks i)"
    using len by (intro chunks_concat) auto
  moreover have "map (of_le32 \<circ> le32) (blocks i) = blocks i"
    using assms by (intro map_idI) (auto simp: wf_inode_def of_le32_le32)
  ultimately show "dec_inode (enc_inode i) = i"
    using assms len by (simp add: dec_inode_def enc_inode_def wf_inode_def of_le32_le32)
  have "length (concat (map le32 bs)) = 4 * length bs" for bs by (induction bs) auto
  with len show "length (enc_inode i) = FS_BLOCKSIZE"
    by (simp add: enc_inode_def fs_param_defs)
qed

lemma wf_dec_direntries:
  assumes "length bs = FS_BLOCKSIZE"
  shows "\<forall>e \<in> set (dec_direntries bs). wf_direntry e" "length (dec_direntries bs) = FS_DIRENTRIES"
  using assms chunks_length [of bs 8 64]
  by (auto simp: dec_direntries_def FS_DIRENTRIES_def fs_param_defs wf_direntry_def dec_direntry_def
      of_le32_less [simplified])

lemma wf_dec_inode: "length bs = FS_BLOCKSIZE \<Longrightarrow> wf_inode (dec_inode bs)"
  by (auto simp: dec_inode_def wf_inode_def fs_param_defs of_le32_less [simplified])

lemma enc_dec_blocks:
  assumes "length bs = n * 4"
  shows "concat (map le32 (map of_le32 (chunks n 4 bs))) = bs"
proof -
  have "map (le32 \<circ> of_le32) (chunks n 4 bs) = chunks n 4 bs"
    using chunks_length [OF assms] by (intro map_idI) (simp add: le32_of_le32)
  then show ?thesis using concat_chunks [OF assms] by simp
qed

lemma enc_dec_inode:
  assumes "length bs = FS_BLOCKSIZE"
  shows "enc_inode (dec_inode bs) = bs"
proof -
  have len: "length bs = 512" using assms by (simp add: fs_param_defs)
  have "enc_inode (dec_inode bs) = bs ! 0 # take 11 (drop 1 bs) @ take 4 (drop 12 bs) @ drop 16 bs"
    unfolding enc_inode_def dec_inode_def fs_inode.simps
    using len by (subst enc_dec_blocks) (simp_all add: fs_param_defs le32_of_le32)
  also have "take 4 (drop 12 bs) @ drop 16 bs = drop 12 bs"
    using append_take_drop_id [of 4 "drop 12 bs"] by simp
  also have "take 11 (drop 1 bs) @ drop 12 bs = drop 1 bs"
    using append_take_drop_id [of 11 "drop 1 bs"] by simp
  also have "bs ! 0 # drop 1 bs = bs" using len by (cases bs) auto
  finally show ?thesis .
qed

lemma enc_dec_direntries:
  assumes "length bs = FS_BLOCKSIZE"
  shows "enc_direntries (dec_direntries bs) = bs"
proof -
  have "map (enc_direntry \<circ> dec_direntry) (chunks 8 64 bs) = chunks 8 64 bs"
    using assms chunks_length [of bs 8 64]
    by (intro map_idI) (auto simp: fs_param_defs enc_direntry_def dec_direntry_def le32_of_le32)
  then show ?thesis
    using assms by (simp add: enc_direntries_def dec_direntries_def FS_DIRENTRIES_def concat_chunks fs_param_defs)
qed

end
