(* ===== verification/Filesystem.thy ===== *)
theory Filesystem
  imports Disk
begin

text \<open>
  The file system of \<^verbatim>\<open>src/filesystem.cpp\<close>: start-up traversal of the disk, path
  traversal with hand-over-hand locking, and the four request handlers. A handler maps the
  disk and the free list to the new ones, its result, and the sequence of lock and write
  events it performs, in program order; \<open>None\<close> is a failed assertion or undefined behaviour.
\<close>

section \<open>State and events\<close>

record 'd fs_state =
  disk :: 'd
  free_disk_blocks :: "nat list"

text \<open>The lock template argument of \<^verbatim>\<open>traverse_fs\<close>: \<^verbatim>\<open>shared_lock\<close> or \<^verbatim>\<open>upgrade_lock\<close>.\<close>

datatype lock_mode = Shared | Upgradable

text \<open>
  \<open>Upgrade\<close> is the conversion of an upgrade lock into a \<^verbatim>\<open>unique_lock\<close>, \<open>Forget\<close> the
  removal of a block's entry from \<^verbatim>\<open>data_locks\<close>.
\<close>

datatype fs_event =
    Acquire lock_mode nat
  | Upgrade nat
  | Release nat
  | WriteBlock nat
  | Forget nat

text \<open>\<^verbatim>\<open>optional<out_block>\<close>: no value, a null pointer, or a block.\<close>

datatype out = Error | Done | Out "char list"

section \<open>Start-up\<close>

primrec initial_traverse_helper ::
  "nat \<Rightarrow> 'd disk_ops \<Rightarrow> 'd \<Rightarrow> nat \<Rightarrow> nat list \<Rightarrow> nat list option" where
  "initial_traverse_helper 0 io d blk used = None"
| "initial_traverse_helper (Suc fuel) io d blk used = do {
     raw \<leftarrow> disk_readblock io d blk;
     let ino = dec_inode raw;
     cassert (isize ino \<le> length (blocks ino));
     used \<leftarrow> fold_option (\<lambda>b u. if b \<in> set u then None else Some (b # u))
               (take (isize ino) (blocks ino)) used;
     if itype ino = CHR ''f'' then Some used
     else if itype ino = CHR ''d'' then
       fold_option (\<lambda>b u. do {
           raw \<leftarrow> disk_readblock io d b;
           fold_option (\<lambda>e u.
               if inode_block e = 0 then Some u
               else if inode_block e \<in> set u then None
               else initial_traverse_helper fuel io d (inode_block e) (inode_block e # u))
             (dec_direntries raw) u })
         (take (isize ino) (blocks ino)) used
     else None }"

text \<open>
  The recursion of the source has no bound of its own: the fuel bounds its depth. A tree
  of directories on a disk of \<open>FS_DISKSIZE\<close> blocks is at most that deep.
\<close>

definition fs_init :: "'d disk_ops \<Rightarrow> 'd \<Rightarrow> nat list \<Rightarrow> nat list option" where
  "fs_init io d free = do {
     used \<leftarrow> initial_traverse_helper FS_DISKSIZE io d 0 [];
     Some (free @ filter (\<lambda>i. i \<notin> set used) [1..<FS_DISKSIZE]) }"

text \<open>The consistency check that \<^verbatim>\<open>strong_asserts\<close> enables.\<close>

definition check_disk_blocks_synced :: "'d disk_ops \<Rightarrow> 'd fs_state \<Rightarrow> 'd fs_state option" where
  "check_disk_blocks_synced io s = do {
     free \<leftarrow> fs_init io (disk s) (free_disk_blocks s);
     cassert (set (free_disk_blocks s) = set free);
     Some (s\<lparr>free_disk_blocks := free\<rparr>) }"

section \<open>Path traversal\<close>

fun find_slot :: "fs_direntry list \<Rightarrow> string \<Rightarrow> nat option" where
  "find_slot [] name = None"
| "find_slot (e # es) name =
     (if inode_block e \<noteq> 0 \<and> strcmp_eq (dname e) name then Some 0
      else map_option Suc (find_slot es name))"

text \<open>
  The two nested loops over a directory: \<open>n\<close> blocks remain, starting at index \<open>i\<close>. The
  result is the index, the block number, the slot and the entries of the block read.
\<close>

primrec find_direntry ::
  "'d disk_ops \<Rightarrow> 'd \<Rightarrow> fs_inode \<Rightarrow> string \<Rightarrow> nat \<Rightarrow> nat \<Rightarrow> (nat \<times> nat \<times> nat \<times> fs_direntry list) option option"
where
  "find_direntry io d ino name 0 = (\<lambda>i. Some None)"
| "find_direntry io d ino name (Suc n) = (\<lambda>i. do {
     b \<leftarrow> at (blocks ino) i;
     raw \<leftarrow> disk_readblock io d b;
     case find_slot (dec_direntries raw) name of
       Some j \<Rightarrow> Some (Some (i, b, j, dec_direntries raw))
     | None \<Rightarrow> find_direntry io d ino name n (Suc i) })"

text \<open>
  The loop over the path components: \<open>i\<close> components are done, \<open>cur\<close> is the block whose
  lock is held, \<open>evs\<close> the events so far.
\<close>

primrec traverse_loop ::
  "'d disk_ops \<Rightarrow> 'd \<Rightarrow> lock_mode \<Rightarrow> string \<Rightarrow> Path \<Rightarrow> nat \<Rightarrow> fs_inode \<Rightarrow> nat \<Rightarrow> fs_event list
    \<Rightarrow> ((fs_inode \<times> nat) option \<times> fs_event list) option" where
  "traverse_loop io d mode own [] = (\<lambda>i ino cur evs.
     if \<not> strcmp_eq own (owner ino) then Some (None, evs @ [Release cur])
     else Some (Some (ino, cur), evs))"
| "traverse_loop io d mode own (x # rest) = (\<lambda>i ino cur evs.
     if itype ino = CHR ''f'' then Some (None, evs @ [Release cur])
     else if \<not> strcmp_eq own (owner ino) \<and> i \<noteq> 0 then Some (None, evs @ [Release cur])
     else do {
       r \<leftarrow> find_direntry io d ino x (isize ino) 0;
       case r of
         None \<Rightarrow> Some (None, evs @ [Release cur])
       | Some (_, _, j, es) \<Rightarrow> do {
           let nb = inode_block (es ! j);
           raw \<leftarrow> disk_readblock io d nb;
           traverse_loop io d mode own rest (Suc i) (dec_inode raw) nb
             (evs @ [Acquire (if rest = [] then mode else Shared) nb, Release cur]) } })"

definition traverse_fs ::
  "'d disk_ops \<Rightarrow> 'd \<Rightarrow> lock_mode \<Rightarrow> Path \<Rightarrow> string
    \<Rightarrow> ((fs_inode \<times> nat) option \<times> fs_event list) option" where
  "traverse_fs io d mode pth own = do {
     raw \<leftarrow> disk_readblock io d 0;
     if pth = [] then Some (Some (dec_inode raw, 0), [Acquire mode 0])
     else traverse_loop io d mode own pth 0 (dec_inode raw) 0 [Acquire Shared 0] }"

section \<open>FS_CREATE\<close>

text \<open>
  The scan of the parent directory: every entry is compared with the new name, the first
  unused entry is remembered. \<open>Inl ()\<close>: the name exists.
\<close>

definition first_free :: "fs_direntry list \<Rightarrow> nat option" where
  "first_free es = (case filter (\<lambda>j. inode_block (es ! j) = 0) [0..<length es] of [] \<Rightarrow> None | j # _ \<Rightarrow> Some j)"

primrec create_scan ::
  "'d disk_ops \<Rightarrow> 'd \<Rightarrow> fs_inode \<Rightarrow> string \<Rightarrow> nat \<Rightarrow> nat \<Rightarrow> (nat \<times> nat \<times> fs_direntry list) option
    \<Rightarrow> (unit + (nat \<times> nat \<times> fs_direntry list) option) option" where
  "create_scan io d ino name 0 = (\<lambda>i spot. Some (Inr spot))"
| "create_scan io d ino name (Suc n) = (\<lambda>i spot. do {
     b \<leftarrow> at (blocks ino) i;
     raw \<leftarrow> disk_readblock io d b;
     let es = dec_direntries raw;
     if find_slot es name \<noteq> None then Some (Inl ())
     else create_scan io d ino name n (Suc i)
       (case spot of
          Some sp \<Rightarrow> Some sp
        | None \<Rightarrow> map_option (\<lambda>j. (b, j, es)) (first_free es)) })"

definition empty_direntry :: fs_direntry where
  "empty_direntry = \<lparr>dname = replicate (FS_MAXFILENAME + 1) NUL, inode_block = 0\<rparr>"

text \<open>
  The second half of the handler: allocation of the inode, and of a block of entries when
  no entry is free, then the writes. \<open>junk\<close> is what the uninitialised local \<^verbatim>\<open>new_inode\<close>
  holds.
\<close>

definition create_commit ::
  "'d disk_ops \<Rightarrow> fs_inode \<Rightarrow> 'd fs_state \<Rightarrow> string \<Rightarrow> string \<Rightarrow> char \<Rightarrow> fs_inode \<Rightarrow> nat
    \<Rightarrow> (nat \<times> nat \<times> fs_direntry list) option \<Rightarrow> fs_event list
    \<Rightarrow> (out \<times> 'd fs_state \<times> fs_event list) option" where
  "create_commit io junk s user filename typ dir dblk spot evs =
     (case free_disk_blocks s of
        [] \<Rightarrow> Some (Error, s, evs @ [Release dblk])
      | new_inode_block # free \<Rightarrow> do {
          own \<leftarrow> strcpy (owner junk) user;
          let new_inode = junk\<lparr>isize := 0, itype := typ, owner := own\<rparr>;
          case spot of
            None \<Rightarrow>
              if isize dir = FS_MAXFILEBLOCKS then
                Some (Error, s\<lparr>free_disk_blocks := new_inode_block # free\<rparr>, evs @ [Release dblk])
              else
                (case free of
                   [] \<Rightarrow> Some (Error, s\<lparr>free_disk_blocks := [new_inode_block]\<rparr>, evs @ [Release dblk])
                 | new_direntries_block # free' \<Rightarrow> do {
                     name \<leftarrow> strcpy (dname empty_direntry) filename;
                     let es = (replicate FS_DIRENTRIES empty_direntry)
                                [0 := \<lparr>dname = name, inode_block = new_inode_block\<rparr>];
                     d1 \<leftarrow> disk_writeblock io (disk s) new_direntries_block (enc_direntries es);
                     d2 \<leftarrow> disk_writeblock io d1 new_inode_block (enc_inode new_inode);
                     cassert (isize dir < length (blocks dir));
                     let dir' = dir\<lparr>blocks := (blocks dir)[isize dir := new_direntries_block],
                                    isize := isize dir + 1\<rparr>;
                     d3 \<leftarrow> disk_writeblock io d2 dblk (enc_inode dir');
                     Some (Done, s\<lparr>disk := d3, free_disk_blocks := free'\<rparr>,
                       evs @ [WriteBlock new_direntries_block, WriteBlock new_inode_block,
                              Upgrade dblk, WriteBlock dblk, Release dblk]) })
          | Some (sb, j, es) \<Rightarrow> do {
              name \<leftarrow> strcpy (dname (es ! j)) filename;
              let es' = es[j := \<lparr>dname = name, inode_block = new_inode_block\<rparr>];
              d1 \<leftarrow> disk_writeblock io (disk s) new_inode_block (enc_inode new_inode);
              d2 \<leftarrow> disk_writeblock io d1 sb (enc_direntries es');
              Some (Done, s\<lparr>disk := d2, free_disk_blocks := free\<rparr>,
                evs @ [WriteBlock new_inode_block, Upgrade dblk, WriteBlock sb, Release dblk]) } })"

definition execute_create ::
  "'d disk_ops \<Rightarrow> fs_inode \<Rightarrow> 'd fs_state \<Rightarrow> string \<Rightarrow> Path \<Rightarrow> char
    \<Rightarrow> (out \<times> 'd fs_state \<times> fs_event list) option" where
  "execute_create io junk s user pth typ =
     (if pth = [] then Some (Error, s, [])
      else if free_disk_blocks s = [] then Some (Error, s, [])
      else do {
        (r, evs) \<leftarrow> traverse_fs io (disk s) Upgradable (butlast pth) user;
        case r of
          None \<Rightarrow> Some (Error, s, evs)
        | Some (dir, dblk) \<Rightarrow>
            if itype dir = CHR ''f'' then Some (Error, s, evs @ [Release dblk])
            else do {
              sc \<leftarrow> create_scan io (disk s) dir (last pth) (isize dir) 0 None;
              case sc of
                Inl _ \<Rightarrow> Some (Error, s, evs @ [Release dblk])
              | Inr spot \<Rightarrow> create_commit io junk s user (last pth) typ dir dblk spot evs } })"

section \<open>FS_DELETE\<close>

text \<open>The loop that closes the gap at index \<open>k\<close> in an array of \<open>n\<close> used entries.\<close>

definition shift_blocks :: "nat list \<Rightarrow> nat \<Rightarrow> nat \<Rightarrow> nat list" where
  "shift_blocks bs k n = fold (\<lambda>i bs. bs[i := bs ! Suc i]) [k..<n - 1] bs"

text \<open>
  The second half of the handler, once the target's entry is found and both locks are
  held: ownership and emptiness checks, removal of the entry (or of its whole block), and
  the return of the blocks to the free list.
\<close>

definition delete_commit ::
  "'d disk_ops \<Rightarrow> 'd fs_state \<Rightarrow> string \<Rightarrow> fs_inode \<Rightarrow> nat \<Rightarrow> nat \<times> nat \<times> nat \<times> fs_direntry list
    \<Rightarrow> fs_inode \<Rightarrow> nat \<Rightarrow> fs_event list \<Rightarrow> (out \<times> 'd fs_state \<times> fs_event list) option" where
  "delete_commit io s user parent pblk found target tblk evs =
     (let (k, db, j, es) = found in
      if \<not> strcmp_eq (owner target) user then Some (Error, s, evs @ [Release tblk, Release pblk])
      else if itype target = CHR ''d'' \<and> 0 < isize target then
        Some (Error, s, evs @ [Release tblk, Release pblk])
      else do {
        (d1, free, evs') \<leftarrow>
          (if list_all (\<lambda>e. inode_block e = 0 \<or> inode_block e = tblk) es then do {
             cassert (isize parent \<le> length (blocks parent));
             let parent' = parent\<lparr>blocks := shift_blocks (blocks parent) k (isize parent),
                                  isize := isize parent - 1\<rparr>;
             d1 \<leftarrow> disk_writeblock io (disk s) pblk (enc_inode parent');
             Some (d1, free_disk_blocks s @ [db], [WriteBlock pblk]) }
           else do {
             d1 \<leftarrow> disk_writeblock io (disk s) db (enc_direntries (es[j := (es ! j)\<lparr>inode_block := 0\<rparr>]));
             Some (d1, free_disk_blocks s, [WriteBlock db]) });
        data \<leftarrow>
          (if itype target = CHR ''f'' then do {
             cassert (isize target \<le> length (blocks target));
             Some (take (isize target) (blocks target)) }
           else Some []);
        Some (Done, s\<lparr>disk := d1, free_disk_blocks := free @ data @ [tblk]\<rparr>,
          evs @ evs' @ [Release pblk, Upgrade tblk, Forget tblk, Release tblk]) })"

definition execute_delete ::
  "'d disk_ops \<Rightarrow> 'd fs_state \<Rightarrow> string \<Rightarrow> Path \<Rightarrow> (out \<times> 'd fs_state \<times> fs_event list) option" where
  "execute_delete io s user pth =
     (if pth = [] then Some (Error, s, [])
      else if length (free_disk_blocks s) = 4095 then Some (Error, s, [])
      else do {
        (r, evs) \<leftarrow> traverse_fs io (disk s) Upgradable (butlast pth) user;
        case r of
          None \<Rightarrow> Some (Error, s, evs)
        | Some (parent, pblk) \<Rightarrow>
            if isize parent = 0 then Some (Error, s, evs @ [Release pblk])
            else if itype parent = CHR ''f'' then Some (Error, s, evs @ [Release pblk])
            else do {
              f \<leftarrow> find_direntry io (disk s) parent (last pth) (isize parent) 0;
              case f of
                None \<Rightarrow> Some (Error, s, evs @ [Release pblk])
              | Some (k, db, j, es) \<Rightarrow> do {
                  let tblk = inode_block (es ! j);
                  raw \<leftarrow> disk_readblock io (disk s) tblk;
                  delete_commit io s user parent pblk (k, db, j, es) (dec_inode raw) tblk
                    (evs @ [Upgrade pblk, Acquire Upgradable tblk]) } } })"

section \<open>FS_READBLOCK and FS_WRITEBLOCK\<close>

definition execute_readblock ::
  "'d disk_ops \<Rightarrow> 'd fs_state \<Rightarrow> string \<Rightarrow> Path \<Rightarrow> nat \<Rightarrow> (out \<times> 'd fs_state \<times> fs_event list) option"
where
  "execute_readblock io s user pth blk =
     (if pth = [] then Some (Error, s, [])
      else if FS_MAXFILEBLOCKS \<le> blk then Some (Error, s, [])
      else do {
        (r, evs) \<leftarrow> traverse_fs io (disk s) Shared pth user;
        case r of
          None \<Rightarrow> Some (Error, s, evs)
        | Some (ino, ib) \<Rightarrow>
            if itype ino = CHR ''d'' then Some (Error, s, evs @ [Release ib])
            else if isize ino \<le> blk then Some (Error, s, evs @ [Release ib])
            else do {
              b \<leftarrow> at (blocks ino) blk;
              bytes \<leftarrow> disk_readblock io (disk s) b;
              Some (Out bytes, s, evs @ [Release ib]) } })"

definition execute_writeblock ::
  "'d disk_ops \<Rightarrow> 'd fs_state \<Rightarrow> string \<Rightarrow> Path \<Rightarrow> nat \<Rightarrow> char list option
    \<Rightarrow> (out \<times> 'd fs_state \<times> fs_event list) option" where
  "execute_writeblock io s user pth blk dat =
     (if pth = [] then Some (Error, s, [])
      else if FS_MAXFILEBLOCKS \<le> blk then Some (Error, s, [])
      else do {
        (r, evs) \<leftarrow> traverse_fs io (disk s) Upgradable pth user;
        case r of
          None \<Rightarrow> Some (Error, s, evs)
        | Some (ino, ib) \<Rightarrow>
            if itype ino = CHR ''d'' then Some (Error, s, evs @ [Release ib])
            else if blk < isize ino then do {
              b \<leftarrow> at (blocks ino) blk;
              bytes \<leftarrow> dat;
              d1 \<leftarrow> disk_writeblock io (disk s) b bytes;
              Some (Done, s\<lparr>disk := d1\<rparr>, evs @ [Upgrade ib, WriteBlock b, Release ib]) }
            else if blk = isize ino then
              (case free_disk_blocks s of
                 [] \<Rightarrow> Some (Error, s, evs @ [Release ib])
               | b # free \<Rightarrow> do {
                   cassert (isize ino < length (blocks ino));
                   let ino' = ino\<lparr>blocks := (blocks ino)[isize ino := b], isize := isize ino + 1\<rparr>;
                   bytes \<leftarrow> dat;
                   d1 \<leftarrow> disk_writeblock io (disk s) b bytes;
                   d2 \<leftarrow> disk_writeblock io d1 ib (enc_inode ino');
                   Some (Done, s\<lparr>disk := d2, free_disk_blocks := free\<rparr>,
                     evs @ [WriteBlock b, Upgrade ib, WriteBlock ib, Release ib]) })
            else Some (Error, s, evs @ [Release ib]) })"

section \<open>Dispatch\<close>

fun execute_request ::
  "'d disk_ops \<Rightarrow> fs_inode \<Rightarrow> 'd fs_state \<Rightarrow> Request \<Rightarrow> (out \<times> 'd fs_state \<times> fs_event list) option" where
  "execute_request io junk s (FS_READBLOCK u p b) = execute_readblock io s u p b"
| "execute_request io junk s (FS_WRITEBLOCK u p b d) = execute_writeblock io s u p b d"
| "execute_request io junk s (FS_CREATE u p t) = execute_create io junk s u p t"
| "execute_request io junk s (FS_DELETE u p) = execute_delete io s u p"

section \<open>The lock table\<close>

text \<open>
  \<^verbatim>\<open>data_locks\<close> maps a block to a weak pointer, here the identity of a mutex; \<open>holders m\<close> is
  the number of shared pointers to mutex \<open>m\<close>, which is expired when it is 0.
\<close>

record lock_table =
  data_locks :: "nat \<Rightarrow> nat option"
  holders :: "nat \<Rightarrow> nat"
  next_mutex :: nat

definition get_lock_ptr :: "lock_table \<Rightarrow> nat \<Rightarrow> nat \<times> lock_table" where
  "get_lock_ptr lt blk =
     (case data_locks lt blk of
        Some m \<Rightarrow>
          if 0 < holders lt m then (m, lt\<lparr>holders := (holders lt)(m := Suc (holders lt m))\<rparr>)
          else (next_mutex lt,
                lt\<lparr>data_locks := (data_locks lt)(blk \<mapsto> next_mutex lt),
                   holders := (holders lt)(next_mutex lt := 1), next_mutex := Suc (next_mutex lt)\<rparr>)
      | None \<Rightarrow>
          (next_mutex lt,
           lt\<lparr>data_locks := (data_locks lt)(blk \<mapsto> next_mutex lt),
              holders := (holders lt)(next_mutex lt := 1), next_mutex := Suc (next_mutex lt)\<rparr>))"

end
