(* ===== verification/Networking.thy ===== *)
theory Networking
  imports Parsing Filesystem
begin

text \<open>
  The connection handler of \<^verbatim>\<open>src/networking.cpp\<close>: reading the request header byte by byte
  into a fixed buffer, parsing it, reading the data of a write, executing the request and
  answering. The socket is a parameter; what is sent is part of the result.
\<close>

definition MAX_HEADER_SIZE :: nat where
  "MAX_HEADER_SIZE = 13 + 1 + FS_MAXUSERNAME + 1 + FS_MAXPATHNAME + 1 + 3 + 1"

lemma MAX_HEADER_SIZE_eq: "MAX_HEADER_SIZE = 158"
  by (simp add: MAX_HEADER_SIZE_def fs_param_defs)

section \<open>The socket\<close>

text \<open>A call of \<^verbatim>\<open>recv\<close>: the value -1, or the bytes received (none at the end of the stream).\<close>

datatype recv_result = Recv_error | Received "char list"

text \<open>The third argument of \<open>recv\<close> is the length asked for, the fourth \<^verbatim>\<open>MSG_WAITALL\<close>.\<close>

record 'k sock_ops =
  recv :: "'k \<Rightarrow> nat \<Rightarrow> bool \<Rightarrow> recv_result \<times> 'k"

section \<open>Reading the header\<close>

text \<open>
  The \<^verbatim>\<open>do\<close> loop of \<^verbatim>\<open>handle_connection\<close>. \<open>msg\<close> is the zeroed buffer of
  \<open>MAX_HEADER_SIZE + 1\<close> bytes; \<open>None\<close> is the early return with -1.
\<close>

function read_header :: "'k sock_ops \<Rightarrow> 'k \<Rightarrow> char list \<Rightarrow> nat \<Rightarrow> (char list \<times> 'k) option" where
  "read_header so k msg recvd =
     (case recv so k 1 False of
        (Recv_error, k') \<Rightarrow> None
      | (Received [], k') \<Rightarrow> if MAX_HEADER_SIZE < recvd then None else Some (msg, k')
      | (Received (c # _), k') \<Rightarrow>
          if MAX_HEADER_SIZE < recvd + 1 then None
          else if c \<noteq> NUL then read_header so k' (msg[recvd := c]) (recvd + 1)
          else Some (msg[recvd := c], k'))"
  by pat_completeness auto
termination
  by (relation "measure (\<lambda>(so, k, msg, recvd). Suc MAX_HEADER_SIZE - recvd)") auto

declare read_header.simps [simp del]

section \<open>The handler\<close>

text \<open>
  How a connection ends: an exception that nothing catches terminates the server, a failed
  assertion aborts it, otherwise the handler returns a status, the buffers it passed to
  \<^verbatim>\<open>send\<close>, the file-system state and the lock and write events.
\<close>

datatype 'd conn_outcome =
    Terminated cpp_exn
  | Aborted
  | Returned int "char list list" "'d fs_state" "fs_event list"

text \<open>A write gets its data: a zeroed block, overwritten by what \<^verbatim>\<open>recv\<close> delivers.\<close>

definition attach_data :: "'k sock_ops \<Rightarrow> 'k \<Rightarrow> Request \<Rightarrow> Request option" where
  "attach_data so k req =
     (case req of
        FS_WRITEBLOCK u p b d \<Rightarrow>
          (case recv so k FS_BLOCKSIZE True of
             (Recv_error, _) \<Rightarrow> None
           | (Received bs, _) \<Rightarrow>
               Some (FS_WRITEBLOCK u p b (Some (bs @ replicate (FS_BLOCKSIZE - length bs) NUL))))
      | _ \<Rightarrow> Some req)"

definition respond :: "Request \<Rightarrow> out \<Rightarrow> char list list option" where
  "respond req r =
     (case r of
        Error \<Rightarrow> Some []
      | Done \<Rightarrow> if is_FS_READBLOCK req then None else Some [request_string req @ [NUL]]
      | Out bytes \<Rightarrow>
          Some (if is_FS_READBLOCK req then [request_string req @ [NUL], bytes]
                else [request_string req @ [NUL]]))"

definition handle_connection ::
  "'k sock_ops \<Rightarrow> 'd disk_ops \<Rightarrow> fs_inode \<Rightarrow> 'k \<Rightarrow> 'd fs_state \<Rightarrow> 'd conn_outcome" where
  "handle_connection so io junk k s =
     (case read_header so k (replicate (MAX_HEADER_SIZE + 1) NUL) 0 of
        None \<Rightarrow> Returned (-1) [] s []
      | Some (msg, k1) \<Rightarrow>
          (case parse_request msg of
             Inl e \<Rightarrow> Terminated e
           | Inr None \<Rightarrow> Returned 0 [] s []
           | Inr (Some parsed) \<Rightarrow>
               (case attach_data so k1 parsed of
                  None \<Rightarrow> Returned (-1) [] s []
                | Some req \<Rightarrow>
                    (case execute_request io junk s req of
                       None \<Rightarrow> Aborted
                     | Some (r, s', evs) \<Rightarrow>
                         (case respond req r of
                            None \<Rightarrow> Aborted
                          | Some sent \<Rightarrow> Returned 0 sent s' evs)))))"


section \<open>Byte streams\<close>

text \<open>
  A connected stream socket whose pending bytes are \<open>pend\<close>: \<^verbatim>\<open>recv\<close> delivers a non-empty part of
  what is pending, at most what was asked for, and nothing only at the end of the stream; with
  \<^verbatim>\<open>MSG_WAITALL\<close> it delivers all that was asked for, unless the stream ends before.
\<close>

definition delivers :: "'k sock_ops \<Rightarrow> ('k \<Rightarrow> char list) \<Rightarrow> bool" where
  "delivers so pend \<longleftrightarrow> (\<forall>k n w. 0 < n \<longrightarrow> (\<exists>m k'. recv so k n w = (Received (take m (pend k)), k')
     \<and> pend k' = drop m (pend k) \<and> 0 < m \<and> m \<le> n \<and> (w \<longrightarrow> m = n)))"

text \<open>A client that has sent all its bytes at once.\<close>

definition sent_bytes :: "char list sock_ops" where
  "sent_bytes = \<lparr>recv = (\<lambda>bs n w. (Received (take n bs), drop n bs))\<rparr>"

lemma sent_bytes_delivers: "delivers sent_bytes id"
  by (auto simp: delivers_def sent_bytes_def)

lemma recv_one:
  assumes "delivers so pend"
  shows "case pend k of [] \<Rightarrow> \<exists>k'. recv so k 1 w = (Received [], k')
    | c # cs \<Rightarrow> \<exists>k'. recv so k 1 w = (Received [c], k') \<and> pend k' = cs"
proof -
  obtain m k' where "recv so k 1 w = (Received (take m (pend k)), k')" "pend k' = drop m (pend k)" "0 < m" "m \<le> 1"
    using assms unfolding delivers_def by (metis zero_less_one)
  moreover from this have "m = 1" by simp
  ultimately show ?thesis by (cases "pend k") auto
qed

lemma recv_block:
  assumes "delivers so pend" "0 < n"
  shows "\<exists>k'. recv so k n True = (Received (take n (pend k)), k')"
  using assms unfolding delivers_def by metis

text \<open>The header loop reads up to and including the first null byte.\<close>

lemma read_header_reads:
  assumes "delivers so pend" "NUL \<notin> set hdr" "pend k = hdr @ NUL # rest"
    "length pre + length hdr < MAX_HEADER_SIZE"
  shows "\<exists>k'. read_header so k (pre @ replicate (MAX_HEADER_SIZE + 1 - length pre) NUL) (length pre)
      = Some (pre @ hdr @ NUL # replicate (MAX_HEADER_SIZE - length pre - length hdr) NUL, k') \<and> pend k' = rest"
  using assms(2-4)
proof (induction hdr arbitrary: k pre)
  case Nil
  then obtain k' where r: "recv so k 1 False = (Received [NUL], k')" "pend k' = rest"
    using recv_one [OF assms(1), of k False] by auto
  have "replicate (MAX_HEADER_SIZE + 1 - length pre) NUL = NUL # replicate (MAX_HEADER_SIZE - length pre) NUL"
    using Nil.prems(3) by (simp add: Suc_diff_le)
  with r Nil.prems(3) show ?case by (subst read_header.simps) simp
next
  case (Cons c cs)
  then obtain k' where r: "recv so k 1 False = (Received [c], k')" "pend k' = cs @ NUL # rest"
    using recv_one [OF assms(1), of k False] by auto
  have pad: "replicate (Suc MAX_HEADER_SIZE - length pre) NUL = NUL # replicate (MAX_HEADER_SIZE - length pre) NUL"
    using Cons.prems(3) by (simp add: Suc_diff_le)
  have "read_header so k (pre @ replicate (MAX_HEADER_SIZE + 1 - length pre) NUL) (length pre)
      = read_header so k' ((pre @ [c]) @ replicate (MAX_HEADER_SIZE + 1 - length (pre @ [c])) NUL) (length (pre @ [c]))"
    using r Cons.prems by (subst read_header.simps) (auto simp: pad)
  then show ?case using Cons.IH [of k' "pre @ [c]"] r(2) Cons.prems by auto
qed


text \<open>A header that does not end within the buffer is refused.\<close>

lemma read_header_refuses:
  assumes "delivers so pend" "NUL \<notin> set hdr" "pend k = hdr @ rest"
    "got + length hdr = Suc MAX_HEADER_SIZE" "got \<le> MAX_HEADER_SIZE"
  shows "read_header so k msg (got) = None"
  using assms(2-5)
proof (induction hdr arbitrary: k got msg)
  case (Cons c cs)
  then obtain k' where r: "recv so k 1 False = (Received [c], k')" "pend k' = cs @ rest"
    using recv_one [OF assms(1), of k False] by auto
  show ?case
  proof (cases cs)
    case Nil
    with r Cons.prems show ?thesis by (subst read_header.simps) simp
  next
    case (Cons d ds)
    with r Cons.prems Cons.IH [of k' "Suc got" "msg[got := c]"] show ?thesis
      by (subst read_header.simps) auto
  qed
qed simp

lemma parse_request_terminated: "NUL \<notin> set hdr \<Longrightarrow> parse_request (hdr @ NUL # pad) = parse_request hdr"
  by (simp add: parse_request_def split_def c_str_id)

text \<open>The longest request a client may send fits the buffer.\<close>

lemma to_string_length: "n \<le> 124 \<Longrightarrow> length (to_string n) \<le> 3"
proof -
  assume n: "n \<le> 124"
  have one: "length (to_string k) \<le> 1" if "k < 10" for k using that by (subst to_string.simps) simp
  have two: "length (to_string k) \<le> 2" if "k < 100" for k
    using that one [of k] one [of "k div 10"] by (cases "k < 10"; subst to_string.simps) auto
  show ?thesis using n two [of n] two [of "n div 10"] by (cases "n < 10"; subst to_string.simps) auto
qed

lemma request_string_fits:
  assumes "wf_request r" "path r \<noteq> []"
  shows "length (request_string r) < MAX_HEADER_SIZE" "NUL \<notin> set (request_string r)"
proof -
  have u: "length (username r) \<le> 10" "NUL \<notin> set (username r)" and op: "wf_operand r"
    and p: "length (path_to_string (path r)) \<le> 128" "NUL \<notin> set (path_to_string (path r))"
    using assms path_print_token [of "path r"] by (auto simp: wf_request_def wf_user_def fs_param_defs)
  show "length (request_string r) < MAX_HEADER_SIZE"
    using u p op to_string_length [of "block r"]
    by (cases r) (auto simp: wf_operand_def MAX_HEADER_SIZE_eq fs_param_defs)
  show "NUL \<notin> set (request_string r)"
    using u p op to_string_clean by (cases r) (auto simp: wf_operand_def)
qed


section \<open>Properties\<close>

text \<open>What the server makes of a header, given the state of the socket behind it.\<close>

definition serve :: "'k sock_ops \<Rightarrow> 'd disk_ops \<Rightarrow> fs_inode \<Rightarrow> 'k \<Rightarrow> 'd fs_state \<Rightarrow> Request \<Rightarrow> 'd conn_outcome" where
  "serve so io junk k s r =
     (case attach_data so k r of
        None \<Rightarrow> Returned (-1) [] s []
      | Some req \<Rightarrow>
          (case execute_request io junk s req of
             None \<Rightarrow> Aborted
           | Some (res, s', evs) \<Rightarrow>
               (case respond req res of None \<Rightarrow> Aborted | Some sent \<Rightarrow> Returned 0 sent s' evs)))"

lemma handle_connection_header:
  assumes "delivers so pend" "NUL \<notin> set hdr" "length hdr < MAX_HEADER_SIZE" "pend k = hdr @ NUL # rest"
  shows "\<exists>k'. pend k' = rest \<and> handle_connection so io junk k s =
    (case parse_request hdr of Inl e \<Rightarrow> Terminated e | Inr None \<Rightarrow> Returned 0 [] s []
     | Inr (Some r) \<Rightarrow> serve so io junk k' s r)"
proof -
  obtain k' where "read_header so k (replicate (MAX_HEADER_SIZE + 1) NUL) 0
      = Some (hdr @ NUL # replicate (MAX_HEADER_SIZE - length hdr) NUL, k')" "pend k' = rest"
    using read_header_reads [OF assms(1,2,4), of "[]"] assms(3) by auto
  with parse_request_terminated [OF assms(2)] show ?thesis
    by (auto simp: handle_connection_def serve_def split: sum.splits option.splits)
qed

text \<open>
  C26. A client that sends a well-formed request (on a path other than the root), a null byte and
  then its data gets exactly that request executed: the header always fits the buffer, the parser
  reads back the request, and a write carries the next 512 bytes of the stream, padded with zeros
  if the stream ends early. The answer is the printed request, plus the block for a read, when the
  file system reports success, and nothing when it reports an error.
\<close>

theorem client_request_handled:
  assumes "delivers so pend" "wf_request r" "path r \<noteq> []" "pend k = request_string r @ NUL # rest"
  shows "handle_connection so io junk k s =
    (let body = take FS_BLOCKSIZE rest;
         req = (case r of
                  FS_WRITEBLOCK u p b d \<Rightarrow> FS_WRITEBLOCK u p b (Some (body @ replicate (FS_BLOCKSIZE - length body) NUL))
                | _ \<Rightarrow> r)
     in case execute_request io junk s req of
          None \<Rightarrow> Aborted
        | Some (res, s', evs) \<Rightarrow>
            (case respond req res of None \<Rightarrow> Aborted | Some sent \<Rightarrow> Returned 0 sent s' evs))"
proof -
  obtain k' where k': "pend k' = rest" "handle_connection so io junk k s = serve so io junk k' s r"
    using handle_connection_header [OF assms(1) request_string_fits(2,1) [OF assms(2,3)] assms(4), of io junk s]
      parse_print_request [OF assms(2,3)] by auto
  obtain k2 where "recv so k' FS_BLOCKSIZE True = (Received (take FS_BLOCKSIZE rest), k2)"
    using recv_block [OF assms(1), of FS_BLOCKSIZE k'] k'(1) by (auto simp: fs_param_defs)
  with k'(2) show ?thesis
    by (cases r) (simp_all add: serve_def attach_data_def Let_def del: length_take)
qed

theorem client_request_handled_witness:
  "\<forall>io junk (s :: unit fs_state). handle_connection sent_bytes io junk (request_string (FS_DELETE ''eve'' [''d'', ''x'']) @ [NUL]) s =
     (case execute_request io junk s (FS_DELETE ''eve'' [''d'', ''x'']) of
        None \<Rightarrow> Aborted
      | Some (res, s', evs) \<Rightarrow>
          (case respond (FS_DELETE ''eve'' [''d'', ''x'']) res of None \<Rightarrow> Aborted | Some sent \<Rightarrow> Returned 0 sent s' evs))"
proof (intro allI)
  fix io junk and s :: "unit fs_state"
  let ?r = "FS_DELETE ''eve'' [''d'', ''x'']"
  show "handle_connection sent_bytes io junk (request_string ?r @ [NUL]) s =
     (case execute_request io junk s ?r of
        None \<Rightarrow> Aborted
      | Some (res, s', evs) \<Rightarrow>
          (case respond ?r res of None \<Rightarrow> Aborted | Some sent \<Rightarrow> Returned 0 sent s' evs))"
    using client_request_handled [OF sent_bytes_delivers, of ?r "request_string ?r @ [NUL]" "[]" io junk s]
    by (simp add: Let_def wf_request_def wf_user_def wf_path_def wf_name_def wf_operand_def fs_param_defs)
qed

text \<open>
  C27. The header loop never writes beyond its buffer: a client that sends no null byte within the
  first 159 bytes is disconnected with status -1 and nothing is executed or sent.
\<close>

theorem oversized_header_refused:
  assumes "delivers so pend" "NUL \<notin> set hdr" "length hdr = MAX_HEADER_SIZE + 1" "pend k = hdr @ rest"
  shows "handle_connection so io junk k s = Returned (-1) [] s []"
  using read_header_refuses [OF assms(1,2,4), of 0] assms(3) by (simp add: handle_connection_def)

theorem oversized_header_refused_witness:
  "\<forall>io junk (s :: unit fs_state).
     handle_connection sent_bytes io junk (replicate 200 (CHR ''a'')) s = Returned (-1) [] s []"
proof (intro allI, rule oversized_header_refused [OF sent_bytes_delivers])
  have "replicate 159 (CHR ''a'') @ replicate 41 (CHR ''a'') = replicate (159 + 41) (CHR ''a'')"
    by (rule replicate_add [symmetric])
  then show "id (replicate 200 (CHR ''a'')) = replicate 159 (CHR ''a'') @ replicate 41 (CHR ''a'')" by simp
qed (simp_all add: MAX_HEADER_SIZE_eq)

text \<open>
  The server is brought down by exactly those headers on which the parser throws; every other
  header of a client leaves it running or reaches the file system.
\<close>

theorem header_terminates_server:
  assumes "delivers so pend" "NUL \<notin> set hdr" "length hdr < MAX_HEADER_SIZE" "pend k = hdr @ NUL # rest"
  shows "handle_connection so io junk k s = Terminated e \<longleftrightarrow> parse_request hdr = Inl e"
proof -
  have "serve so io junk k' s r \<noteq> Terminated e" for k' r
    by (simp add: serve_def split: option.split prod.split)
  with handle_connection_header [OF assms, of io junk s] show ?thesis
    by (cases "parse_request hdr") (auto split: option.split_asm)
qed


theorem header_terminates_server_witness:
  "\<forall>io junk (s :: unit fs_state). handle_connection sent_bytes io junk (''a b  c'' @ [NUL]) s = Terminated Out_of_range"
proof -
  have "parse_request ''a b  c'' = Inl Out_of_range"
    by (simp add: parse_request_def parse_path_token_def split_def c_str_def getline_loop.simps fs_param_defs)
  then show ?thesis
    using header_terminates_server [OF sent_bytes_delivers, of "''a b  c''" "''a b  c'' @ [NUL]" "[]" _ _ _ Out_of_range]
    by (auto simp: MAX_HEADER_SIZE_eq)
qed

end
