(* ===== verification/Fs_Tree.thy ===== *)
theory Fs_Tree
  imports Filesystem "HOL-Library.Multiset"
begin

text \<open>
  The contents of the disk as a tree. A node is an inode block with the nodes of the entries
  of its directory; \<open>rep D t\<close> says that the blocks \<open>D\<close> hold the tree \<open>t\<close>, and \<open>blocks_of D t\<close>
  lists every block the tree occupies. The file system is consistent when these blocks and
  the free list together are all blocks of the disk, each exactly once. Replacing one node of
  the tree while its surroundings stay as they are (\<open>graft\<close>) is the shape of every change the
  request handlers make.
\<close>

section \<open>The image of a disk\<close>

definition image_of :: "'d disk_ops \<Rightarrow> 'd \<Rightarrow> nat \<Rightarrow> char list" where
  "image_of io d b = the (disk_readblock io d b)"

lemma disk_read:
  assumes "disk_laws io" "b < FS_DISKSIZE"
  shows "disk_readblock io d b = Some (image_of io d b)" "length (image_of io d b) = FS_BLOCKSIZE"
  using assms unfolding disk_laws_def image_of_def by (metis option.sel)+

lemma disk_write:
  assumes "disk_laws io" "b < FS_DISKSIZE" "length bs = FS_BLOCKSIZE"
  shows "\<exists>d'. disk_writeblock io d b bs = Some d' \<and> image_of io d' = (image_of io d)(b := bs)"
proof -
  obtain d' where "disk_writeblock io d b bs = Some d'"
    "\<forall>b'. disk_readblock io d' b' = (if b' = b then Some bs else disk_readblock io d b')"
    using assms unfolding disk_laws_def by blast
  then show ?thesis by (auto simp: image_of_def fun_eq_iff)
qed

text \<open>
  The contract of a structure that is cast to and from a block, and what its users rely on:
  a structure that was written is the one that is read.
\<close>

locale block_codec =
  fixes enc :: "'a \<Rightarrow> char list" and dec :: "char list \<Rightarrow> 'a" and wf :: "'a \<Rightarrow> bool"
  assumes dec_enc: "wf x \<Longrightarrow> dec (enc x) = x"
    and length_enc: "wf x \<Longrightarrow> length (enc x) = FS_BLOCKSIZE"
    and wf_dec: "length bs = FS_BLOCKSIZE \<Longrightarrow> wf (dec bs)"
    and enc_dec: "length bs = FS_BLOCKSIZE \<Longrightarrow> enc (dec bs) = bs"
begin

lemma write_struct:
  assumes "disk_laws io" "b < FS_DISKSIZE" "wf x"
  shows "\<exists>d'. disk_writeblock io d b (enc x) = Some d' \<and> image_of io d' = (image_of io d)(b := enc x)
    \<and> dec (image_of io d' b) = x"
  using disk_write [OF assms(1,2) length_enc [OF assms(3)], of d] dec_enc [OF assms(3)] by auto

lemma read_struct: "disk_laws io \<Longrightarrow> b < FS_DISKSIZE \<Longrightarrow> wf (dec (image_of io d b))"
  by (rule wf_dec [OF disk_read(2)])

lemma rewrite_same:
  assumes "disk_laws io" "b < FS_DISKSIZE"
  shows "\<exists>d'. disk_writeblock io d b (enc (dec (image_of io d b))) = Some d' \<and> image_of io d' = image_of io d"
  using disk_write [OF assms disk_read(2) [OF assms, of d], of d] enc_dec [OF disk_read(2) [OF assms, of d]]
  by (simp add: fun_upd_triv)

end

definition wf_direntries :: "fs_direntry list \<Rightarrow> bool" where
  "wf_direntries es \<longleftrightarrow> length es = FS_DIRENTRIES \<and> (\<forall>e \<in> set es. wf_direntry e)"

interpretation inodes: block_codec enc_inode dec_inode wf_inode
  by unfold_locales (auto simp: dec_enc_inode wf_dec_inode enc_dec_inode)

interpretation direntries: block_codec enc_direntries dec_direntries wf_direntries
  by unfold_locales (auto simp: wf_direntries_def dec_enc_direntries wf_dec_direntries enc_dec_direntries)

section \<open>Trees\<close>

datatype tree = Node (root: nat) (kids: "tree list")

abbreviation inode_at :: "(nat \<Rightarrow> char list) \<Rightarrow> nat \<Rightarrow> fs_inode" where
  "inode_at D b \<equiv> dec_inode (D b)"

text \<open>The blocks an inode uses, the entries of a directory, and the inodes they name.\<close>

definition used_blocks :: "(nat \<Rightarrow> char list) \<Rightarrow> nat \<Rightarrow> nat list" where
  "used_blocks D b = take (isize (inode_at D b)) (blocks (inode_at D b))"

definition entries :: "(nat \<Rightarrow> char list) \<Rightarrow> nat \<Rightarrow> fs_direntry list" where
  "entries D b = concat (map (\<lambda>db. dec_direntries (D db)) (used_blocks D b))"

definition live_entries :: "(nat \<Rightarrow> char list) \<Rightarrow> nat \<Rightarrow> fs_direntry list" where
  "live_entries D b = (if itype (inode_at D b) = CHR ''d''
     then filter (\<lambda>e. inode_block e \<noteq> 0) (entries D b) else [])"

definition children :: "(nat \<Rightarrow> char list) \<Rightarrow> nat \<Rightarrow> nat list" where
  "children D b = map inode_block (live_entries D b)"

definition names :: "(nat \<Rightarrow> char list) \<Rightarrow> nat \<Rightarrow> string list" where
  "names D b = map (\<lambda>e. c_str (dname e)) (live_entries D b)"

text \<open>
  An inode is sound: its size is within the limit and its type is known; no two entries of a
  directory have the same name, and no block of a directory is without entries.
\<close>

definition inode_ok :: "(nat \<Rightarrow> char list) \<Rightarrow> nat \<Rightarrow> bool" where
  "inode_ok D b \<longleftrightarrow> isize (inode_at D b) \<le> FS_MAXFILEBLOCKS \<and> itype (inode_at D b) \<in> {CHR ''f'', CHR ''d''}
     \<and> distinct (names D b)
     \<and> (itype (inode_at D b) = CHR ''d'' \<longrightarrow>
          list_all (\<lambda>db. list_ex (\<lambda>e. inode_block e \<noteq> 0) (dec_direntries (D db))) (used_blocks D b))"

fun rep :: "(nat \<Rightarrow> char list) \<Rightarrow> tree \<Rightarrow> bool" where
  "rep D (Node b ts) \<longleftrightarrow> inode_ok D b \<and> mset (map root ts) = mset (children D b)
     \<and> list_all (rep D) ts"

fun blocks_of :: "(nat \<Rightarrow> char list) \<Rightarrow> tree \<Rightarrow> nat list" where
  "blocks_of D (Node b ts) = b # used_blocks D b @ concat (map (blocks_of D) ts)"

fun nodes :: "tree \<Rightarrow> tree list" where
  "nodes (Node b ts) = Node b ts # concat (map nodes ts)"

fun graft :: "nat \<Rightarrow> tree \<Rightarrow> tree \<Rightarrow> tree" where
  "graft x n (Node b ts) = (if b = x then n else Node b (map (graft x n) ts))"

text \<open>Two inodes of the same type and owner.\<close>

definition same_head :: "fs_inode \<Rightarrow> fs_inode \<Rightarrow> bool" where
  "same_head i j \<longleftrightarrow> itype i = itype j \<and> owner i = owner j"

section \<open>Framing\<close>

lemma root_in_blocks: "root t \<in> set (blocks_of D t)"
  by (cases t) simp

lemma distinct_concat_part: "distinct (concat xss) \<Longrightarrow> xs \<in> set xss \<Longrightarrow> distinct xs"
  by (induction xss) auto

lemma nodes_cases: "n \<in> set (nodes (Node b ts)) \<Longrightarrow> n = Node b ts \<or> (\<exists>t \<in> set ts. n \<in> set (nodes t))"
  by auto

lemma nodes_blocks: "n \<in> set (nodes t) \<Longrightarrow> set (blocks_of D n) \<subseteq> set (blocks_of D t)"
proof (induction t rule: nodes.induct)
  case (1 b ts)
  show ?case using nodes_cases [OF "1.prems"]
  proof
    assume "\<exists>t \<in> set ts. n \<in> set (nodes t)"
    then obtain t where "t \<in> set ts" "set (blocks_of D n) \<subseteq> set (blocks_of D t)" using "1.IH" by blast
    then show ?thesis by auto
  qed simp
qed

lemma nodes_rep: "n \<in> set (nodes t) \<Longrightarrow> rep D t \<Longrightarrow> rep D n"
  by (induction t rule: nodes.induct) (auto simp: list_all_iff)

lemma nodes_distinct: "n \<in> set (nodes t) \<Longrightarrow> distinct (blocks_of D t) \<Longrightarrow> distinct (blocks_of D n)"
proof (induction t rule: nodes.induct)
  case (1 b ts)
  show ?case using nodes_cases [OF "1.prems"(1)]
  proof
    assume "\<exists>t \<in> set ts. n \<in> set (nodes t)"
    then obtain t where t: "t \<in> set ts" "n \<in> set (nodes t)" by blast
    have "distinct (concat (map (blocks_of D) ts))" using "1.prems"(2) by simp
    then have "distinct (blocks_of D t)" using t(1) by (metis distinct_concat_part imageI list.set_map)
    with t "1.IH" show ?thesis by blast
  qed (use "1.prems" in simp)
qed

lemma used_blocks_cong: "D b = D' b \<Longrightarrow> used_blocks D b = used_blocks D' b"
  by (simp add: used_blocks_def)

lemma node_cong:
  assumes "D b = D' b" "\<forall>x \<in> set (used_blocks D b). D x = D' x"
  shows "live_entries D b = live_entries D' b" "children D b = children D' b" "inode_ok D b = inode_ok D' b"
proof -
  have used: "used_blocks D b = used_blocks D' b" by (rule used_blocks_cong [of D b D', OF assms(1)])
  have "map (\<lambda>db. dec_direntries (D db)) (used_blocks D b) = map (\<lambda>db. dec_direntries (D' db)) (used_blocks D' b)"
    using assms(2) used by (auto intro: map_cong)
  then show live: "live_entries D b = live_entries D' b" using assms(1) by (simp add: live_entries_def entries_def)
  then show "children D b = children D' b" by (simp add: children_def)
  have "list_all (\<lambda>db. list_ex P (dec_direntries (D db))) (used_blocks D' b)
      = list_all (\<lambda>db. list_ex P (dec_direntries (D' db))) (used_blocks D' b)" for P
    using assms(2) used by (simp add: list_all_iff)
  then show "inode_ok D b = inode_ok D' b" unfolding inode_ok_def names_def live used assms(1) by simp
qed

lemma kids_blocks: "t \<in> set ts \<Longrightarrow> set (blocks_of D t) \<subseteq> set (blocks_of D (Node b ts))"
  by auto

lemma blocks_of_cong: "\<forall>x \<in> set (blocks_of D t). D x = D' x \<Longrightarrow> blocks_of D' t = blocks_of D t"
proof (induction D t rule: blocks_of.induct)
  case (1 D b ts)
  have "blocks_of D' t = blocks_of D t" if "t \<in> set ts" for t
    using "1.IH" [OF that] "1.prems" kids_blocks [OF that, of D b] by blast
  then have "map (blocks_of D') ts = map (blocks_of D) ts" by simp
  moreover have "used_blocks D b = used_blocks D' b" using "1.prems" by (intro used_blocks_cong) simp
  ultimately show ?case by (simp del: map_eq_conv)
qed

lemma rep_cong: "\<forall>x \<in> set (blocks_of D t). D x = D' x \<Longrightarrow> rep D t \<Longrightarrow> rep D' t"
proof (induction D t rule: rep.induct)
  case (1 D b ts)
  have "rep D' t" if t: "t \<in> set ts" for t
  proof -
    have "\<forall>x \<in> set (blocks_of D t). D x = D' x" using "1.prems"(1) kids_blocks [OF t, of D b] by blast
    moreover have "rep D t" using "1.prems"(2) t by (simp add: list_all_iff)
    ultimately show ?thesis by (rule "1.IH" [OF t])
  qed
  then have "list_all (rep D') ts" by (simp add: list_all_iff)
  moreover have "D b = D' b" using "1.prems"(1) by simp
  moreover from this have "children D b = children D' b" "inode_ok D b = inode_ok D' b"
    using "1.prems"(1) node_cong [of D b D'] by simp_all
  ultimately show ?case using "1.prems"(2) by simp
qed

section \<open>Grafting\<close>

lemma graft_absent: "x \<notin> set (blocks_of D t) \<Longrightarrow> graft x n t = t"
proof (induction t rule: nodes.induct)
  case (1 b ts)
  have "graft x n t = t" if "t \<in> set ts" for t
    using "1.IH" [OF that] "1.prems" kids_blocks [OF that, of D b] by blast
  then have "map (graft x n) ts = ts" by (simp add: map_idI)
  with "1.prems" show ?case by simp
qed

lemma root_graft: "root n = x \<Longrightarrow> root (graft x n t) = root t"
  by (cases t) simp

text \<open>
  The node \<open>n\<close> of the tree is replaced by \<open>n'\<close> with the same inode block, on a disk that
  differs only in blocks of \<open>n\<close> (and blocks outside the tree).
\<close>

lemma graft_rep:
  assumes "rep D t" "distinct (blocks_of D t)" "n \<in> set (nodes t)" "root n' = root n" "rep D' n'"
    "\<forall>x \<in> set (blocks_of D t) - set (blocks_of D n). D x = D' x"
  shows "rep D' (graft (root n) n' t)
    \<and> mset (blocks_of D' (graft (root n) n' t)) + mset (blocks_of D n) = mset (blocks_of D t) + mset (blocks_of D' n')"
  using assms(1-3,6)
proof (induction t rule: nodes.induct)
  case (1 b ts)
  show ?case
  proof (cases "n = Node b ts")
    case True
    with assms(4,5) show ?thesis by simp
  next
    case False
    then obtain t where t: "t \<in> set ts" "n \<in> set (nodes t)" using nodes_cases [OF "1.prems"(3)] by blast
    then obtain us vs where ts: "ts = us @ t # vs" by (meson split_list)
    have sub: "set (blocks_of D n) \<subseteq> set (blocks_of D t)" using nodes_blocks t(2) by blast
    have dis: "b \<notin> set (blocks_of D t)" "set (used_blocks D b) \<inter> set (blocks_of D t) = {}"
      "distinct (blocks_of D t)" "\<forall>u \<in> set us \<union> set vs. set (blocks_of D u) \<inter> set (blocks_of D t) = {}"
      using "1.prems"(2) by (auto simp: ts)
    have x: "root n \<in> set (blocks_of D t)" using root_in_blocks sub by blast
    have other: "graft (root n) n' u = u" "blocks_of D' u = blocks_of D u" "rep D' u" if "u \<in> set us \<union> set vs" for u
    proof -
      show "graft (root n) n' u = u" using dis(4) that x by (intro graft_absent [of _ D]) blast
      have same: "\<forall>y \<in> set (blocks_of D u). D y = D' y"
        using "1.prems"(4) that dis(4) sub kids_blocks [of u ts D b] by (auto simp: ts)
      have "rep D u" using "1.prems"(1) that by (auto simp: ts list_all_iff)
      then show "rep D' u" by (rule rep_cong [OF same])
      show "blocks_of D' u = blocks_of D u" by (rule blocks_of_cong [OF same])
    qed
    have IH: "rep D' (graft (root n) n' t)"
      "mset (blocks_of D' (graft (root n) n' t)) + mset (blocks_of D n) = mset (blocks_of D t) + mset (blocks_of D' n')"
    proof -
      have "rep D t" using "1.prems"(1) t(1) by (simp add: list_all_iff)
      moreover have "\<forall>x \<in> set (blocks_of D t) - set (blocks_of D n). D x = D' x"
        using "1.prems"(4) kids_blocks [OF t(1), of D b] by blast
      ultimately show "rep D' (graft (root n) n' t)"
        "mset (blocks_of D' (graft (root n) n' t)) + mset (blocks_of D n) = mset (blocks_of D t) + mset (blocks_of D' n')"
        using "1.IH" [OF t(1) _ dis(3) t(2)] by blast+
    qed
    have b: "D b = D' b" "used_blocks D b = used_blocks D' b" "children D b = children D' b" "inode_ok D b = inode_ok D' b"
    proof -
      have "b \<in> set (blocks_of D (Node b ts)) - set (blocks_of D n)" using dis(1) sub by auto
      then show "D b = D' b" using "1.prems"(4) by blast
      then show "used_blocks D b = used_blocks D' b" by (rule used_blocks_cong)
      have "set (used_blocks D b) \<subseteq> set (blocks_of D (Node b ts)) - set (blocks_of D n)" using dis(2) sub by auto
      then show "children D b = children D' b" "inode_ok D b = inode_ok D' b"
        using node_cong [of D b D'] \<open>D b = D' b\<close> "1.prems"(4) by blast+
    qed
    have nb: "b \<noteq> root n" using x dis(1) by auto
    have us: "map (graft (root n) n') us = us" "map (graft (root n) n') vs = vs" using other(1) by (auto intro: map_idI)
    have bl: "map (blocks_of D') us = map (blocks_of D) us" "map (blocks_of D') vs = map (blocks_of D) vs"
      using other(2) by auto
    have "list_all (rep D') us" "list_all (rep D') vs" using other(3) by (auto simp: list_all_iff)
    moreover have "B + (mset (blocks_of D' (graft (root n) n' t)) + (C + mset (blocks_of D n)))
        = B + (mset (blocks_of D t) + (C + mset (blocks_of D' n')))" for B C
      using IH(2) by (metis (no_types, opaque_lifting) add.assoc add.commute)
    ultimately show ?thesis using "1.prems"(1) IH(1) b nb us bl root_graft [OF assms(4), of t]
      by (simp add: ts del: map_eq_conv)
  qed
qed

end
