(* ===== verification/Fs_Invariant.thy ===== *)
theory Fs_Invariant
  imports Fs_Tree
begin

text \<open>
  The invariant of the file system: the disk holds a tree rooted at block 0, and the blocks of
  the tree and the free list are together all blocks of the disk, each once. Path traversal
  and directory search stay inside the tree, so they never fail an assertion.
\<close>

section \<open>The invariant\<close>

definition fs_tree :: "'d disk_ops \<Rightarrow> 'd fs_state \<Rightarrow> tree \<Rightarrow> bool" where
  "fs_tree io s t \<longleftrightarrow> root t = 0 \<and> rep (image_of io (disk s)) t
     \<and> mset (blocks_of (image_of io (disk s)) t) + mset (free_disk_blocks s) = mset [0..<FS_DISKSIZE]"

definition fs_inv :: "'d disk_ops \<Rightarrow> 'd fs_state \<Rightarrow> bool" where
  "fs_inv io s \<longleftrightarrow> (\<exists>t. fs_tree io s t)"

lemma fs_tree_blocks:
  assumes "fs_tree io s t"
  shows "distinct (blocks_of (image_of io (disk s)) t)" "distinct (free_disk_blocks s)"
    "set (blocks_of (image_of io (disk s)) t) \<inter> set (free_disk_blocks s) = {}"
    "b \<in> set (blocks_of (image_of io (disk s)) t) \<Longrightarrow> b < FS_DISKSIZE"
    "b \<in> set (free_disk_blocks s) \<Longrightarrow> b < FS_DISKSIZE \<and> b \<noteq> 0"
proof -
  let ?bs = "blocks_of (image_of io (disk s)) t"
  have m: "mset (?bs @ free_disk_blocks s) = mset [0..<FS_DISKSIZE]"
    and r: "root t = 0" using assms by (simp_all add: fs_tree_def)
  have "distinct (?bs @ free_disk_blocks s)" "set (?bs @ free_disk_blocks s) = {0..<FS_DISKSIZE}"
    using m by (metis distinct_upt mset_eq_imp_distinct_iff, metis mset_eq_setD set_upt)
  moreover have "0 \<in> set ?bs" using root_in_blocks [of t] r by metis
  ultimately show "distinct ?bs" "distinct (free_disk_blocks s)" "set ?bs \<inter> set (free_disk_blocks s) = {}"
    "b \<in> set ?bs \<Longrightarrow> b < FS_DISKSIZE" "b \<in> set (free_disk_blocks s) \<Longrightarrow> b < FS_DISKSIZE \<and> b \<noteq> 0"
    by (auto simp: set_eq_iff)
qed

text \<open>The change of one node, with the blocks it gains or gives back taken from the free list.\<close>

lemma fs_tree_graft:
  assumes "fs_tree io s t" "n \<in> set (nodes t)" "root n' = root n" "rep (image_of io d') n'"
    "\<forall>x \<in> set (blocks_of (image_of io (disk s)) t) - set (blocks_of (image_of io (disk s)) n).
       image_of io (disk s) x = image_of io d' x"
    "mset (blocks_of (image_of io d') n') + mset free' = mset (blocks_of (image_of io (disk s)) n) + mset (free_disk_blocks s)"
  shows "fs_tree io (s\<lparr>disk := d', free_disk_blocks := free'\<rparr>) (graft (root n) n' t)"
proof -
  let ?D = "image_of io (disk s)" and ?D' = "image_of io d'" and ?t = "graft (root n) n' t"
  have "rep ?D t" "root t = 0" and all: "mset (blocks_of ?D t) + mset (free_disk_blocks s) = mset [0..<FS_DISKSIZE]"
    using assms(1) by (simp_all add: fs_tree_def)
  with graft_rep [OF _ fs_tree_blocks(1) [OF assms(1)] assms(2-5)]
  have g: "rep ?D' ?t" "mset (blocks_of ?D' ?t) + mset (blocks_of ?D n) = mset (blocks_of ?D t) + mset (blocks_of ?D' n')"
    by auto
  have "mset (blocks_of ?D' ?t) + mset free' + mset (blocks_of ?D n)
      = (mset (blocks_of ?D' ?t) + mset (blocks_of ?D n)) + mset free'" by (simp add: ac_simps)
  also have "\<dots> = mset (blocks_of ?D t) + (mset (blocks_of ?D' n') + mset free')" using g(2) by (simp add: ac_simps)
  also have "\<dots> = mset (blocks_of ?D t) + mset (free_disk_blocks s) + mset (blocks_of ?D n)"
    using assms(6) by (simp add: ac_simps)
  finally have "mset (blocks_of ?D' ?t) + mset free' = mset (blocks_of ?D t) + mset (free_disk_blocks s)" by simp
  with g(1) all \<open>root t = 0\<close> root_graft [OF assms(3)] show ?thesis by (simp add: fs_tree_def)
qed

section \<open>Nodes of the tree on the disk\<close>

lemma node_facts:
  assumes "disk_laws io" "fs_tree io s t" "n \<in> set (nodes t)"
  defines "D \<equiv> image_of io (disk s)"
  shows "root n < FS_DISKSIZE" "wf_inode (inode_at D (root n))" "inode_ok D (root n)"
    "\<forall>b \<in> set (used_blocks D (root n)). b < FS_DISKSIZE"
    "isize (inode_at D (root n)) \<le> length (blocks (inode_at D (root n)))"
    "distinct (blocks_of D n)" "rep D n"
proof -
  note tb = fs_tree_blocks [OF assms(2), folded D_def]
  have sub: "set (blocks_of D n) \<subseteq> set (blocks_of D t)" by (rule nodes_blocks [OF assms(3)])
  show rn: "rep D n" using nodes_rep [OF assms(3)] assms(2) by (simp add: fs_tree_def D_def)
  then show ok: "inode_ok D (root n)" by (cases n) simp
  show "distinct (blocks_of D n)" by (rule nodes_distinct [OF assms(3) tb(1)])
  show r: "root n < FS_DISKSIZE" using sub tb(4) root_in_blocks by blast
  then show wf: "wf_inode (inode_at D (root n))" using inodes.read_struct [OF assms(1)] by (simp add: D_def)
  have "set (used_blocks D (root n)) \<subseteq> set (blocks_of D n)" by (cases n) auto
  with sub tb(4) show "\<forall>b \<in> set (used_blocks D (root n)). b < FS_DISKSIZE" by blast
  show "isize (inode_at D (root n)) \<le> length (blocks (inode_at D (root n)))"
    using ok wf by (simp add: inode_ok_def wf_inode_def)
qed

lemma child_node:
  assumes "rep D n" "c \<in> set (children D (root n))"
  shows "\<exists>m \<in> set (kids n). root m = c"
proof -
  have "mset (map root (kids n)) = mset (children D (root n))" using assms(1) by (cases n) simp
  then have "set (map root (kids n)) = set (children D (root n))" by (rule mset_eq_setD)
  with assms(2) show ?thesis by (metis imageE list.set_map)
qed

lemma kid_in_nodes:
  assumes "n \<in> set (nodes t)" "m \<in> set (kids n)"
  shows "m \<in> set (nodes t)"
  using assms(1)
proof (induction t rule: nodes.induct)
  case (1 b ts)
  show ?case using nodes_cases [OF "1.prems"]
  proof
    assume "n = Node b ts"
    moreover have "m \<in> set (nodes m)" by (cases m) simp
    ultimately show ?thesis using assms(2) by auto
  next
    assume "\<exists>t \<in> set ts. n \<in> set (nodes t)"
    then show ?thesis using "1.IH" by auto
  qed
qed

lemma file_node: "rep D n \<Longrightarrow> itype (inode_at D (root n)) \<noteq> CHR ''d'' \<Longrightarrow> n = Node (root n) []"
  by (cases n) (simp add: children_def live_entries_def)

lemma used_nth:
  assumes "k < isize (inode_at D b)" "isize (inode_at D b) \<le> length (blocks (inode_at D b))"
  shows "blocks (inode_at D b) ! k \<in> set (used_blocks D b)"
proof -
  have "used_blocks D b ! k \<in> set (used_blocks D b)" using assms by (intro nth_mem) (simp add: used_blocks_def)
  with assms(1) show ?thesis by (simp add: used_blocks_def)
qed

section \<open>Searching a directory\<close>

lemma find_slot_Some:
  "find_slot es x = Some j \<Longrightarrow> j < length es \<and> inode_block (es ! j) \<noteq> 0 \<and> c_str (dname (es ! j)) = c_str x"
  by (induction es arbitrary: j) (auto simp: strcmp_eq_def split: if_splits)

lemma find_slot_None:
  "find_slot es x = None \<longleftrightarrow> (\<forall>e \<in> set es. inode_block e = 0 \<or> c_str (dname e) \<noteq> c_str x)"
  by (induction es) (auto simp: strcmp_eq_def)

text \<open>What a search of a sound directory returns: an entry with the name, or none exists.\<close>

lemma find_direntry_spec:
  assumes "disk_laws io" "\<forall>b \<in> set (drop i (take (i + n) (blocks ino))). b < FS_DISKSIZE" "i + n \<le> length (blocks ino)"
    and D_def: "D = image_of io d"
  shows "\<exists>r. find_direntry io d ino x n i = Some r
    \<and> (case r of
         None \<Rightarrow> \<forall>b \<in> set (drop i (take (i + n) (blocks ino))). find_slot (dec_direntries (D b)) x = None
       | Some (k, b, j, es) \<Rightarrow> i \<le> k \<and> k < i + n \<and> b = blocks ino ! k \<and> es = dec_direntries (D b)
           \<and> find_slot es x = Some j)"
  using assms(2,3)
proof (induction n arbitrary: i)
  case (Suc n)
  have i: "i < length (blocks ino)" using Suc.prems(2) by simp
  have step: "drop i (take (i + Suc n) (blocks ino)) = blocks ino ! i # drop (Suc i) (take (Suc i + n) (blocks ino))"
    using i by (simp add: Cons_nth_drop_Suc [symmetric])
  then have b: "blocks ino ! i < FS_DISKSIZE" using Suc.prems(1) by simp
  note rd = disk_read(1) [OF assms(1) b, of d, folded D_def]
  show ?case
  proof (cases "find_slot (dec_direntries (D (blocks ino ! i))) x")
    case None
    obtain r where r: "find_direntry io d ino x n (Suc i) = Some r"
      "case r of
         None \<Rightarrow> \<forall>b \<in> set (drop (Suc i) (take (Suc i + n) (blocks ino))). find_slot (dec_direntries (D b)) x = None
       | Some (k, b, j, es) \<Rightarrow> Suc i \<le> k \<and> k < Suc i + n \<and> b = blocks ino ! k \<and> es = dec_direntries (D b)
           \<and> find_slot es x = Some j"
      using Suc.IH [of "Suc i"] Suc.prems step by auto
    with None i rd step show ?thesis by (auto simp: at_def split: option.splits)
  next
    case (Some j)
    with i rd show ?thesis by (simp add: at_def)
  qed
qed simp


text \<open>The same for a directory of the tree, in terms of its entries.\<close>

lemma find_in_node:
  assumes "disk_laws io" "fs_tree io s t" "n \<in> set (nodes t)"
    and D: "D = image_of io (disk s)" and dir: "itype (inode_at D (root n)) = CHR ''d''"
  shows "\<exists>r. find_direntry io (disk s) (inode_at D (root n)) x (isize (inode_at D (root n))) 0 = Some r
    \<and> (case r of
         None \<Rightarrow> c_str x \<notin> set (names D (root n))
       | Some (k, b, j, es) \<Rightarrow> k < isize (inode_at D (root n)) \<and> b = blocks (inode_at D (root n)) ! k
           \<and> b \<in> set (used_blocks D (root n)) \<and> es = dec_direntries (D b) \<and> j < length es
           \<and> inode_block (es ! j) \<noteq> 0 \<and> c_str (dname (es ! j)) = c_str x
           \<and> inode_block (es ! j) \<in> set (children D (root n))
           \<and> (\<exists>m \<in> set (nodes t). root m = inode_block (es ! j) \<and> m \<in> set (kids n)))"
proof -
  let ?i = "inode_at D (root n)"
  note nf = node_facts [OF assms(1-3), folded D]
  have used: "drop 0 (take (0 + isize ?i) (blocks ?i)) = used_blocks D (root n)" by (simp add: used_blocks_def)
  obtain r where r: "find_direntry io (disk s) ?i x (isize ?i) 0 = Some r"
    "case r of
         None \<Rightarrow> \<forall>b \<in> set (used_blocks D (root n)). find_slot (dec_direntries (D b)) x = None
       | Some (k, b, j, es) \<Rightarrow> 0 \<le> k \<and> k < 0 + isize ?i \<and> b = blocks ?i ! k \<and> es = dec_direntries (D b)
           \<and> find_slot es x = Some j"
    using find_direntry_spec [OF assms(1), of 0 "isize ?i" ?i D "disk s" x] nf(4,5) D unfolding used by auto
  show ?thesis
  proof (cases r)
    case None
    with r(2) have "c_str x \<notin> set (names D (root n))"
      by (fastforce simp: find_slot_None names_def live_entries_def entries_def)
    with None r(1) show ?thesis by simp
  next
    case (Some q)
    obtain k b j es where q: "q = (k, b, j, es)" by (cases q)
    with Some r(2) have k: "k < isize ?i" "b = blocks ?i ! k" "es = dec_direntries (D b)" "find_slot es x = Some j" by auto
    have b: "b \<in> set (used_blocks D (root n))"
      using used_nth k(1,2) nf(5) by simp
    note fs = find_slot_Some [OF k(4)]
    have "es ! j \<in> set (dec_direntries (D b))" using fs k(3) by simp
    then have "es ! j \<in> set (entries D (root n))" using b by (auto simp: entries_def)
    then have "es ! j \<in> set (live_entries D (root n))" using fs dir by (simp add: live_entries_def)
    then have c: "inode_block (es ! j) \<in> set (children D (root n))" by (simp add: children_def)
    with child_node [OF nf(7)] kid_in_nodes [OF assms(3)] fs b k Some q r(1) show ?thesis by fastforce
  qed
qed

section \<open>Path traversal\<close>

lemma traverse_loop_spec:
  assumes "disk_laws io" "fs_tree io s t" and D: "D = image_of io (disk s)"
  shows "n \<in> set (nodes t) \<Longrightarrow> \<exists>r evs'.
    traverse_loop io (disk s) mode own p i (inode_at D (root n)) (root n) evs = Some (r, evs')
    \<and> (\<forall>ino b. r = Some (ino, b) \<longrightarrow> ino = inode_at D b \<and> (\<exists>m \<in> set (nodes t). root m = b))"
proof (induction p arbitrary: n i evs)
  case Nil
  then show ?case by auto
next
  case (Cons x p)
  note nf = node_facts [OF assms(1,2) Cons.prems, folded D]
  let ?i = "inode_at D (root n)"
  show ?case
  proof (cases "itype ?i = CHR ''f'' \<or> \<not> strcmp_eq own (owner ?i) \<and> i \<noteq> 0")
    case True
    then show ?thesis by auto
  next
    case False
    then have dir: "itype ?i = CHR ''d''" using nf(3) by (auto simp: inode_ok_def)
    obtain r where r: "find_direntry io (disk s) ?i x (isize ?i) 0 = Some r"
      "\<And>k b j es. r = Some (k, b, j, es) \<Longrightarrow> \<exists>m \<in> set (nodes t). root m = inode_block (es ! j)"
      using find_in_node [OF assms(1,2) Cons.prems D dir, of x] by (fastforce split: option.splits)
    show ?thesis
    proof (cases r)
      case None
      with r(1) False show ?thesis by auto
    next
      case (Some q)
      obtain k b j es where q: "q = (k, b, j, es)" by (cases q)
      with Some r(2) obtain m where m: "m \<in> set (nodes t)" "root m = inode_block (es ! j)" by blast
      have "disk_readblock io (disk s) (root m) = Some (D (root m))"
        using disk_read(1) [OF assms(1) node_facts(1) [OF assms(1,2) m(1)]] D by simp
      with r(1) Some q m(2) False
      have "traverse_loop io (disk s) mode own (x # p) i ?i (root n) evs
        = traverse_loop io (disk s) mode own p (Suc i) (inode_at D (root m)) (root m)
            (evs @ [Acquire (if p = [] then mode else Shared) (root m), Release (root n)])"
        by (auto simp: Let_def simp del: traverse_loop.simps(1))
      with Cons.IH [OF m(1)] show ?thesis by simp
    qed
  qed
qed

text \<open>A traversal that succeeds yields a node of the tree.\<close>

lemma traverse_fs_spec:
  assumes "disk_laws io" "fs_tree io s t" and D: "D = image_of io (disk s)"
  obtains evs where "traverse_fs io (disk s) mode p own = Some (None, evs)"
  | n evs where "traverse_fs io (disk s) mode p own = Some (Some (inode_at D (root n), root n), evs)" "n \<in> set (nodes t)"
proof -
  have t: "t \<in> set (nodes t)" "root t = 0" using assms(2) by (cases t; simp add: fs_tree_def)+
  have rd: "disk_readblock io (disk s) 0 = Some (D 0)"
    using disk_read(1) [OF assms(1), of 0] D by (simp add: FS_DISKSIZE_def)
  show ?thesis
  proof (cases "p = []")
    case True
    with rd t that(2) [of t] show ?thesis by (simp add: traverse_fs_def)
  next
    case False
    obtain r evs where r: "traverse_loop io (disk s) mode own p 0 (inode_at D 0) 0 [Acquire Shared 0] = Some (r, evs)"
      "\<forall>ino b. r = Some (ino, b) \<longrightarrow> ino = inode_at D b \<and> (\<exists>m \<in> set (nodes t). root m = b)"
      using traverse_loop_spec [OF assms t(1), of mode own p 0 "[Acquire Shared 0]"] t(2) by auto
    with False rd have tr: "traverse_fs io (disk s) mode p own = Some (r, evs)" by (simp add: traverse_fs_def)
    show ?thesis
    proof (cases r)
      case None
      with tr that(1) show ?thesis by simp
    next
      case (Some q)
      with r(2) obtain m where "m \<in> set (nodes t)" "q = (inode_at D (root m), root m)" by (cases q) auto
      with tr Some that(2) show ?thesis by simp
    qed
  qed
qed

end
