(* ===== verification/Fs_Files.thy ===== *)
theory Fs_Files
  imports Fs_Invariant
begin

text \<open>
  Reading and writing the blocks of a file keep the invariant of the file system and never
  abort.
\<close>

section \<open>Data blocks\<close>

lemma keep_free: "s\<lparr>disk := d, free_disk_blocks := free_disk_blocks s\<rparr> = s\<lparr>disk := d\<rparr>"
  by simp

text \<open>Overwriting a data block of a file.\<close>

lemma write_existing:
  assumes "disk_laws io" "fs_tree io s t" "n \<in> set (nodes t)" and D: "D = image_of io (disk s)"
    and regular: "itype (inode_at D (root n)) \<noteq> CHR ''d''"
    and b: "b \<in> set (used_blocks D (root n))" and len: "length bytes = FS_BLOCKSIZE"
  shows "\<exists>d' t'. disk_writeblock io (disk s) b bytes = Some d' \<and> image_of io d' = D(b := bytes)
    \<and> fs_tree io (s\<lparr>disk := d'\<rparr>) t'"
proof -
  note nf = node_facts [OF assms(1-3), folded D]
  obtain x where n: "n = Node x []" using file_node [OF nf(7) regular] by blast
  obtain d' where d': "disk_writeblock io (disk s) b bytes = Some d'" "image_of io d' = D(b := bytes)"
    using disk_write [OF assms(1) _ len, of b "disk s"] nf(4) b D by auto
  have bx: "b \<noteq> x" using nf(6) b by (auto simp: n)
  have same: "used_blocks (image_of io d') x = used_blocks D x" "inode_at (image_of io d') x = inode_at D x"
    using bx by (simp_all add: d'(2) used_blocks_def)
  have "live_entries (image_of io d') x = []" using regular bx by (simp add: n d'(2) live_entries_def)
  then have "rep (image_of io d') n"
    using nf(7) regular same bx by (simp add: n inode_ok_def names_def children_def live_entries_def)
  moreover have "blocks_of (image_of io d') n = blocks_of D n" using same by (simp add: n)
  moreover have "\<forall>y \<in> set (blocks_of D t) - set (blocks_of D n). D y = image_of io d' y"
    using b by (auto simp: d'(2) n)
  ultimately have "fs_tree io (s\<lparr>disk := d', free_disk_blocks := free_disk_blocks s\<rparr>) (graft (root n) n t)"
    using assms(2,3) D by (intro fs_tree_graft) auto
  then show ?thesis using d' unfolding keep_free by blast
qed

text \<open>Adding a block at the end of a file: the block is taken from the front of the free list.\<close>

lemma take_Suc_update: "n < length xs \<Longrightarrow> take (Suc n) (xs[n := y]) = take n xs @ [y]"
  by (simp add: take_Suc_conv_app_nth)

lemma wf_inode_append:
  assumes "wf_inode i" "isize i < FS_MAXFILEBLOCKS" "b < FS_DISKSIZE"
  shows "wf_inode (i\<lparr>blocks := (blocks i)[isize i := b], isize := isize i + 1\<rparr>)"
  using assms by (auto simp: wf_inode_def fs_param_defs FS_DISKSIZE_def dest!: set_update_subset_insert [THEN subsetD])

lemma append_block:
  assumes "disk_laws io" "fs_tree io s t" "n \<in> set (nodes t)" and D: "D = image_of io (disk s)"
    and regular: "itype (inode_at D (root n)) \<noteq> CHR ''d''"
    and free: "free_disk_blocks s = b # free" and len: "length bytes = FS_BLOCKSIZE"
    and room: "isize (inode_at D (root n)) < FS_MAXFILEBLOCKS"
    and ino': "ino' = (inode_at D (root n))\<lparr>blocks := (blocks (inode_at D (root n)))[isize (inode_at D (root n)) := b],
      isize := isize (inode_at D (root n)) + 1\<rparr>"
  shows "\<exists>d1 d2 t'. disk_writeblock io (disk s) b bytes = Some d1
    \<and> disk_writeblock io d1 (root n) (enc_inode ino') = Some d2
    \<and> image_of io d2 = D(b := bytes, root n := enc_inode ino')
    \<and> fs_tree io (s\<lparr>disk := d2, free_disk_blocks := free\<rparr>) t'"
proof -
  note nf = node_facts [OF assms(1-3), folded D] and tb = fs_tree_blocks [OF assms(2), folded D]
  obtain x where n: "n = Node x []" using file_node [OF nf(7) regular] by blast
  have b: "b < FS_DISKSIZE" "b \<notin> set (blocks_of D t)" using tb(3,5) free by auto
  then have bn: "b \<notin> set (blocks_of D n)" using nodes_blocks [OF assms(3)] by blast
  have wf: "wf_inode ino'" using wf_inode_append [OF nf(2) room b(1)] ino' by simp
  obtain d1 where d1: "disk_writeblock io (disk s) b bytes = Some d1" "image_of io d1 = D(b := bytes)"
    using disk_write [OF assms(1) b(1) len, of "disk s"] D by auto
  obtain d2 where d2: "disk_writeblock io d1 x (enc_inode ino') = Some d2"
    "image_of io d2 = (image_of io d1)(x := enc_inode ino')" "inode_at (image_of io d2) x = ino'"
    using inodes.write_struct [OF assms(1) nf(1) wf, of d1] unfolding n tree.sel by blast
  have "isize (inode_at D x) < length (blocks (inode_at D x))" using nf(2) room by (simp add: n wf_inode_def)
  then have used: "used_blocks (image_of io d2) x = used_blocks D x @ [b]"
    using take_Suc_update unfolding used_blocks_def d2(3) ino' by (simp add: n)
  have it: "itype ino' = itype (inode_at D x)" by (simp add: ino' n)
  have "live_entries (image_of io d2) x = []" using regular it by (simp add: n d2(3) live_entries_def)
  then have "rep (image_of io d2) n"
    using nf(7) regular room it by (simp add: n inode_ok_def names_def children_def d2(3)) (simp add: ino' n)
  moreover have "mset (blocks_of (image_of io d2) n) + mset free = mset (blocks_of D n) + mset (free_disk_blocks s)"
    using used free by (simp add: n)
  moreover have "\<forall>y \<in> set (blocks_of D t) - set (blocks_of D n). D y = image_of io d2 y"
    using b(2) by (auto simp: d2(2) d1(2) n)
  ultimately have "fs_tree io (s\<lparr>disk := d2, free_disk_blocks := free\<rparr>) (graft (root n) n t)"
    using assms(2,3) D by (intro fs_tree_graft) auto
  then show ?thesis using d1 d2 unfolding n tree.sel by metis
qed

section \<open>The handlers\<close>

lemma readblock_inv:
  assumes "disk_laws io" "fs_tree io s t"
  shows "\<exists>r evs. execute_readblock io s u p blk = Some (r, s, evs) \<and> (\<forall>bs. r = Out bs \<longrightarrow> length bs = FS_BLOCKSIZE) \<and> r \<noteq> Done"
proof -
  let ?D = "image_of io (disk s)"
  show ?thesis
  proof (cases "p = [] \<or> FS_MAXFILEBLOCKS \<le> blk")
    case True
    then show ?thesis by (auto simp: execute_readblock_def)
  next
    case False
    show ?thesis
    proof (cases rule: traverse_fs_spec [OF assms refl, of Shared p u])
      case (1 evs)
      with False show ?thesis by (simp add: execute_readblock_def)
    next
      case (2 n evs)
      note nf = node_facts [OF assms 2(2)]
      have "blocks (inode_at ?D (root n)) ! blk < FS_DISKSIZE" if "blk < isize (inode_at ?D (root n))"
        using used_nth [of blk ?D "root n"] that nf(4,5) by blast
      with False 2(1) nf(5) disk_read [OF assms(1)] show ?thesis
        by (auto simp: execute_readblock_def at_def)
    qed
  qed
qed

lemma writeblock_inv:
  assumes "disk_laws io" "fs_tree io s t" "length bytes = FS_BLOCKSIZE"
  shows "\<exists>r s' evs t'. execute_writeblock io s u p blk (Some bytes) = Some (r, s', evs) \<and> fs_tree io s' t'
    \<and> (\<forall>bs. r \<noteq> Out bs)"
proof (cases "p = [] \<or> FS_MAXFILEBLOCKS \<le> blk")
  case True
  with assms(2) show ?thesis by (auto simp: execute_writeblock_def)
next
  case False
  let ?D = "image_of io (disk s)"
  show ?thesis
  proof (cases rule: traverse_fs_spec [OF assms(1,2) refl, of Upgradable p u])
    case (1 evs)
    with False assms(2) show ?thesis by (auto simp: execute_writeblock_def)
  next
    case (2 n evs)
    note nf = node_facts [OF assms(1,2) 2(2)]
    let ?i = "inode_at ?D (root n)"
    consider "itype ?i = CHR ''d''" | "itype ?i \<noteq> CHR ''d''" "blk < isize ?i" | "itype ?i \<noteq> CHR ''d''" "blk = isize ?i"
      | "itype ?i \<noteq> CHR ''d''" "isize ?i < blk" by linarith
    then show ?thesis
    proof cases
      case 1
      with False 2(1) assms(2) show ?thesis by (auto simp: execute_writeblock_def)
    next
      case b: 2
      then have "blocks ?i ! blk \<in> set (used_blocks ?D (root n))"
        using used_nth [of blk ?D "root n"] nf(5) by blast
      from write_existing [OF assms(1,2) 2(2) refl b(1) this assms(3)] False 2(1) b nf(5) show ?thesis
        by (auto simp: execute_writeblock_def at_def)
    next
      case e: 3
      show ?thesis
      proof (cases "free_disk_blocks s")
        case Nil
        with False 2(1) e assms(2) show ?thesis by (auto simp: execute_writeblock_def)
      next
        case (Cons b free)
        have "isize ?i < FS_MAXFILEBLOCKS" using False e by simp
        from append_block [OF assms(1,2) 2(2) refl e(1) Cons assms(3) this refl] False 2(1) e Cons nf(2) show ?thesis
          by (auto simp: execute_writeblock_def wf_inode_def)
      qed
    next
      case 4
      with False 2(1) assms(2) show ?thesis by (auto simp: execute_writeblock_def)
    qed
  qed
qed

end
