(* ===== verification/Fs_Dirs.thy ===== *)
theory Fs_Dirs
  imports Fs_Files
begin

text \<open>
  Creating and deleting files and directories keep the invariant of the file system and never
  abort.
\<close>

section \<open>Changing the entries of a directory\<close>

abbreviation populated :: "(nat \<Rightarrow> char list) \<Rightarrow> nat \<Rightarrow> bool" where
  "populated D b \<equiv> list_all (\<lambda>db. list_ex (\<lambda>e. inode_block e \<noteq> 0) (dec_direntries (D db))) (used_blocks D b)"

lemma rep_add_child:
  assumes "rep D (Node x ts)" "list_all (rep D') ts" "rep D' c" "root c = inode_block e"
    "itype (inode_at D' x) = CHR ''d''" "isize (inode_at D' x) \<le> FS_MAXFILEBLOCKS" "populated D' x"
    "mset (live_entries D' x) = add_mset e (mset (live_entries D x))" "c_str (dname e) \<notin> set (names D x)"
  shows "rep D' (Node x (c # ts))"
proof -
  have "mset (names D' x) = mset (c_str (dname e) # names D x)" using assms(8) by (simp add: names_def)
  moreover have "distinct (c_str (dname e) # names D x)" using assms(1,9) by (simp add: inode_ok_def)
  ultimately have "distinct (names D' x)" using mset_eq_imp_distinct_iff by blast
  with assms show ?thesis by (simp add: inode_ok_def children_def)
qed

lemma rep_remove_child:
  assumes "rep D (Node x (us @ c # vs))" "list_all (rep D') (us @ vs)" "root c = inode_block e"
    "itype (inode_at D' x) = CHR ''d''" "isize (inode_at D' x) \<le> FS_MAXFILEBLOCKS" "populated D' x"
    "add_mset e (mset (live_entries D' x)) = mset (live_entries D x)"
  shows "rep D' (Node x (us @ vs))"
proof -
  have im: "image_mset (\<lambda>e. c_str (dname e)) (add_mset e (mset (live_entries D' x)))
      = image_mset (\<lambda>e. c_str (dname e)) (mset (live_entries D x))"
    and im2: "image_mset inode_block (add_mset e (mset (live_entries D' x))) = image_mset inode_block (mset (live_entries D x))"
    using assms(7) by (rule arg_cong)+
  have "mset (c_str (dname e) # names D' x) = mset (names D x)"
    using im by (simp add: names_def)
  moreover have "distinct (names D x)" using assms(1) by (simp add: inode_ok_def)
  ultimately have "distinct (c_str (dname e) # names D' x)" using mset_eq_imp_distinct_iff by blast
  moreover have "add_mset (root c) (mset (map root (us @ vs))) = add_mset (inode_block e) (mset (children D' x))"
    using assms(1) im2 by (simp add: children_def)
  ultimately show ?thesis using assms(2-6) by (simp add: inode_ok_def)
qed

text \<open>The other nodes below the directory are not touched.\<close>

lemma kids_frame:
  assumes "distinct (blocks_of D (Node x ts))" "list_all (rep D) ts"
    "\<And>y. y \<noteq> x \<Longrightarrow> y \<notin> set (used_blocks D x) \<Longrightarrow> y \<in> set (blocks_of D (Node x ts)) \<Longrightarrow> D y = D' y"
  shows "list_all (rep D') ts" "map (blocks_of D') ts = map (blocks_of D) ts"
proof -
  have same: "\<forall>y \<in> set (blocks_of D t). D y = D' y" if "t \<in> set ts" for t
    using assms(1) that by (intro ballI assms(3)) auto
  show "list_all (rep D') ts" using rep_cong [OF same] assms(2) by (auto simp: list_all_iff)
  show "map (blocks_of D') ts = map (blocks_of D) ts" using blocks_of_cong [OF same] by simp
qed

text \<open>One block of entries is rewritten.\<close>

lemma entries_update:
  assumes "distinct (used_blocks D x)" "b \<in> set (used_blocks D x)" "D' x = D x"
    "\<forall>y \<in> set (used_blocks D x) - {b}. D' y = D y"
  shows "mset (entries D' x) + mset (dec_direntries (D b)) = mset (entries D x) + mset (dec_direntries (D' b))"
proof -
  obtain us vs where u: "used_blocks D x = us @ b # vs" using assms(2) by (meson split_list)
  have "used_blocks D' x = us @ b # vs" using u assms(3) by (simp add: used_blocks_def)
  moreover have "map (\<lambda>db. dec_direntries (D' db)) us = map (\<lambda>db. dec_direntries (D db)) us"
    "map (\<lambda>db. dec_direntries (D' db)) vs = map (\<lambda>db. dec_direntries (D db)) vs"
    using assms(1,4) u by auto
  ultimately show ?thesis unfolding entries_def u by (simp del: map_eq_conv)
qed

lemma populated_update:
  assumes "populated D x" "used_blocks D' x = used_blocks D x" "\<forall>y \<in> set (used_blocks D x) - {b}. D' y = D y"
    "list_ex (\<lambda>e. inode_block e \<noteq> 0) (dec_direntries (D' b))"
  shows "populated D' x"
  unfolding list_all_iff assms(2)
proof
  fix db assume "db \<in> set (used_blocks D x)"
  with assms show "list_ex (\<lambda>e. inode_block e \<noteq> 0) (dec_direntries (D' db))"
    by (cases "db = b") (auto simp: list_all_iff)
qed

lemma wf_new_entry:
  assumes "wf_direntries es" "length (dname e) = FS_MAXFILENAME + 1" "inode_block e < FS_DISKSIZE"
  shows "wf_direntries (es[j := e])"
  using assms by (auto simp: wf_direntries_def wf_direntry_def FS_DISKSIZE_def dest!: set_update_subset_insert [THEN subsetD])

text \<open>The node of a file or directory that has just been created.\<close>

lemma rep_new_node:
  assumes "inode_at D b = ino" "isize ino = 0" "itype ino \<in> {CHR ''f'', CHR ''d''}"
  shows "rep D (Node b [])" "blocks_of D (Node b []) = [b]"
  using assms by (auto simp: used_blocks_def inode_ok_def names_def children_def live_entries_def entries_def)


section \<open>The scan of FS_CREATE\<close>

lemma first_free_spec:
  "case first_free es of None \<Rightarrow> \<forall>e \<in> set es. inode_block e \<noteq> 0 | Some j \<Rightarrow> j < length es \<and> inode_block (es ! j) = 0"
proof (cases "filter (\<lambda>j. inode_block (es ! j) = 0) [0..<length es]")
  case Nil
  then show ?thesis by (auto simp: first_free_def filter_empty_conv in_set_conv_nth)
next
  case (Cons j js)
  then have "j \<in> set (filter (\<lambda>j. inode_block (es ! j) = 0) [0..<length es])" by simp
  then have "j < length es \<and> inode_block (es ! j) = 0" unfolding set_filter by auto
  with Cons show ?thesis by (simp add: first_free_def)
qed

definition spot_ok :: "(nat \<Rightarrow> char list) \<Rightarrow> nat set \<Rightarrow> nat \<times> nat \<times> fs_direntry list \<Rightarrow> bool" where
  "spot_ok D B q \<longleftrightarrow> (case q of (b, j, es) \<Rightarrow> b \<in> B \<and> es = dec_direntries (D b) \<and> j < length es \<and> inode_block (es ! j) = 0)"

lemma create_scan_spec:
  assumes "disk_laws io" "\<forall>b \<in> set (drop i (take (i + n) (blocks ino))). b < FS_DISKSIZE" "i + n \<le> length (blocks ino)"
    and D_def: "D = image_of io d" and "set (drop i (take (i + n) (blocks ino))) \<subseteq> B"
    and "case spot of None \<Rightarrow> True | Some q \<Rightarrow> spot_ok D B q"
  shows "\<exists>r. create_scan io d ino x n i spot = Some r
    \<and> (case r of
         Inl _ \<Rightarrow> \<exists>b \<in> set (drop i (take (i + n) (blocks ino))). find_slot (dec_direntries (D b)) x \<noteq> None
       | Inr sp \<Rightarrow> (\<forall>b \<in> set (drop i (take (i + n) (blocks ino))). find_slot (dec_direntries (D b)) x = None)
           \<and> (case sp of None \<Rightarrow> True | Some q \<Rightarrow> spot_ok D B q))"
  using assms(2,3,5,6)
proof (induction n arbitrary: i spot)
  case (Suc n)
  have i: "i < length (blocks ino)" using Suc.prems(2) by simp
  have step: "drop i (take (i + Suc n) (blocks ino)) = blocks ino ! i # drop (Suc i) (take (Suc i + n) (blocks ino))"
    using i by (simp add: Cons_nth_drop_Suc [symmetric])
  then have b: "blocks ino ! i < FS_DISKSIZE" "blocks ino ! i \<in> B" using Suc.prems(1,3) by simp_all
  note rd = disk_read(1) [OF assms(1) b(1), of d, folded D_def]
  let ?es = "dec_direntries (D (blocks ino ! i))"
  show ?case
  proof (cases "find_slot ?es x")
    case (Some j)
    with i rd step show ?thesis by (simp add: at_def)
  next
    case None
    let ?spot = "case spot of Some sp \<Rightarrow> Some sp | None \<Rightarrow> map_option (\<lambda>j. (blocks ino ! i, j, ?es)) (first_free ?es)"
    have "case ?spot of None \<Rightarrow> True | Some q \<Rightarrow> spot_ok D B q"
      using Suc.prems(4) b(2) first_free_spec [of ?es] by (auto simp: spot_ok_def split: option.splits)
    then obtain r where r: "create_scan io d ino x n (Suc i) ?spot = Some r"
      "case r of
         Inl _ \<Rightarrow> \<exists>b \<in> set (drop (Suc i) (take (Suc i + n) (blocks ino))). find_slot (dec_direntries (D b)) x \<noteq> None
       | Inr sp \<Rightarrow> (\<forall>b \<in> set (drop (Suc i) (take (Suc i + n) (blocks ino))). find_slot (dec_direntries (D b)) x = None)
           \<and> (case sp of None \<Rightarrow> True | Some q \<Rightarrow> spot_ok D B q)"
      using Suc.IH [of "Suc i" ?spot] Suc.prems(1-3) unfolding step by auto
    have "create_scan io d ino x (Suc n) i spot = Some r" using None i rd r(1) by (simp add: at_def)
    with r(2) None show ?thesis unfolding step by (auto split: sum.splits)
  qed
qed (use assms in simp)

text \<open>The scan of a directory of the tree.\<close>

lemma create_scan_node:
  assumes "disk_laws io" "fs_tree io s t" "n \<in> set (nodes t)" and D: "D = image_of io (disk s)"
    and dir: "itype (inode_at D (root n)) = CHR ''d''"
  shows "\<exists>r. create_scan io (disk s) (inode_at D (root n)) x (isize (inode_at D (root n))) 0 None = Some r
    \<and> (\<forall>e. r = Inl e \<longrightarrow> c_str x \<in> set (names D (root n)))
    \<and> (\<forall>sp. r = Inr sp \<longrightarrow> c_str x \<notin> set (names D (root n))
        \<and> (case sp of None \<Rightarrow> True | Some q \<Rightarrow> spot_ok D (set (used_blocks D (root n))) q))"
proof -
  let ?i = "inode_at D (root n)"
  note nf = node_facts [OF assms(1-3), folded D]
  have used: "drop 0 (take (0 + isize ?i) (blocks ?i)) = used_blocks D (root n)" by (simp add: used_blocks_def)
  obtain r where r: "create_scan io (disk s) ?i x (isize ?i) 0 None = Some r"
    "case r of
         Inl _ \<Rightarrow> \<exists>b \<in> set (used_blocks D (root n)). find_slot (dec_direntries (D b)) x \<noteq> None
       | Inr sp \<Rightarrow> (\<forall>b \<in> set (used_blocks D (root n)). find_slot (dec_direntries (D b)) x = None)
           \<and> (case sp of None \<Rightarrow> True | Some q \<Rightarrow> spot_ok D (set (used_blocks D (root n))) q)"
    using create_scan_spec [OF assms(1), of 0 "isize ?i" ?i D "disk s" "set (used_blocks D (root n))" None x] nf(4,5) D
    unfolding used by auto
  have "c_str x \<notin> set (names D (root n))" if "\<forall>b \<in> set (used_blocks D (root n)). find_slot (dec_direntries (D b)) x = None"
    using that by (fastforce simp: find_slot_None names_def live_entries_def entries_def)
  moreover have "c_str x \<in> set (names D (root n))" if found: "\<exists>b \<in> set (used_blocks D (root n)). find_slot (dec_direntries (D b)) x \<noteq> None"
  proof -
    obtain b e where "b \<in> set (used_blocks D (root n))" "e \<in> set (dec_direntries (D b))" "inode_block e \<noteq> 0" "c_str (dname e) = c_str x"
      using found unfolding find_slot_None by blast
    with dir show ?thesis by (force simp: names_def live_entries_def entries_def)
  qed
  ultimately show ?thesis using r by (auto split: sum.splits)
qed


section \<open>FS_CREATE\<close>

lemma mset_replace:
  assumes "j < length es"
  shows "add_mset (es ! j) (mset (es[j := e])) = add_mset e (mset es)"
  using assms by (simp add: mset_update)

text \<open>The entries of a directory after one entry has been replaced, and after a dead one has been filled in.\<close>

lemma entries_replace:
  assumes "distinct (used_blocks D x)" "b \<in> set (used_blocks D x)" "D' x = D x"
    "\<forall>y \<in> set (used_blocks D x) - {b}. D' y = D y" "dec_direntries (D' b) = (dec_direntries (D b))[j := e]"
    "j < length (dec_direntries (D b))"
  shows "add_mset (dec_direntries (D b) ! j) (mset (entries D' x)) = add_mset e (mset (entries D x))"
proof -
  let ?es = "dec_direntries (D b)"
  have "mset (entries D' x) + mset ?es + {#?es ! j#} = mset (entries D x) + (mset (?es[j := e]) + {#?es ! j#})"
    using entries_update [OF assms(1-4)] assms(5) by (simp add: ac_simps)
  also have "\<dots> = add_mset e (mset (entries D x)) + mset ?es" by (simp add: mset_replace assms(6))
  finally have "mset (entries D' x) + {#?es ! j#} = add_mset e (mset (entries D x))"
    by (metis (no_types, lifting) add.assoc add.commute add_right_cancel)
  then show ?thesis by simp
qed

lemma live_entries_fill:
  assumes "distinct (used_blocks D x)" "b \<in> set (used_blocks D x)" "D' x = D x" "itype (inode_at D x) = CHR ''d''"
    "\<forall>y \<in> set (used_blocks D x) - {b}. D' y = D y" "dec_direntries (D' b) = (dec_direntries (D b))[j := e]"
    "j < length (dec_direntries (D b))" "inode_block (dec_direntries (D b) ! j) = 0" "inode_block e \<noteq> 0"
  shows "mset (live_entries D' x) = add_mset e (mset (live_entries D x))"
proof -
  have "filter_mset (\<lambda>e. inode_block e \<noteq> 0) (add_mset (dec_direntries (D b) ! j) (mset (entries D' x)))
      = filter_mset (\<lambda>e. inode_block e \<noteq> 0) (add_mset e (mset (entries D x)))"
    using entries_replace [OF assms(1-3,5-7)] by simp
  then show ?thesis using assms(3,4,8,9) by (simp add: live_entries_def)
qed

lemma create_in_slot:
  assumes "disk_laws io" "fs_tree io s t" "n \<in> set (nodes t)" and D: "D = image_of io (disk s)"
    and dir: "itype (inode_at D (root n)) = CHR ''d''"
    and spot: "spot_ok D (set (used_blocks D (root n))) (b, j, es)"
    and free: "free_disk_blocks s = nb # free" and new: "wf_inode new" "isize new = 0" "itype new \<in> {CHR ''f'', CHR ''d''}"
    and name: "length nm = FS_MAXFILENAME + 1" "c_str nm \<notin> set (names D (root n))"
    and es': "es' = es[j := \<lparr>dname = nm, inode_block = nb\<rparr>]"
  shows "\<exists>d1 d2 t'. disk_writeblock io (disk s) nb (enc_inode new) = Some d1
    \<and> disk_writeblock io d1 b (enc_direntries es') = Some d2
    \<and> image_of io d2 = D(nb := enc_inode new, b := enc_direntries es')
    \<and> fs_tree io (s\<lparr>disk := d2, free_disk_blocks := free\<rparr>) t'
    \<and> mset (live_entries (image_of io d2) (root n)) = add_mset \<lparr>dname = nm, inode_block = nb\<rparr> (mset (live_entries D (root n)))
    \<and> inode_at (image_of io d2) nb = new \<and> same_head (inode_at (image_of io d2) (root n)) (inode_at D (root n))"
proof -
  note nf = node_facts [OF assms(1-3), folded D] and tb = fs_tree_blocks [OF assms(2), folded D]
  obtain x ts where n: "n = Node x ts" by (cases n)
  have sp: "b \<in> set (used_blocks D x)" "es = dec_direntries (D b)" "j < length es" "inode_block (es ! j) = 0"
    using spot by (auto simp: spot_ok_def n)
  have nb: "nb < FS_DISKSIZE" "nb \<noteq> 0" "nb \<notin> set (blocks_of D t)" using tb(3,5) free by auto
  then have nbn: "nb \<notin> set (blocks_of D n)" using nodes_blocks [OF assms(3)] by blast
  have b: "b < FS_DISKSIZE" using nf(4) sp(1) by (simp add: n)
  have wes: "wf_direntries es'"
    using direntries.read_struct [OF assms(1) b, of "disk s"] name(1) nb(1) es' sp(2) D by (auto intro!: wf_new_entry)
  obtain d1 where d1: "disk_writeblock io (disk s) nb (enc_inode new) = Some d1" "image_of io d1 = D(nb := enc_inode new)"
    using inodes.write_struct [OF assms(1) nb(1) new(1), of "disk s"] D by auto
  obtain d2 where d2: "disk_writeblock io d1 b (enc_direntries es') = Some d2"
    "image_of io d2 = (image_of io d1)(b := enc_direntries es')" "dec_direntries (image_of io d2 b) = es'"
    using direntries.write_struct [OF assms(1) b wes, of d1] by blast
  let ?D = "image_of io d2" and ?e = "\<lparr>dname = nm, inode_block = nb\<rparr>"
  have im: "?D = D(nb := enc_inode new, b := enc_direntries es')" using d1(2) d2(2) by simp
  have bx: "b \<noteq> x" "nb \<noteq> x" "b \<noteq> nb" "nb \<notin> set (used_blocks D x)" using nf(6) sp(1) nbn by (auto simp: n)
  then have same: "?D x = D x" "?D nb = enc_inode new" by (simp_all add: im)
  then have used: "used_blocks ?D x = used_blocks D x" by (simp add: used_blocks_def)
  have fr: "D y = ?D y" if "y \<noteq> x" "y \<notin> set (used_blocks D x)" "y \<in> set (blocks_of D (Node x ts))" for y
    using that sp(1) nbn by (auto simp: im n)
  have kid: "rep ?D (Node nb [])" "blocks_of ?D (Node nb []) = [nb]"
    using rep_new_node [OF _ new(2,3), of ?D nb] same(2) inodes.dec_enc [OF new(1)] by simp_all
  have dn: "distinct (blocks_of D (Node x ts))" "list_all (rep D) ts" using nf(6,7) by (simp_all add: n)
  note kids = kids_frame [of D x ts ?D, OF dn fr]
  have other: "\<forall>y \<in> set (used_blocks D x) - {b}. ?D y = D y" using bx(4) by (auto simp: im)
  have live: "mset (live_entries ?D x) = add_mset ?e (mset (live_entries D x))"
    using live_entries_fill [of D x b ?D j ?e] nf(6) sp same(1) dir other d2(3) es' nb(2) by (simp add: n)
  have "populated ?D x"
  proof -
    have "?e \<in> set es'" using sp(3) es' by (simp add: set_update_memI)
    then have "list_ex (\<lambda>e. inode_block e \<noteq> 0) es'" unfolding list_ex_iff using nb(2) by (intro bexI [of _ ?e]) simp_all
    moreover have "populated D x" using nf(3) dir by (simp add: inode_ok_def n)
    ultimately show ?thesis using populated_update [OF _ used other] d2(3) by simp
  qed
  then have "rep ?D (Node x (Node nb [] # ts))"
    using nf(3,7) dir same(1) name(2) live kid kids by (intro rep_add_child [of D _ _ _ _ ?e]) (simp_all add: n inode_ok_def)
  moreover have "mset (blocks_of ?D (Node x (Node nb [] # ts))) + mset free = mset (blocks_of D n) + mset (free_disk_blocks s)"
    using used kids(2) kid(2) free by (simp add: n del: map_eq_conv)
  moreover have "\<forall>y \<in> set (blocks_of D t) - set (blocks_of D n). D y = ?D y"
    using nb(3) sp(1) by (auto simp: im n)
  ultimately have "fs_tree io (s\<lparr>disk := d2, free_disk_blocks := free\<rparr>) (graft (root n) (Node x (Node nb [] # ts)) t)"
    using assms(2,3) D by (intro fs_tree_graft) (auto simp: n)
  moreover have "inode_at ?D nb = new" "same_head (inode_at ?D x) (inode_at D x)"
    using same inodes.dec_enc [OF new(1)] by (simp_all add: same_head_def)
  ultimately show ?thesis using d1(1) d2(1) im live unfolding n tree.sel by blast
qed


text \<open>A new block of entries is appended to the directory.\<close>

definition fresh_entries :: "fs_direntry \<Rightarrow> fs_direntry list" where
  "fresh_entries e = (replicate FS_DIRENTRIES empty_direntry)[0 := e]"

lemma fresh_entries_eq: "fresh_entries e = e # replicate 7 empty_direntry"
  by (simp add: fresh_entries_def FS_DIRENTRIES_def eval_nat_numeral)

lemma wf_fresh_entries:
  assumes "length (dname e) = FS_MAXFILENAME + 1" "inode_block e < FS_DISKSIZE"
  shows "wf_direntries (fresh_entries e)"
  unfolding fresh_entries_def
  by (rule wf_new_entry [OF _ assms]) (simp add: wf_direntries_def wf_direntry_def empty_direntry_def)

lemma live_entries_append:
  assumes "used_blocks D' x = used_blocks D x @ [b]" "\<forall>y \<in> set (used_blocks D x). D' y = D y"
    "itype (inode_at D x) = CHR ''d''" "itype (inode_at D' x) = CHR ''d''"
    "dec_direntries (D' b) = fresh_entries e" "inode_block e \<noteq> 0"
  shows "live_entries D' x = live_entries D x @ [e]" "populated D x \<Longrightarrow> populated D' x"
proof -
  have "map (\<lambda>db. dec_direntries (D' db)) (used_blocks D x) = map (\<lambda>db. dec_direntries (D db)) (used_blocks D x)"
    using assms(2) by simp
  then have "entries D' x = entries D x @ fresh_entries e"
    unfolding entries_def assms(1) using assms(5) by (simp del: map_eq_conv)
  then show "live_entries D' x = live_entries D x @ [e]"
    using assms(3,4,6) by (simp add: live_entries_def fresh_entries_eq empty_direntry_def)
  show "populated D' x" if "populated D x"
    using that assms(2,5,6) unfolding assms(1) by (simp add: list_all_iff fresh_entries_eq)
qed

lemma create_in_new_block:
  assumes "disk_laws io" "fs_tree io s t" "n \<in> set (nodes t)" and D: "D = image_of io (disk s)"
    and dir: "itype (inode_at D (root n)) = CHR ''d''" and room: "isize (inode_at D (root n)) < FS_MAXFILEBLOCKS"
    and free: "free_disk_blocks s = nb # eb # free"
    and new: "wf_inode new" "isize new = 0" "itype new \<in> {CHR ''f'', CHR ''d''}"
    and name: "length nm = FS_MAXFILENAME + 1" "c_str nm \<notin> set (names D (root n))"
    and dir': "dir' = (inode_at D (root n))\<lparr>blocks := (blocks (inode_at D (root n)))[isize (inode_at D (root n)) := eb],
      isize := isize (inode_at D (root n)) + 1\<rparr>"
    and es: "es = fresh_entries \<lparr>dname = nm, inode_block = nb\<rparr>"
  shows "\<exists>d1 d2 d3 t'. disk_writeblock io (disk s) eb (enc_direntries es) = Some d1
    \<and> disk_writeblock io d1 nb (enc_inode new) = Some d2
    \<and> disk_writeblock io d2 (root n) (enc_inode dir') = Some d3
    \<and> image_of io d3 = D(eb := enc_direntries es, nb := enc_inode new, root n := enc_inode dir')
    \<and> fs_tree io (s\<lparr>disk := d3, free_disk_blocks := free\<rparr>) t'
    \<and> mset (live_entries (image_of io d3) (root n)) = add_mset \<lparr>dname = nm, inode_block = nb\<rparr> (mset (live_entries D (root n)))
    \<and> inode_at (image_of io d3) nb = new \<and> same_head (inode_at (image_of io d3) (root n)) (inode_at D (root n))"
proof -
  note nf = node_facts [OF assms(1-3), folded D] and tb = fs_tree_blocks [OF assms(2), folded D]
  obtain x ts where n: "n = Node x ts" by (cases n)
  have fb: "nb < FS_DISKSIZE" "nb \<noteq> 0" "nb \<notin> set (blocks_of D t)" "eb < FS_DISKSIZE" "eb \<notin> set (blocks_of D t)" "nb \<noteq> eb"
    using tb(2,3,5) free by auto
  then have fbn: "nb \<notin> set (blocks_of D n)" "eb \<notin> set (blocks_of D n)" using nodes_blocks [OF assms(3)] by blast+
  have wf: "wf_inode dir'" "wf_direntries es"
    using wf_inode_append [OF nf(2) room fb(4)] dir' wf_fresh_entries name(1) fb(1) es by auto
  obtain d1 where d1: "disk_writeblock io (disk s) eb (enc_direntries es) = Some d1" "image_of io d1 = D(eb := enc_direntries es)"
    using direntries.write_struct [OF assms(1) fb(4) wf(2), of "disk s"] D by auto
  obtain d2 where d2: "disk_writeblock io d1 nb (enc_inode new) = Some d2" "image_of io d2 = (image_of io d1)(nb := enc_inode new)"
    using inodes.write_struct [OF assms(1) fb(1) new(1), of d1] by blast
  obtain d3 where d3: "disk_writeblock io d2 x (enc_inode dir') = Some d3"
    "image_of io d3 = (image_of io d2)(x := enc_inode dir')" "inode_at (image_of io d3) x = dir'"
    using inodes.write_struct [OF assms(1) nf(1) wf(1), of d2] unfolding n tree.sel by blast
  let ?D = "image_of io d3" and ?e = "\<lparr>dname = nm, inode_block = nb\<rparr>"
  have im: "?D = D(eb := enc_direntries es, nb := enc_inode new, x := enc_inode dir')" using d1(2) d2(2) d3(2) by simp
  have ne: "nb \<noteq> x" "eb \<noteq> x" "nb \<notin> set (used_blocks D x)" "eb \<notin> set (used_blocks D x)" "x \<notin> set (used_blocks D x)"
    using nf(6) fbn by (auto simp: n)
  have "isize (inode_at D x) < length (blocks (inode_at D x))" using nf(2) room by (simp add: n wf_inode_def)
  then have used: "used_blocks ?D x = used_blocks D x @ [eb]"
    using take_Suc_update unfolding used_blocks_def d3(3) dir' by (simp add: n)
  have "dec_direntries (?D eb) = fresh_entries ?e"
    using ne fb(6) direntries.dec_enc [OF wf(2)] es by (simp add: im)
  moreover have other: "\<forall>y \<in> set (used_blocks D x). ?D y = D y" using ne by (auto simp: im)
  moreover have it: "itype (inode_at ?D x) = CHR ''d''" using dir by (simp add: d3(3) dir' n)
  ultimately have live: "live_entries ?D x = live_entries D x @ [?e]" "populated ?D x"
    using live_entries_append [of ?D x D eb ?e] used dir fb(2) nf(3) by (simp_all add: n inode_ok_def)
  have kid: "rep ?D (Node nb [])" "blocks_of ?D (Node nb []) = [nb]"
    using rep_new_node [OF _ new(2,3), of ?D nb] ne inodes.dec_enc [OF new(1)] by (simp_all add: im)
  have fr: "D y = ?D y" if "y \<noteq> x" "y \<notin> set (used_blocks D x)" "y \<in> set (blocks_of D (Node x ts))" for y
    using that fbn by (auto simp: im n)
  have dn: "distinct (blocks_of D (Node x ts))" "list_all (rep D) ts" using nf(6,7) by (simp_all add: n)
  note kids = kids_frame [of D x ts ?D, OF dn fr]
  have sz: "isize (inode_at ?D x) \<le> FS_MAXFILEBLOCKS" using room by (simp add: d3(3) dir' n)
  have "rep ?D (Node x (Node nb [] # ts))"
    using nf(7) it sz name(2) live kid kids by (intro rep_add_child [of D _ _ _ _ ?e]) (simp_all add: n)
  moreover have "mset (blocks_of ?D (Node x (Node nb [] # ts))) + mset free = mset (blocks_of D n) + mset (free_disk_blocks s)"
    using used kids(2) kid(2) free by (simp add: n del: map_eq_conv)
  moreover have "\<forall>y \<in> set (blocks_of D t) - set (blocks_of D n). D y = ?D y" using fb(3,5) by (auto simp: im n)
  ultimately have "fs_tree io (s\<lparr>disk := d3, free_disk_blocks := free\<rparr>) (graft (root n) (Node x (Node nb [] # ts)) t)"
    using assms(2,3) D by (intro fs_tree_graft) (auto simp: n)
  moreover have "inode_at ?D nb = new" "same_head (inode_at ?D x) (inode_at D x)"
    using ne inodes.dec_enc [OF new(1)] d3(3) by (simp_all add: im same_head_def dir' n)
  moreover have "mset (live_entries ?D x) = add_mset ?e (mset (live_entries D x))" by (simp add: live(1))
  ultimately show ?thesis using d1(1) d2(1) d3(1) im unfolding n tree.sel by blast
qed


text \<open>What the handler is given by the parser.\<close>

definition good_name :: "string \<Rightarrow> bool" where
  "good_name x \<longleftrightarrow> length x \<le> FS_MAXFILENAME \<and> NUL \<notin> set x"

definition good_user :: "string \<Rightarrow> bool" where
  "good_user u \<longleftrightarrow> length u \<le> FS_MAXUSERNAME \<and> NUL \<notin> set u"

lemma new_inode_wf:
  assumes "wf_inode junk" "good_user u"
  obtains own where "strcpy (owner junk) u = Some own" "c_str own = u" "wf_inode (junk\<lparr>isize := 0, itype := typ, owner := own\<rparr>)"
proof -
  have "length u < length (owner junk)" using assms by (simp add: wf_inode_def good_user_def)
  then obtain own where own: "strcpy (owner junk) u = Some own" using strcpy_fits by blast
  with assms have "wf_inode (junk\<lparr>isize := 0, itype := typ, owner := own\<rparr>)"
    by (auto simp: wf_inode_def strcpy_length)
  with own strcpy_c_str [OF own] assms(2) that show ?thesis by (simp add: good_user_def)
qed

lemma name_fits:
  assumes "length dst = FS_MAXFILENAME + 1" "good_name x"
  obtains nm where "strcpy dst x = Some nm" "length nm = FS_MAXFILENAME + 1" "c_str nm = x" "c_str nm = c_str x"
proof -
  obtain nm where "strcpy dst x = Some nm" using strcpy_fits [of x dst] assms by (auto simp: good_name_def)
  with assms that show ?thesis by (simp add: strcpy_length strcpy_c_str c_str_id good_name_def)
qed

lemma create_commit_inv:
  assumes "disk_laws io" "fs_tree io s t" "n \<in> set (nodes t)" and D: "D = image_of io (disk s)"
    and dir: "itype (inode_at D (root n)) = CHR ''d''" and junk: "wf_inode junk" and u: "good_user u"
    and x: "good_name x" "c_str x \<notin> set (names D (root n))" and ty: "typ \<in> {CHR ''f'', CHR ''d''}"
    and spot: "case spot of None \<Rightarrow> True | Some q \<Rightarrow> spot_ok D (set (used_blocks D (root n))) q"
  shows "\<exists>r s' evs' t'. create_commit io junk s u x typ (inode_at D (root n)) (root n) spot evs = Some (r, s', evs')
    \<and> fs_tree io s' t' \<and> (\<forall>bs. r \<noteq> Out bs)"
proof (cases "free_disk_blocks s")
  case Nil
  with assms(2) show ?thesis by (auto simp: create_commit_def)
next
  case (Cons nb free)
  note nf = node_facts [OF assms(1-3), folded D]
  obtain own where own: "strcpy (owner junk) u = Some own" "wf_inode (junk\<lparr>isize := 0, itype := typ, owner := own\<rparr>)"
    using new_inode_wf [OF junk u] by blast
  have same: "fs_tree io (s\<lparr>free_disk_blocks := nb # free\<rparr>) t" using assms(2) Cons by (simp add: fs_tree_def)
  show ?thesis
  proof (cases spot)
    case (Some q)
    obtain b j es where q: "q = (b, j, es)" by (cases q)
    have sp: "spot_ok D (set (used_blocks D (root n))) (b, j, es)" using spot Some q by simp
    have "b < FS_DISKSIZE" "es = dec_direntries (D b)" "j < length es" using sp nf(4) by (auto simp: spot_ok_def)
    then have "length (dname (es ! j)) = FS_MAXFILENAME + 1"
      using direntries.read_struct [OF assms(1), of b "disk s"] D by (auto simp: wf_direntries_def wf_direntry_def)
    then obtain nm where nm: "strcpy (dname (es ! j)) x = Some nm" "length nm = FS_MAXFILENAME + 1" "c_str nm = c_str x"
      using name_fits x(1) by metis
    from create_in_slot [OF assms(1-3) D dir sp Cons own(2) _ _ nm(2) _ refl] ty x(2) nm own(1) Cons Some q show ?thesis
      by (auto simp: create_commit_def)
  next
    case None
    show ?thesis
    proof (cases "isize (inode_at D (root n)) = FS_MAXFILEBLOCKS \<or> free = []")
      case True
      with assms(2) None Cons own(1) same show ?thesis by (auto simp: create_commit_def)
    next
      case False
      then obtain eb free' where f: "free = eb # free'" by (cases free) auto
      have room: "isize (inode_at D (root n)) < FS_MAXFILEBLOCKS" using False nf(3) by (simp add: inode_ok_def)
      then have "isize (inode_at D (root n)) < length (blocks (inode_at D (root n)))" using nf(2) by (simp add: wf_inode_def)
      moreover have "length (dname empty_direntry) = FS_MAXFILENAME + 1" by (simp add: empty_direntry_def)
      then obtain nm where nm: "strcpy (dname empty_direntry) x = Some nm" "length nm = FS_MAXFILENAME + 1" "c_str nm = c_str x"
        using name_fits x(1) by metis
      moreover have fr: "free_disk_blocks s = nb # eb # free'" using Cons f by simp
      ultimately show ?thesis
        using create_in_new_block [OF assms(1-3) D dir room fr own(2) _ _ nm(2) _ refl refl] ty x(2) own(1) None False f
        by (auto simp: create_commit_def fresh_entries_def)
    qed
  qed
qed

lemma create_inv:
  assumes "disk_laws io" "fs_tree io s t" "wf_inode junk" "good_user u" "p \<noteq> [] \<Longrightarrow> good_name (last p)"
    "typ \<in> {CHR ''f'', CHR ''d''}"
  shows "\<exists>r s' evs t'. execute_create io junk s u p typ = Some (r, s', evs) \<and> fs_tree io s' t' \<and> (\<forall>bs. r \<noteq> Out bs)"
proof (cases "p = [] \<or> free_disk_blocks s = []")
  case True
  with assms(2) show ?thesis by (auto simp: execute_create_def)
next
  case False
  let ?D = "image_of io (disk s)"
  show ?thesis
  proof (cases rule: traverse_fs_spec [OF assms(1,2) refl, of Upgradable "butlast p" u])
    case (1 evs)
    with False assms(2) show ?thesis by (auto simp: execute_create_def)
  next
    case (2 n evs)
    note nf = node_facts [OF assms(1,2) 2(2)]
    show ?thesis
    proof (cases "itype (inode_at ?D (root n)) = CHR ''f''")
      case True
      with False 2(1) assms(2) show ?thesis by (auto simp: execute_create_def)
    next
      case nofile: False
      then have dir: "itype (inode_at ?D (root n)) = CHR ''d''" using nf(3) by (auto simp: inode_ok_def)
      obtain r where r: "create_scan io (disk s) (inode_at ?D (root n)) (last p) (isize (inode_at ?D (root n))) 0 None = Some r"
        "\<forall>sp. r = Inr sp \<longrightarrow> c_str (last p) \<notin> set (names ?D (root n))
          \<and> (case sp of None \<Rightarrow> True | Some q \<Rightarrow> spot_ok ?D (set (used_blocks ?D (root n))) q)"
        using create_scan_node [OF assms(1,2) 2(2) refl dir, of "last p"] by blast
      show ?thesis
      proof (cases r)
        case (Inl e)
        with False 2(1) nofile r(1) assms(2) show ?thesis by (auto simp: execute_create_def)
      next
        case (Inr sp)
        with r(2) have sp: "c_str (last p) \<notin> set (names ?D (root n))"
          "case sp of None \<Rightarrow> True | Some q \<Rightarrow> spot_ok ?D (set (used_blocks ?D (root n))) q" by blast+
        from create_commit_inv [OF assms(1,2) 2(2) refl dir assms(3,4) _ sp(1) assms(6) sp(2)] assms(5) False 2(1) nofile r(1) Inr
        show ?thesis by (simp add: execute_create_def)
      qed
    qed
  qed
qed

end
