(* ===== verification/Fs_Delete.thy ===== *)
theory Fs_Delete
  imports Fs_Dirs
begin

text \<open>
  Deleting a file or an empty directory: the entry disappears (with its whole block when that
  becomes empty), all blocks of the target return to the free list, and the invariant is kept.
\<close>

section \<open>Closing the gap\<close>

lemma shift_nth:
  assumes "i < length bs" "m < length bs"
  shows "fold (\<lambda>i bs. bs[i := bs ! Suc i]) [k..<m] bs ! i = (if k \<le> i \<and> i < m then bs ! Suc i else bs ! i)
    \<and> length (fold (\<lambda>i bs. bs[i := bs ! Suc i]) [k..<m] bs) = length bs"
  using assms
proof (induction m arbitrary: i)
  case (Suc m)
  let ?f = "\<lambda>i bs. bs[i := bs ! Suc i]"
  show ?case
  proof (cases "k \<le> m")
    case True
    have IH: "fold ?f [k..<m] bs ! i = (if k \<le> i \<and> i < m then bs ! Suc i else bs ! i)"
      "length (fold ?f [k..<m] bs) = length bs" "fold ?f [k..<m] bs ! Suc m = bs ! Suc m"
      using Suc.IH [of i] Suc.IH [of "Suc m"] Suc.prems by auto
    with True Suc.prems show ?thesis by (auto simp: nth_list_update)
  qed (use Suc.prems in auto)
qed simp

lemma shift_blocks_take:
  assumes "k < n" "n \<le> length bs"
  shows "take (n - 1) (shift_blocks bs k n) = take k bs @ drop (Suc k) (take n bs)" "length (shift_blocks bs k n) = length bs"
proof -
  have nth: "shift_blocks bs k n ! i = (if k \<le> i \<and> i < n - 1 then bs ! Suc i else bs ! i)" if "i < length bs" for i
    using shift_nth [OF that, of "n - 1" k] assms by (simp add: shift_blocks_def)
  show len: "length (shift_blocks bs k n) = length bs"
    using shift_nth [of 0 bs "n - 1" k] assms by (cases bs) (auto simp: shift_blocks_def)
  show "take (n - 1) (shift_blocks bs k n) = take k bs @ drop (Suc k) (take n bs)"
  proof (rule nth_equalityI)
    show "length (take (n - 1) (shift_blocks bs k n)) = length (take k bs @ drop (Suc k) (take n bs))"
      using assms len by simp
    fix i assume "i < length (take (n - 1) (shift_blocks bs k n))"
    then have i: "i < n - 1" "i < length bs" using len by simp_all
    then have "take (n - 1) (shift_blocks bs k n) ! i = (if k \<le> i then bs ! Suc i else bs ! i)"
      using nth [OF i(2)] by simp
    with i assms show "take (n - 1) (shift_blocks bs k n) ! i = (take k bs @ drop (Suc k) (take n bs)) ! i"
      by (auto simp: nth_append)
  qed
qed

lemma shift_blocks_set: "k < n \<Longrightarrow> n \<le> length bs \<Longrightarrow> set (shift_blocks bs k n) \<subseteq> set bs"
proof
  fix y assume a: "k < n" "n \<le> length bs" and y: "y \<in> set (shift_blocks bs k n)"
  then obtain i where i: "i < length bs" "y = shift_blocks bs k n ! i"
    using shift_blocks_take(2) [OF a] by (auto simp: in_set_conv_nth)
  with shift_nth [OF i(1), of "n - 1" k] a show "y \<in> set bs"
    by (auto simp: shift_blocks_def split: if_splits)
qed

section \<open>Unlinking a node\<close>

lemma roots_distinct: "distinct (concat (map (blocks_of D) ts)) \<Longrightarrow> distinct (map root ts)"
proof (induction ts)
  case (Cons t ts)
  have "root t \<notin> set (map root ts)"
  proof
    assume "root t \<in> set (map root ts)"
    then obtain u where "u \<in> set ts" "root t \<in> set (blocks_of D u)" using root_in_blocks by (metis imageE list.set_map)
    with Cons.prems root_in_blocks [of t D] show False by auto
  qed
  with Cons show ?case by simp
qed simp

lemma children_distinct:
  assumes "rep D n" "distinct (blocks_of D n)"
  shows "distinct (children D (root n))"
proof -
  obtain x ts where n: "n = Node x ts" by (cases n)
  have "mset (map root ts) = mset (children D x)" using assms(1) by (simp add: n)
  moreover have "distinct (map root ts)" using roots_distinct [of D ts] assms(2) by (simp add: n)
  ultimately show ?thesis using mset_eq_imp_distinct_iff by (metis n tree.sel(1))
qed

lemma unlink_node:
  assumes "disk_laws io" "fs_tree io s t" "n \<in> set (nodes t)" and D: "D = image_of io (disk s)" "D' = image_of io d'"
    and c: "c \<in> set (kids n)" "kids c = []"
    and frame: "\<And>y. y \<noteq> root n \<Longrightarrow> y \<notin> set (used_blocks D (root n)) \<Longrightarrow> D y = D' y"
    and ok: "itype (inode_at D' (root n)) = CHR ''d''" "isize (inode_at D' (root n)) \<le> FS_MAXFILEBLOCKS" "populated D' (root n)"
    and live: "add_mset e (mset (live_entries D' (root n))) = mset (live_entries D (root n))" "inode_block e = root c"
    and used: "mset (used_blocks D' (root n)) + mset extra = mset (used_blocks D (root n))"
  shows "\<exists>t'. fs_tree io (s\<lparr>disk := d', free_disk_blocks := free_disk_blocks s @ extra @ used_blocks D (root c) @ [root c]\<rparr>) t'"
proof -
  note nf = node_facts [OF assms(1-3), folded D(1)]
  obtain x us vs where n: "n = Node x (us @ c # vs)" using c(1) by (cases n) (auto dest: split_list)
  obtain y where cn: "c = Node y []" using c(2) by (cases c) simp
  have dn: "distinct (blocks_of D (Node x (us @ c # vs)))" "list_all (rep D) (us @ c # vs)" using nf(6,7) by (simp_all add: n)
  have fr: "D z = D' z" if "z \<noteq> x" "z \<notin> set (used_blocks D x)" "z \<in> set (blocks_of D (Node x (us @ c # vs)))" for z
    using frame that by (simp add: n)
  note all = kids_frame [of D x "us @ c # vs" D', OF dn fr]
  have k: "list_all (rep D') (us @ vs)" "map (blocks_of D') (us @ vs) = map (blocks_of D) (us @ vs)"
    using all by simp_all
  have "rep D' (Node x (us @ vs))"
    by (rule rep_remove_child [OF nf(7) [unfolded n] k(1) live(2) [symmetric] ok [unfolded n tree.sel] live(1) [unfolded n tree.sel]])
  moreover have "mset (blocks_of D' (Node x (us @ vs)))
      + mset (free_disk_blocks s @ extra @ used_blocks D (root c) @ [root c]) = mset (blocks_of D n) + mset (free_disk_blocks s)"
  proof -
    have "mset (concat (map (blocks_of D') (us @ vs))) = mset (concat (map (blocks_of D) (us @ vs)))" by (simp only: k(2))
    then show ?thesis using used by (simp add: n cn ac_simps del: map_eq_conv)
  qed
  moreover have "\<forall>z \<in> set (blocks_of D t) - set (blocks_of D n). D z = D' z"
    using frame by (auto simp: n)
  ultimately have "fs_tree io (s\<lparr>disk := d', free_disk_blocks := free_disk_blocks s @ extra @ used_blocks D (root c) @ [root c]\<rparr>)
      (graft (root n) (Node x (us @ vs)) t)"
    using assms(2,3) D by (intro fs_tree_graft) (auto simp: n)
  then show ?thesis by blast
qed


section \<open>Removing the entry\<close>

text \<open>The live entries that name the target are exactly one.\<close>

lemma only_entry:
  assumes "distinct (map inode_block (filter (\<lambda>e. inode_block e \<noteq> 0) es))" "j < length es" "inode_block (es ! j) \<noteq> 0"
    "list_all (\<lambda>e. inode_block e = 0 \<or> inode_block e = inode_block (es ! j)) es"
  shows "filter (\<lambda>e. inode_block e \<noteq> 0) es = [es ! j]"
proof -
  let ?L = "filter (\<lambda>e. inode_block e \<noteq> 0) es"
  have all: "\<forall>e \<in> set ?L. inode_block e = inode_block (es ! j)" using assms(4) by (auto simp: list_all_iff)
  have mem: "es ! j \<in> set ?L" using assms(2,3) by simp
  then obtain a as where L: "?L = a # as" by (meson list.set_cases)
  have "as = []"
  proof (rule ccontr)
    assume "as \<noteq> []"
    then obtain b bs where as: "as = b # bs" by (cases as) auto
    then have "a \<in> set ?L" "b \<in> set ?L" unfolding L by simp_all
    then have "inode_block a = inode_block b" using all by metis
    with assms(1) show False unfolding L as by simp
  qed
  with L mem show ?thesis by simp
qed

text \<open>The block of entries that holds the target, as part of the directory.\<close>

lemma block_entries_distinct:
  assumes "distinct (children D x)" "itype (inode_at D x) = CHR ''d''" "b \<in> set (used_blocks D x)"
  shows "distinct (map inode_block (filter (\<lambda>e. inode_block e \<noteq> 0) (dec_direntries (D b))))"
proof -
  obtain us vs where "used_blocks D x = us @ b # vs" using assms(3) by (meson split_list)
  with assms(1,2) show ?thesis by (simp add: children_def live_entries_def entries_def)
qed

text \<open>Case 1: no other live entry in the block, the directory loses the block.\<close>

lemma remove_block:
  assumes "disk_laws io" "fs_tree io s t" "n \<in> set (nodes t)" and D: "D = image_of io (disk s)"
    and dir: "itype (inode_at D (root n)) = CHR ''d''"
    and k: "k < isize (inode_at D (root n))" "b = blocks (inode_at D (root n)) ! k"
    and es: "es = dec_direntries (D b)" "j < length es" "inode_block (es ! j) \<noteq> 0"
      "list_all (\<lambda>e. inode_block e = 0 \<or> inode_block e = inode_block (es ! j)) es"
    and c: "c \<in> set (kids n)" "kids c = []" "root c = inode_block (es ! j)"
    and p': "p' = (inode_at D (root n))\<lparr>blocks := shift_blocks (blocks (inode_at D (root n))) k (isize (inode_at D (root n))),
      isize := isize (inode_at D (root n)) - 1\<rparr>"
  shows "\<exists>d' t'. disk_writeblock io (disk s) (root n) (enc_inode p') = Some d'
    \<and> image_of io d' = D(root n := enc_inode p')
    \<and> fs_tree io (s\<lparr>disk := d', free_disk_blocks := free_disk_blocks s @ [b] @ used_blocks D (root c) @ [root c]\<rparr>) t'
    \<and> add_mset (es ! j) (mset (live_entries (image_of io d') (root n))) = mset (live_entries D (root n))
    \<and> same_head (inode_at (image_of io d') (root n)) (inode_at D (root n))"
proof -
  note nf = node_facts [OF assms(1-3), folded D]
  let ?x = "root n" let ?i = "inode_at D (root n)"
  have bu: "b \<in> set (used_blocks D ?x)" using used_nth [of k D ?x] k nf(5) by simp
  have "wf_inode p'" using nf(2) shift_blocks_set [OF k(1) nf(5)] shift_blocks_take(2) [OF k(1) nf(5)] k(1)
    by (auto simp: wf_inode_def p')
  then obtain d' where d': "disk_writeblock io (disk s) ?x (enc_inode p') = Some d'"
    "image_of io d' = D(?x := enc_inode p')" "inode_at (image_of io d') ?x = p'"
    using inodes.write_struct [OF assms(1) nf(1), of p' "disk s"] D by blast
  let ?D = "image_of io d'" let ?us = "take k (used_blocks D ?x)" let ?vs = "drop (Suc k) (used_blocks D ?x)"
  have split: "used_blocks D ?x = ?us @ b # ?vs"
    using k nf(5) id_take_nth_drop [of k "used_blocks D ?x"] by (simp add: used_blocks_def)
  have used: "used_blocks ?D ?x = ?us @ ?vs"
    using shift_blocks_take(1) [OF k(1) nf(5)] k(1) unfolding used_blocks_def d'(3) p' by (simp add: min_def)
  have "?x \<notin> set (used_blocks D ?x)" using nf(6) by (cases n) simp
  then have "?x \<notin> set ?us" "?x \<notin> set ?vs" using set_take_subset set_drop_subset by (metis subsetD)+
  then have same: "map (\<lambda>db. dec_direntries (?D db)) (?us @ ?vs) = map (\<lambda>db. dec_direntries (D db)) (?us @ ?vs)"
    and pop: "list_all (\<lambda>db. P (?D db)) (?us @ ?vs) = list_all (\<lambda>db. P (D db)) (?us @ ?vs)" for P
    unfolding d'(2) by (auto simp: list_all_iff)
  have it: "itype (inode_at ?D ?x) = CHR ''d''" using dir by (simp add: d'(3) p')
  have "filter (\<lambda>e. inode_block e \<noteq> 0) es = [es ! j]"
    using only_entry [OF _ es(2-4)] block_entries_distinct [OF children_distinct [OF nf(7,6)] dir bu] es(1) by simp
  moreover have "mset (entries D ?x) = mset (entries ?D ?x) + mset es"
  proof -
    have e1: "entries ?D ?x = concat (map (\<lambda>db. dec_direntries (D db)) (?us @ ?vs))" unfolding entries_def used same ..
    have e2: "entries D ?x = concat (map (\<lambda>db. dec_direntries (D db)) (?us @ b # ?vs))" unfolding entries_def using split by simp
    show ?thesis unfolding e1 e2 es(1) by simp
  qed
  then have "filter_mset (\<lambda>e. inode_block e \<noteq> 0) (mset (entries D ?x))
      = filter_mset (\<lambda>e. inode_block e \<noteq> 0) (mset (entries ?D ?x)) + mset (filter (\<lambda>e. inode_block e \<noteq> 0) es)" by simp
  ultimately have live: "add_mset (es ! j) (mset (live_entries ?D ?x)) = mset (live_entries D ?x)"
    using dir it by (simp add: live_entries_def)
  have "populated D ?x" using nf(3) dir by (simp add: inode_ok_def)
  then have "list_all (\<lambda>db. list_ex (\<lambda>e. inode_block e \<noteq> 0) (dec_direntries (D db))) (?us @ b # ?vs)" using split by metis
  then have "list_all (\<lambda>db. list_ex (\<lambda>e. inode_block e \<noteq> 0) (dec_direntries (D db))) (?us @ ?vs)" by simp
  then have populated: "populated ?D ?x" unfolding used using pop [of "\<lambda>bs. list_ex (\<lambda>e. inode_block e \<noteq> 0) (dec_direntries bs)"] by blast
  have "mset (used_blocks ?D ?x) + mset [b] = mset (?us @ b # ?vs)" unfolding used by simp
  then have ms: "mset (used_blocks ?D ?x) + mset [b] = mset (used_blocks D ?x)" using split by metis
  have sz: "isize (inode_at ?D ?x) \<le> FS_MAXFILEBLOCKS" using nf(3) by (auto simp: d'(3) p' inode_ok_def)
  have fr: "D y = ?D y" if "y \<noteq> ?x" for y using that by (simp add: d'(2))
  have "same_head (inode_at ?D ?x) ?i" by (simp add: d'(3) p' same_head_def)
  with unlink_node [OF assms(1-3) D refl c(1,2) fr it sz populated live c(3) [symmetric] ms] d' live show ?thesis by blast
qed

text \<open>Case 2: other entries remain in the block.\<close>

lemma remove_entry:
  assumes "disk_laws io" "fs_tree io s t" "n \<in> set (nodes t)" and D: "D = image_of io (disk s)"
    and dir: "itype (inode_at D (root n)) = CHR ''d''" and b: "b \<in> set (used_blocks D (root n))"
    and es: "es = dec_direntries (D b)" "j < length es" "inode_block (es ! j) \<noteq> 0"
      "\<not> list_all (\<lambda>e. inode_block e = 0 \<or> inode_block e = inode_block (es ! j)) es"
    and c: "c \<in> set (kids n)" "kids c = []" "root c = inode_block (es ! j)"
    and es': "es' = es[j := (es ! j)\<lparr>inode_block := 0\<rparr>]"
  shows "\<exists>d' t'. disk_writeblock io (disk s) b (enc_direntries es') = Some d'
    \<and> image_of io d' = D(b := enc_direntries es')
    \<and> fs_tree io (s\<lparr>disk := d', free_disk_blocks := free_disk_blocks s @ [] @ used_blocks D (root c) @ [root c]\<rparr>) t'
    \<and> add_mset (es ! j) (mset (live_entries (image_of io d') (root n))) = mset (live_entries D (root n))
    \<and> same_head (inode_at (image_of io d') (root n)) (inode_at D (root n))"
proof -
  note nf = node_facts [OF assms(1-3), folded D]
  let ?x = "root n" let ?e = "(es ! j)\<lparr>inode_block := 0\<rparr>"
  have bd: "b < FS_DISKSIZE" using nf(4) b by blast
  have wes: "wf_direntries es" using direntries.read_struct [OF assms(1) bd, of "disk s"] es(1) D by simp
  then have "wf_direntry (es ! j)" using es(2) by (simp add: wf_direntries_def)
  then have "wf_direntries es'" unfolding es' by (intro wf_new_entry [OF wes]) (simp_all add: wf_direntry_def FS_DISKSIZE_def)
  then obtain d' where d': "disk_writeblock io (disk s) b (enc_direntries es') = Some d'"
    "image_of io d' = D(b := enc_direntries es')" "dec_direntries (image_of io d' b) = es'"
    using direntries.write_struct [OF assms(1) bd, of es' "disk s"] D by blast
  let ?D = "image_of io d'"
  have bx: "b \<noteq> ?x" "distinct (used_blocks D ?x)" using nf(6) b by (cases n; auto)+
  then have same: "?D ?x = D ?x" by (simp add: d'(2))
  then have used: "used_blocks ?D ?x = used_blocks D ?x" by (simp add: used_blocks_def)
  have other: "\<forall>y \<in> set (used_blocks D ?x) - {b}. ?D y = D y" by (simp add: d'(2))
  have "filter_mset (\<lambda>e. inode_block e \<noteq> 0) (add_mset (es ! j) (mset (entries ?D ?x)))
      = filter_mset (\<lambda>e. inode_block e \<noteq> 0) (add_mset ?e (mset (entries D ?x)))"
    using entries_replace [OF bx(2) b same other, of j ?e] d'(3) es(1,2) es' by simp
  then have live: "add_mset (es ! j) (mset (live_entries ?D ?x)) = mset (live_entries D ?x)"
    using dir same es(3) by (simp add: live_entries_def)
  have "list_ex (\<lambda>e. inode_block e \<noteq> 0) es'"
  proof -
    obtain i where i: "i < length es" "inode_block (es ! i) \<noteq> 0" "inode_block (es ! i) \<noteq> inode_block (es ! j)"
      using es(4) by (auto simp: list_all_iff in_set_conv_nth)
    then have "i \<noteq> j" by auto
    then have "es' ! i = es ! i" "i < length es'" using es' i(1) by simp_all
    then show ?thesis using i(2) unfolding list_ex_iff by (metis nth_mem)
  qed
  then have pop: "populated ?D ?x"
    using populated_update [of D ?x ?D b] nf(3) dir used other d'(3) by (simp add: inode_ok_def)
  have it: "itype (inode_at ?D ?x) = CHR ''d''" "isize (inode_at ?D ?x) \<le> FS_MAXFILEBLOCKS"
    using dir nf(3) by (simp_all add: same inode_ok_def)
  have fr: "D y = ?D y" if "y \<noteq> ?x" "y \<notin> set (used_blocks D ?x)" for y using that b by (auto simp: d'(2))
  have ms: "mset (used_blocks ?D ?x) + mset [] = mset (used_blocks D ?x)" by (simp add: used)
  have "same_head (inode_at ?D ?x) (inode_at D ?x)" by (simp add: same same_head_def)
  with unlink_node [OF assms(1-3) D refl c(1,2) fr it pop live c(3) [symmetric] ms] d' live show ?thesis by blast
qed

section \<open>FS_DELETE\<close>

lemma deletable_leaf:
  assumes "rep D m" "itype (inode_at D (root m)) \<noteq> CHR ''d'' \<or> isize (inode_at D (root m)) = 0"
  shows "kids m = []" "itype (inode_at D (root m)) \<noteq> CHR ''f'' \<Longrightarrow> used_blocks D (root m) = []"
proof -
  have "children D (root m) = []"
    using assms(2) by (auto simp: children_def live_entries_def entries_def used_blocks_def)
  moreover have "mset (map root (kids m)) = mset (children D (root m))" using assms(1) by (cases m) simp
  ultimately show "kids m = []" by simp
  show "used_blocks D (root m) = []" if "itype (inode_at D (root m)) \<noteq> CHR ''f''"
    using assms that by (cases m) (auto simp: inode_ok_def used_blocks_def)
qed

lemma delete_commit_inv:
  assumes "disk_laws io" "fs_tree io s t" "n \<in> set (nodes t)" and D: "D = image_of io (disk s)"
    and dir: "itype (inode_at D (root n)) = CHR ''d''"
    and k: "k < isize (inode_at D (root n))" "b = blocks (inode_at D (root n)) ! k"
    and es: "es = dec_direntries (D b)" "j < length es" "inode_block (es ! j) \<noteq> 0"
    and m: "m \<in> set (nodes t)" "m \<in> set (kids n)" "root m = inode_block (es ! j)"
  shows "\<exists>r s' evs' t'. delete_commit io s u (inode_at D (root n)) (root n) (k, b, j, es) (inode_at D (root m)) (root m) evs
    = Some (r, s', evs') \<and> fs_tree io s' t' \<and> (\<forall>bs. r \<noteq> Out bs)"
proof (cases "\<not> strcmp_eq (owner (inode_at D (root m))) u
    \<or> itype (inode_at D (root m)) = CHR ''d'' \<and> 0 < isize (inode_at D (root m))")
  case True
  with assms(2) show ?thesis by (auto simp: delete_commit_def Let_def)
next
  case False
  note nf = node_facts [OF assms(1-3), folded D] and mf = node_facts [OF assms(1,2) m(1), folded D]
  have leaf: "kids m = []" using deletable_leaf(1) [OF mf(7)] False by blast
  have dat: "take (isize (inode_at D (root m))) (blocks (inode_at D (root m))) = used_blocks D (root m)"
    "itype (inode_at D (root m)) \<noteq> CHR ''f'' \<Longrightarrow> used_blocks D (root m) = []"
    using deletable_leaf(2) [OF mf(7)] False by (auto simp: used_blocks_def)
  show ?thesis
  proof (cases "list_all (\<lambda>e. inode_block e = 0 \<or> inode_block e = inode_block (es ! j)) es")
    case True
    from remove_block [OF assms(1-3) D dir k es True m(2) leaf m(3) refl] False dat mf(5) True m(3) nf(5)
    show ?thesis by (auto simp: delete_commit_def Let_def)
  next
    case other: False
    have "b \<in> set (used_blocks D (root n))" using used_nth [of k D "root n"] k nf(5) by simp
    from remove_entry [OF assms(1-3) D dir this es other m(2) leaf m(3) refl] False dat mf(5) other m(3)
    show ?thesis by (auto simp: delete_commit_def Let_def)
  qed
qed

lemma delete_inv:
  assumes "disk_laws io" "fs_tree io s t"
  shows "\<exists>r s' evs t'. execute_delete io s u p = Some (r, s', evs) \<and> fs_tree io s' t' \<and> (\<forall>bs. r \<noteq> Out bs)"
proof (cases "p = [] \<or> length (free_disk_blocks s) = 4095")
  case True
  with assms(2) show ?thesis by (auto simp: execute_delete_def)
next
  case False
  let ?D = "image_of io (disk s)"
  show ?thesis
  proof (cases rule: traverse_fs_spec [OF assms refl, of Upgradable "butlast p" u])
    case (1 evs)
    with False assms(2) show ?thesis by (auto simp: execute_delete_def)
  next
    case (2 n evs)
    note nf = node_facts [OF assms 2(2)]
    let ?i = "inode_at ?D (root n)"
    show ?thesis
    proof (cases "isize ?i = 0 \<or> itype ?i = CHR ''f''")
      case True
      with False 2(1) assms(2) show ?thesis by (auto simp: execute_delete_def)
    next
      case go: False
      then have dir: "itype ?i = CHR ''d''" using nf(3) by (auto simp: inode_ok_def)
      obtain r where r: "find_direntry io (disk s) ?i (last p) (isize ?i) 0 = Some r"
        "\<And>k b j es. r = Some (k, b, j, es) \<Longrightarrow> k < isize ?i \<and> b = blocks ?i ! k \<and> es = dec_direntries (?D b) \<and> j < length es
           \<and> inode_block (es ! j) \<noteq> 0 \<and> (\<exists>m \<in> set (nodes t). root m = inode_block (es ! j) \<and> m \<in> set (kids n))"
        using find_in_node [OF assms 2(2) refl dir, of "last p"] by (fastforce split: option.splits)
      show ?thesis
      proof (cases r)
        case None
        with False 2(1) go r(1) assms(2) show ?thesis by (auto simp: execute_delete_def)
      next
        case (Some q)
        obtain k b j es where q: "q = (k, b, j, es)" by (cases q)
        with Some r(2) obtain m where f: "k < isize ?i" "b = blocks ?i ! k" "es = dec_direntries (?D b)" "j < length es"
          "inode_block (es ! j) \<noteq> 0" and m: "m \<in> set (nodes t)" "m \<in> set (kids n)" "root m = inode_block (es ! j)" by blast
        have "disk_readblock io (disk s) (root m) = Some (?D (root m))"
          using disk_read(1) [OF assms(1) node_facts(1) [OF assms m(1)]] .
        with delete_commit_inv [OF assms 2(2) refl dir f m, of u "evs @ [Upgrade (root n), Acquire Upgradable (root m)]"]
          False 2(1) go r(1) Some q m(3) show ?thesis by (simp add: execute_delete_def Let_def)
      qed
    qed
  qed
qed

end
