(* ===== verification/Fs_Init.thy ===== *)
theory Fs_Init
  imports Fs_Delete
begin

text \<open>
  Start-up: on a disk that holds a tree, the initial traversal visits every block of the tree
  once, so its assertions hold, its recursion ends (the fuel of the model suffices), and the
  free list it computes establishes the invariant of the file system.
\<close>

section \<open>Lists and permutations\<close>

lemma map_permutation:
  "mset (map f xs) = mset ys \<Longrightarrow> \<exists>xs'. mset xs' = mset xs \<and> map f xs' = ys"
proof (induction ys arbitrary: xs)
  case (Cons y ys)
  then have "y \<in> set (map f xs)" by (metis list.set_intros(1) mset_eq_setD)
  then obtain us x vs where xs: "xs = us @ x # vs" "y = f x" by (metis imageE list.set_map split_list)
  with Cons.prems have "mset (map f (us @ vs)) = mset ys" by simp
  then obtain xs' where "mset xs' = mset (us @ vs)" "map f xs' = ys" using Cons.IH by blast
  then show ?case using xs by (intro exI [of _ "x # xs'"]) simp
qed simp

lemma mset_concat_map: "mset xs = mset ys \<Longrightarrow> mset (concat (map f xs)) = mset (concat (map f ys))"
proof (induction xs arbitrary: ys)
  case (Cons x xs)
  then have "x \<in> set ys" by (metis list.set_intros(1) mset_eq_setD)
  then obtain us vs where ys: "ys = us @ x # vs" by (meson split_list)
  with Cons.prems have "mset xs = mset (us @ vs)" by simp
  with Cons.IH have "mset (concat (map f xs)) = mset (concat (map f (us @ vs)))" by blast
  then show ?case by (simp add: ys)
qed simp

text \<open>Two nested loops are one loop over the concatenation.\<close>

lemma fold_option_nested:
  assumes "\<forall>b \<in> set bs. rd b = Some (r b)"
  shows "fold_option (\<lambda>b u. do { x \<leftarrow> rd b; fold_option g (dec x) u }) bs u = fold_option g (concat (map (\<lambda>b. dec (r b)) bs)) u"
  using assms
proof (induction bs arbitrary: u)
  case (Cons b bs)
  then show ?case by (cases "fold_option g (dec (r b)) u") (simp_all add: fold_option_append)
qed simp

text \<open>Inserting fresh elements one by one.\<close>

lemma fold_option_insert:
  assumes "distinct bs" "set bs \<inter> set u = {}"
  shows "\<exists>u'. fold_option (\<lambda>b u. if b \<in> set u then None else Some (b # u)) bs u = Some u' \<and> set u' = set u \<union> set bs"
  using assms
proof (induction bs arbitrary: u)
  case (Cons b bs)
  then have "\<exists>u'. fold_option (\<lambda>b u. if b \<in> set u then None else Some (b # u)) bs (b # u) = Some u'
      \<and> set u' = set (b # u) \<union> set bs" by (intro Cons.IH) auto
  with Cons.prems show ?case by auto
qed simp

section \<open>The traversal\<close>

fun height :: "tree \<Rightarrow> nat" where
  "height (Node b ts) = Suc (fold max (map height ts) 0)"

lemma fold_max_base: "n \<le> fold max xs (n :: nat)"
proof (induction xs arbitrary: n)
  case (Cons x xs)
  have "n \<le> max x n" by simp
  also have "\<dots> \<le> fold max xs (max x n)" by (rule Cons)
  finally show ?case by simp
qed simp

lemma fold_max_ge: "x \<in> set xs \<Longrightarrow> x \<le> fold max xs (n :: nat)"
proof (induction xs arbitrary: n)
  case (Cons y ys)
  then show ?case using fold_max_base [of "max y n" ys] by auto
qed simp

lemma fold_max_le: "\<forall>x \<in> set xs. x \<le> m \<Longrightarrow> n \<le> m \<Longrightarrow> fold max xs (n :: nat) \<le> m"
  by (induction xs arbitrary: n) auto

lemma length_concat_ge: "x \<in> set xs \<Longrightarrow> length (f x) \<le> length (concat (map f xs))"
  by (induction xs) auto

lemma height_le_blocks: "height t \<le> length (blocks_of D t)"
proof (induction t rule: height.induct)
  case (1 b ts)
  have "fold max (map height ts) 0 \<le> length (concat (map (blocks_of D) ts))"
  proof (rule fold_max_le)
    show "\<forall>x \<in> set (map height ts). x \<le> length (concat (map (blocks_of D) ts))"
      using 1 length_concat_ge [of _ ts "blocks_of D"] by (auto intro: order_trans)
  qed simp
  then show ?case by simp
qed

text \<open>What the loop over the entries of a directory does for each entry.\<close>

definition visit :: "nat \<Rightarrow> 'd disk_ops \<Rightarrow> 'd \<Rightarrow> fs_direntry \<Rightarrow> nat list \<Rightarrow> nat list option" where
  "visit fuel io d e u =
     (if inode_block e = 0 then Some u
      else if inode_block e \<in> set u then None
      else initial_traverse_helper fuel io d (inode_block e) (inode_block e # u))"

lemma visit_all:
  assumes "\<And>t u. t \<in> set ts \<Longrightarrow> set u \<inter> (set (blocks_of D t) - {root t}) = {} \<Longrightarrow>
      \<exists>u'. initial_traverse_helper fuel io d (root t) u = Some u' \<and> set u' = set u \<union> (set (blocks_of D t) - {root t})"
    "map root ts = map inode_block (filter (\<lambda>e. inode_block e \<noteq> 0) es)"
    "distinct (concat (map (blocks_of D) ts))" "set u \<inter> set (concat (map (blocks_of D) ts)) = {}"
  shows "\<exists>u'. fold_option (visit fuel io d) es u = Some u' \<and> set u' = set u \<union> set (concat (map (blocks_of D) ts))"
  using assms
proof (induction es arbitrary: ts u)
  case (Cons e es)
  show ?case
  proof (cases "inode_block e = 0")
    case True
    with Cons.IH [OF Cons.prems(1) _ Cons.prems(3,4)] Cons.prems(2) show ?thesis by (simp add: visit_def)
  next
    case False
    with Cons.prems(2) obtain t ts' where ts: "ts = t # ts'" and rt: "root t = inode_block e"
      and rest: "map root ts' = map inode_block (filter (\<lambda>e. inode_block e \<noteq> 0) es)" by (cases ts) auto
    have "root t \<notin> set u" using Cons.prems(4) root_in_blocks [of t D] by (auto simp: ts)
    moreover have "set (root t # u) \<inter> (set (blocks_of D t) - {root t}) = {}" using Cons.prems(4) by (auto simp: ts)
    then obtain u1 where u1: "initial_traverse_helper fuel io d (root t) (root t # u) = Some u1"
      "set u1 = set (root t # u) \<union> (set (blocks_of D t) - {root t})"
      using Cons.prems(1) [of t "root t # u"] by (auto simp: ts)
    ultimately have v: "visit fuel io d e u = Some u1" using False rt by (simp add: visit_def)
    have s1: "set u1 = set u \<union> set (blocks_of D t)" using u1(2) root_in_blocks [of t D] by auto
    have "\<exists>u'. fold_option (visit fuel io d) es u1 = Some u' \<and> set u' = set u1 \<union> set (concat (map (blocks_of D) ts'))"
      using Cons.prems(3,4) s1 by (intro Cons.IH [OF Cons.prems(1) rest]) (auto simp: ts)
    then show ?thesis using v s1 by (auto simp: ts)
  qed
qed simp


lemma initial_traverse_spec:
  assumes "disk_laws io" and D: "D = image_of io d"
  shows "rep D t \<Longrightarrow> distinct (blocks_of D t) \<Longrightarrow> \<forall>b \<in> set (blocks_of D t). b < FS_DISKSIZE \<Longrightarrow> height t \<le> fuel \<Longrightarrow>
    set u \<inter> (set (blocks_of D t) - {root t}) = {} \<Longrightarrow>
    \<exists>u'. initial_traverse_helper fuel io d (root t) u = Some u' \<and> set u' = set u \<union> (set (blocks_of D t) - {root t})"
proof (induction fuel arbitrary: t u)
  case 0
  then show ?case by (cases t) simp
next
  case (Suc fuel)
  obtain b ts where t: "t = Node b ts" by (cases t)
  have dis: "distinct (used_blocks D b)" "b \<notin> set (used_blocks D b)" "b \<notin> set (concat (map (blocks_of D) ts))"
    "set (used_blocks D b) \<inter> set (concat (map (blocks_of D) ts)) = {}" "distinct (concat (map (blocks_of D) ts))"
    using Suc.prems(2) by (simp_all add: t)
  have lt: "\<forall>x \<in> set (used_blocks D b). x < FS_DISKSIZE" "b < FS_DISKSIZE" using Suc.prems(3) by (auto simp: t)
  have rd: "disk_readblock io d b = Some (D b)" "\<forall>x \<in> set (used_blocks D b). disk_readblock io d x = Some (D x)"
    using disk_read(1) [OF assms(1)] lt D by auto
  have wf: "wf_inode (inode_at D b)" using inodes.read_struct [OF assms(1) lt(2)] D by simp
  have ok: "inode_ok D b" "mset (map root ts) = mset (children D b)" "list_all (rep D) ts" using Suc.prems(1) by (simp_all add: t)
  then have sz: "isize (inode_at D b) \<le> length (blocks (inode_at D b))" using wf by (simp add: inode_ok_def wf_inode_def)
  obtain u1 where u1: "fold_option (\<lambda>b u. if b \<in> set u then None else Some (b # u)) (used_blocks D b) u = Some u1"
    "set u1 = set u \<union> set (used_blocks D b)"
    using fold_option_insert [OF dis(1), of u] Suc.prems(5) dis(2) by (auto simp: t)
  show ?case
  proof (cases "itype (inode_at D b) = CHR ''f''")
    case True
    then have "ts = []" using ok(2) by (simp add: children_def live_entries_def)
    with True rd(1) u1 sz dis(2) show ?thesis by (auto simp: t used_blocks_def)
  next
    case False
    then have dir: "itype (inode_at D b) = CHR ''d''" using ok(1) by (auto simp: inode_ok_def)
    obtain ts' where ts': "mset ts' = mset ts" "map root ts' = children D b" using map_permutation [OF ok(2)] by blast
    have cc: "mset (concat (map (blocks_of D) ts')) = mset (concat (map (blocks_of D) ts))" by (rule mset_concat_map [OF ts'(1)])
    then have cs: "set (concat (map (blocks_of D) ts')) = set (concat (map (blocks_of D) ts))"
      "distinct (concat (map (blocks_of D) ts'))"
      using dis(5) by (metis mset_eq_setD, metis mset_eq_imp_distinct_iff)
    have IH: "\<exists>u'. initial_traverse_helper fuel io d (root k) u = Some u' \<and> set u' = set u \<union> (set (blocks_of D k) - {root k})"
      if "k \<in> set ts'" "set u \<inter> (set (blocks_of D k) - {root k}) = {}" for k u
    proof -
      have k: "k \<in> set ts" using that(1) ts'(1) mset_eq_setD by blast
      then have "height k \<le> fuel" using Suc.prems(4) fold_max_ge [of "height k" "map height ts" 0] by (auto simp: t)
      moreover have "distinct (blocks_of D k)" using dis(5) k by (metis distinct_concat_part imageI list.set_map)
      moreover have "\<forall>x \<in> set (blocks_of D k). x < FS_DISKSIZE" using Suc.prems(3) kids_blocks [OF k, of D b] by (auto simp: t)
      moreover have "rep D k" using ok(3) k by (simp add: list_all_iff)
      ultimately show ?thesis using Suc.IH [of k u] that(2) by blast
    qed
    have "map root ts' = map inode_block (filter (\<lambda>e. inode_block e \<noteq> 0) (entries D b))"
      using ts'(2) dir by (simp add: children_def live_entries_def)
    moreover have "set u1 \<inter> set (concat (map (blocks_of D) ts')) = {}"
      using u1(2) dis(3,4) cs(1) Suc.prems(5) by (auto simp: t)
    ultimately obtain u2 where u2: "fold_option (visit fuel io d) (entries D b) u1 = Some u2"
      "set u2 = set u1 \<union> set (concat (map (blocks_of D) ts'))"
      using visit_all [OF IH _ cs(2)] by blast
    have "fold_option (\<lambda>b u. do { raw \<leftarrow> disk_readblock io d b; fold_option (visit fuel io d) (dec_direntries raw) u })
        (used_blocks D b) u1 = Some u2"
      using fold_option_nested [OF rd(2), of "visit fuel io d" dec_direntries u1] u2(1) by (simp add: entries_def)
    then have "initial_traverse_helper (Suc fuel) io d b u = Some u2"
      using rd(1) sz u1(1) dir unfolding visit_def by (simp add: used_blocks_def)
    moreover have "set u2 = set u \<union> (set (blocks_of D t) - {root t})"
      using u2(2) u1(2) cs(1) dis(2,3) by (auto simp: t)
    ultimately show ?thesis by (simp add: t)
  qed
qed

end
