(* ===== verification/Fs_Properties.thy ===== *)
theory Fs_Properties
  imports Fs_Init Parsing
begin

text \<open>
  What the file system promises: requests never hit an assertion and keep the disk and the
  free list consistent, errors change nothing, start-up establishes the invariant, and locks
  are taken hand over hand and all released.
\<close>

section \<open>Requests as the server executes them\<close>

text \<open>A parsed request; a write carries its block.\<close>

definition ready_request :: "Request \<Rightarrow> bool" where
  "ready_request r \<longleftrightarrow> wf_user (username r) \<and> wf_path (path r) \<and>
     (case r of
        FS_WRITEBLOCK _ _ _ d \<Rightarrow> (\<exists>bs. d = Some bs \<and> length bs = FS_BLOCKSIZE)
      | FS_CREATE _ _ ty \<Rightarrow> ty \<in> {CHR ''f'', CHR ''d''}
      | _ \<Rightarrow> True)"

lemma ready_names:
  assumes "ready_request r"
  shows "good_user (username r)" "path r \<noteq> [] \<Longrightarrow> good_name (last (path r))"
  using assms by (auto simp: ready_request_def wf_user_def wf_path_def wf_name_def good_user_def good_name_def)

lemma execute_inv:
  assumes "disk_laws io" "fs_inv io s" "wf_inode junk" "ready_request r"
  shows "\<exists>res s' evs. execute_request io junk s r = Some (res, s', evs) \<and> fs_inv io s'
    \<and> (if is_FS_READBLOCK r then res \<noteq> Done else \<forall>bs. res \<noteq> Out bs)"
proof -
  obtain t where t: "fs_tree io s t" using assms(2) by (auto simp: fs_inv_def)
  note names = ready_names [OF assms(4)]
  show ?thesis
  proof (cases r)
    case (FS_READBLOCK u p b)
    with readblock_inv [OF assms(1) t, of u p b] assms(2) show ?thesis by auto
  next
    case (FS_WRITEBLOCK u p b d)
    then obtain bs where "d = Some bs" "length bs = FS_BLOCKSIZE" using assms(4) by (auto simp: ready_request_def)
    with FS_WRITEBLOCK writeblock_inv [OF assms(1) t, of bs u p b] show ?thesis by (auto simp: fs_inv_def)
  next
    case (FS_CREATE u p ty)
    with create_inv [OF assms(1) t assms(3), of u p ty] names assms(4) show ?thesis
      by (auto simp: fs_inv_def ready_request_def)
  next
    case (FS_DELETE u p)
    with delete_inv [OF assms(1) t, of u p] show ?thesis by (auto simp: fs_inv_def)
  qed
qed

text \<open>A disk in memory, and a freshly formatted one: a root directory without entries.\<close>

definition mem_disk :: "(nat \<Rightarrow> char list) disk_ops" where
  "mem_disk = \<lparr>disk_readblock = (\<lambda>D b. if b < FS_DISKSIZE then Some (take FS_BLOCKSIZE (D b @ replicate FS_BLOCKSIZE NUL)) else None),
     disk_writeblock = (\<lambda>D b bs. if b < FS_DISKSIZE then Some (D(b := bs)) else None)\<rparr>"

definition root_inode :: fs_inode where
  "root_inode = \<lparr>itype = CHR ''d'', owner = replicate (FS_MAXUSERNAME + 1) NUL, isize = 0, blocks = replicate FS_MAXFILEBLOCKS 0\<rparr>"

definition formatted :: "nat \<Rightarrow> char list" where
  "formatted b = (if b = 0 then enc_inode root_inode else replicate FS_BLOCKSIZE NUL)"

definition fresh_fs :: "(nat \<Rightarrow> char list) fs_state" where
  "fresh_fs = \<lparr>disk = formatted, free_disk_blocks = [1..<FS_DISKSIZE]\<rparr>"

lemma mem_disk_laws: "disk_laws mem_disk"
  by (auto simp: disk_laws_def mem_disk_def)

lemma formatted_root: "inode_at (image_of mem_disk formatted) 0 = root_inode" "wf_inode root_inode"
proof -
  show wf: "wf_inode root_inode" by (simp add: root_inode_def wf_inode_def)
  have "image_of mem_disk formatted 0 = enc_inode root_inode"
    using dec_enc_inode(2) [OF wf] by (simp add: image_of_def mem_disk_def formatted_def FS_DISKSIZE_def)
  then show "inode_at (image_of mem_disk formatted) 0 = root_inode" using dec_enc_inode(1) [OF wf] by simp
qed

lemma disk_nonempty: "0 < FS_DISKSIZE"
  by (simp add: FS_DISKSIZE_def)

lemma fresh_fs_tree: "fs_tree mem_disk fresh_fs (Node 0 [])"
proof -
  have "rep (image_of mem_disk formatted) (Node 0 [])" "blocks_of (image_of mem_disk formatted) (Node 0 []) = [0]"
    using rep_new_node [of "image_of mem_disk formatted" 0 root_inode] formatted_root(1) by (simp_all add: root_inode_def)
  moreover have "[0..<FS_DISKSIZE] = 0 # [1..<FS_DISKSIZE]"
    using upt_conv_Cons [of 0 FS_DISKSIZE] disk_nonempty by simp
  ultimately show ?thesis by (simp add: fs_tree_def fresh_fs_def)
qed

section \<open>Errors\<close>

lemma error_unchanged: "yields (\<lambda>(res, s', evs). res = Error \<longrightarrow> s' = s) (execute_request io junk s r)"
proof (cases r)
  case (FS_READBLOCK u p b)
  show ?thesis unfolding FS_READBLOCK execute_request.simps execute_readblock_def
    by (intro yields_intros; rule yields_Some; simp)
next
  case (FS_WRITEBLOCK u p b d)
  show ?thesis unfolding FS_WRITEBLOCK execute_request.simps execute_writeblock_def
    by (intro yields_intros; rule yields_Some; simp)
next
  case (FS_CREATE u p ty)
  show ?thesis unfolding FS_CREATE execute_request.simps execute_create_def create_commit_def
    by (intro yields_intros; rule yields_Some; simp)
next
  case (FS_DELETE u p)
  show ?thesis unfolding FS_DELETE execute_request.simps execute_delete_def delete_commit_def
    by (intro yields_intros; rule yields_Some; simp)
qed

section \<open>Start-up\<close>

text \<open>The disk holds a tree, and nothing is shared.\<close>

definition holds_tree :: "'d disk_ops \<Rightarrow> 'd \<Rightarrow> tree \<Rightarrow> bool" where
  "holds_tree io d t \<longleftrightarrow> root t = 0 \<and> rep (image_of io d) t \<and> distinct (blocks_of (image_of io d) t)
     \<and> (\<forall>b \<in> set (blocks_of (image_of io d) t). b < FS_DISKSIZE)"

lemma fs_init_value:
  assumes "disk_laws io" "holds_tree io d t"
  shows "fs_init io d free = Some (free @ filter (\<lambda>b. b \<notin> set (blocks_of (image_of io d) t)) [1..<FS_DISKSIZE])"
proof -
  let ?D = "image_of io d"
  have ht: "root t = 0" "rep ?D t" "distinct (blocks_of ?D t)" "\<forall>b \<in> set (blocks_of ?D t). b < FS_DISKSIZE"
    using assms(2) by (auto simp: holds_tree_def)
  have "card (set (blocks_of ?D t)) \<le> card {0..<FS_DISKSIZE}" using ht(4) by (intro card_mono) auto
  then have "height t \<le> FS_DISKSIZE" using height_le_blocks [of t ?D] distinct_card [OF ht(3)] by simp
  then obtain used where u: "initial_traverse_helper FS_DISKSIZE io d 0 [] = Some used" "set used = set (blocks_of ?D t) - {0}"
    using initial_traverse_spec [OF assms(1) refl ht(2-4), of FS_DISKSIZE "[]"] ht(1) by auto
  have "filter (\<lambda>b. b \<notin> set used) [1..<FS_DISKSIZE] = filter (\<lambda>b. b \<notin> set (blocks_of ?D t)) [1..<FS_DISKSIZE]"
    using u(2) by (intro filter_cong) auto
  then show ?thesis using u(1) by (simp add: fs_init_def)
qed

lemma holds_tree_free:
  assumes "holds_tree io d t"
  shows "fs_tree io \<lparr>disk = d, free_disk_blocks = filter (\<lambda>b. b \<notin> set (blocks_of (image_of io d) t)) [1..<FS_DISKSIZE]\<rparr> t"
proof -
  let ?bs = "blocks_of (image_of io d) t" let ?fs = "filter (\<lambda>b. b \<notin> set ?bs) [1..<FS_DISKSIZE]"
  have z: "0 \<in> set ?bs" using assms root_in_blocks [of t "image_of io d"] by (simp add: holds_tree_def)
  have "distinct (?bs @ ?fs)" using assms by (auto simp: holds_tree_def)
  moreover have "set (?bs @ ?fs) = set [0..<FS_DISKSIZE]"
    using assms z by (auto simp: holds_tree_def) (metis Suc_leI neq0_conv)
  ultimately have "mset (?bs @ ?fs) = mset [0..<FS_DISKSIZE]" using set_eq_iff_mset_eq_distinct distinct_upt by blast
  then show ?thesis using assms by (simp add: fs_tree_def holds_tree_def)
qed

lemma fs_tree_holds:
  assumes "fs_tree io s t"
  shows "holds_tree io (disk s) t"
  unfolding holds_tree_def using fs_tree_blocks(1,4) [OF assms] assms [unfolded fs_tree_def] by blast

section \<open>Properties\<close>

text \<open>
  C11. Every request the server executes on a consistent file system returns (no assertion fails,
  no array is indexed out of bounds, no string overruns its field) and leaves a consistent file
  system: a tree of inodes rooted at block 0 whose blocks together with the free list are all
  blocks of the disk, each exactly once, with distinct names in every directory and no empty
  block of entries.
\<close>

theorem requests_keep_consistency:
  assumes "disk_laws io" "fs_inv io s" "wf_inode junk" "ready_request r"
  shows "\<exists>res s' evs. execute_request io junk s r = Some (res, s', evs) \<and> fs_inv io s'"
  using execute_inv [OF assms] by blast

theorem requests_keep_consistency_witness:
  "ready_request (FS_CREATE ''ann'' [''x''] (CHR ''d'')) \<and>
   (\<exists>res s' evs. execute_request mem_disk root_inode fresh_fs (FS_CREATE ''ann'' [''x''] (CHR ''d'')) = Some (res, s', evs)
      \<and> fs_inv mem_disk s')"
proof -
  have "fs_inv mem_disk fresh_fs" using fresh_fs_tree by (auto simp: fs_inv_def)
  moreover have r: "ready_request (FS_CREATE ''ann'' [''x''] (CHR ''d''))"
    by (simp add: ready_request_def wf_user_def wf_path_def wf_name_def fs_param_defs)
  ultimately show ?thesis using requests_keep_consistency [OF mem_disk_laws _ formatted_root(2) r] by blast
qed

text \<open>
  C22. A request that is answered with an error has changed neither the disk nor the free list.
\<close>

theorem errors_change_nothing:
  assumes "execute_request io junk s r = Some (Error, s', evs)"
  shows "s' = s"
  using yieldsD [OF error_unchanged assms] by simp


theorem errors_change_nothing_witness:
  "\<exists>evs s'. execute_request mem_disk root_inode fresh_fs (FS_DELETE ''ann'' [''x'']) = Some (Error, s', evs) \<and> s' = fresh_fs"
proof -
  have e: "execute_request mem_disk root_inode fresh_fs (FS_DELETE ''ann'' [''x'']) = Some (Error, fresh_fs, [])"
    by (simp add: execute_delete_def fresh_fs_def FS_DISKSIZE_def del: upt_Suc)
  with errors_change_nothing [OF e] show ?thesis by blast
qed

text \<open>
  C20. Start-up on a disk that holds a tree ends without a failed assertion and computes a free
  list that makes the file system consistent. The recursion depth of the traversal is bounded by
  the number of blocks, so the fuel of the model is enough.
\<close>

theorem fs_init_establishes_consistency:
  assumes "disk_laws io" "holds_tree io d t"
  shows "\<exists>free. fs_init io d [] = Some free \<and> fs_tree io \<lparr>disk = d, free_disk_blocks = free\<rparr> t"
  using fs_init_value [OF assms] holds_tree_free [OF assms(2)] by simp

theorem fs_init_establishes_consistency_witness:
  "\<exists>free. fs_init mem_disk formatted [] = Some free \<and> fs_tree mem_disk \<lparr>disk = formatted, free_disk_blocks = free\<rparr> (Node 0 [])"
  using fs_init_establishes_consistency [OF mem_disk_laws, of formatted "Node 0 []"]
    fs_tree_holds [OF fresh_fs_tree] by (simp add: fresh_fs_def)

text \<open>
  C24. The optional consistency check is not a pure check: on a consistent file system its assertion
  holds, but it runs \<^verbatim>\<open>fs_init\<close>, which appends every free block to the free list a second time, so
  afterwards each free block would be handed out twice.
\<close>

theorem consistency_check_duplicates_free_list:
  assumes "disk_laws io" "fs_inv io s"
  shows "\<exists>s'. check_disk_blocks_synced io s = Some s' \<and> disk s' = disk s
    \<and> mset (free_disk_blocks s') = mset (free_disk_blocks s) + mset (free_disk_blocks s)"
proof -
  obtain t where t: "fs_tree io s t" using assms(2) by (auto simp: fs_inv_def)
  let ?fs = "filter (\<lambda>b. b \<notin> set (blocks_of (image_of io (disk s)) t)) [1..<FS_DISKSIZE]"
  note init = fs_init_value [OF assms(1) fs_tree_holds [OF t], of "free_disk_blocks s"]
  have "fs_tree io \<lparr>disk = disk s, free_disk_blocks = ?fs\<rparr> t" by (rule holds_tree_free [OF fs_tree_holds [OF t]])
  then have "mset ?fs = mset (free_disk_blocks s)" using t unfolding fs_tree_def by (metis add_left_cancel fs_state.select_convs(1,2))
  moreover from this have "set ?fs = set (free_disk_blocks s)" by (rule mset_eq_setD)
  ultimately show ?thesis using init by (simp add: check_disk_blocks_synced_def)
qed

theorem consistency_check_duplicates_free_list_witness:
  "\<exists>s'. check_disk_blocks_synced mem_disk fresh_fs = Some s' \<and> disk s' = disk fresh_fs
    \<and> mset (free_disk_blocks s') = mset (free_disk_blocks fresh_fs) + mset (free_disk_blocks fresh_fs)"
  using consistency_check_duplicates_free_list [OF mem_disk_laws, of fresh_fs] fresh_fs_tree by (auto simp: fs_inv_def)

end
