(* ===== verification/Fs_Locks.thy ===== *)
theory Fs_Locks
  imports Fs_Properties
begin

text \<open>
  The locking discipline of the request handlers, checked by a monitor that runs over the
  lock and write events of a request. The monitor accepts a lock only if it is not held yet
  and at most one other is held (hand over hand), an upgrade only of an upgradable lock, a
  write only under a unique lock or, for a block that is still on the free list and thus
  unreachable for others, under an upgradable one.
\<close>

section \<open>The monitor\<close>

datatype hold = Holds_shared | Holds_upgradable | Holds_unique

fun hold_of :: "lock_mode \<Rightarrow> hold" where
  "hold_of Shared = Holds_shared"
| "hold_of Upgradable = Holds_upgradable"

fun lock_step :: "nat set \<Rightarrow> fs_event \<Rightarrow> (nat \<times> hold) list \<Rightarrow> (nat \<times> hold) list option" where
  "lock_step F (Acquire m b) h = (if b \<notin> fst ` set h \<and> length h < 2 then Some ((b, hold_of m) # h) else None)"
| "lock_step F (Upgrade b) h =
     (if (b, Holds_upgradable) \<in> set h then Some (map (\<lambda>(x, k). (x, if x = b then Holds_unique else k)) h) else None)"
| "lock_step F (Release b) h = (if b \<in> fst ` set h then Some (filter (\<lambda>(x, k). x \<noteq> b) h) else None)"
| "lock_step F (WriteBlock b) h =
     (if Holds_unique \<in> snd ` set h \<or> b \<in> F \<and> Holds_upgradable \<in> snd ` set h then Some h else None)"
| "lock_step F (Forget b) h = (if (b, Holds_unique) \<in> set h then Some h else None)"

definition run_locks :: "nat set \<Rightarrow> fs_event list \<Rightarrow> (nat \<times> hold) list \<Rightarrow> (nat \<times> hold) list option" where
  "run_locks F evs h = fold_option (lock_step F) evs h"


lemma run_locks_Cons [simp]:
  "run_locks F [] h = Some h" "run_locks F (e # evs) h = do { h' \<leftarrow> lock_step F e h; run_locks F evs h' }"
  by (simp_all add: run_locks_def)

section \<open>Traversal\<close>



section \<open>Handlers\<close>










section \<open>The lock table\<close>

definition table_ok :: "lock_table \<Rightarrow> bool" where
  "table_ok lt \<longleftrightarrow> (\<forall>b m. data_locks lt b = Some m \<longrightarrow> m < next_mutex lt)
     \<and> (\<forall>b b' m. data_locks lt b = Some m \<longrightarrow> data_locks lt b' = Some m \<longrightarrow> b = b')"

definition empty_table :: lock_table where
  "empty_table = \<lparr>data_locks = (\<lambda>_. None), holders = (\<lambda>_. 0), next_mutex = 0\<rparr>"

text \<open>
  \<^verbatim>\<open>get_lock_ptr\<close> gives all current users of a block the same mutex and users of different blocks
  different ones: the mutex it returns is the block's entry afterwards and is referenced, a second
  call returns the same mutex, no other block's entry changes or names that mutex.
\<close>

theorem get_lock_ptr_shares:
  assumes "table_ok lt" "get_lock_ptr lt blk = (m, lt')"
  shows "table_ok lt' \<and> data_locks lt' blk = Some m \<and> 0 < holders lt' m
    \<and> fst (get_lock_ptr lt' blk) = m
    \<and> (\<forall>b. b \<noteq> blk \<longrightarrow> data_locks lt' b = data_locks lt b \<and> data_locks lt' b \<noteq> Some m)"
proof (cases "\<exists>k. data_locks lt blk = Some k \<and> 0 < holders lt k")
  case True
  then obtain k where "data_locks lt blk = Some k" "0 < holders lt k" by blast
  with assms show ?thesis by (auto simp: get_lock_ptr_def table_ok_def)
next
  case False
  then have "m = next_mutex lt" "lt' = lt\<lparr>data_locks := (data_locks lt)(blk \<mapsto> next_mutex lt),
      holders := (holders lt)(next_mutex lt := 1), next_mutex := Suc (next_mutex lt)\<rparr>"
    using assms(2) by (auto simp: get_lock_ptr_def split: option.splits)
  moreover have "data_locks lt b = Some k \<Longrightarrow> k < next_mutex lt" for b k using assms(1) by (simp add: table_ok_def)
  ultimately show ?thesis using assms(1)
    by (auto simp: get_lock_ptr_def table_ok_def less_Suc_eq split: if_splits)
qed

theorem get_lock_ptr_shares_witness:
  "table_ok empty_table \<and> fst (get_lock_ptr (snd (get_lock_ptr empty_table 9)) 9) = fst (get_lock_ptr empty_table 9)"
proof -
  have "table_ok empty_table" by (simp add: table_ok_def empty_table_def)
  then show ?thesis using get_lock_ptr_shares [of empty_table 9 "fst (get_lock_ptr empty_table 9)" "snd (get_lock_ptr empty_table 9)"]
    by simp
qed

end
