(* ===== verification/Server.thy ===== *)
theory Server
  imports Networking Fs_Locks
begin

text \<open>
  The file server as a whole: parser, connection handler and file system together. A
  connection, whatever the client sends, either is brought down by an exception of the parser
  or returns with a consistent file system; so the file system stays consistent along every
  run of the server.
\<close>

lemma attached_ready:
  assumes "delivers so pend" "wf_request r" "attach_data so k r = Some req"
  shows "ready_request req" "is_FS_READBLOCK req = is_FS_READBLOCK r"
proof -
  obtain k' where "recv so k FS_BLOCKSIZE True = (Received (take FS_BLOCKSIZE (pend k)), k')"
    using recv_block [OF assms(1), of FS_BLOCKSIZE k] by (auto simp: fs_param_defs)
  with assms(2,3) show "ready_request req" "is_FS_READBLOCK req = is_FS_READBLOCK r"
    by (cases r; auto simp: attach_data_def wf_request_def wf_operand_def ready_request_def)+
qed

lemma serve_safe:
  assumes "disk_laws io" "fs_inv io s" "wf_inode junk" "delivers so pend" "wf_request r"
  shows "\<exists>st sent s' evs. serve so io junk k s r = Returned st sent s' evs \<and> fs_inv io s'"
proof (cases "attach_data so k r")
  case None
  with assms(2) show ?thesis by (simp add: serve_def)
next
  case (Some req)
  note ready = attached_ready [OF assms(4,5) Some]
  obtain res s' evs where ex: "execute_request io junk s req = Some (res, s', evs)" "fs_inv io s'"
    "if is_FS_READBLOCK req then res \<noteq> Done else \<forall>bs. res \<noteq> Out bs"
    using execute_inv [OF assms(1-3) ready(1)] by blast
  then have "\<exists>sent. respond req res = Some sent" by (cases res) (auto simp: respond_def split: if_splits)
  then obtain sent where "respond req res = Some sent" by blast
  with Some ex show ?thesis by (simp add: serve_def)
qed

lemma connection_safe:
  assumes "disk_laws io" "fs_inv io s" "wf_inode junk" "delivers so pend"
  shows "(\<exists>e. handle_connection so io junk k s = Terminated e)
    \<or> (\<exists>st sent s' evs. handle_connection so io junk k s = Returned st sent s' evs \<and> fs_inv io s')"
proof (cases "read_header so k (replicate (MAX_HEADER_SIZE + 1) NUL) 0")
  case None
  with assms(2) show ?thesis by (simp add: handle_connection_def)
next
  case (Some q)
  obtain msg k1 where q: "q = (msg, k1)" by (cases q)
  show ?thesis
  proof (cases "parse_request msg")
    case (Inl e)
    with Some q show ?thesis by (simp add: handle_connection_def)
  next
    case (Inr p)
    show ?thesis
    proof (cases p)
      case None
      with Some q Inr assms(2) show ?thesis by (simp add: handle_connection_def)
    next
      case (Some r)
      with Inr have "wf_request r" using parse_request_accepts by blast
      from serve_safe [OF assms this, of k1] \<open>read_header _ _ _ _ = Some q\<close> q Inr Some show ?thesis
        by (simp add: handle_connection_def serve_def)
    qed
  qed
qed

section \<open>Runs of the server\<close>

text \<open>Connections of clients with any stream of bytes, one after the other.\<close>

definition connection_step :: "'d disk_ops \<Rightarrow> 'd fs_state \<Rightarrow> 'd fs_state \<Rightarrow> bool" where
  "connection_step io s s' \<longleftrightarrow> disk_laws io \<and> (\<exists>(so :: char list sock_ops) k junk st sent evs.
     delivers so id \<and> wf_inode junk \<and> handle_connection so io junk k s = Returned st sent s' evs)"

definition started :: "'d disk_ops \<Rightarrow> 'd fs_state \<Rightarrow> bool" where
  "started io s \<longleftrightarrow> disk_laws io \<and> (\<exists>t. holds_tree io (disk s) t) \<and> fs_init io (disk s) [] = Some (free_disk_blocks s)"

interpretation server: invariant_system "started io" "connection_step io" "fs_inv io" for io
proof
  show "fs_inv io s" if st: "started io s" for s
  proof -
    obtain t where t: "disk_laws io" "holds_tree io (disk s) t" using st by (auto simp: started_def)
    have "free_disk_blocks s = filter (\<lambda>b. b \<notin> set (blocks_of (image_of io (disk s)) t)) [1..<FS_DISKSIZE]"
      using fs_init_value [OF t, of "[]"] st by (simp add: started_def)
    then show ?thesis using holds_tree_free [OF t(2)] by (auto simp: fs_inv_def fs_tree_def)
  qed
  show "fs_inv io s'" if inv: "fs_inv io s" and cs: "connection_step io s s'" for s s'
  proof -
    obtain so :: "char list sock_ops" and k junk st sent evs where c: "disk_laws io" "delivers so id" "wf_inode junk"
      "handle_connection so io junk k s = Returned st sent s' evs"
      using cs by (auto simp: connection_step_def)
    with connection_safe [OF c(1) inv c(3,2), of k] show ?thesis by auto
  qed
qed

end
