(* ===== verification/Server_Main.thy ===== *)
theory Server_Main
  imports Server "HOL-Library.Word"
begin

text \<open>
  Start-up and the accept loop: the socket functions of \<^verbatim>\<open>src/networking.cpp\<close> and \<^verbatim>\<open>main\<close> of
  \<^verbatim>\<open>src/fs_server.cpp\<close>. The system calls are parameters that act on a state of the operating
  system. The accept loop never ends; the model is its first \<open>n\<close> turns, for any \<open>n\<close>, and a step
  relation in which turns of the loop alternate with the connection threads it has detached.
\<close>

unbundle bit_operations_syntax

section \<open>Addresses\<close>

definition AF_INET :: "16 word" where "AF_INET = 2"
definition INADDR_ANY :: "32 word" where "INADDR_ANY = 0"

record sockaddr_in =
  sin_family :: "16 word"
  s_addr :: "32 word"
  sin_port :: "16 word"

text \<open>Host and network byte order on a little-endian machine: both conversions swap the two bytes.\<close>

definition htons :: "16 word \<Rightarrow> 16 word" where
  "htons w = push_bit 8 w OR drop_bit 8 w"

definition ntohs :: "16 word \<Rightarrow> 16 word" where
  "ntohs w = push_bit 8 w OR drop_bit 8 w"

text \<open>The \<^verbatim>\<open>int\<close> argument is converted to \<^verbatim>\<open>uint16_t\<close>, that is, modulo \<open>2 ^ 16\<close>.\<close>

definition make_server_sockaddr :: "sockaddr_in \<Rightarrow> int \<Rightarrow> int \<times> sockaddr_in" where
  "make_server_sockaddr addr port =
     (0, addr\<lparr>sin_family := AF_INET, s_addr := INADDR_ANY, sin_port := htons (word_of_int port)\<rparr>)"

section \<open>System calls\<close>

record 'o os_ops =
  sys_socket :: "'o \<Rightarrow> int \<times> 'o"
  sys_setsockopt :: "'o \<Rightarrow> int \<Rightarrow> int \<times> 'o"
  sys_bind :: "'o \<Rightarrow> int \<Rightarrow> sockaddr_in \<Rightarrow> int \<times> 'o"
  sys_getsockname :: "'o \<Rightarrow> int \<Rightarrow> sockaddr_in option"
  sys_listen :: "'o \<Rightarrow> int \<Rightarrow> 'o"
  sys_accept :: "'o \<Rightarrow> int \<Rightarrow> int \<times> 'o"

definition get_port_number :: "'o os_ops \<Rightarrow> 'o \<Rightarrow> int \<Rightarrow> int" where
  "get_port_number os st sockfd =
     (case sys_getsockname os st sockfd of
        None \<Rightarrow> -1
      | Some addr \<Rightarrow> uint (ntohs (sin_port addr)))"

text \<open>\<open>junk\<close> is the content of the uninitialised local \<^verbatim>\<open>addr\<close>.\<close>

definition server_connect :: "'o os_ops \<Rightarrow> sockaddr_in \<Rightarrow> 'o \<Rightarrow> int \<Rightarrow> int \<times> 'o" where
  "server_connect os junk st port =
     (let (sockfd, st) = sys_socket os st in
      if sockfd = -1 then (-1, st)
      else let (r, st) = sys_setsockopt os st sockfd in
      if r = -1 then (-1, st)
      else let (r, addr) = make_server_sockaddr junk port in
      if r = -1 then (-1, st)
      else let (r, st) = sys_bind os st sockfd addr in
      if r = -1 then (-1, st)
      else (sockfd, st))"

text \<open>One turn of the accept loop: the descriptors of the threads detached so far grow by one, or not.\<close>

definition accept_turn :: "'o os_ops \<Rightarrow> int \<Rightarrow> 'o \<times> int list \<Rightarrow> 'o \<times> int list" where
  "accept_turn os sockfd = (\<lambda>(st, ts).
     let (connectionfd, st) = sys_accept os st sockfd in
     if connectionfd = -1 then (st, ts) else (st, ts @ [connectionfd]))"

definition server_listen :: "'o os_ops \<Rightarrow> int \<Rightarrow> nat \<Rightarrow> 'o \<Rightarrow> 'o \<times> int list" where
  "server_listen os sockfd n st = (accept_turn os sockfd ^^ n) (sys_listen os st sockfd, [])"

section \<open>main\<close>

text \<open>
  \<^verbatim>\<open>atoi\<close>: leading white space, an optional sign, decimal digits, anything after them ignored; no
  digits give 0. The result is undefined when it is not an \<^verbatim>\<open>int\<close>.
\<close>

definition atoi :: "string \<Rightarrow> int option" where
  "atoi s =
     (let (neg, t) = strtoul_sign (dropWhile is_space s);
          n = int (nat_of_digits (takeWhile is_digit t));
          v = (if neg then - n else n)
      in if - (2 ^ 31) \<le> v \<and> v < 2 ^ 31 then Some v else None)"

text \<open>
  \<open>Exited\<close>: \<^verbatim>\<open>main\<close> has returned. \<open>Serving\<close>: it is in \<^verbatim>\<open>server_listen\<close>, with the socket, the number
  passed to \<^verbatim>\<open>print_port\<close> (an \<^verbatim>\<open>unsigned int\<close>) and the free list that \<^verbatim>\<open>fs_init\<close> has computed. \<open>None\<close>
  is undefined behaviour of \<^verbatim>\<open>atoi\<close> or a failed assertion of \<^verbatim>\<open>fs_init\<close>.
\<close>

datatype 'o main_state =
    Exited int
  | Serving int "32 word" "nat list" 'o

definition server_main ::
  "'o os_ops \<Rightarrow> 'd disk_ops \<Rightarrow> sockaddr_in \<Rightarrow> 'd \<Rightarrow> string list \<Rightarrow> 'o \<Rightarrow> 'o main_state option" where
  "server_main os io junk d argv st = do {
     port \<leftarrow> (if length argv \<noteq> 2 then Some 0 else atoi (argv ! 1));
     let (sockfd, st) = server_connect os junk st port;
     if sockfd = -1 then Some (Exited (-1))
     else do {
       let port = get_port_number os st sockfd;
       free \<leftarrow> fs_init io d [];
       Some (Serving sockfd (word_of_int port) free st) } }"

section \<open>Runs\<close>

record ('o, 'd) server =
  os_state :: 'o
  detached :: "int list"
  file_system :: "'d fs_state"

text \<open>The state in which \<^verbatim>\<open>server_listen\<close> enters its loop.\<close>

definition listening :: "'o os_ops \<Rightarrow> int \<Rightarrow> 'o \<Rightarrow> 'd \<Rightarrow> nat list \<Rightarrow> ('o, 'd) server" where
  "listening os sockfd st d free =
     \<lparr>os_state = sys_listen os st sockfd, detached = [],
      file_system = \<lparr>disk = d, free_disk_blocks = free\<rparr>\<rparr>"

text \<open>
  A turn of the loop, or one of the detached threads handling its connection. An exception or a
  failed assertion ends the process, so there is no step after it.
\<close>

inductive server_step :: "'o os_ops \<Rightarrow> 'd disk_ops \<Rightarrow> int \<Rightarrow> ('o, 'd) server \<Rightarrow> ('o, 'd) server \<Rightarrow> bool"
  for os io sockfd where
  accepting: "accept_turn os sockfd (os_state v, detached v) = (st, ts) \<Longrightarrow>
    server_step os io sockfd v (v\<lparr>os_state := st, detached := ts\<rparr>)"
| serving: "c \<in> set (detached v) \<Longrightarrow> connection_step io (file_system v) s \<Longrightarrow>
    server_step os io sockfd v (v\<lparr>detached := remove1 c (detached v), file_system := s\<rparr>)"

lemma server_step_files:
  assumes "server_step os io sockfd v w"
  shows "(connection_step io)\<^sup>*\<^sup>* (file_system v) (file_system w)"
  using assms by cases auto

lemma server_steps_files:
  "(server_step os io sockfd)\<^sup>*\<^sup>* v w \<Longrightarrow> (connection_step io)\<^sup>*\<^sup>* (file_system v) (file_system w)"
  by (induction rule: rtranclp_induct) (auto dest!: server_step_files)

text \<open>What \<^verbatim>\<open>server_listen\<close> computes in \<open>n\<close> turns is a run in which no thread has run yet.\<close>

lemma server_listen_run:
  "server_listen os sockfd n st = (st', ts) \<Longrightarrow>
   (server_step os io sockfd)\<^sup>*\<^sup>* (listening os sockfd st d free) ((listening os sockfd st d free)\<lparr>os_state := st', detached := ts\<rparr>)"
proof (induction n arbitrary: st' ts)
  case 0
  then show ?case by (simp add: server_listen_def listening_def)
next
  case (Suc n)
  obtain st1 ts1 where s1: "server_listen os sockfd n st = (st1, ts1)" by fastforce
  with Suc.prems have turn: "accept_turn os sockfd (st1, ts1) = (st', ts)" by (simp add: server_listen_def)
  from Suc.IH [OF s1] show ?case
    by (rule rtranclp.rtrancl_into_rtrancl) (use accepting [of os sockfd "(listening os sockfd st d free)\<lparr>os_state := st1, detached := ts1\<rparr>" st' ts] turn in simp)
qed

section \<open>The port\<close>

lemma ntohs_htons [simp]: "ntohs (htons w) = w"
  by (rule bit_word_eqI) (auto simp: ntohs_def htons_def bit_simps)

lemma atoi_to_string: "int n < 2 ^ 31 \<Longrightarrow> atoi (to_string n) = Some (int n)"
proof -
  assume n: "int n < 2 ^ 31"
  have dig: "\<forall>c \<in> set (to_string n). is_digit c" by (simp add: to_string_digits)
  obtain c r where cr: "to_string n = c # r" using to_string_nonempty by (cases "to_string n") auto
  with dig have "is_digit c" by simp
  then have "dropWhile is_space (to_string n) = to_string n" "strtoul_sign (to_string n) = (False, to_string n)"
    by (auto simp: cr strtoul_sign_def dest: is_digit_not_sign)
  moreover have tw: "takeWhile is_digit (to_string n) = to_string n" using dig by simp
  ultimately show ?thesis using n by (simp add: atoi_def Let_def nat_of_digits_to_string tw)
qed

text \<open>
  The documented behaviour of \<^verbatim>\<open>bind\<close> and \<^verbatim>\<open>getsockname\<close> that start-up relies on: a socket that was
  bound has an address, whose port is the one asked for unless that was 0.
\<close>

definition bind_laws :: "'o os_ops \<Rightarrow> bool" where
  "bind_laws os \<longleftrightarrow> (\<forall>st fd a r st'. sys_bind os st fd a = (r, st') \<longrightarrow> r \<noteq> -1 \<longrightarrow>
     (\<exists>b. sys_getsockname os st' fd = Some b \<and> (sin_port a \<noteq> 0 \<longrightarrow> sin_port b = sin_port a)))"

lemma server_connect_port:
  assumes "bind_laws os" "server_connect os junk st port = (fd, st')" "fd \<noteq> -1"
  shows "(word_of_int port :: 16 word) \<noteq> 0 \<Longrightarrow> get_port_number os st' fd = port mod 2 ^ 16"
    and "0 \<le> get_port_number os st' fd \<and> get_port_number os st' fd < 2 ^ 16"
proof -
  obtain r st1 where b: "sys_bind os st1 fd (snd (make_server_sockaddr junk port)) = (r, st')" "r \<noteq> -1"
    using assms(2,3) by (auto simp: server_connect_def make_server_sockaddr_def Let_def split: prod.splits if_splits)
  obtain a where a: "sys_getsockname os st' fd = Some a"
    "htons (word_of_int port) \<noteq> 0 \<Longrightarrow> sin_port a = htons (word_of_int port)"
    using assms(1) b unfolding bind_laws_def make_server_sockaddr_def by fastforce
  show "get_port_number os st' fd = port mod 2 ^ 16" if "(word_of_int port :: 16 word) \<noteq> 0"
  proof -
    have "ntohs 0 = 0" by (simp add: ntohs_def)
    with that have "htons (word_of_int port) \<noteq> 0" by (metis ntohs_htons)
    with a show ?thesis by (simp add: get_port_number_def uint_word_of_int)
  qed
  show "0 \<le> get_port_number os st' fd \<and> get_port_number os st' fd < 2 ^ 16"
    using a(1) uint_lt2p [of "ntohs (sin_port a)"] by (simp add: get_port_number_def)
qed

text \<open>Start-up on a disk that holds a tree: only the socket calls decide how it goes on.\<close>

lemma server_main_started:
  assumes "disk_laws io" "holds_tree io d t" "(if length argv \<noteq> 2 then Some 0 else atoi (argv ! 1)) = Some port"
  shows "server_main os io junk d argv st =
    (case server_connect os junk st port of (fd, st') \<Rightarrow>
       Some (if fd = -1 then Exited (-1)
             else Serving fd (word_of_int (get_port_number os st' fd))
               (filter (\<lambda>b. b \<notin> set (blocks_of (image_of io d) t)) [1..<FS_DISKSIZE]) st'))"
  using fs_init_value [OF assms(1,2), of "[]"] assms(3) by (simp add: server_main_def split: prod.split)

lemma server_main_serving:
  assumes "server_main os io junk d argv st = Some (Serving fd port free st')"
  shows "fs_init io d [] = Some free"
proof -
  obtain n where n: "(if length argv \<noteq> 2 then Some 0 else atoi (argv ! 1)) = Some n"
    using assms by (auto simp: server_main_def bind_eq_Some_conv)
  obtain fd1 st1 where "server_connect os junk st n = (fd1, st1)" by fastforce
  with assms n show ?thesis by (auto simp: server_main_def bind_eq_Some_conv split: if_split_asm)
qed

section \<open>An operating system\<close>

text \<open>One socket, whose state is its address; a request for port 0 gets port 40000.\<close>

definition one_socket :: "sockaddr_in option os_ops" where
  "one_socket = \<lparr>sys_socket = (\<lambda>st. (3, st)), sys_setsockopt = (\<lambda>st fd. (0, st)),
     sys_bind = (\<lambda>st fd a. (0, Some (if sin_port a = 0 then a\<lparr>sin_port := htons 40000\<rparr> else a))),
     sys_getsockname = (\<lambda>st fd. st), sys_listen = (\<lambda>st fd. st), sys_accept = (\<lambda>st fd. (4, st))\<rparr>"

lemma one_socket_laws: "bind_laws one_socket"
  by (simp add: bind_laws_def one_socket_def)

definition no_address :: sockaddr_in where
  "no_address = \<lparr>sin_family = 0, s_addr = 0, sin_port = 0\<rparr>"

end
