(* ===== verification/Fs_Programs.thy ===== *)
theory Fs_Programs
  imports Fs_Locks
begin

text \<open>
  The request handlers of \<^verbatim>\<open>src/filesystem.cpp\<close> as programs whose actions can be interleaved with
  those of other threads: a call of the disk, an operation on a lock, and a critical section of
  \<^verbatim>\<open>internal_lock_free_list\<close> or \<^verbatim>\<open>internal_lock_map\<close> each are one atomic action, and everything between
  two actions is computation on local variables. Run alone, a program is the handler of theory
  \<^verbatim>\<open>Filesystem\<close>, with the same result, state and sequence of events.
\<close>

section \<open>Programs\<close>

text \<open>
  A mutex of \<^verbatim>\<open>data_locks\<close>: the block, and how often its entry has been erased before. While an entry
  stays, \<^verbatim>\<open>get_lock_ptr\<close> returns one mutex to all who hold a pointer to it.
\<close>

type_synonym data_lock = "nat \<times> nat"

datatype prog =
    Return out
  | Abort
  | Get_Lock nat "data_lock \<Rightarrow> prog"
  | Lock lock_mode data_lock prog
  | Make_Unique data_lock prog
  | Unlock data_lock prog
  | Read nat "char list \<Rightarrow> prog"
  | Write nat "char list" prog
  | Free_List "nat list \<Rightarrow> nat list" "nat list \<Rightarrow> prog"
  | Erase_Lock nat prog

text \<open>\<open>Free_List upd k\<close> replaces the free list by \<open>upd\<close> of it and goes on with \<open>k\<close> of the old one.\<close>

definition checked :: "'a option \<Rightarrow> ('a \<Rightarrow> prog) \<Rightarrow> prog" where
  "checked m k = (case m of None \<Rightarrow> Abort | Some x \<Rightarrow> k x)"

lemma checked_simps [simp]: "checked None k = Abort" "checked (Some x) k = k x"
  by (simp_all add: checked_def)

section \<open>Path traversal\<close>

primrec find_prog ::
  "fs_inode \<Rightarrow> string \<Rightarrow> ((nat \<times> nat \<times> nat \<times> fs_direntry list) option \<Rightarrow> prog) \<Rightarrow> nat \<Rightarrow> nat \<Rightarrow> prog" where
  "find_prog ino name k 0 = (\<lambda>i. k None)"
| "find_prog ino name k (Suc n) = (\<lambda>i.
     checked (at (blocks ino) i) (\<lambda>b. Read b (\<lambda>raw.
       case find_slot (dec_direntries raw) name of
         Some j \<Rightarrow> k (Some (i, b, j, dec_direntries raw))
       | None \<Rightarrow> find_prog ino name k n (Suc i))))"

text \<open>\<open>cur\<close> is the mutex whose lock is held; the continuation gets the inode and the mutex of its lock.\<close>

primrec traverse_steps ::
  "lock_mode \<Rightarrow> string \<Rightarrow> ((fs_inode \<times> data_lock) option \<Rightarrow> prog) \<Rightarrow> Path \<Rightarrow> nat \<Rightarrow> fs_inode \<Rightarrow> data_lock \<Rightarrow> prog" where
  "traverse_steps mode own k [] = (\<lambda>i ino cur.
     if \<not> strcmp_eq own (owner ino) then Unlock cur (k None) else k (Some (ino, cur)))"
| "traverse_steps mode own k (x # rest) = (\<lambda>i ino cur.
     if itype ino = CHR ''f'' then Unlock cur (k None)
     else if \<not> strcmp_eq own (owner ino) \<and> i \<noteq> 0 then Unlock cur (k None)
     else find_prog ino x (\<lambda>r. case r of
         None \<Rightarrow> Unlock cur (k None)
       | Some (_, _, j, es) \<Rightarrow>
           (let nb = inode_block (es ! j) in
            Get_Lock nb (\<lambda>m. Lock (if rest = [] then mode else Shared) m (Unlock cur (Read nb (\<lambda>raw.
              traverse_steps mode own k rest (Suc i) (dec_inode raw) m)))))) (isize ino) 0)"

definition traverse_prog ::
  "lock_mode \<Rightarrow> Path \<Rightarrow> string \<Rightarrow> ((fs_inode \<times> data_lock) option \<Rightarrow> prog) \<Rightarrow> prog" where
  "traverse_prog mode pth own k =
     Get_Lock 0 (\<lambda>m.
       if pth = [] then Lock mode m (Read 0 (\<lambda>raw. k (Some (dec_inode raw, m))))
       else Lock Shared m (Read 0 (\<lambda>raw. traverse_steps mode own k pth 0 (dec_inode raw) m)))"

section \<open>FS_CREATE\<close>

primrec scan_prog ::
  "fs_inode \<Rightarrow> string \<Rightarrow> (unit + (nat \<times> nat \<times> fs_direntry list) option \<Rightarrow> prog)
    \<Rightarrow> nat \<Rightarrow> nat \<Rightarrow> (nat \<times> nat \<times> fs_direntry list) option \<Rightarrow> prog" where
  "scan_prog ino name k 0 = (\<lambda>i spot. k (Inr spot))"
| "scan_prog ino name k (Suc n) = (\<lambda>i spot.
     checked (at (blocks ino) i) (\<lambda>b. Read b (\<lambda>raw.
       (let es = dec_direntries raw in
        if find_slot es name \<noteq> None then k (Inl ())
        else scan_prog ino name k n (Suc i)
          (case spot of
             Some sp \<Rightarrow> Some sp
           | None \<Rightarrow> map_option (\<lambda>j. (b, j, es)) (first_free es))))))"

definition create_commit_prog ::
  "fs_inode \<Rightarrow> string \<Rightarrow> string \<Rightarrow> char \<Rightarrow> fs_inode \<Rightarrow> data_lock \<Rightarrow> (nat \<times> nat \<times> fs_direntry list) option \<Rightarrow> prog" where
  "create_commit_prog junk user filename typ dir m spot =
     Free_List tl (\<lambda>free. case free of
       [] \<Rightarrow> Unlock m (Return Error)
     | new_inode_block # _ \<Rightarrow>
         checked (strcpy (owner junk) user) (\<lambda>own.
           let new_inode = junk\<lparr>isize := 0, itype := typ, owner := own\<rparr> in
           case spot of
             None \<Rightarrow>
               if isize dir = FS_MAXFILEBLOCKS then
                 Free_List (\<lambda>free. new_inode_block # free) (\<lambda>_. Unlock m (Return Error))
               else
                 Free_List (\<lambda>free. case free of [] \<Rightarrow> [new_inode_block] | _ # free' \<Rightarrow> free') (\<lambda>free. case free of
                   [] \<Rightarrow> Unlock m (Return Error)
                 | new_direntries_block # _ \<Rightarrow>
                     checked (strcpy (dname empty_direntry) filename) (\<lambda>name.
                       let es = (replicate FS_DIRENTRIES empty_direntry)
                                  [0 := \<lparr>dname = name, inode_block = new_inode_block\<rparr>] in
                       Write new_direntries_block (enc_direntries es)
                         (Write new_inode_block (enc_inode new_inode)
                           (checked (cassert (isize dir < length (blocks dir))) (\<lambda>_.
                             let dir' = dir\<lparr>blocks := (blocks dir)[isize dir := new_direntries_block],
                                            isize := isize dir + 1\<rparr> in
                             Make_Unique m (Write (fst m) (enc_inode dir') (Unlock m (Return Done))))))))
           | Some (sb, j, es) \<Rightarrow>
               checked (strcpy (dname (es ! j)) filename) (\<lambda>name.
                 let es' = es[j := \<lparr>dname = name, inode_block = new_inode_block\<rparr>] in
                 Write new_inode_block (enc_inode new_inode)
                   (Make_Unique m (Write sb (enc_direntries es') (Unlock m (Return Done)))))))"

definition create_prog :: "fs_inode \<Rightarrow> string \<Rightarrow> Path \<Rightarrow> char \<Rightarrow> prog" where
  "create_prog junk user pth typ =
     (if pth = [] then Return Error
      else Free_List id (\<lambda>free.
        if free = [] then Return Error
        else traverse_prog Upgradable (butlast pth) user (\<lambda>r. case r of
            None \<Rightarrow> Return Error
          | Some (dir, m) \<Rightarrow>
              if itype dir = CHR ''f'' then Unlock m (Return Error)
              else scan_prog dir (last pth) (\<lambda>sc. case sc of
                  Inl _ \<Rightarrow> Unlock m (Return Error)
                | Inr spot \<Rightarrow> create_commit_prog junk user (last pth) typ dir m spot) (isize dir) 0 None)))"

section \<open>FS_DELETE\<close>

text \<open>The part after the parent's entry has been removed: \<open>extra\<close> is the block of entries given back, if any.\<close>

definition delete_finish_prog :: "nat list \<Rightarrow> fs_inode \<Rightarrow> data_lock \<Rightarrow> data_lock \<Rightarrow> prog" where
  "delete_finish_prog extra target pm tm =
     (let finish = Unlock pm (Make_Unique tm (Erase_Lock (fst tm)
            (checked (if itype target = CHR ''f''
                      then do { cassert (isize target \<le> length (blocks target)); Some (take (isize target) (blocks target)) }
                      else Some []) (\<lambda>data.
              Free_List (\<lambda>free. free @ data @ [fst tm]) (\<lambda>_. Unlock tm (Return Done))))))
      in if extra = [] then finish else Free_List (\<lambda>free. free @ extra) (\<lambda>_. finish))"

definition delete_commit_prog ::
  "string \<Rightarrow> fs_inode \<Rightarrow> data_lock \<Rightarrow> nat \<times> nat \<times> nat \<times> fs_direntry list \<Rightarrow> fs_inode \<Rightarrow> data_lock \<Rightarrow> prog" where
  "delete_commit_prog user parent pm found target tm =
     (let (k, db, j, es) = found in
      if \<not> strcmp_eq (owner target) user then Unlock tm (Unlock pm (Return Error))
      else if itype target = CHR ''d'' \<and> 0 < isize target then Unlock tm (Unlock pm (Return Error))
      else if list_all (\<lambda>e. inode_block e = 0 \<or> inode_block e = fst tm) es then
        checked (cassert (isize parent \<le> length (blocks parent))) (\<lambda>_.
          let parent' = parent\<lparr>blocks := shift_blocks (blocks parent) k (isize parent),
                               isize := isize parent - 1\<rparr> in
          Write (fst pm) (enc_inode parent') (delete_finish_prog [db] target pm tm))
      else
        Write db (enc_direntries (es[j := (es ! j)\<lparr>inode_block := 0\<rparr>])) (delete_finish_prog [] target pm tm))"

definition delete_prog :: "string \<Rightarrow> Path \<Rightarrow> prog" where
  "delete_prog user pth =
     (if pth = [] then Return Error
      else Free_List id (\<lambda>free.
        if length free = 4095 then Return Error
        else traverse_prog Upgradable (butlast pth) user (\<lambda>r. case r of
            None \<Rightarrow> Return Error
          | Some (parent, pm) \<Rightarrow>
              if isize parent = 0 then Unlock pm (Return Error)
              else if itype parent = CHR ''f'' then Unlock pm (Return Error)
              else find_prog parent (last pth) (\<lambda>f. case f of
                  None \<Rightarrow> Unlock pm (Return Error)
                | Some (k, db, j, es) \<Rightarrow>
                    (let tblk = inode_block (es ! j) in
                     Get_Lock tblk (\<lambda>tm. Make_Unique pm (Lock Upgradable tm (Read tblk (\<lambda>raw.
                       delete_commit_prog user parent pm (k, db, j, es) (dec_inode raw) tm)))))) (isize parent) 0)))"

section \<open>FS_READBLOCK and FS_WRITEBLOCK\<close>

definition read_prog :: "string \<Rightarrow> Path \<Rightarrow> nat \<Rightarrow> prog" where
  "read_prog user pth blk =
     (if pth = [] then Return Error
      else if FS_MAXFILEBLOCKS \<le> blk then Return Error
      else traverse_prog Shared pth user (\<lambda>r. case r of
          None \<Rightarrow> Return Error
        | Some (ino, m) \<Rightarrow>
            if itype ino = CHR ''d'' then Unlock m (Return Error)
            else if isize ino \<le> blk then Unlock m (Return Error)
            else checked (at (blocks ino) blk) (\<lambda>b. Read b (\<lambda>bytes. Unlock m (Return (Out bytes))))))"

definition write_prog :: "string \<Rightarrow> Path \<Rightarrow> nat \<Rightarrow> char list option \<Rightarrow> prog" where
  "write_prog user pth blk dat =
     (if pth = [] then Return Error
      else if FS_MAXFILEBLOCKS \<le> blk then Return Error
      else traverse_prog Upgradable pth user (\<lambda>r. case r of
          None \<Rightarrow> Return Error
        | Some (ino, m) \<Rightarrow>
            if itype ino = CHR ''d'' then Unlock m (Return Error)
            else if blk < isize ino then
              checked (at (blocks ino) blk) (\<lambda>b. checked dat (\<lambda>bytes.
                Make_Unique m (Write b bytes (Unlock m (Return Done)))))
            else if blk = isize ino then
              Free_List tl (\<lambda>free. case free of
                [] \<Rightarrow> Unlock m (Return Error)
              | b # _ \<Rightarrow>
                  checked (cassert (isize ino < length (blocks ino))) (\<lambda>_.
                    let ino' = ino\<lparr>blocks := (blocks ino)[isize ino := b], isize := isize ino + 1\<rparr> in
                    checked dat (\<lambda>bytes.
                      Write b bytes (Make_Unique m (Write (fst m) (enc_inode ino') (Unlock m (Return Done)))))))
            else Unlock m (Return Error)))"

fun request_prog :: "fs_inode \<Rightarrow> Request \<Rightarrow> prog" where
  "request_prog junk (FS_READBLOCK u p b) = read_prog u p b"
| "request_prog junk (FS_WRITEBLOCK u p b d) = write_prog u p b d"
| "request_prog junk (FS_CREATE u p ty) = create_prog junk u p ty"
| "request_prog junk (FS_DELETE u p) = delete_prog u p"

section \<open>A program run alone\<close>

text \<open>All locks are available; \<open>g\<close> counts the erasures, \<open>evs\<close> are the events so far.\<close>

primrec solo :: "'d disk_ops \<Rightarrow> prog \<Rightarrow> (nat \<Rightarrow> nat) \<Rightarrow> 'd fs_state \<Rightarrow> fs_event list
    \<Rightarrow> (out \<times> 'd fs_state \<times> fs_event list) option" where
  "solo io (Return r) = (\<lambda>g s evs. Some (r, s, evs))"
| "solo io Abort = (\<lambda>g s evs. None)"
| "solo io (Get_Lock b k) = (\<lambda>g s evs. solo io (k (b, g b)) g s evs)"
| "solo io (Lock mode m p) = (\<lambda>g s evs. solo io p g s (evs @ [Acquire mode (fst m)]))"
| "solo io (Make_Unique m p) = (\<lambda>g s evs. solo io p g s (evs @ [Upgrade (fst m)]))"
| "solo io (Unlock m p) = (\<lambda>g s evs. solo io p g s (evs @ [Release (fst m)]))"
| "solo io (Read b k) = (\<lambda>g s evs. do { raw \<leftarrow> disk_readblock io (disk s) b; solo io (k raw) g s evs })"
| "solo io (Write b bytes p) = (\<lambda>g s evs.
     do { d \<leftarrow> disk_writeblock io (disk s) b bytes; solo io p g (s\<lparr>disk := d\<rparr>) (evs @ [WriteBlock b]) })"
| "solo io (Free_List upd k) = (\<lambda>g s evs.
     solo io (k (free_disk_blocks s)) g (s\<lparr>free_disk_blocks := upd (free_disk_blocks s)\<rparr>) evs)"
| "solo io (Erase_Lock b p) = (\<lambda>g s evs. solo io p (g(b := Suc (g b))) s (evs @ [Forget b]))"

lemma solo_checked [simp]: "solo io (checked x k) g s evs = do { y \<leftarrow> x; solo io (k y) g s evs }"
  by (cases x) simp_all

lemma solo_find: "solo io (find_prog ino name k n i) g s evs
    = do { r \<leftarrow> find_direntry io (disk s) ino name n i; solo io (k r) g s evs }"
proof (induction n arbitrary: i)
  case (Suc n)
  then show ?case by (auto intro!: bind_option_cong split: option.split)
qed simp

lemma solo_scan: "solo io (scan_prog ino name k n i spot) g s evs
    = do { r \<leftarrow> create_scan io (disk s) ino name n i spot; solo io (k r) g s evs }"
proof (induction n arbitrary: i spot)
  case (Suc n)
  then show ?case by (auto simp: Let_def intro!: bind_option_cong)
qed simp

abbreviation with_mutex :: "(nat \<Rightarrow> nat) \<Rightarrow> (fs_inode \<times> nat) option \<Rightarrow> (fs_inode \<times> data_lock) option" where
  "with_mutex g \<equiv> map_option (\<lambda>(ino, b). (ino, b, g b))"

lemma solo_traverse_steps: "cur = (c, g c) \<Longrightarrow> solo io (traverse_steps mode own k p i ino cur) g s evs
    = do { (r, evs') \<leftarrow> traverse_loop io (disk s) mode own p i ino c evs; solo io (k (with_mutex g r)) g s evs' }"
proof (induction p arbitrary: i ino c cur evs)
  case (Cons x p)
  then show ?case by (auto simp: solo_find Let_def intro!: bind_option_cong split: option.split)
qed simp

lemma solo_traverse: "solo io (traverse_prog mode p own k) g s []
    = do { (r, evs) \<leftarrow> traverse_fs io (disk s) mode p own; solo io (k (with_mutex g r)) g s evs }"
  by (auto simp: traverse_prog_def traverse_fs_def solo_traverse_steps intro!: bind_option_cong)

lemma solo_create_commit: "m = (b, g b) \<Longrightarrow> solo io (create_commit_prog junk user filename typ dir m spot) g s evs
    = create_commit io junk s user filename typ dir b spot evs"
  by (auto simp: create_commit_prog_def create_commit_def Let_def split: list.split option.split intro!: bind_option_cong)

lemma solo_delete_commit: "pm = (p, g p) \<Longrightarrow> tm = (t, g t) \<Longrightarrow>
    solo io (delete_commit_prog user parent pm found target tm) g s evs = delete_commit io s user parent p found target t evs"
  by (auto simp: delete_commit_prog_def delete_commit_def delete_finish_prog_def Let_def split: prod.split intro!: bind_option_cong)

lemma solo_request: "solo io (request_prog junk r) g s [] = execute_request io junk s r"
proof (cases r)
  case (FS_READBLOCK u p b)
  then show ?thesis
    by (auto simp: read_prog_def execute_readblock_def solo_traverse intro!: bind_option_cong split: option.split)
next
  case (FS_WRITEBLOCK u p b d)
  then show ?thesis
    by (auto simp: write_prog_def execute_writeblock_def solo_traverse Let_def intro!: bind_option_cong split: option.split list.split)
next
  case (FS_CREATE u p ty)
  then show ?thesis
    by (auto simp: create_prog_def execute_create_def solo_traverse solo_scan solo_create_commit intro!: bind_option_cong split: option.split sum.split)
next
  case (FS_DELETE u p)
  then show ?thesis
    by (auto simp: delete_prog_def execute_delete_def solo_traverse solo_find solo_delete_commit Let_def intro!: bind_option_cong split: option.split)
qed

end
