(* ===== verification/Fs_Concurrent.thy ===== *)
theory Fs_Concurrent
  imports Fs_Programs
begin

text \<open>
  Connection threads side by side: every thread runs the program of its request, and any thread
  that is not blocked may take the next action. Locks of \<^verbatim>\<open>boost::shared_mutex\<close> are shared,
  upgradable (beside shared ones, but only once) or unique. No schedule goes on forever: an action
  replaces a thread's program by a part of it.
\<close>

section \<open>Threads and locks\<close>

datatype activity = Running prog "(data_lock \<times> hold) list" | Finished out

record worker =
  request :: Request
  activity :: activity

record 'd world =
  fsys :: "'d fs_state"
  erasures :: "nat \<Rightarrow> nat"
  workers :: "worker list"

fun held :: "activity \<Rightarrow> (data_lock \<times> hold) list" where
  "held (Running p h) = h"
| "held (Finished r) = []"

text \<open>When a lock can be had beside the locks \<open>oth\<close> of the other threads.\<close>

fun lock_free :: "(data_lock \<times> hold) list \<Rightarrow> lock_mode \<Rightarrow> data_lock \<Rightarrow> bool" where
  "lock_free oth Shared m \<longleftrightarrow> (m, Holds_unique) \<notin> set oth"
| "lock_free oth Upgradable m \<longleftrightarrow> (m, Holds_unique) \<notin> set oth \<and> (m, Holds_upgradable) \<notin> set oth"

definition upgrade :: "data_lock \<Rightarrow> (data_lock \<times> hold) list \<Rightarrow> (data_lock \<times> hold) list" where
  "upgrade m h = map (\<lambda>(x, k). (x, if x = m then Holds_unique else k)) h"

text \<open>
  One action. \<open>None\<close>: the thread is blocked, has aborted or has finished.
\<close>

fun act :: "'d disk_ops \<Rightarrow> (data_lock \<times> hold) list \<Rightarrow> 'd fs_state \<Rightarrow> (nat \<Rightarrow> nat) \<Rightarrow> activity
    \<Rightarrow> ('d fs_state \<times> (nat \<Rightarrow> nat) \<times> activity) option" where
  "act io oth s g (Finished r) = None"
| "act io oth s g (Running (Return r) h) = Some (s, g, Finished r)"
| "act io oth s g (Running Abort h) = None"
| "act io oth s g (Running (Get_Lock b k) h) = Some (s, g, Running (k (b, g b)) h)"
| "act io oth s g (Running (Lock mode m p) h) =
     (if lock_free oth mode m then Some (s, g, Running p ((m, hold_of mode) # h)) else None)"
| "act io oth s g (Running (Make_Unique m p) h) =
     (if m \<notin> fst ` set oth then Some (s, g, Running p (upgrade m h)) else None)"
| "act io oth s g (Running (Unlock m p) h) = Some (s, g, Running p (filter (\<lambda>x. fst x \<noteq> m) h))"
| "act io oth s g (Running (Read b k) h) =
     (case disk_readblock io (disk s) b of None \<Rightarrow> None | Some raw \<Rightarrow> Some (s, g, Running (k raw) h))"
| "act io oth s g (Running (Write b bytes p) h) =
     (case disk_writeblock io (disk s) b bytes of None \<Rightarrow> None | Some d \<Rightarrow> Some (s\<lparr>disk := d\<rparr>, g, Running p h))"
| "act io oth s g (Running (Free_List upd k) h) =
     Some (s\<lparr>free_disk_blocks := upd (free_disk_blocks s)\<rparr>, g, Running (k (free_disk_blocks s)) h)"
| "act io oth s g (Running (Erase_Lock b p) h) = Some (s, g(b := Suc (g b)), Running p h)"

definition others :: "worker list \<Rightarrow> nat \<Rightarrow> (data_lock \<times> hold) list" where
  "others ws i = concat (map (\<lambda>j. held (activity (ws ! j))) (filter (\<lambda>j. j \<noteq> i) [0..<length ws]))"

lemma set_others: "set (others ws i) = (\<Union>j \<in> {j. j < length ws \<and> j \<noteq> i}. set (held (activity (ws ! j))))"
  by (auto simp: others_def)

text \<open>A request arrives, with the garbage that an uninitialised inode of its thread holds, or a thread moves.\<close>

datatype move = Arrive fs_inode Request | Move nat

inductive conc_step :: "'d disk_ops \<Rightarrow> move \<Rightarrow> 'd world \<Rightarrow> 'd world \<Rightarrow> bool" for io where
  arriving: "wf_inode junk \<Longrightarrow> ready_request r \<Longrightarrow>
    conc_step io (Arrive junk r) w (w\<lparr>workers := workers w @ [\<lparr>request = r, activity = Running (request_prog junk r) []\<rparr>]\<rparr>)"
| moving: "i < length (workers w) \<Longrightarrow>
    act io (others (workers w) i) (fsys w) (erasures w) (activity (workers w ! i)) = Some (s, g, a) \<Longrightarrow>
    conc_step io (Move i) w (w\<lparr>fsys := s, erasures := g, workers := (workers w)[i := (workers w ! i)\<lparr>activity := a\<rparr>]\<rparr>)"

inductive_cases arriveE: "conc_step io (Arrive junk r) w w'"
inductive_cases moveE: "conc_step io (Move i) w w'"

section \<open>Every schedule ends\<close>

inductive part_of :: "prog \<Rightarrow> prog \<Rightarrow> bool" where
  "part_of (k m) (Get_Lock b k)"
| "part_of p (Lock mode m p)"
| "part_of p (Make_Unique m p)"
| "part_of p (Unlock m p)"
| "part_of (k raw) (Read b k)"
| "part_of p (Write b bytes p)"
| "part_of (k fl) (Free_List upd k)"
| "part_of p (Erase_Lock b p)"

inductive_cases part_ofE:
  "part_of q (Return r)" "part_of q Abort" "part_of q (Get_Lock b k)" "part_of q (Lock mode m p)" "part_of q (Make_Unique m p)"
  "part_of q (Unlock m p)" "part_of q (Read b k)" "part_of q (Write b bytes p)" "part_of q (Free_List upd k)" "part_of q (Erase_Lock b p)"

lemma acc_part_of: "Wellfounded.accp part_of p"
  by (induction p; rule accp.accI; erule part_ofE; blast?)

fun later :: "activity \<Rightarrow> activity \<Rightarrow> bool" where
  "later a (Finished r) \<longleftrightarrow> False"
| "later (Finished r) (Running p h) \<longleftrightarrow> True"
| "later (Running q h') (Running p h) \<longleftrightarrow> part_of q p"

lemma acc_later: "Wellfounded.accp later a"
proof (cases a)
  case (Finished r)
  then show ?thesis by (auto intro: accp.accI)
next
  case (Running p h)
  have "Wellfounded.accp later (Running p h)" for h
    using acc_part_of [of p]
  proof (induction arbitrary: h rule: accp.induct)
    case (accI p)
    show ?case
    proof (rule accp.accI)
      fix b assume "later b (Running p h)"
      with accI show "Wellfounded.accp later b" by (cases b) (auto intro: accp.accI)
    qed
  qed
  with Running show ?thesis by simp
qed

lemma act_later: "act io oth s g a = Some (s', g', b) \<Longrightarrow> later b a"
  by (cases "(io, oth, s, g, a)" rule: act.cases) (auto split: if_splits option.splits intro: part_of.intros)

definition moves :: "'d disk_ops \<Rightarrow> ('d world \<times> 'd world) set" where
  "moves io = {(w', w). \<exists>i. conc_step io (Move i) w w'}"

lemma wf_moves: "wf (moves (io :: 'a disk_ops))"
proof (rule wf_subset)
  have "wf {(a, b). later a b}" using acc_later accp_wfpI [of later] by (simp add: wfp_def)
  then show "wf (inv_image (mult {(a, b). later a b}) (\<lambda>w :: 'a world. mset (map activity (workers w))))"
    by (intro wf_inv_image wf_mult)
  show "moves io \<subseteq> inv_image (mult {(a, b). later a b}) (\<lambda>w :: 'a world. mset (map activity (workers w)))"
  proof (rule subrelI)
    fix w' w assume "(w', w) \<in> moves io"
    then obtain i s g a where i: "i < length (workers w)" and a: "later a (activity (workers w ! i))"
      and w': "w' = w\<lparr>fsys := s, erasures := g, workers := (workers w)[i := (workers w ! i)\<lparr>activity := a\<rparr>]\<rparr>"
      by (auto simp: moves_def elim!: moveE dest: act_later)
    let ?b = "map activity (workers w)"
    have "mset (?b[i := a]) = add_mset a (mset ?b - {#?b ! i#})" "mset ?b = add_mset (?b ! i) (mset ?b - {#?b ! i#})"
      using i by (simp_all add: mset_update nth_mem_mset)
    then have "(mset (?b[i := a]), mset ?b) \<in> mult1 {(a, b). later a b}"
      using a i by (intro mult1I [of _ "?b ! i" "mset ?b - {#?b ! i#}" _ "{#a#}"]) auto
    then show "(w', w) \<in> inv_image (mult {(a, b). later a b}) (\<lambda>w. mset (map activity (workers w)))"
      by (simp add: mult_def map_update w' r_into_trancl del: mset_map)
  qed
qed

end
