(* ===== verification/Fs_View.thy ===== *)
theory Fs_View
  imports Fs_Delete
begin

text \<open>
  The file system as its users see it: a map from paths to directories and files. A path is
  walked through the child maps of the directories; on a disk that holds a tree every node has
  one path, so a change of one directory changes the walks through it and no others.
\<close>

section \<open>Walks\<close>

fun walk :: "(nat \<Rightarrow> string \<Rightarrow> nat option) \<Rightarrow> nat \<Rightarrow> Path \<Rightarrow> nat option" where
  "walk ch b [] = Some b"
| "walk ch b (x # p) = (case ch b x of None \<Rightarrow> None | Some c \<Rightarrow> walk ch c p)"

definition child :: "(nat \<Rightarrow> char list) \<Rightarrow> nat \<Rightarrow> string \<Rightarrow> nat option" where
  "child D b = map_of (map (\<lambda>e. (c_str (dname e), inode_block e)) (live_entries D b))"

lemma walk_append: "walk ch b (p @ q) = Option.bind (walk ch b p) (\<lambda>c. walk ch c q)"
  by (induction p arbitrary: b) (auto split: option.splits)

lemma walk_snoc: "walk ch b (p @ [x]) = Option.bind (walk ch b p) (\<lambda>c. ch c x)"
  by (cases "walk ch b p") (auto simp: walk_append split: option.splits)

text \<open>Every place of the graph is reached by one path only.\<close>

definition unique_paths :: "(nat \<Rightarrow> string \<Rightarrow> nat option) \<Rightarrow> nat \<Rightarrow> bool" where
  "unique_paths ch r \<longleftrightarrow> (\<forall>p q c. walk ch r p = Some c \<longrightarrow> walk ch r q = Some c \<longrightarrow> p = q)"

lemma walk_same:
  assumes "\<And>q c. walk ch r q = Some c \<Longrightarrow> ch' c = ch c"
  shows "walk ch' r q = walk ch r q"
proof (induction q rule: rev_induct)
  case (snoc x q)
  then show ?case using assms [of q] by (cases "walk ch r q") (simp_all add: walk_snoc)
qed simp

lemma walk_insert:
  assumes "unique_paths ch r" "walk ch r p = Some x" "ch x name = None"
    "\<And>q c. walk ch r q = Some c \<Longrightarrow> c \<noteq> x \<Longrightarrow> ch' c = ch c" "ch' x = (ch x)(name \<mapsto> nb)" "ch' nb = Map.empty"
  shows "walk ch' r q = (if q = p @ [name] then Some nb else walk ch r q)"
proof (induction q rule: rev_induct)
  case (snoc y q)
  show ?case
  proof (cases "q = p @ [name]")
    case True
    moreover have "walk ch r ((p @ [name]) @ [y]) = None" using assms(2,3) by (simp only: walk_snoc) simp
    ultimately show ?thesis using snoc assms(6) by (simp only: walk_snoc) simp
  next
    case False
    then have IH: "walk ch' r q = walk ch r q" using snoc by simp
    show ?thesis
    proof (cases "walk ch r q")
      case None
      then have "q \<noteq> p" using assms(2) by auto
      with None IH show ?thesis by (simp add: walk_snoc)
    next
      case (Some c)
      then have "c = x \<longleftrightarrow> q = p" using assms(1,2) unfolding unique_paths_def by (metis option.inject)
      with Some IH assms(4) [OF Some] assms(5) show ?thesis by (cases "c = x") (auto simp: walk_snoc)
    qed
  qed
qed simp

lemma walk_remove:
  assumes "unique_paths ch r" "walk ch r p = Some x" "ch x name = Some c" "ch c = Map.empty"
    "\<And>q c. walk ch r q = Some c \<Longrightarrow> c \<noteq> x \<Longrightarrow> ch' c = ch c" "ch' x = (ch x)(name := None)"
  shows "walk ch' r q = (if q = p @ [name] then None else walk ch r q)"
proof (induction q rule: rev_induct)
  case (snoc y q)
  show ?case
  proof (cases "q = p @ [name]")
    case True
    moreover have "walk ch r ((p @ [name]) @ [y]) = None" using assms(2-4) by (simp only: walk_snoc) simp
    ultimately show ?thesis using snoc by (simp only: walk_snoc) simp
  next
    case False
    then have IH: "walk ch' r q = walk ch r q" using snoc by simp
    show ?thesis
    proof (cases "walk ch r q")
      case None
      then have "q \<noteq> p" using assms(2) by auto
      with None IH show ?thesis by (simp add: walk_snoc)
    next
      case (Some c)
      then have "c = x \<longleftrightarrow> q = p" using assms(1,2) unfolding unique_paths_def by (metis option.inject)
      with Some IH assms(5) [OF Some] assms(6) show ?thesis by (cases "c = x") (auto simp: walk_snoc)
    qed
  qed
qed simp

section \<open>Walks on a disk that holds a tree\<close>

lemma child_in_children: "child D b x = Some c \<Longrightarrow> c \<in> set (children D b)"
  by (auto simp: child_def children_def dest!: map_of_SomeD)

lemma entry_child:
  assumes "distinct (names D b)" "e \<in> set (live_entries D b)"
  shows "child D b (c_str (dname e)) = Some (inode_block e)"
proof -
  have "distinct (map fst (map (\<lambda>e. (c_str (dname e), inode_block e)) (live_entries D b)))"
    using assms(1) by (simp add: names_def comp_def)
  then show ?thesis using assms(2) unfolding child_def by (intro map_of_is_SomeI) auto
qed

lemma child_entry:
  assumes "child D b x = Some c"
  obtains e where "e \<in> set (live_entries D b)" "c_str (dname e) = x" "inode_block e = c"
  using assms by (auto simp: child_def dest!: map_of_SomeD)

lemma child_None: "child D b x = None \<longleftrightarrow> x \<notin> set (names D b)"
  by (auto simp: child_def names_def map_of_eq_None_iff image_image)

lemma kid_of_child:
  assumes "rep D t" "child D (root t) x = Some c"
  obtains k where "k \<in> set (kids t)" "root k = c" "rep D k"
proof -
  obtain k where "k \<in> set (kids t)" "root k = c" using child_node [OF assms(1) child_in_children [OF assms(2)]] by blast
  with assms(1) that show thesis by (cases t) (auto simp: list_all_iff)
qed

lemma walk_nodes: "rep D t \<Longrightarrow> walk (child D) (root t) p = Some c \<Longrightarrow> \<exists>n \<in> set (nodes t). root n = c"
proof (induction p arbitrary: t)
  case Nil
  then show ?case by (cases t) simp
next
  case (Cons x p)
  then obtain d where d: "child D (root t) x = Some d" "walk (child D) d p = Some c" by (auto split: option.splits)
  then obtain k where k: "k \<in> set (kids t)" "root k = d" "rep D k" using kid_of_child [OF Cons.prems(1)] by blast
  then obtain n where "n \<in> set (nodes k)" "root n = c" using Cons.IH d(2) by blast
  with k(1) show ?case by (cases t) auto
qed

lemma walk_blocks:
  assumes "rep D t" "walk (child D) (root t) p = Some c"
  shows "c \<in> set (blocks_of D t)"
proof -
  obtain n where "n \<in> set (nodes t)" "root n = c" using walk_nodes [OF assms] by blast
  then show ?thesis using nodes_blocks root_in_blocks by blast
qed

lemma same_name:
  assumes "rep D t" "distinct (blocks_of D t)" "child D (root t) x = Some c" "child D (root t) y = Some c"
  shows "x = y"
proof -
  obtain e f where ef: "e \<in> set (live_entries D (root t))" "c_str (dname e) = x" "inode_block e = c"
    "f \<in> set (live_entries D (root t))" "c_str (dname f) = y" "inode_block f = c"
    using child_entry assms(3,4) by metis
  have "distinct (map inode_block (live_entries D (root t)))" using children_distinct [OF assms(1,2)] by (simp add: children_def)
  with ef have "e = f" by (metis distinct_map inj_onD)
  with ef show ?thesis by simp
qed

lemma walk_not_root:
  assumes "rep D t" "distinct (blocks_of D t)" "walk (child D) (root t) (x # p) = Some c"
  shows "c \<noteq> root t"
proof -
  obtain d where d: "child D (root t) x = Some d" "walk (child D) d p = Some c" using assms(3) by (auto split: option.splits)
  obtain k where k: "k \<in> set (kids t)" "root k = d" "rep D k" using kid_of_child [OF assms(1) d(1)] by blast
  then have "c \<in> set (blocks_of D k)" using walk_blocks d(2) by blast
  with k(1) assms(2) show ?thesis by (cases t) auto
qed

lemma kids_disjoint:
  assumes "distinct (blocks_of D t)" "k \<in> set (kids t)" "l \<in> set (kids t)"
    "c \<in> set (blocks_of D k)" "c \<in> set (blocks_of D l)"
  shows "k = l"
proof -
  obtain b ts where t: "t = Node b ts" by (cases t)
  have "distinct (concat (map (blocks_of D) ts))" using assms(1) by (simp add: t)
  then show ?thesis using assms(2-5) unfolding t by (induction ts) auto
qed

lemma self_node: "t \<in> set (nodes t)"
  by (cases t) simp

lemma walk_unique:
  "rep D t \<Longrightarrow> distinct (blocks_of D t) \<Longrightarrow> walk (child D) (root t) p = Some c \<Longrightarrow> walk (child D) (root t) q = Some c \<Longrightarrow> p = q"
proof (induction p arbitrary: t q)
  case Nil
  then show ?case using walk_not_root [OF Nil.prems(1,2)] by (cases q) auto
next
  case (Cons x p)
  show ?case
  proof (cases q)
    case Nil
    with Cons.prems(4) walk_not_root [OF Cons.prems(1-3)] show ?thesis by simp
  next
    case q: (Cons y q')
    obtain d e where d: "child D (root t) x = Some d" "walk (child D) d p = Some c" "child D (root t) y = Some e"
      "walk (child D) e q' = Some c" using Cons.prems(3,4) q by (auto split: option.splits)
    obtain k l where k: "k \<in> set (kids t)" "root k = d" "rep D k" and l: "l \<in> set (kids t)" "root l = e" "rep D l"
      using kid_of_child [OF Cons.prems(1)] d(1,3) by metis
    have "k = l" using kids_disjoint [OF Cons.prems(2) k(1) l(1)] walk_blocks k l d(2,4) by blast
    then have "x = y" using same_name [OF Cons.prems(1,2)] d(1,3) k(2) l(2) by metis
    moreover have "distinct (blocks_of D k)"
      by (rule nodes_distinct [OF kid_in_nodes [OF self_node k(1)] Cons.prems(2)])
    ultimately show ?thesis using Cons.IH [OF k(3)] d(2,4) k(2) l(2) \<open>k = l\<close> q by blast
  qed
qed

section \<open>The view\<close>

datatype fs_entry = Directory (owned_by: string) | Regular (owned_by: string) (contents: "char list list")

type_synonym view = "Path \<Rightarrow> fs_entry option"

definition entry_at :: "(nat \<Rightarrow> char list) \<Rightarrow> nat \<Rightarrow> fs_entry" where
  "entry_at D b = (if itype (inode_at D b) = CHR ''d'' then Directory (c_str (owner (inode_at D b)))
     else Regular (c_str (owner (inode_at D b))) (map D (used_blocks D b)))"

definition fs_view :: "(nat \<Rightarrow> char list) \<Rightarrow> view" where
  "fs_view D p = map_option (entry_at D) (walk (child D) 0 p)"

text \<open>
  What a user reaches: the entry at the end of the path is his, and so are the directories on
  the way, except the root.
\<close>

fun visible_from :: "view \<Rightarrow> string \<Rightarrow> Path \<Rightarrow> Path \<Rightarrow> bool" where
  "visible_from v u q [] = (case v q of None \<Rightarrow> False | Some e \<Rightarrow> owned_by e = u)"
| "visible_from v u q (x # p) = ((q = [] \<or> v q = Some (Directory u)) \<and> visible_from v u (q @ [x]) p)"

definition visible :: "view \<Rightarrow> string \<Rightarrow> Path \<Rightarrow> bool" where
  "visible v u p \<longleftrightarrow> p = [] \<or> visible_from v u [] p"

section \<open>Path traversal computes the walk\<close>

lemma found_child:
  assumes "inode_ok D b" "itype (inode_at D b) = CHR ''d''" "db \<in> set (used_blocks D b)" "es = dec_direntries (D db)"
    "j < length es" "inode_block (es ! j) \<noteq> 0"
  shows "child D b (c_str (dname (es ! j))) = Some (inode_block (es ! j))" "es ! j \<in> set (live_entries D b)"
proof -
  have "es ! j \<in> set (dec_direntries (D db))" using assms(4,5) by simp
  then have "es ! j \<in> set (entries D b)" using assms(3) by (auto simp: entries_def)
  then show "es ! j \<in> set (live_entries D b)" using assms(2,6) by (simp add: live_entries_def)
  then show "child D b (c_str (dname (es ! j))) = Some (inode_block (es ! j))"
    using entry_child assms(1) by (auto simp: inode_ok_def)
qed

lemma find_direntry_child:
  assumes "disk_laws io" "fs_tree io s t" "n \<in> set (nodes t)" and D: "D = image_of io (disk s)"
    and dir: "itype (inode_at D (root n)) = CHR ''d''" and x: "NUL \<notin> set x"
  shows "\<exists>r. find_direntry io (disk s) (inode_at D (root n)) x (isize (inode_at D (root n))) 0 = Some r
    \<and> (case r of
         None \<Rightarrow> child D (root n) x = None
       | Some (k, b, j, es) \<Rightarrow> k < isize (inode_at D (root n)) \<and> b = blocks (inode_at D (root n)) ! k
           \<and> b \<in> set (used_blocks D (root n)) \<and> es = dec_direntries (D b) \<and> j < length es
           \<and> inode_block (es ! j) \<noteq> 0 \<and> c_str (dname (es ! j)) = x \<and> child D (root n) x = Some (inode_block (es ! j))
           \<and> (\<exists>m \<in> set (nodes t). root m = inode_block (es ! j) \<and> m \<in> set (kids n)))"
proof -
  obtain r where r: "find_direntry io (disk s) (inode_at D (root n)) x (isize (inode_at D (root n))) 0 = Some r"
    "case r of
         None \<Rightarrow> c_str x \<notin> set (names D (root n))
       | Some (k, b, j, es) \<Rightarrow> k < isize (inode_at D (root n)) \<and> b = blocks (inode_at D (root n)) ! k
           \<and> b \<in> set (used_blocks D (root n)) \<and> es = dec_direntries (D b) \<and> j < length es
           \<and> inode_block (es ! j) \<noteq> 0 \<and> c_str (dname (es ! j)) = c_str x
           \<and> inode_block (es ! j) \<in> set (children D (root n))
           \<and> (\<exists>m \<in> set (nodes t). root m = inode_block (es ! j) \<and> m \<in> set (kids n))"
    using find_in_node [OF assms(1-5), of x] by blast
  note nf = node_facts [OF assms(1-3), folded D]
  show ?thesis using r found_child(1) [OF nf(3) dir] c_str_id [OF x]
    by (cases r) (auto simp: child_None)
qed

lemma visible_from_exists: "visible_from v u q p \<Longrightarrow> \<exists>e. v (q @ p) = Some e \<and> owned_by e = u"
  by (induction v u q p rule: visible_from.induct) (auto split: option.splits)

lemma view_at:
  assumes "walk (child D) 0 q = Some b"
  shows "fs_view D q = Some (entry_at D b)"
  using assms by (simp add: fs_view_def)

lemma traverse_loop_walk:
  assumes "disk_laws io" "fs_tree io s t" and D: "D = image_of io (disk s)" and u: "c_str u = u"
  shows "n \<in> set (nodes t) \<Longrightarrow> walk (child D) 0 q = Some (root n) \<Longrightarrow> \<forall>x \<in> set p. NUL \<notin> set x \<Longrightarrow> \<exists>evs'.
    traverse_loop io (disk s) mode u p (length q) (inode_at D (root n)) (root n) evs
      = Some (if visible_from (fs_view D) u q p then map_option (\<lambda>b. (inode_at D b, b)) (walk (child D) (root n) p) else None, evs')"
proof (induction p arbitrary: n q evs)
  case Nil
  have "owned_by (entry_at D (root n)) = c_str (owner (inode_at D (root n)))" by (simp add: entry_at_def)
  with Nil u show ?case by (auto simp: strcmp_eq_def view_at)
next
  case (Cons x p)
  note nf = node_facts [OF assms(1,2) Cons.prems(1), folded D]
  let ?i = "inode_at D (root n)"
  have vq: "fs_view D q = Some (entry_at D (root n))" by (rule view_at [OF Cons.prems(2)])
  show ?case
  proof (cases "itype ?i = CHR ''f'' \<or> \<not> strcmp_eq u (owner ?i) \<and> length q \<noteq> 0")
    case True
    have "\<not> visible_from (fs_view D) u q (x # p) \<or> walk (child D) (root n) (x # p) = None"
    proof (cases "itype ?i = CHR ''f''")
      case True
      then have "child D (root n) x = None" by (simp add: child_def live_entries_def)
      then show ?thesis by simp
    next
      case False
      with True u vq show ?thesis by (auto simp: strcmp_eq_def entry_at_def)
    qed
    with True show ?thesis by auto
  next
    case False
    then have dir: "itype ?i = CHR ''d''" using nf(3) by (auto simp: inode_ok_def)
    have own: "q = [] \<or> fs_view D q = Some (Directory u)" using False u vq dir by (auto simp: strcmp_eq_def entry_at_def)
    obtain r where r: "find_direntry io (disk s) ?i x (isize ?i) 0 = Some r"
      "r = None \<Longrightarrow> child D (root n) x = None"
      "\<And>k b j es. r = Some (k, b, j, es) \<Longrightarrow> child D (root n) x = Some (inode_block (es ! j))
         \<and> (\<exists>m \<in> set (nodes t). root m = inode_block (es ! j))"
      using find_direntry_child [OF assms(1,2) Cons.prems(1) D dir, of x] Cons.prems(3) by (fastforce split: option.splits)
    show ?thesis
    proof (cases r)
      case None
      with r(1,2) False show ?thesis by auto
    next
      case (Some a)
      obtain k b j es where a: "a = (k, b, j, es)" by (cases a)
      with Some r(3) obtain m where m: "m \<in> set (nodes t)" "root m = inode_block (es ! j)"
        "child D (root n) x = Some (root m)" by metis
      have "disk_readblock io (disk s) (root m) = Some (D (root m))"
        using disk_read(1) [OF assms(1) node_facts(1) [OF assms(1,2) m(1)]] D by simp
      with r(1) Some a m(2) False
      have "traverse_loop io (disk s) mode u (x # p) (length q) ?i (root n) evs
        = traverse_loop io (disk s) mode u p (length (q @ [x])) (inode_at D (root m)) (root m)
            (evs @ [Acquire (if p = [] then mode else Shared) (root m), Release (root n)])"
        by (auto simp: Let_def simp del: traverse_loop.simps(1))
      moreover have "walk (child D) 0 (q @ [x]) = Some (root m)" using Cons.prems(2) m(3) by (simp add: walk_snoc)
      ultimately show ?thesis using Cons.IH [OF m(1), of "q @ [x]"] Cons.prems(3) m(3) own by (auto simp del: traverse_loop.simps)
    qed
  qed
qed

lemma traverse_fs_walk:
  assumes "disk_laws io" "fs_tree io s t" and D: "D = image_of io (disk s)" and u: "NUL \<notin> set u" "\<forall>x \<in> set p. NUL \<notin> set x"
  shows "\<exists>evs. traverse_fs io (disk s) mode p u
    = Some (if visible (fs_view D) u p then map_option (\<lambda>b. (inode_at D b, b)) (walk (child D) 0 p) else None, evs)"
proof -
  have rd: "disk_readblock io (disk s) 0 = Some (D 0)"
    using disk_read(1) [OF assms(1), of 0] D by (simp add: FS_DISKSIZE_def)
  have "root t = 0" using assms(2) by (simp add: fs_tree_def)
  with traverse_loop_walk [OF assms(1-3) c_str_id [OF u(1)] self_node, of "[]" p mode "[Acquire Shared 0]"] u(2) rd
  show ?thesis by (cases p) (auto simp: traverse_fs_def visible_def simp del: traverse_loop.simps visible_from.simps walk.simps(2))
qed

end
