(* ===== verification/Fs_Spec.thy ===== *)
theory Fs_Spec
  imports Fs_View
begin

text \<open>
  The abstract specification of the four requests on views, and what the handlers do to the view
  of a disk that holds a tree.
\<close>

section \<open>The specification\<close>

definition spec_read :: "view \<Rightarrow> string \<Rightarrow> Path \<Rightarrow> nat \<Rightarrow> out" where
  "spec_read v u p blk =
     (if p \<noteq> [] \<and> blk < FS_MAXFILEBLOCKS \<and> visible v u p then
        (case v p of
           Some (Regular _ bs) \<Rightarrow> if blk < length bs then Out (bs ! blk) else Error
         | _ \<Rightarrow> Error)
      else Error)"

definition spec_write :: "view \<Rightarrow> string \<Rightarrow> Path \<Rightarrow> nat \<Rightarrow> char list \<Rightarrow> out \<times> view" where
  "spec_write v u p blk bytes =
     (if p \<noteq> [] \<and> blk < FS_MAXFILEBLOCKS \<and> visible v u p then
        (case v p of
           Some (Regular own bs) \<Rightarrow>
             if blk < length bs then (Done, v(p \<mapsto> Regular own (bs[blk := bytes])))
             else if blk = length bs then (Done, v(p \<mapsto> Regular own (bs @ [bytes])))
             else (Error, v)
         | _ \<Rightarrow> (Error, v))
      else (Error, v))"

definition spec_create :: "view \<Rightarrow> string \<Rightarrow> Path \<Rightarrow> char \<Rightarrow> out \<times> view" where
  "spec_create v u p ty =
     (if p \<noteq> [] \<and> visible v u (butlast p) \<and> (\<exists>own. v (butlast p) = Some (Directory own)) \<and> v p = None then
        (Done, v(p \<mapsto> (if ty = CHR ''d'' then Directory u else Regular u [])))
      else (Error, v))"

definition spec_delete :: "view \<Rightarrow> string \<Rightarrow> Path \<Rightarrow> out \<times> view" where
  "spec_delete v u p =
     (if p \<noteq> [] \<and> visible v u (butlast p) \<and> (\<exists>e. v p = Some e \<and> owned_by e = u) \<and> (\<forall>x. v (p @ [x]) = None) then
        (Done, v(p := None))
      else (Error, v))"

fun spec_request :: "view \<Rightarrow> Request \<Rightarrow> out \<times> view" where
  "spec_request v (FS_READBLOCK u p b) = (spec_read v u p b, v)"
| "spec_request v (FS_WRITEBLOCK u p b d) = (case d of None \<Rightarrow> (Error, v) | Some bytes \<Rightarrow> spec_write v u p b bytes)"
| "spec_request v (FS_CREATE u p ty) = spec_create v u p ty"
| "spec_request v (FS_DELETE u p) = spec_delete v u p"

section \<open>Frames\<close>

definition agree :: "(nat \<Rightarrow> char list) \<Rightarrow> (nat \<Rightarrow> char list) \<Rightarrow> nat \<Rightarrow> bool" where
  "agree D D' b \<longleftrightarrow> D' b = D b \<and> (\<forall>x \<in> set (used_blocks D b). D' x = D x)"

lemma agree_node:
  assumes "agree D D' b"
  shows "child D' b = child D b" "entry_at D' b = entry_at D b"
proof -
  have "live_entries D b = live_entries D' b" using assms by (intro node_cong(1)) (auto simp: agree_def)
  then show "child D' b = child D b" by (simp add: child_def)
  have "used_blocks D' b = used_blocks D b" using assms by (intro used_blocks_cong) (simp add: agree_def)
  with assms show "entry_at D' b = entry_at D b" by (simp add: entry_at_def agree_def)
qed

lemma nodes_disjoint:
  "\<lbrakk>distinct (blocks_of D t); m \<in> set (nodes t); n \<in> set (nodes t); root m \<noteq> root n\<rbrakk> \<Longrightarrow>
    set (root m # used_blocks D (root m)) \<inter> set (root n # used_blocks D (root n)) = {}"
proof (induction t rule: nodes.induct)
  case (1 b ts)
  have own: "set (root k # used_blocks D (root k)) \<subseteq> set (blocks_of D l)" if "k \<in> set (nodes l)" for k l
    using nodes_blocks [OF that, of D] by (cases k) auto
  have top: "set (b # used_blocks D b) \<inter> set (blocks_of D l) = {}" if "l \<in> set ts" for l using "1.prems"(1) that by auto
  consider "m = Node b ts" "n = Node b ts" | l where "m = Node b ts" "l \<in> set ts" "n \<in> set (nodes l)"
    | k where "k \<in> set ts" "m \<in> set (nodes k)" "n = Node b ts"
    | k l where "k \<in> set ts" "m \<in> set (nodes k)" "l \<in> set ts" "n \<in> set (nodes l)"
    using nodes_cases [OF "1.prems"(2)] nodes_cases [OF "1.prems"(3)] by blast
  then show ?case
  proof cases
    case 4
    show ?thesis
    proof (cases "k = l")
      case True
      have "distinct (blocks_of D k)" using "1.prems"(1) 4(1) by (intro nodes_distinct [of k "Node b ts"]) (auto intro: kid_in_nodes self_node)
      with "1.IH" 4 True "1.prems"(4) show ?thesis by blast
    next
      case False
      then have "set (blocks_of D k) \<inter> set (blocks_of D l) = {}"
        using kids_disjoint [OF "1.prems"(1), of k l] 4 by auto
      with own 4 show ?thesis by blast
    qed
  next
    case 2
    with top own show ?thesis by fastforce
  next
    case 3
    with top own show ?thesis by fastforce
  qed (use "1.prems"(4) in simp)
qed

text \<open>Only blocks of one node, or outside the tree, are written: the other nodes are as before.\<close>

definition touches :: "(nat \<Rightarrow> char list) \<Rightarrow> (nat \<Rightarrow> char list) \<Rightarrow> tree \<Rightarrow> nat \<Rightarrow> bool" where
  "touches D D' t b \<longleftrightarrow> (\<forall>x \<in> set (blocks_of D t) - set (b # used_blocks D b). D' x = D x)"

lemma touches_agree:
  assumes "distinct (blocks_of D t)" "n \<in> set (nodes t)" "touches D D' t (root n)" "m \<in> set (nodes t)" "root m \<noteq> root n"
  shows "agree D D' (root m)"
proof -
  have "set (root m # used_blocks D (root m)) \<subseteq> set (blocks_of D t)" using nodes_blocks [OF assms(4), of D] by (cases m) auto
  with nodes_disjoint [OF assms(1,4,2,5)] assms(3) show ?thesis by (auto simp: touches_def agree_def)
qed

section \<open>Changes of the view\<close>

text \<open>A disk that holds the tree \<open>t\<close>, and a node of it at path \<open>p\<close>.\<close>

definition at_path :: "(nat \<Rightarrow> char list) \<Rightarrow> tree \<Rightarrow> Path \<Rightarrow> tree \<Rightarrow> bool" where
  "at_path D t p n \<longleftrightarrow> rep D t \<and> distinct (blocks_of D t) \<and> root t = 0 \<and> n \<in> set (nodes t)
     \<and> walk (child D) 0 p = Some (root n)"

lemma at_path_facts:
  assumes "at_path D t p n"
  shows "unique_paths (child D) 0"
    "\<And>q c. walk (child D) 0 q = Some c \<Longrightarrow> \<exists>m \<in> set (nodes t). root m = c"
    "\<And>D' q c. touches D D' t (root n) \<Longrightarrow> walk (child D) 0 q = Some c \<Longrightarrow> c \<noteq> root n \<Longrightarrow> agree D D' c"
    "\<And>q. walk (child D) 0 q = Some (root n) \<longleftrightarrow> q = p"
proof -
  have t: "rep D t" "distinct (blocks_of D t)" "root t = 0" "n \<in> set (nodes t)" "walk (child D) 0 p = Some (root n)"
    using assms by (simp_all add: at_path_def)
  show u: "unique_paths (child D) 0" using walk_unique [OF t(1,2)] t(3) by (auto simp: unique_paths_def)
  show w: "\<exists>m \<in> set (nodes t). root m = c" if "walk (child D) 0 q = Some c" for q c
    using walk_nodes [OF t(1)] that t(3) by simp
  show "agree D D' c" if "touches D D' t (root n)" "walk (child D) 0 q = Some c" "c \<noteq> root n" for D' q c
    using w [OF that(2)] touches_agree [OF t(2,4) that(1)] that(3) by blast
  show "walk (child D) 0 q = Some (root n) \<longleftrightarrow> q = p" for q using u t(5) unfolding unique_paths_def by blast
qed

lemma view_write:
  assumes "at_path D t p n" "touches D D' t (root n)" "child D' (root n) = child D (root n)"
  shows "fs_view D' = (fs_view D)(p \<mapsto> entry_at D' (root n))"
proof
  fix q
  note f = at_path_facts [OF assms(1)]
  have "child D' c = child D c" if "walk (child D) 0 q = Some c" for q c
    using f(3) [OF assms(2) that] agree_node(1) assms(3) by metis
  then have w: "walk (child D') 0 q = walk (child D) 0 q" by (rule walk_same)
  show "fs_view D' q = ((fs_view D)(p \<mapsto> entry_at D' (root n))) q"
  proof (cases "walk (child D) 0 q")
    case None
    then have "q \<noteq> p" using assms(1) by (auto simp: at_path_def)
    with None w show ?thesis by (simp add: fs_view_def)
  next
    case (Some c)
    with w f(3) [OF assms(2) Some] agree_node(2) f(4) [of q] show ?thesis by (cases "c = root n") (auto simp: fs_view_def)
  qed
qed

lemma view_create:
  assumes "at_path D t p n" "touches D D' t (root n)" "child D (root n) x = None" "child D' (root n) = (child D (root n))(x \<mapsto> nb)"
    "child D' nb = Map.empty" "entry_at D' (root n) = entry_at D (root n)"
  shows "fs_view D' = (fs_view D)(p @ [x] \<mapsto> entry_at D' nb)"
proof
  fix q
  note f = at_path_facts [OF assms(1)]
  have fr: "child D' c = child D c" if "walk (child D) 0 q = Some c" "c \<noteq> root n" for q c
    using f(3) [OF assms(2) that] agree_node(1) by metis
  have w: "walk (child D') 0 q = (if q = p @ [x] then Some nb else walk (child D) 0 q)"
    using assms(1) by (intro walk_insert [OF f(1) _ assms(3) fr assms(4,5)]) (simp add: at_path_def)
  show "fs_view D' q = ((fs_view D)(p @ [x] \<mapsto> entry_at D' nb)) q"
  proof (cases "walk (child D) 0 q")
    case None
    with w show ?thesis by (simp add: fs_view_def)
  next
    case (Some c)
    have "entry_at D' c = entry_at D c" using f(3) [OF assms(2) Some] agree_node(2) assms(6) by metis
    with w Some show ?thesis by (simp add: fs_view_def)
  qed
qed

lemma view_delete:
  assumes "at_path D t p n" "touches D D' t (root n)" "child D (root n) x = Some c" "child D c = Map.empty"
    "child D' (root n) = (child D (root n))(x := None)" "entry_at D' (root n) = entry_at D (root n)"
  shows "fs_view D' = (fs_view D)(p @ [x] := None)"
proof
  fix q
  note f = at_path_facts [OF assms(1)]
  have fr: "child D' c = child D c" if "walk (child D) 0 q = Some c" "c \<noteq> root n" for q c
    using f(3) [OF assms(2) that] agree_node(1) by metis
  have w: "walk (child D') 0 q = (if q = p @ [x] then None else walk (child D) 0 q)"
    using assms(1) by (intro walk_remove [OF f(1) _ assms(3,4) fr assms(5)]) (simp add: at_path_def)
  show "fs_view D' q = ((fs_view D)(p @ [x] := None)) q"
  proof (cases "walk (child D) 0 q")
    case None
    with w show ?thesis by (simp add: fs_view_def)
  next
    case (Some c)
    have "entry_at D' c = entry_at D c" using f(3) [OF assms(2) Some] agree_node(2) assms(6) by metis
    with w Some show ?thesis by (simp add: fs_view_def)
  qed
qed

text \<open>The child map of a directory that gains or loses an entry.\<close>

lemma child_add:
  assumes "mset (live_entries D' b) = add_mset e (mset (live_entries D b))" "distinct (names D b)" "c_str (dname e) \<notin> set (names D b)"
  shows "child D' b = (child D b)(c_str (dname e) \<mapsto> inode_block e)"
proof
  fix x
  have ms: "mset (names D' b) = mset (c_str (dname e) # names D b)" using assms(1) by (simp add: names_def)
  have nm: "set (names D' b) = insert (c_str (dname e)) (set (names D b))" using mset_eq_setD [OF ms] by simp
  have dist: "distinct (names D' b)" using mset_eq_imp_distinct_iff [OF ms] assms(2,3) by simp
  have live: "set (live_entries D' b) = insert e (set (live_entries D b))" using assms(1) by (metis set_mset_add_mset_insert set_mset_mset)
  show "child D' b x = ((child D b)(c_str (dname e) \<mapsto> inode_block e)) x"
  proof (cases "child D b x")
    case None
    then have "x \<notin> set (names D b)" by (simp add: child_None)
    with nm None entry_child [OF dist, of e] live child_None [of D' b x] show ?thesis by auto
  next
    case (Some c)
    then obtain f where f: "f \<in> set (live_entries D b)" "c_str (dname f) = x" "inode_block f = c" by (rule child_entry)
    then have "x \<in> set (names D b)" by (auto simp: names_def)
    with f Some assms(3) entry_child [OF dist, of f] live show ?thesis by auto
  qed
qed

lemma child_remove:
  assumes "add_mset e (mset (live_entries D' b)) = mset (live_entries D b)" "distinct (names D b)"
  shows "child D' b = (child D b)(c_str (dname e) := None)"
proof -
  have "mset (names D b) = mset (c_str (dname e) # names D' b)"
    using arg_cong [OF assms(1), of "image_mset (\<lambda>e. c_str (dname e))"] by (simp add: names_def)
  then have "distinct (c_str (dname e) # names D' b)" using assms(2) mset_eq_imp_distinct_iff by blast
  then have d: "distinct (names D' b)" "c_str (dname e) \<notin> set (names D' b)" by simp_all
  then have "child D' b (c_str (dname e)) = None" by (simp add: child_None)
  then show ?thesis using child_add [OF assms(1) [symmetric] d] by auto
qed

end
