(* ===== verification/Fs_Refinement.thy ===== *)
theory Fs_Refinement
  imports Fs_Spec
begin

text \<open>
  Each handler computes what the specification says of the view of its disk; only where space is
  exhausted may it refuse a request the specification would serve.
\<close>

section \<open>The result of path traversal\<close>

lemma traverse_cases:
  assumes "disk_laws io" "fs_tree io s t" and D: "D = image_of io (disk s)" and u: "NUL \<notin> set u" "\<forall>x \<in> set p. NUL \<notin> set x"
  obtains evs where "traverse_fs io (disk s) mode p u = Some (None, evs)" "\<not> visible (fs_view D) u p"
  | n evs where "traverse_fs io (disk s) mode p u = Some (Some (inode_at D (root n), root n), evs)"
      "visible (fs_view D) u p" "at_path D t p n" "n \<in> set (nodes t)" "fs_view D p = Some (entry_at D (root n))"
proof -
  obtain evs where tr: "traverse_fs io (disk s) mode p u
    = Some (if visible (fs_view D) u p then map_option (\<lambda>b. (inode_at D b, b)) (walk (child D) 0 p) else None, evs)"
    using traverse_fs_walk [OF assms] by blast
  show thesis
  proof (cases "visible (fs_view D) u p")
    case False
    with tr that(1) show ?thesis by simp
  next
    case True
    then have "p = [] \<or> (\<exists>e. fs_view D p = Some e)" using visible_from_exists [of _ _ "[]" p] by (fastforce simp: visible_def)
    then obtain b where b: "walk (child D) 0 p = Some b" by (auto simp: fs_view_def)
    have t: "rep D t" "root t = 0" "distinct (blocks_of D t)"
      using assms(2) fs_tree_blocks(1) [OF assms(2)] D by (simp_all add: fs_tree_def)
    then obtain n where "n \<in> set (nodes t)" "root n = b" using walk_nodes [OF t(1)] b by fastforce
    moreover from this t b have "at_path D t p n" by (simp add: at_path_def)
    ultimately show ?thesis using tr True b that(2) [of n evs] by (simp add: view_at)
  qed
qed

lemma file_entry:
  "itype (inode_at D b) \<noteq> CHR ''d'' \<Longrightarrow> entry_at D b = Regular (c_str (owner (inode_at D b))) (map D (used_blocks D b))"
  by (simp add: entry_at_def)

lemma dir_entry: "itype (inode_at D b) = CHR ''d'' \<Longrightarrow> entry_at D b = Directory (c_str (owner (inode_at D b)))"
  by (simp add: entry_at_def)

lemma used_length: "isize (inode_at D b) \<le> length (blocks (inode_at D b)) \<Longrightarrow> length (used_blocks D b) = isize (inode_at D b)"
  by (simp add: used_blocks_def)

section \<open>Reading\<close>

lemma readblock_refines:
  assumes "disk_laws io" "fs_tree io s t" and D: "D = image_of io (disk s)" and u: "NUL \<notin> set u" "\<forall>x \<in> set p. NUL \<notin> set x"
  shows "\<exists>evs. execute_readblock io s u p blk = Some (spec_read (fs_view D) u p blk, s, evs)"
proof (cases rule: traverse_cases [OF assms, of Shared])
  case hidden: (1 evs)
  then show ?thesis by (simp add: execute_readblock_def spec_read_def)
next
  case found: (2 n evs)
  note nf = node_facts [OF assms(1,2) found(4), folded D]
  let ?i = "inode_at D (root n)"
  have "disk_readblock io (disk s) (blocks ?i ! blk) = Some (D (blocks ?i ! blk))" if "blk < isize ?i"
    using disk_read(1) [OF assms(1)] nf(4,5) used_nth [of blk D "root n"] that D by blast
  with found nf(5) show ?thesis
    by (cases "itype ?i = CHR ''d''")
      (auto simp: execute_readblock_def spec_read_def dir_entry file_entry used_length at_def used_blocks_def)
qed

section \<open>Writing\<close>

lemma map_upd_at: "distinct xs \<Longrightarrow> i < length xs \<Longrightarrow> map (f(xs ! i := y)) xs = (map f xs)[i := y]"
  by (rule nth_equalityI) (auto simp: nth_list_update nth_eq_iff_index_eq)

lemma view_overwrite:
  assumes "disk_laws io" "fs_tree io s t" and D: "D = image_of io (disk s)" and n: "at_path D t p n" "n \<in> set (nodes t)"
    and reg: "itype (inode_at D (root n)) \<noteq> CHR ''d''" and blk: "blk < isize (inode_at D (root n))"
    and D': "D' = D(blocks (inode_at D (root n)) ! blk := bytes)"
  shows "fs_view D' = (fs_view D)(p \<mapsto> Regular (c_str (owner (inode_at D (root n)))) ((map D (used_blocks D (root n)))[blk := bytes]))"
proof -
  note nf = node_facts [OF assms(1,2) n(2), folded D]
  let ?b = "blocks (inode_at D (root n)) ! blk"
  have b: "?b \<in> set (used_blocks D (root n))" "?b = used_blocks D (root n) ! blk"
    using used_nth [of blk D "root n"] nf(5) blk by (simp_all add: used_blocks_def)
  have x: "root n \<notin> set (used_blocks D (root n))" "distinct (used_blocks D (root n))" using nf(6) by (cases n; simp)+
  then have same: "D' (root n) = D (root n)" using b(1) D' by auto
  then have used: "used_blocks D' (root n) = used_blocks D (root n)" by (simp add: used_blocks_def)
  have "child D' (root n) = child D (root n)" using same reg by (simp add: child_def live_entries_def)
  moreover have "touches D D' t (root n)" using b(1) by (auto simp: touches_def D')
  ultimately have "fs_view D' = (fs_view D)(p \<mapsto> entry_at D' (root n))" by (intro view_write [OF n(1)])
  moreover have "map D' (used_blocks D (root n)) = (map D (used_blocks D (root n)))[blk := bytes]"
    unfolding D' b(2) using map_upd_at [OF x(2)] blk used_length [of D "root n"] nf(5) by simp
  ultimately show ?thesis using reg same used by (simp add: file_entry)
qed

lemma view_append:
  assumes "disk_laws io" "fs_tree io s t" and D: "D = image_of io (disk s)" and n: "at_path D t p n" "n \<in> set (nodes t)"
    and reg: "itype (inode_at D (root n)) \<noteq> CHR ''d''" and room: "isize (inode_at D (root n)) < FS_MAXFILEBLOCKS"
    and free: "free_disk_blocks s = b # free"
    and ino': "ino' = (inode_at D (root n))\<lparr>blocks := (blocks (inode_at D (root n)))[isize (inode_at D (root n)) := b],
      isize := isize (inode_at D (root n)) + 1\<rparr>"
    and D': "D' = D(b := bytes, root n := enc_inode ino')"
  shows "fs_view D' = (fs_view D)(p \<mapsto> Regular (c_str (owner (inode_at D (root n)))) (map D (used_blocks D (root n)) @ [bytes]))"
proof -
  note nf = node_facts [OF assms(1,2) n(2), folded D] and tb = fs_tree_blocks [OF assms(2), folded D]
  have b: "b < FS_DISKSIZE" "b \<notin> set (blocks_of D t)" using tb(3,5) free by auto
  then have bn: "b \<notin> set (blocks_of D n)" using nodes_blocks [OF n(2)] by blast
  then have x: "b \<noteq> root n" "b \<notin> set (used_blocks D (root n))" "root n \<notin> set (used_blocks D (root n))" using nf(6) by (cases n; auto)+
  have at': "inode_at D' (root n) = ino'" using inodes.dec_enc [OF wf_inode_append [OF nf(2) room b(1)]] by (simp add: D' ino')
  have "isize (inode_at D (root n)) < length (blocks (inode_at D (root n)))" using nf(2) room by (simp add: wf_inode_def)
  then have used: "used_blocks D' (root n) = used_blocks D (root n) @ [b]"
    using take_Suc_update unfolding used_blocks_def at' ino' by simp
  have f': "itype (inode_at D' (root n)) \<noteq> CHR ''d''" "owner (inode_at D' (root n)) = owner (inode_at D (root n))"
    using reg by (simp_all add: at' ino')
  then have "child D' (root n) = child D (root n)" using reg by (simp add: child_def live_entries_def)
  moreover have "touches D D' t (root n)" using b(2) by (auto simp: touches_def D')
  ultimately have "fs_view D' = (fs_view D)(p \<mapsto> entry_at D' (root n))" by (intro view_write [OF n(1)])
  moreover have "map D' (used_blocks D (root n)) = map D (used_blocks D (root n))" "D' b = bytes" using x by (auto simp: D')
  ultimately show ?thesis using f' used by (simp add: file_entry)
qed

lemma writeblock_refines:
  assumes "disk_laws io" "fs_tree io s t" and D: "D = image_of io (disk s)" and u: "NUL \<notin> set u" "\<forall>x \<in> set p. NUL \<notin> set x"
    and len: "length bytes = FS_BLOCKSIZE"
  shows "\<exists>r s' evs. execute_writeblock io s u p blk (Some bytes) = Some (r, s', evs)
    \<and> ((r, fs_view (image_of io (disk s'))) = spec_write (fs_view D) u p blk bytes \<or> r = Error \<and> s' = s \<and> free_disk_blocks s = [])"
proof (cases "p = [] \<or> FS_MAXFILEBLOCKS \<le> blk")
  case True
  then show ?thesis by (auto simp: execute_writeblock_def spec_write_def D)
next
  case False
  show ?thesis
  proof (cases rule: traverse_cases [OF assms(1-5), of Upgradable])
    case hidden: (1 evs)
    with False D show ?thesis by (auto simp: execute_writeblock_def spec_write_def)
  next
    case found: (2 n evs)
    note nf = node_facts [OF assms(1,2) found(4), folded D]
    let ?i = "inode_at D (root n)"
    consider "itype ?i = CHR ''d'' \<or> isize ?i < blk" | "itype ?i \<noteq> CHR ''d''" "blk < isize ?i"
      | "itype ?i \<noteq> CHR ''d''" "blk = isize ?i" by linarith
    then show ?thesis
    proof cases
      case 1
      with False found nf(5) D show ?thesis
        by (cases "itype ?i = CHR ''d''") (auto simp: execute_writeblock_def spec_write_def dir_entry file_entry used_length)
    next
      case 2
      obtain d' where d': "disk_writeblock io (disk s) (blocks ?i ! blk) bytes = Some d'" "image_of io d' = D(blocks ?i ! blk := bytes)"
        using write_existing [OF assms(1,2) found(4) D 2(1) used_nth [of blk D "root n", OF 2(2) nf(5)] len] by blast
      from view_overwrite [OF assms(1,2) D found(3,4) 2 d'(2)] False found 2 nf(5) d'(1) show ?thesis
        by (auto simp: execute_writeblock_def spec_write_def at_def file_entry used_length)
    next
      case 3
      show ?thesis
      proof (cases "free_disk_blocks s")
        case Nil
        with False found 3 show ?thesis by (auto simp: execute_writeblock_def)
      next
        case (Cons b free)
        have room: "isize ?i < FS_MAXFILEBLOCKS" using False 3 by simp
        let ?i' = "?i\<lparr>blocks := (blocks ?i)[isize ?i := b], isize := isize ?i + 1\<rparr>"
        obtain d1 d2 where d: "disk_writeblock io (disk s) b bytes = Some d1" "disk_writeblock io d1 (root n) (enc_inode ?i') = Some d2"
          "image_of io d2 = D(b := bytes, root n := enc_inode ?i')"
          using append_block [OF assms(1,2) found(4) D 3(1) Cons len room refl] by blast
        from view_append [OF assms(1,2) D found(3,4) 3(1) room Cons refl d(3)] False found 3 nf(2,5) Cons d(1,2) show ?thesis
          by (auto simp: execute_writeblock_def spec_write_def file_entry used_length wf_inode_def)
      qed
    qed
  qed
qed

section \<open>Creating\<close>

lemma same_head_entry:
  assumes "same_head (inode_at D' b) (inode_at D b)" "itype (inode_at D b) = CHR ''d''"
  shows "entry_at D' b = entry_at D b"
  using assms by (simp add: same_head_def entry_at_def)

definition new_entry :: "string \<Rightarrow> char \<Rightarrow> fs_entry" where
  "new_entry u ty = (if ty = CHR ''d'' then Directory u else Regular u [])"

lemma view_new_entry:
  assumes n: "at_path D t p n" and dir: "itype (inode_at D (root n)) = CHR ''d''" and ok: "inode_ok D (root n)"
    and t: "touches D D' t (root n)" "same_head (inode_at D' (root n)) (inode_at D (root n))"
    and live: "mset (live_entries D' (root n)) = add_mset \<lparr>dname = nm, inode_block = nb\<rparr> (mset (live_entries D (root n)))"
    and x: "c_str nm = x" "x \<notin> set (names D (root n))"
    and new: "inode_at D' nb = new" "isize new = 0" "itype new = ty" "c_str (owner new) = u"
  shows "fs_view D' = (fs_view D)(p @ [x] \<mapsto> new_entry u ty)"
proof -
  have "distinct (names D (root n))" using ok by (simp add: inode_ok_def)
  then have "child D' (root n) = (child D (root n))(x \<mapsto> nb)" using child_add [OF live] x by simp
  moreover have used: "used_blocks D' nb = []" using new by (simp add: used_blocks_def)
  then have "child D' nb = Map.empty" by (simp add: child_def live_entries_def entries_def)
  moreover have "child D (root n) x = None" using x(2) by (simp add: child_None)
  moreover have "entry_at D' nb = new_entry u ty" using new used by (simp add: entry_at_def new_entry_def)
  ultimately show ?thesis using view_create [OF n t(1)] same_head_entry [of D' "root n" D, OF t(2) dir] by metis
qed

lemma create_commit_view:
  assumes "disk_laws io" "fs_tree io s t" "n \<in> set (nodes t)" and D: "D = image_of io (disk s)" and n: "at_path D t p n"
    and dir: "itype (inode_at D (root n)) = CHR ''d''" and junk: "wf_inode junk" and u: "good_user u"
    and x: "good_name x" "x \<notin> set (names D (root n))" and ty: "ty \<in> {CHR ''f'', CHR ''d''}"
    and spot: "case spot of None \<Rightarrow> True | Some q \<Rightarrow> spot_ok D (set (used_blocks D (root n))) q"
  shows "\<exists>r s' evs'. create_commit io junk s u x ty (inode_at D (root n)) (root n) spot evs = Some (r, s', evs')
    \<and> (r = Done \<and> fs_view (image_of io (disk s')) = (fs_view D)(p @ [x] \<mapsto> new_entry u ty)
       \<or> r = Error \<and> s' = s \<and> (length (free_disk_blocks s) \<le> 1 \<or> isize (inode_at D (root n)) = FS_MAXFILEBLOCKS))"
proof (cases "free_disk_blocks s")
  case Nil
  then show ?thesis by (auto simp: create_commit_def)
next
  case (Cons nb free)
  note nf = node_facts [OF assms(1-3), folded D] and tb = fs_tree_blocks [OF assms(2), folded D]
  obtain own where own: "strcpy (owner junk) u = Some own" "c_str own = u" "wf_inode (junk\<lparr>isize := 0, itype := ty, owner := own\<rparr>)"
    using new_inode_wf [OF junk u] by blast
  let ?new = "junk\<lparr>isize := 0, itype := ty, owner := own\<rparr>"
  have nb: "nb \<notin> set (blocks_of D t)" using tb(3) Cons by auto
  have cx: "c_str x = x" using x(1) by (simp add: good_name_def c_str_id)
  show ?thesis
  proof (cases spot)
    case (Some q)
    obtain b j es where q: "q = (b, j, es)" by (cases q)
    have sp: "spot_ok D (set (used_blocks D (root n))) (b, j, es)" using spot Some q by simp
    then have b: "b \<in> set (used_blocks D (root n))" "b < FS_DISKSIZE" "es = dec_direntries (D b)" "j < length es"
      using nf(4) by (auto simp: spot_ok_def)
    then have "length (dname (es ! j)) = FS_MAXFILENAME + 1"
      using direntries.read_struct [OF assms(1), of b "disk s"] D by (auto simp: wf_direntries_def wf_direntry_def)
    then obtain nm where nm: "strcpy (dname (es ! j)) x = Some nm" "length nm = FS_MAXFILENAME + 1" "c_str nm = x"
      using name_fits x(1) by metis
    obtain d1 d2 where d: "disk_writeblock io (disk s) nb (enc_inode ?new) = Some d1"
      "disk_writeblock io d1 b (enc_direntries (es[j := \<lparr>dname = nm, inode_block = nb\<rparr>])) = Some d2"
      "image_of io d2 = D(nb := enc_inode ?new, b := enc_direntries (es[j := \<lparr>dname = nm, inode_block = nb\<rparr>]))"
      "mset (live_entries (image_of io d2) (root n)) = add_mset \<lparr>dname = nm, inode_block = nb\<rparr> (mset (live_entries D (root n)))"
      "inode_at (image_of io d2) nb = ?new" "same_head (inode_at (image_of io d2) (root n)) (inode_at D (root n))"
      using create_in_slot [OF assms(1-3) D dir sp Cons own(3) _ _ nm(2) _ refl] ty x(2) nm(3) by auto
    have "touches D (image_of io d2) t (root n)" using nb b(1) by (auto simp: touches_def d(3))
    from view_new_entry [OF n dir nf(3) this d(6,4) nm(3) x(2) d(5)] own(1,2) Some q nm(1) Cons d(1,2) show ?thesis
      by (auto simp: create_commit_def)
  next
    case None
    show ?thesis
    proof (cases "isize (inode_at D (root n)) = FS_MAXFILEBLOCKS \<or> free = []")
      case True
      with None Cons own(1) show ?thesis by (auto simp: create_commit_def)
    next
      case False
      then obtain eb free' where f: "free = eb # free'" by (cases free) auto
      have room: "isize (inode_at D (root n)) < FS_MAXFILEBLOCKS" using False nf(3) by (simp add: inode_ok_def)
      then have lt: "isize (inode_at D (root n)) < length (blocks (inode_at D (root n)))" using nf(2) by (simp add: wf_inode_def)
      have "length (dname empty_direntry) = FS_MAXFILENAME + 1" by (simp add: empty_direntry_def)
      then obtain nm where nm: "strcpy (dname empty_direntry) x = Some nm" "length nm = FS_MAXFILENAME + 1" "c_str nm = x"
        using name_fits x(1) by metis
      have fr: "free_disk_blocks s = nb # eb # free'" using Cons f by simp
      let ?dir = "(inode_at D (root n))\<lparr>blocks := (blocks (inode_at D (root n)))[isize (inode_at D (root n)) := eb],
          isize := isize (inode_at D (root n)) + 1\<rparr>" and ?es = "fresh_entries \<lparr>dname = nm, inode_block = nb\<rparr>"
      obtain d1 d2 d3 where d: "disk_writeblock io (disk s) eb (enc_direntries ?es) = Some d1"
        "disk_writeblock io d1 nb (enc_inode ?new) = Some d2" "disk_writeblock io d2 (root n) (enc_inode ?dir) = Some d3"
        "image_of io d3 = D(eb := enc_direntries ?es, nb := enc_inode ?new, root n := enc_inode ?dir)"
        "mset (live_entries (image_of io d3) (root n)) = add_mset \<lparr>dname = nm, inode_block = nb\<rparr> (mset (live_entries D (root n)))"
        "inode_at (image_of io d3) nb = ?new" "same_head (inode_at (image_of io d3) (root n)) (inode_at D (root n))"
        using create_in_new_block [OF assms(1-3) D dir room fr own(3) _ _ nm(2) _ refl refl] ty x(2) nm(3) by auto
      have "eb \<notin> set (blocks_of D t)" using tb(3) fr by auto
      then have "touches D (image_of io d3) t (root n)" using nb by (auto simp: touches_def d(4))
      from view_new_entry [OF n dir nf(3) this d(7,5) nm(3) x(2) d(6)] own(1,2) None False f nm(1) Cons d(1-3) lt show ?thesis
        by (auto simp: create_commit_def fresh_entries_def)
    qed
  qed
qed

text \<open>The path of the parent and the name: what is found under the whole path.\<close>

lemma view_in_dir:
  assumes "p \<noteq> []" "at_path D t (butlast p) n"
  shows "fs_view D p = map_option (entry_at D) (child D (root n) (last p))"
proof -
  have "walk (child D) 0 (butlast p @ [last p]) = child D (root n) (last p)"
    unfolding walk_snoc using assms(2) by (simp add: at_path_def)
  with assms(1) show ?thesis by (simp add: fs_view_def)
qed

lemma child_of_dir: "child D b x = Some c \<Longrightarrow> itype (inode_at D b) = CHR ''d''"
  by (rule ccontr) (simp add: child_def live_entries_def)

definition no_space :: "'d disk_ops \<Rightarrow> 'd fs_state \<Rightarrow> Path \<Rightarrow> bool" where
  "no_space io s p \<longleftrightarrow> length (free_disk_blocks s) \<le> 1
     \<or> (\<exists>b. walk (child (image_of io (disk s))) 0 p = Some b \<and> isize (inode_at (image_of io (disk s)) b) = FS_MAXFILEBLOCKS)"

lemma create_refines:
  assumes "disk_laws io" "fs_tree io s t" and D: "D = image_of io (disk s)" and junk: "wf_inode junk" and u: "good_user u"
    and p: "\<forall>x \<in> set p. good_name x" and ty: "ty \<in> {CHR ''f'', CHR ''d''}"
  shows "\<exists>r s' evs. execute_create io junk s u p ty = Some (r, s', evs)
    \<and> ((r, fs_view (image_of io (disk s'))) = spec_create (fs_view D) u p ty \<or> r = Error \<and> s' = s \<and> no_space io s (butlast p))"
proof (cases "p = [] \<or> free_disk_blocks s = []")
  case True
  then show ?thesis by (auto simp: execute_create_def spec_create_def no_space_def D)
next
  case False
  have nul: "NUL \<notin> set u" "\<forall>x \<in> set (butlast p). NUL \<notin> set x" "good_name (last p)" "c_str (last p) = last p"
    using u p False by (auto simp: good_user_def good_name_def c_str_id dest: in_set_butlastD)
  show ?thesis
  proof (cases rule: traverse_cases [OF assms(1-3) nul(1,2), of Upgradable])
    case hidden: (1 evs)
    with False D show ?thesis by (auto simp: execute_create_def spec_create_def)
  next
    case found: (2 n evs)
    note nf = node_facts [OF assms(1,2) found(4), folded D]
    let ?i = "inode_at D (root n)"
    show ?thesis
    proof (cases "itype ?i = CHR ''f''")
      case True
      with False found D show ?thesis by (auto simp: execute_create_def spec_create_def file_entry)
    next
      case nofile: False
      then have dir: "itype ?i = CHR ''d''" using nf(3) by (auto simp: inode_ok_def)
      obtain r where r: "create_scan io (disk s) ?i (last p) (isize ?i) 0 None = Some r"
        "\<And>e. r = Inl e \<Longrightarrow> last p \<in> set (names D (root n))"
        "\<And>sp. r = Inr sp \<Longrightarrow> last p \<notin> set (names D (root n))
          \<and> (case sp of None \<Rightarrow> True | Some q \<Rightarrow> spot_ok D (set (used_blocks D (root n))) q)"
        using create_scan_node [OF assms(1,2) found(4) D dir, of "last p"] nul(4) by auto
      note v = view_in_dir [OF _ found(3)] and dv = found(5) [unfolded dir_entry [of D, OF dir]]
      show ?thesis
      proof (cases r)
        case (Inl e)
        with r(2) have "child D (root n) (last p) \<noteq> None" by (simp add: child_None)
        with Inl False found(1) nofile r(1) v D show ?thesis by (auto simp: execute_create_def spec_create_def)
      next
        case (Inr sp)
        note sp = r(3) [OF Inr]
        then have "child D (root n) (last p) = None" by (simp add: child_None)
        then have spec: "spec_create (fs_view D) u p ty = (Done, (fs_view D)(p \<mapsto> new_entry u ty))"
          using False found(2) dv v by (auto simp: spec_create_def new_entry_def)
        have no: "no_space io s (butlast p)" if "length (free_disk_blocks s) \<le> 1 \<or> isize ?i = FS_MAXFILEBLOCKS"
          using that found(3) D by (auto simp: no_space_def at_path_def)
        obtain r' s' evs' where c: "create_commit io junk s u (last p) ty ?i (root n) sp evs = Some (r', s', evs')"
          "r' = Done \<and> fs_view (image_of io (disk s')) = (fs_view D)(butlast p @ [last p] \<mapsto> new_entry u ty)
           \<or> r' = Error \<and> s' = s \<and> (length (free_disk_blocks s) \<le> 1 \<or> isize ?i = FS_MAXFILEBLOCKS)"
          using create_commit_view [OF assms(1,2) found(4) D found(3) dir junk u nul(3) _ ty, of sp evs] sp by blast
        with False found(1) nofile r(1) Inr spec no show ?thesis by (auto simp: execute_create_def)
      qed
    qed
  qed
qed

section \<open>Deleting\<close>

text \<open>A directory without blocks of entries is empty, and only such a one.\<close>

lemma childless:
  assumes "inode_ok D b"
  shows "(\<forall>x. child D b x = None) \<longleftrightarrow> \<not> (itype (inode_at D b) = CHR ''d'' \<and> 0 < isize (inode_at D b) \<and> blocks (inode_at D b) \<noteq> [])"
proof (cases "itype (inode_at D b) = CHR ''d'' \<and> used_blocks D b \<noteq> []")
  case True
  then obtain db where db: "db \<in> set (used_blocks D b)" by (cases "used_blocks D b") auto
  with assms True obtain e where "e \<in> set (dec_direntries (D db))" "inode_block e \<noteq> 0" by (auto simp: inode_ok_def list_all_iff list_ex_iff)
  then have "e \<in> set (live_entries D b)" using True db by (auto simp: live_entries_def entries_def)
  then have "child D b (c_str (dname e)) \<noteq> None" using child_None [of D b "c_str (dname e)"] by (auto simp: names_def)
  with True show ?thesis by (auto simp: used_blocks_def)
next
  case False
  then have "live_entries D b = []" by (auto simp: live_entries_def entries_def)
  with False show ?thesis by (auto simp: child_def used_blocks_def)
qed

lemma view_unlink:
  assumes n: "at_path D t p n" and dir: "itype (inode_at D (root n)) = CHR ''d''" and ok: "inode_ok D (root n)"
    and t: "touches D D' t (root n)" "same_head (inode_at D' (root n)) (inode_at D (root n))"
    and live: "add_mset e (mset (live_entries D' (root n))) = mset (live_entries D (root n))"
    and c: "child D (root n) (c_str (dname e)) = Some c" "\<forall>y. child D c y = None"
  shows "fs_view D' = (fs_view D)(p @ [c_str (dname e)] := None)"
proof -
  have "child D' (root n) = (child D (root n))(c_str (dname e) := None)"
    using child_remove [OF live] ok by (simp add: inode_ok_def)
  moreover have "child D c = Map.empty" using c(2) by auto
  ultimately show ?thesis using view_delete [OF n t(1) c(1)] same_head_entry [of D' "root n" D, OF t(2) dir] by blast
qed

lemma delete_commit_view:
  assumes "disk_laws io" "fs_tree io s t" "n \<in> set (nodes t)" and D: "D = image_of io (disk s)" and n: "at_path D t p n"
    and dir: "itype (inode_at D (root n)) = CHR ''d''"
    and k: "k < isize (inode_at D (root n))" "b = blocks (inode_at D (root n)) ! k" "b \<in> set (used_blocks D (root n))"
    and es: "es = dec_direntries (D b)" "j < length es" "inode_block (es ! j) \<noteq> 0"
    and m: "m \<in> set (nodes t)" "m \<in> set (kids n)" "root m = inode_block (es ! j)"
    and x: "c_str (dname (es ! j)) = x" "child D (root n) x = Some (root m)"
  shows "\<exists>r s' evs'. delete_commit io s u (inode_at D (root n)) (root n) (k, b, j, es) (inode_at D (root m)) (root m) evs
      = Some (r, s', evs')
    \<and> (if c_str (owner (inode_at D (root m))) = c_str u \<and> (\<forall>y. child D (root m) y = None)
       then r = Done \<and> fs_view (image_of io (disk s')) = (fs_view D)(p @ [x] := None)
       else r = Error \<and> s' = s)"
proof -
  note nf = node_facts [OF assms(1-3), folded D] and mf = node_facts [OF assms(1,2) m(1), folded D]
  have cl: "(\<forall>y. child D (root m) y = None) \<longleftrightarrow> \<not> (itype (inode_at D (root m)) = CHR ''d'' \<and> 0 < isize (inode_at D (root m)))"
    using childless [OF mf(3)] mf(5) by auto
  show ?thesis
  proof (cases "c_str (owner (inode_at D (root m))) = c_str u \<and> (\<forall>y. child D (root m) y = None)")
    case False
    then have "\<not> strcmp_eq (owner (inode_at D (root m))) u
      \<or> itype (inode_at D (root m)) = CHR ''d'' \<and> 0 < isize (inode_at D (root m))" using cl by (auto simp: strcmp_eq_def)
    with False show ?thesis by (auto simp: delete_commit_def Let_def)
  next
    case True
    then have go: "strcmp_eq (owner (inode_at D (root m))) u" "\<not> (itype (inode_at D (root m)) = CHR ''d'' \<and> 0 < isize (inode_at D (root m)))"
      using cl by (auto simp: strcmp_eq_def)
    have leaf: "kids m = []" using deletable_leaf(1) [OF mf(7)] go(2) by blast
    have c: "child D (root n) (c_str (dname (es ! j))) = Some (root m)" using x by simp
    show ?thesis
    proof (cases "list_all (\<lambda>e. inode_block e = 0 \<or> inode_block e = inode_block (es ! j)) es")
      case all: True
      let ?p' = "(inode_at D (root n))\<lparr>blocks := shift_blocks (blocks (inode_at D (root n))) k (isize (inode_at D (root n))),
        isize := isize (inode_at D (root n)) - 1\<rparr>"
      obtain d' where d': "disk_writeblock io (disk s) (root n) (enc_inode ?p') = Some d'"
        "image_of io d' = D(root n := enc_inode ?p')"
        "add_mset (es ! j) (mset (live_entries (image_of io d') (root n))) = mset (live_entries D (root n))"
        "same_head (inode_at (image_of io d') (root n)) (inode_at D (root n))"
        using remove_block [OF assms(1-3) D dir k(1,2) es all m(2) leaf m(3) refl] by blast
      have "touches D (image_of io d') t (root n)" by (auto simp: touches_def d'(2))
      from view_unlink [OF n dir nf(3) this d'(4,3) c] True go all m(3) nf(5) mf(5) d'(1) x(1) show ?thesis
        by (auto simp: delete_commit_def Let_def)
    next
      case other: False
      obtain d' where d': "disk_writeblock io (disk s) b (enc_direntries (es[j := (es ! j)\<lparr>inode_block := 0\<rparr>])) = Some d'"
        "image_of io d' = D(b := enc_direntries (es[j := (es ! j)\<lparr>inode_block := 0\<rparr>]))"
        "add_mset (es ! j) (mset (live_entries (image_of io d') (root n))) = mset (live_entries D (root n))"
        "same_head (inode_at (image_of io d') (root n)) (inode_at D (root n))"
        using remove_entry [OF assms(1-3) D dir k(3) es other m(2) leaf m(3) refl] by blast
      have "touches D (image_of io d') t (root n)" using k(3) by (auto simp: touches_def d'(2))
      from view_unlink [OF n dir nf(3) this d'(4,3) c] True go other m(3) mf(5) d'(1) x(1) show ?thesis
        by (auto simp: delete_commit_def Let_def)
    qed
  qed
qed

text \<open>The short cut of the handler: with all other blocks free, the root is empty.\<close>

lemma only_root:
  assumes "fs_tree io s t" "length (free_disk_blocks s) = 4095" "p \<noteq> []"
  shows "fs_view (image_of io (disk s)) p = None"
proof -
  let ?D = "image_of io (disk s)"
  have "length (blocks_of ?D t) + length (free_disk_blocks s) = FS_DISKSIZE"
    using assms(1) unfolding fs_tree_def by (metis length_append length_upt mset_append mset_eq_length diff_zero)
  then have "length (blocks_of ?D t) = 1" using assms(2) by (simp add: FS_DISKSIZE_def)
  moreover have "root t = 0" using assms(1) by (simp add: fs_tree_def)
  ultimately have "used_blocks ?D 0 = []" by (cases t) simp
  then have "child ?D 0 = Map.empty" by (simp add: child_def live_entries_def entries_def)
  with assms(3) show ?thesis by (cases p) (simp_all add: fs_view_def)
qed

lemma delete_refines:
  assumes "disk_laws io" "fs_tree io s t" and D: "D = image_of io (disk s)" and u: "NUL \<notin> set u" "\<forall>x \<in> set p. NUL \<notin> set x"
  shows "\<exists>r s' evs. execute_delete io s u p = Some (r, s', evs)
    \<and> (r, fs_view (image_of io (disk s'))) = spec_delete (fs_view D) u p"
proof (cases "p = [] \<or> length (free_disk_blocks s) = 4095")
  case True
  with only_root [OF assms(2), of p] D show ?thesis by (auto simp: execute_delete_def spec_delete_def)
next
  case False
  have nul: "\<forall>x \<in> set (butlast p). NUL \<notin> set x" "NUL \<notin> set (last p)" using u(2) False by (auto dest: in_set_butlastD)
  show ?thesis
  proof (cases rule: traverse_cases [OF assms(1-4) nul(1), of Upgradable])
    case hidden: (1 evs)
    with False D show ?thesis by (auto simp: execute_delete_def spec_delete_def)
  next
    case found: (2 n evs)
    note nf = node_facts [OF assms(1,2) found(4), folded D]
    let ?i = "inode_at D (root n)"
    have v: "fs_view D p = map_option (entry_at D) (child D (root n) (last p))" using view_in_dir [OF _ found(3)] False by simp
    show ?thesis
    proof (cases "isize ?i = 0 \<or> itype ?i = CHR ''f''")
      case True
      then have "child D (root n) (last p) = None" by (auto simp: child_def live_entries_def entries_def used_blocks_def)
      with True False found v D show ?thesis by (auto simp: execute_delete_def spec_delete_def)
    next
      case go: False
      then have dir: "itype ?i = CHR ''d''" using nf(3) by (auto simp: inode_ok_def)
      obtain r where r: "find_direntry io (disk s) ?i (last p) (isize ?i) 0 = Some r"
        "r = None \<Longrightarrow> child D (root n) (last p) = None"
        "\<And>k b j es. r = Some (k, b, j, es) \<Longrightarrow> k < isize ?i \<and> b = blocks ?i ! k \<and> b \<in> set (used_blocks D (root n))
           \<and> es = dec_direntries (D b) \<and> j < length es \<and> inode_block (es ! j) \<noteq> 0 \<and> c_str (dname (es ! j)) = last p
           \<and> child D (root n) (last p) = Some (inode_block (es ! j))
           \<and> (\<exists>m \<in> set (nodes t). root m = inode_block (es ! j) \<and> m \<in> set (kids n))"
        using find_direntry_child [OF assms(1,2) found(4) D dir nul(2)] by (fastforce split: option.splits)
      show ?thesis
      proof (cases r)
        case None
        with False found go r(1,2) v D show ?thesis by (auto simp: execute_delete_def spec_delete_def)
      next
        case (Some q)
        obtain k b j es where q: "q = (k, b, j, es)" by (cases q)
        note f = r(3) [OF Some [unfolded q]]
        then obtain m where m: "m \<in> set (nodes t)" "m \<in> set (kids n)" "root m = inode_block (es ! j)" by blast
        have rd: "disk_readblock io (disk s) (root m) = Some (D (root m))"
          using disk_read(1) [OF assms(1) node_facts(1) [OF assms(1,2) m(1)]] D by simp
        have c: "child D (root n) (last p) = Some (root m)" using f m(3) by simp
        have vx: "fs_view D (p @ [x]) = map_option (entry_at D) (child D (root m) x)" for x
        proof -
          have "walk (child D) 0 (butlast p @ [last p]) = Some (root m)"
            unfolding walk_snoc using found(3) c by (simp add: at_path_def)
          then have "walk (child D) 0 p = Some (root m)" using False by simp
          then show ?thesis by (simp add: fs_view_def walk_snoc)
        qed
        have own: "owned_by (entry_at D (root m)) = c_str (owner (inode_at D (root m)))" by (simp add: entry_at_def)
        obtain r' s' evs' where dc: "delete_commit io s u ?i (root n) (k, b, j, es) (inode_at D (root m)) (root m)
              (evs @ [Upgrade (root n), Acquire Upgradable (root m)]) = Some (r', s', evs')"
          "if c_str (owner (inode_at D (root m))) = c_str u \<and> (\<forall>y. child D (root m) y = None)
           then r' = Done \<and> fs_view (image_of io (disk s')) = (fs_view D)(butlast p @ [last p] := None)
           else r' = Error \<and> s' = s"
          using delete_commit_view [OF assms(1,2) found(4) D found(3) dir, of k b es j m "last p" u] f m c by blast
        have "(r', fs_view (image_of io (disk s'))) = spec_delete (fs_view D) u p"
          using dc(2) False found(2) v c vx own c_str_id [OF u(1)] D by (auto simp: spec_delete_def split: if_splits)
        with dc(1) False found(1) go r(1) Some q m(3) rd show ?thesis by (auto simp: execute_delete_def Let_def)
      qed
    qed
  qed
qed

end
