(* ===== verification/Fs_Contract.thy ===== *)
theory Fs_Contract
  imports Fs_Refinement Fs_Properties
begin

text \<open>
  The contract of the file system with its users: requests refine the specification on views; a
  block that was written is the block that is read; users cannot change or read the files of
  others; deleting what was created restores the view.
\<close>

definition view_of :: "'d disk_ops \<Rightarrow> 'd fs_state \<Rightarrow> view" where
  "view_of io s = fs_view (image_of io (disk s))"

section \<open>Refinement\<close>

lemma ready_nul_free:
  assumes "ready_request r"
  shows "NUL \<notin> set (username r)" "\<forall>x \<in> set (path r). good_name x" "\<forall>x \<in> set (path r). NUL \<notin> set x"
  using assms by (auto simp: ready_request_def wf_user_def wf_path_def wf_name_def good_name_def)

lemma execute_refines:
  assumes "disk_laws io" "fs_inv io s" "wf_inode junk" "ready_request r"
  shows "\<exists>res s' evs. execute_request io junk s r = Some (res, s', evs) \<and> fs_inv io s'
    \<and> ((res, view_of io s') = spec_request (view_of io s) r
       \<or> res = Error \<and> s' = s \<and> (is_FS_WRITEBLOCK r \<and> free_disk_blocks s = [] \<or> is_FS_CREATE r \<and> no_space io s (butlast (path r))))"
proof -
  obtain t where t: "fs_tree io s t" using assms(2) by (auto simp: fs_inv_def)
  note nul = ready_nul_free [OF assms(4)] and good = ready_names(1) [OF assms(4)]
  have inv: "fs_inv io s'" if "execute_request io junk s r = Some (res, s', evs)" for res s' evs
    using execute_inv [OF assms] that by auto
  show ?thesis
  proof (cases r)
    case (FS_READBLOCK u p b)
    with readblock_refines [OF assms(1) t refl, of u p b] nul inv show ?thesis by (fastforce simp: view_of_def)
  next
    case (FS_WRITEBLOCK u p b d)
    then obtain bs where d: "d = Some bs" "length bs = FS_BLOCKSIZE" using assms(4) by (auto simp: ready_request_def)
    with FS_WRITEBLOCK writeblock_refines [OF assms(1) t refl, of u p bs b] nul inv show ?thesis
      by (fastforce simp: view_of_def)
  next
    case (FS_CREATE u p ty)
    with create_refines [OF assms(1) t refl assms(3), of u p ty] nul good assms(4) inv show ?thesis
      by (fastforce simp: view_of_def ready_request_def)
  next
    case (FS_DELETE u p)
    with delete_refines [OF assms(1) t refl, of u p] nul inv show ?thesis by (fastforce simp: view_of_def)
  qed
qed

lemma done_refines:
  assumes "disk_laws io" "fs_inv io s" "wf_inode junk" "ready_request r" "execute_request io junk s r = Some (res, s', evs)" "res \<noteq> Error"
  shows "spec_request (view_of io s) r = (res, view_of io s')" "fs_inv io s'"
  using execute_refines [OF assms(1-4)] assms(5,6) by auto

section \<open>Views\<close>

lemma visible_from_cong:
  "(\<And>q. map_option (\<lambda>e. (is_Directory e, owned_by e)) (v' q) = map_option (\<lambda>e. (is_Directory e, owned_by e)) (v q)) \<Longrightarrow>
    visible_from v' u q p = visible_from v u q p"
proof (induction p arbitrary: q)
  case Nil
  from Nil [of q] show ?case by (cases "v q"; cases "v' q") auto
next
  case (Cons x p)
  have "v' q = Some (Directory u) \<longleftrightarrow> v q = Some (Directory u)"
    using Cons.prems [of q] by (cases "v q"; cases "v' q") (auto simp: fs_entry.expand is_Directory_def)
  with Cons show ?case by simp
qed

lemma spec_write_Done:
  assumes "spec_write v u p b bytes = (Done, v')"
  obtains own bs bs' where "p \<noteq> []" "b < FS_MAXFILEBLOCKS" "visible v u p" "v p = Some (Regular own bs)" "v' = v(p \<mapsto> Regular own bs')"
    "b < length bs \<and> bs' = bs[b := bytes] \<or> b = length bs \<and> bs' = bs @ [bytes]"
proof -
  have p: "p \<noteq> []" "b < FS_MAXFILEBLOCKS" "visible v u p" using assms unfolding spec_write_def by (metis prod.inject out.distinct(1))+
  obtain own bs where f: "v p = Some (Regular own bs)"
    using assms p by (cases "v p"; cases "the (v p)") (auto simp: spec_write_def)
  show thesis
  proof (cases "b < length bs")
    case True
    with assms p f that [of own bs "bs[b := bytes]"] show thesis by (simp add: spec_write_def)
  next
    case False
    with assms p f have "b = length bs" by (simp add: spec_write_def split: if_splits)
    with assms p f that [of own bs "bs @ [bytes]"] show thesis by (simp add: spec_write_def)
  qed
qed

lemma spec_write_Error: "spec_write v u p b bytes = (res, v') \<Longrightarrow> res \<noteq> Done \<Longrightarrow> v' = v"
  by (cases "v p"; cases "the (v p)") (simp_all add: spec_write_def split: if_splits)

lemma spec_write_read:
  assumes "spec_write v u p b bytes = (Done, v')"
  shows "spec_read v' u' p' b' = (if u' = u \<and> p' = p \<and> b' = b then Out bytes else spec_read v u' p' b')"
proof -
  obtain own bs bs' where w: "p \<noteq> []" "b < FS_MAXFILEBLOCKS" "visible v u p" "v p = Some (Regular own bs)" "v' = v(p \<mapsto> Regular own bs')"
    "b < length bs \<and> bs' = bs[b := bytes] \<or> b = length bs \<and> bs' = bs @ [bytes]"
    using spec_write_Done [OF assms] by blast
  then have "visible_from v' u' q p' = visible_from v u' q p'" for q by (intro visible_from_cong) auto
  then have vis: "visible v' u' p' = visible v u' p'" by (simp add: visible_def)
  have own: "own = u" using w(1,3,4) visible_from_exists [of v u "[]" p] by (auto simp: visible_def)
  show ?thesis
  proof (cases "p' = p \<and> visible v u' p")
    case False
    then show ?thesis using w(1,3,5) vis by (cases "p' = p"; cases "u' = u") (simp_all add: spec_read_def)
  next
    case True
    then have "u' = u" using w(1,4) own visible_from_exists [of v u' "[]" p] by (auto simp: visible_def)
    moreover have "(b' < length bs' \<and> bs' ! b' = bytes) \<and> b' = b \<or> (b' < length bs' \<longleftrightarrow> b' < length bs) \<and> b' \<noteq> b \<and> (b' < length bs \<longrightarrow> bs' ! b' = bs ! b')"
      using w(6) by (cases "b' = b") (auto simp: nth_append)
    moreover have "spec_read v u p b' = (if b' < FS_MAXFILEBLOCKS \<and> b' < length bs then Out (bs ! b') else Error)"
      "spec_read v' u p b' = (if b' < FS_MAXFILEBLOCKS \<and> b' < length bs' then Out (bs' ! b') else Error)"
      using w(1,3-5) vis True calculation(1) by (simp_all add: spec_read_def)
    ultimately show ?thesis using True w(2) by auto
  qed
qed

lemma visible_owner: "visible v u p \<Longrightarrow> p \<noteq> [] \<Longrightarrow> v p = Some e \<Longrightarrow> owned_by e = u"
  using visible_from_exists [of v u "[]" p] by (auto simp: visible_def)

text \<open>The entries of the other users.\<close>

definition foreign :: "string \<Rightarrow> view \<Rightarrow> view" where
  "foreign u v p = (case v p of None \<Rightarrow> None | Some e \<Rightarrow> if owned_by e = u then None else Some e)"

lemma foreign_upd: "foreign u v p = None \<Longrightarrow> foreign u (v(p := e)) p = None \<Longrightarrow> foreign u (v(p := e)) = foreign u v"
  by (auto simp: foreign_def fun_eq_iff)

lemma spec_foreign:
  assumes "spec_request v r = (res, v')"
  shows "foreign (username r) v' = foreign (username r) v"
proof (cases r)
  case (FS_WRITEBLOCK u p b d)
  with assms consider "v' = v" | bytes where "spec_write v u p b bytes = (Done, v')"
    by (cases d; cases "res = Done") (auto dest: spec_write_Error)
  then show ?thesis
  proof cases
    case 2
    then obtain own bs bs' where w: "p \<noteq> []" "visible v u p" "v p = Some (Regular own bs)" "v' = v(p \<mapsto> Regular own bs')"
      using spec_write_Done by blast
    then have "own = u" using visible_owner by fastforce
    with w FS_WRITEBLOCK show ?thesis by (auto intro!: foreign_upd simp: foreign_def)
  qed simp
next
  case (FS_CREATE u p ty)
  with assms show ?thesis by (auto intro!: foreign_upd simp: foreign_def spec_create_def split: if_splits)
next
  case (FS_DELETE u p)
  with assms show ?thesis by (auto intro!: foreign_upd simp: foreign_def spec_delete_def split: if_splits)
qed (use assms in auto)

lemma visible_from_upd:
  "length (q @ p) < length r \<Longrightarrow> visible_from (v(r := e)) u q p = visible_from v u q p"
  by (induction v u q p rule: visible_from.induct) auto

lemma visible_upd: "p \<noteq> [] \<Longrightarrow> visible (v(p := e)) u (butlast p) = visible v u (butlast p)"
  using visible_from_upd [of "[]" "butlast p" p] by (cases p) (auto simp: visible_def)

text \<open>Nothing hangs in the air.\<close>

lemma fs_view_prefix: "fs_view D p = None \<Longrightarrow> fs_view D (p @ [x]) = None"
  by (auto simp: fs_view_def walk_snoc)

lemma spec_create_delete:
  assumes "spec_create v u p ty = (Done, v')" "\<And>x. v (p @ [x]) = None"
  shows "spec_delete v' u p = (Done, v)"
proof -
  have c: "p \<noteq> []" "visible v u (butlast p)" "v p = None" "v' = v(p \<mapsto> new_entry u ty)"
    using assms(1) by (auto simp: spec_create_def new_entry_def split: if_splits)
  moreover have "owned_by (new_entry u ty) = u" by (simp add: new_entry_def)
  ultimately show ?thesis using assms(2) visible_upd [OF c(1)] by (auto simp: spec_delete_def)
qed

section \<open>Properties\<close>

text \<open>
  C2. Every request refines the specification: it returns, and the response and the new view are
  those of \<open>spec_request\<close> on the old view. A write may instead be refused, without any change,
  when no block is free, and a create when at most one is free or the directory has all its
  blocks in use.
\<close>

theorem requests_refine_spec:
  assumes "disk_laws io" "fs_inv io s" "wf_inode junk" "ready_request r"
  shows "\<exists>res s' evs. execute_request io junk s r = Some (res, s', evs)
    \<and> ((res, view_of io s') = spec_request (view_of io s) r
       \<or> res = Error \<and> s' = s \<and> (is_FS_WRITEBLOCK r \<and> free_disk_blocks s = [] \<or> is_FS_CREATE r \<and> no_space io s (butlast (path r))))"
  using execute_refines [OF assms] by blast

lemma fresh_inv: "fs_inv mem_disk fresh_fs"
  using fresh_fs_tree by (auto simp: fs_inv_def)

lemma ready_create: "ready_request (FS_CREATE ''bob'' [''a''] CHR ''f'')"
  by (simp add: ready_request_def wf_user_def wf_path_def wf_name_def fs_param_defs)

text \<open>On the freshly formatted disk there is room, so the created file is there afterwards.\<close>

lemma fresh_view: "view_of mem_disk fresh_fs = Map.empty([] \<mapsto> Directory [])"
proof -
  let ?D = "image_of mem_disk formatted"
  have i: "inode_at ?D 0 = root_inode" by (rule formatted_root(1))
  then have "child ?D 0 = Map.empty" by (simp add: child_def live_entries_def entries_def used_blocks_def root_inode_def)
  moreover have "entry_at ?D 0 = Directory []" by (simp add: entry_at_def i root_inode_def c_str_def)
  ultimately show ?thesis by (auto simp: view_of_def fs_view_def fresh_fs_def fun_eq_iff neq_Nil_conv)
qed

lemma fresh_space: "\<not> no_space mem_disk fresh_fs []"
proof -
  have "inode_at (image_of mem_disk formatted) 0 = root_inode" by (rule formatted_root(1))
  then show ?thesis by (simp add: no_space_def fresh_fs_def root_inode_def FS_DISKSIZE_def fs_param_defs)
qed

theorem requests_refine_spec_witness:
  "\<exists>s' evs. execute_request mem_disk root_inode fresh_fs (FS_CREATE ''bob'' [''a''] CHR ''f'') = Some (Done, s', evs)
    \<and> view_of mem_disk s' = Map.empty([] \<mapsto> Directory [], [''a''] \<mapsto> Regular ''bob'' [])"
proof -
  have "spec_request (view_of mem_disk fresh_fs) (FS_CREATE ''bob'' [''a''] CHR ''f'')
      = (Done, Map.empty([] \<mapsto> Directory [], [''a''] \<mapsto> Regular ''bob'' []))"
    unfolding fresh_view by (simp add: spec_create_def visible_def)
  with requests_refine_spec [OF mem_disk_laws fresh_inv formatted_root(2) ready_create] fresh_space show ?thesis by auto
qed

text \<open>The state after that request has room for a block.\<close>

lemma create_takes_two:
  "yields (\<lambda>(res, s', evs). length (free_disk_blocks s) \<le> length (free_disk_blocks s') + 2) (execute_request io junk s (FS_CREATE u p ty))"
  unfolding execute_request.simps execute_create_def create_commit_def
  by (intro yields_intros; rule yields_Some; simp)

definition one_file :: "(nat \<Rightarrow> char list) fs_state" where
  "one_file = fst (snd (the (execute_request mem_disk root_inode fresh_fs (FS_CREATE ''bob'' [''a''] CHR ''f''))))"

lemma one_file_facts:
  "\<exists>evs. execute_request mem_disk root_inode fresh_fs (FS_CREATE ''bob'' [''a''] CHR ''f'') = Some (Done, one_file, evs)"
  "fs_inv mem_disk one_file" "view_of mem_disk one_file = Map.empty([] \<mapsto> Directory [], [''a''] \<mapsto> Regular ''bob'' [])"
  "free_disk_blocks one_file \<noteq> []"
proof -
  let ?r = "FS_CREATE ''bob'' [''a''] CHR ''f''"
  have spec: "spec_request (view_of mem_disk fresh_fs) ?r = (Done, Map.empty([] \<mapsto> Directory [], [''a''] \<mapsto> Regular ''bob'' []))"
    unfolding fresh_view by (simp add: spec_create_def visible_def)
  then obtain s' evs where e: "execute_request mem_disk root_inode fresh_fs ?r = Some (Done, s', evs)" "fs_inv mem_disk s'"
    "view_of mem_disk s' = Map.empty([] \<mapsto> Directory [], [''a''] \<mapsto> Regular ''bob'' [])"
    using execute_refines [OF mem_disk_laws fresh_inv formatted_root(2) ready_create] fresh_space by auto
  then have s': "s' = one_file" unfolding one_file_def by (simp del: execute_request.simps)
  have "length (free_disk_blocks fresh_fs) \<le> length (free_disk_blocks s') + 2"
    using yieldsD [OF create_takes_two e(1)] by simp
  then have "free_disk_blocks s' \<noteq> []" by (auto simp: fresh_fs_def FS_DISKSIZE_def)
  with e s' show "\<exists>evs. execute_request mem_disk root_inode fresh_fs ?r = Some (Done, one_file, evs)"
    "fs_inv mem_disk one_file" "view_of mem_disk one_file = Map.empty([] \<mapsto> Directory [], [''a''] \<mapsto> Regular ''bob'' [])"
    "free_disk_blocks one_file \<noteq> []" by blast+
qed

text \<open>
  C13. A block that was written is the block that is read: after a successful write, a read of the
  same block by the same user returns the written bytes, and every other read, by whomever,
  returns what it returned before.
\<close>

theorem read_after_write:
  assumes "disk_laws io" "fs_inv io s" "wf_inode junk" "ready_request (FS_WRITEBLOCK u p b (Some bytes))"
    "execute_request io junk s (FS_WRITEBLOCK u p b (Some bytes)) = Some (Done, s', evs)"
    "ready_request (FS_READBLOCK u' p' b')"
  shows "\<exists>res evs1 evs2. execute_request io junk s (FS_READBLOCK u' p' b') = Some (res, s, evs1)
    \<and> execute_request io junk s' (FS_READBLOCK u' p' b')
        = Some (if u' = u \<and> p' = p \<and> b' = b then Out bytes else res, s', evs2)"
proof -
  have w: "spec_write (view_of io s) u p b bytes = (Done, view_of io s')" "fs_inv io s'"
    using done_refines [OF assms(1-5)] by simp_all
  note nul = ready_nul_free [OF assms(6)]
  have rd: "\<exists>evs. execute_request io junk s0 (FS_READBLOCK u' p' b') = Some (spec_read (view_of io s0) u' p' b', s0, evs)"
    if "fs_inv io s0" for s0
    using readblock_refines [OF assms(1) _ refl, of s0 _ u' p' b'] that nul by (auto simp: fs_inv_def view_of_def)
  obtain evs1 evs2 where "execute_request io junk s (FS_READBLOCK u' p' b') = Some (spec_read (view_of io s) u' p' b', s, evs1)"
    "execute_request io junk s' (FS_READBLOCK u' p' b') = Some (spec_read (view_of io s') u' p' b', s', evs2)"
    using rd [OF assms(2)] rd [OF w(2)] by blast
  then show ?thesis unfolding spec_write_read [OF w(1)] by blast
qed

definition zeros :: "char list" where
  "zeros = replicate FS_BLOCKSIZE NUL"

lemma one_file_write:
  "\<exists>s' evs. execute_request mem_disk root_inode one_file (FS_WRITEBLOCK ''bob'' [''a''] 0 (Some zeros)) = Some (Done, s', evs)"
  "ready_request (FS_WRITEBLOCK ''bob'' [''a''] 0 (Some zeros))" "ready_request (FS_READBLOCK ''bob'' [''a''] 0)"
proof -
  show r: "ready_request (FS_WRITEBLOCK ''bob'' [''a''] 0 (Some zeros))" "ready_request (FS_READBLOCK ''bob'' [''a''] 0)"
    by (simp_all add: ready_request_def wf_user_def wf_path_def wf_name_def fs_param_defs zeros_def)
  have "fst (spec_request (view_of mem_disk one_file) (FS_WRITEBLOCK ''bob'' [''a''] 0 (Some zeros))) = Done"
    unfolding one_file_facts(3) by (simp add: spec_write_def visible_def fs_param_defs)
  moreover obtain res s' evs where
    "execute_request mem_disk root_inode one_file (FS_WRITEBLOCK ''bob'' [''a''] 0 (Some zeros)) = Some (res, s', evs)"
    "(res, view_of mem_disk s') = spec_request (view_of mem_disk one_file) (FS_WRITEBLOCK ''bob'' [''a''] 0 (Some zeros))"
    using execute_refines [OF mem_disk_laws one_file_facts(2) formatted_root(2) r(1)] one_file_facts(4) by force
  ultimately show "\<exists>s' evs. execute_request mem_disk root_inode one_file (FS_WRITEBLOCK ''bob'' [''a''] 0 (Some zeros)) = Some (Done, s', evs)"
    by (metis fst_conv)
qed

theorem read_after_write_witness:
  "\<exists>s' evs evs2. execute_request mem_disk root_inode one_file (FS_WRITEBLOCK ''bob'' [''a''] 0 (Some zeros)) = Some (Done, s', evs)
    \<and> execute_request mem_disk root_inode s' (FS_READBLOCK ''bob'' [''a''] 0) = Some (Out zeros, s', evs2)"
proof -
  obtain s' evs where e: "execute_request mem_disk root_inode one_file (FS_WRITEBLOCK ''bob'' [''a''] 0 (Some zeros)) = Some (Done, s', evs)"
    using one_file_write(1) by blast
  from read_after_write [OF mem_disk_laws one_file_facts(2) formatted_root(2) one_file_write(2) e one_file_write(3)]
  obtain evs2 where "execute_request mem_disk root_inode s' (FS_READBLOCK ''bob'' [''a''] 0) = Some (Out zeros, s', evs2)" by metis
  with e show ?thesis by blast
qed

text \<open>
  C14. A user has no effect on the others: no request changes, creates or deletes an entry that
  belongs to another user, and what a read returns is a block of a file of the user himself.
\<close>

theorem users_isolated:
  assumes "disk_laws io" "fs_inv io s" "wf_inode junk" "ready_request r" "execute_request io junk s r = Some (res, s', evs)"
  shows "foreign (username r) (view_of io s') = foreign (username r) (view_of io s)
    \<and> (\<forall>bs. res = Out bs \<longrightarrow> (\<exists>file. view_of io s (path r) = Some (Regular (username r) file) \<and> bs \<in> set file))"
proof (cases "res = Error")
  case True
  with error_unchanged [of s io junk r] yieldsD assms(5) show ?thesis by fastforce
next
  case False
  have spec: "spec_request (view_of io s) r = (res, view_of io s')" by (rule done_refines(1) [OF assms False])
  have "\<exists>file. view_of io s (path r) = Some (Regular (username r) file) \<and> bs \<in> set file" if "res = Out bs" for bs
  proof (cases r)
    case (FS_READBLOCK u p b)
    with spec that obtain own dat where f: "p \<noteq> []" "visible (view_of io s) u p" "view_of io s p = Some (Regular own dat)" "b < length dat" "bs = dat ! b"
      by (auto simp: spec_read_def split: if_splits option.splits fs_entry.splits)
    then have "own = u" using visible_owner by fastforce
    with f FS_READBLOCK show ?thesis by simp
  next
    case (FS_WRITEBLOCK u p b d)
    with spec that show ?thesis using execute_inv [OF assms(1-4)] assms(5) by auto
  next
    case (FS_CREATE u p ty)
    with spec that show ?thesis using execute_inv [OF assms(1-4)] assms(5) by auto
  next
    case (FS_DELETE u p)
    with spec that show ?thesis using execute_inv [OF assms(1-4)] assms(5) by auto
  qed
  with spec_foreign [OF spec] show ?thesis by blast
qed

lemma ready_delete: "ready_request (FS_DELETE ''eve'' [''a''])"
  by (simp add: ready_request_def wf_user_def wf_path_def wf_name_def fs_param_defs)

theorem users_isolated_witness:
  "\<exists>res s' evs. execute_request mem_disk root_inode one_file (FS_DELETE ''eve'' [''a'']) = Some (res, s', evs)
    \<and> view_of mem_disk s' [''a''] = Some (Regular ''bob'' [])"
proof -
  obtain res s' evs where e: "execute_request mem_disk root_inode one_file (FS_DELETE ''eve'' [''a'']) = Some (res, s', evs)"
    using execute_inv [OF mem_disk_laws one_file_facts(2) formatted_root(2) ready_delete] by blast
  from users_isolated [OF mem_disk_laws one_file_facts(2) formatted_root(2) ready_delete e]
  have "foreign ''eve'' (view_of mem_disk s') [''a''] = foreign ''eve'' (view_of mem_disk one_file) [''a'']" by simp
  then have "view_of mem_disk s' [''a''] = Some (Regular ''bob'' [])"
    by (simp add: foreign_def one_file_facts(3) split: option.splits if_splits)
  with e show ?thesis by blast
qed

text \<open>
  C15. Deleting what was just created succeeds and restores the view.
\<close>

theorem create_delete_restores:
  assumes "disk_laws io" "fs_inv io s" "wf_inode junk" "ready_request (FS_CREATE u p ty)"
    "execute_request io junk s (FS_CREATE u p ty) = Some (Done, s', evs)"
  shows "\<exists>s'' evs'. execute_request io junk s' (FS_DELETE u p) = Some (Done, s'', evs') \<and> view_of io s'' = view_of io s"
proof -
  have c: "spec_create (view_of io s) u p ty = (Done, view_of io s')" "fs_inv io s'"
    using done_refines [OF assms] by simp_all
  then have "view_of io s p = None" by (auto simp: spec_create_def split: if_splits)
  then have "view_of io s (p @ [x]) = None" for x using fs_view_prefix by (simp add: view_of_def)
  then have d: "spec_request (view_of io s') (FS_DELETE u p) = (Done, view_of io s)" using spec_create_delete [OF c(1)] by simp
  have "ready_request (FS_DELETE u p)" using assms(4) by (simp add: ready_request_def)
  from execute_refines [OF assms(1) c(2) assms(3) this] d show ?thesis by auto
qed

theorem create_delete_restores_witness:
  "\<exists>s'' evs'. execute_request mem_disk root_inode one_file (FS_DELETE ''bob'' [''a'']) = Some (Done, s'', evs')
    \<and> view_of mem_disk s'' = Map.empty([] \<mapsto> Directory [])"
proof -
  obtain evs where "execute_request mem_disk root_inode fresh_fs (FS_CREATE ''bob'' [''a''] CHR ''f'') = Some (Done, one_file, evs)"
    using one_file_facts(1) by blast
  from create_delete_restores [OF mem_disk_laws fresh_inv formatted_root(2) ready_create this] show ?thesis
    unfolding fresh_view by blast
qed

end
