(* ===== verification/Fs_Protocol.thy ===== *)
theory Fs_Protocol
  imports Fs_Concurrent Fs_Contract
begin

text \<open>
  What a thread knows and owns at each point of its program, as a phase, and the protocol that its
  actions follow: \<open>conform io r p \<phi>\<close> says that the program \<open>p\<close>, for request \<open>r\<close>, keeps to the protocol from phase
  \<open>\<phi>\<close> on. The protocol names the action at which the request takes effect: the write that changes
  the tree, or, for a request that changes nothing, the moment at which the lock is taken that
  fixes its outcome.
\<close>

section \<open>Phases\<close>

type_synonym image = "nat \<Rightarrow> char list"

text \<open>
  \<^item> \<open>Idle\<close>: nothing is held; the pointer to the root's mutex may have been fetched.
  \<^item> \<open>At q m k D own p\<close>: the node at path \<open>q\<close> is locked, its blocks are as in \<open>D\<close>; the blocks \<open>own\<close> were taken
    from the free list; \<open>p\<close> is the name and the mutex of a child that was looked up.
  \<^item> \<open>Two q m k D x m' k' D'\<close>: the child \<open>x\<close> of that node is locked too.
  \<^item> \<open>Gone r cs\<close>: the request has taken effect with result \<open>r\<close>, the locks \<open>cs\<close> are still held.
  \<^item> \<open>Limbo pm m k D own\<close>: the node locked by \<open>m\<close> has been unlinked from its parent, but its blocks are not
    yet returned. \<open>Erased m own\<close>: the same, after its mutex has been erased from the table.
\<close>

datatype phase =
    Idle "data_lock option"
  | At Path data_lock hold image "nat list" "(string \<times> data_lock) option"
  | Two Path data_lock hold image string data_lock hold image
  | Gone out "(data_lock \<times> hold \<times> image option) list"
  | Limbo "data_lock option" data_lock hold image "nat list"
  | Erased data_lock "nat list"

fun locks_of :: "phase \<Rightarrow> (data_lock \<times> hold) list" where
  "locks_of (Idle p) = []"
| "locks_of (At q m k D own p) = [(m, k)]"
| "locks_of (Two q m k D x m' k' D') = [(m', k'), (m, k)]"
| "locks_of (Gone r cs) = map (\<lambda>(m, k, _). (m, k)) cs"
| "locks_of (Limbo pm m k D own) = (m, k) # (case pm of None \<Rightarrow> [] | Some x \<Rightarrow> [(x, Holds_unique)])"
| "locks_of (Erased m own) = [(m, Holds_unique)]"

text \<open>The blocks that belong to a thread alone.\<close>

fun owned :: "phase \<Rightarrow> nat list" where
  "owned (At q m k D own p) = own"
| "owned (Limbo pm m k D own) = own @ used_blocks D (fst m) @ [fst m]"
| "owned (Erased m own) = own"
| "owned _ = []"

fun effect :: "phase \<Rightarrow> out option" where
  "effect (Gone r cs) = Some r"
| "effect (Limbo pm m k D own) = Some Done"
| "effect (Erased m own) = Some Done"
| "effect _ = None"

section \<open>What the protocol refers to\<close>

abbreviation node_blocks :: "image \<Rightarrow> nat \<Rightarrow> nat list" where
  "node_blocks D b \<equiv> b # used_blocks D b"

text \<open>The directories above the end of the path are the user's, except the root.\<close>

definition prefix_ok :: "view \<Rightarrow> string \<Rightarrow> Path \<Rightarrow> bool" where
  "prefix_ok v u q \<longleftrightarrow> (\<forall>q1 q2. q = q1 @ q2 \<longrightarrow> q1 \<noteq> [] \<longrightarrow> q2 \<noteq> [] \<longrightarrow> v q1 = Some (Directory u))"

text \<open>A directory with an entry: it cannot be deleted.\<close>

definition firm :: "image \<Rightarrow> nat \<Rightarrow> bool" where
  "firm D b \<longleftrightarrow> (\<exists>x. child D b x \<noteq> None)"

definition node_at :: "'d disk_ops \<Rightarrow> Path \<Rightarrow> nat \<Rightarrow> image \<Rightarrow> bool" where
  "node_at io q b D \<longleftrightarrow> (\<exists>s t. fs_tree io s t \<and> D = image_of io (disk s) \<and> walk (child D) 0 q = Some b)"

text \<open>
  A consistent state in which the node at path \<open>q\<close> has block \<open>b\<close> and contents \<open>D\<close>, the user \<open>u\<close> may
  come that far, and the blocks \<open>own\<close>, with contents as in \<open>D\<close>, are outside the tree.
\<close>

definition located :: "'d disk_ops \<Rightarrow> string \<Rightarrow> Path \<Rightarrow> nat \<Rightarrow> image \<Rightarrow> nat list \<Rightarrow> nat list \<Rightarrow> 'd fs_state \<Rightarrow> tree \<Rightarrow> bool" where
  "located io u q b D own rest s t \<longleftrightarrow> fs_tree io s t \<and> free_disk_blocks s = own @ rest
     \<and> walk (child (image_of io (disk s))) 0 q = Some b \<and> agree D (image_of io (disk s)) b
     \<and> (\<forall>x \<in> set own. image_of io (disk s) x = D x) \<and> prefix_ok (fs_view (image_of io (disk s))) u q"

abbreviation view_in :: "'d disk_ops \<Rightarrow> 'd fs_state \<Rightarrow> view" where
  "view_in io s \<equiv> fs_view (image_of io (disk s))"

text \<open>The contents of the node fix the outcome, without a change; or its directory is full.\<close>

definition decided :: "'d disk_ops \<Rightarrow> Request \<Rightarrow> Path \<Rightarrow> nat \<Rightarrow> image \<Rightarrow> out \<Rightarrow> bool" where
  "decided io r q b D res \<longleftrightarrow>
     (\<forall>rest s t. located io (username r) q b D [] rest s t \<longrightarrow> spec_request (view_in io s) r = (res, view_in io s))
   \<or> res = Error \<and> is_FS_CREATE r \<and> q = butlast (path r) \<and> isize (inode_at D b) = FS_MAXFILEBLOCKS"

definition refusable :: "Request \<Rightarrow> bool" where
  "refusable r \<longleftrightarrow> is_FS_CREATE r \<or> is_FS_WRITEBLOCK r"

text \<open>The free list \<open>fl\<close> fixes the outcome; \<open>own\<close> are blocks that threads have taken.\<close>

definition settled :: "'d disk_ops \<Rightarrow> Request \<Rightarrow> nat list \<Rightarrow> out \<Rightarrow> bool" where
  "settled io r fl res \<longleftrightarrow>
     (\<forall>own s t. fs_tree io s t \<and> free_disk_blocks s = own @ fl \<longrightarrow> spec_request (view_in io s) r = (res, view_in io s))
   \<or> res = Error \<and> refusable r \<and> fl = []"

text \<open>A write to the locked node that carries the request out, using up the blocks \<open>own\<close>.\<close>

definition commits :: "'d disk_ops \<Rightarrow> Request \<Rightarrow> Path \<Rightarrow> nat \<Rightarrow> image \<Rightarrow> nat list \<Rightarrow> nat \<Rightarrow> char list \<Rightarrow> out \<Rightarrow> bool" where
  "commits io r q b D own wb bytes res \<longleftrightarrow> length bytes = FS_BLOCKSIZE \<and> wb \<in> set (node_blocks D b)
     \<and> (\<forall>rest s t d'. located io (username r) q b D own rest s t \<longrightarrow> image_of io d' = (image_of io (disk s))(wb := bytes) \<longrightarrow>
          (\<exists>t'. fs_tree io \<lparr>disk = d', free_disk_blocks = rest\<rparr> t')
          \<and> spec_request (view_in io s) r = (res, fs_view (image_of io d'))
          \<and> child (image_of io (disk s)) b \<subseteq>\<^sub>m child (image_of io d') b)"

text \<open>A write to the locked parent that removes its entry \<open>x\<close> for the locked node \<open>c\<close>.\<close>

definition unlinks :: "'d disk_ops \<Rightarrow> Request \<Rightarrow> Path \<Rightarrow> nat \<Rightarrow> image \<Rightarrow> string \<Rightarrow> nat \<Rightarrow> image \<Rightarrow> nat \<Rightarrow> char list \<Rightarrow> nat list \<Rightarrow> bool" where
  "unlinks io r q b D x c D' wb bytes extra \<longleftrightarrow> length bytes = FS_BLOCKSIZE \<and> wb \<in> set (node_blocks D b) \<and> \<not> firm D' c
     \<and> (\<forall>rest s t d'. located io (username r) q b D [] rest s t \<longrightarrow> located io (username r) (q @ [x]) c D' [] rest s t \<longrightarrow>
          image_of io d' = (image_of io (disk s))(wb := bytes) \<longrightarrow>
          (\<exists>t'. fs_tree io \<lparr>disk = d', free_disk_blocks = (extra @ used_blocks D' c @ [c]) @ rest\<rparr> t')
          \<and> spec_request (view_in io s) r = (Done, fs_view (image_of io d'))
          \<and> child (image_of io d') b = (child (image_of io (disk s)) b)(x := None))"

section \<open>The protocol\<close>

inductive conform :: "'d disk_ops \<Rightarrow> Request \<Rightarrow> prog \<Rightarrow> phase \<Rightarrow> bool" for io r where
  return_idle: "(\<And>v. spec_request v r = (res, v)) \<Longrightarrow> conform io r (Return res) (Idle p)"
| return_gone: "conform io r (Return res) (Gone res [])"
| get_root: "(\<And>g. conform io r (k (0, g)) (Idle (Some (0, g)))) \<Longrightarrow> conform io r (Get_Lock 0 k) (Idle None)"
| get_child: "child D (fst m) x = Some b \<Longrightarrow> (\<And>g. conform io r (k (b, g)) (At q m h D [] (Some (x, b, g)))) \<Longrightarrow>
    conform io r (Get_Lock b k) (At q m h D [] None)"
| lock_root: "fst m = 0 \<Longrightarrow> (\<And>D. node_at io [] 0 D \<Longrightarrow>
      (mode = Shared \<longrightarrow> firm D 0) \<and> conform io r p (At [] m (hold_of mode) D [] None)
      \<or> (\<exists>res. decided io r [] 0 D res \<and> conform io r p (Gone res [(m, hold_of mode, Some D)]))) \<Longrightarrow>
    conform io r (Lock mode m p) (Idle (Some m))"
| lock_child: "q = [] \<or> entry_at D (fst m) = Directory (username r) \<Longrightarrow> (\<And>D'. node_at io (q @ [x]) (fst m') D' \<Longrightarrow>
      (mode = Shared \<longrightarrow> firm D' (fst m')) \<and> conform io r p (Two q m h D x m' (hold_of mode) D')
      \<or> (\<exists>res. decided io r (q @ [x]) (fst m') D' res \<and> conform io r p (Gone res [(m', hold_of mode, Some D'), (m, h, None)]))) \<Longrightarrow>
    conform io r (Lock mode m' p) (At q m h D [] (Some (x, m')))"
| unique_at: "conform io r p (At q m Holds_unique D own ptr) \<Longrightarrow> conform io r (Make_Unique m p) (At q m Holds_upgradable D own ptr)"
| unique_limbo: "conform io r p (Limbo None m Holds_unique D []) \<Longrightarrow> conform io r (Make_Unique m p) (Limbo None m Holds_upgradable D [])"
| unlock_at: "decided io r q (fst m) D res \<Longrightarrow> conform io r p (Gone res []) \<Longrightarrow> conform io r (Unlock m p) (At q m h D [] ptr)"
| unlock_parent: "conform io r p (At (q @ [x]) m' h' D' [] None) \<Longrightarrow> conform io r (Unlock m p) (Two q m h D x m' h' D')"
| unlock_child: "decided io r (q @ [x]) (fst m') D' res \<Longrightarrow> conform io r p (Gone res [(m, h, None)]) \<Longrightarrow>
    conform io r (Unlock m' p) (Two q m h D x m' h' D')"
| unlock_gone: "conform io r p (Gone res (filter (\<lambda>c. fst c \<noteq> m) cs)) \<Longrightarrow> conform io r (Unlock m p) (Gone res cs)"
| unlock_limbo: "conform io r p (Limbo None m h D own) \<Longrightarrow> conform io r (Unlock pm p) (Limbo (Some pm) m h D own)"
| unlock_erased: "conform io r p (Gone Done []) \<Longrightarrow> conform io r (Unlock m p) (Erased m [])"
| read_at: "b \<in> set (node_blocks D (fst m)) \<Longrightarrow> conform io r (k (D b)) (At q m h D own ptr) \<Longrightarrow> conform io r (Read b k) (At q m h D own ptr)"
| read_two: "b \<in> set (node_blocks D' (fst m')) \<Longrightarrow> conform io r (k (D' b)) (Two q m h D x m' h' D') \<Longrightarrow>
    conform io r (Read b k) (Two q m h D x m' h' D')"
| read_gone: "(m, h, Some D) \<in> set cs \<Longrightarrow> b \<in> set (node_blocks D (fst m)) \<Longrightarrow> conform io r (k (D b)) (Gone res cs) \<Longrightarrow>
    conform io r (Read b k) (Gone res cs)"
| write_own: "b \<in> set own \<Longrightarrow> length bytes = FS_BLOCKSIZE \<Longrightarrow> conform io r p (At q m h (D(b := bytes)) own ptr) \<Longrightarrow>
    conform io r (Write b bytes p) (At q m h D own ptr)"
| write_commit: "commits io r q (fst m) D own b bytes res \<Longrightarrow> conform io r p (Gone res [(m, Holds_unique, None)]) \<Longrightarrow>
    conform io r (Write b bytes p) (At q m Holds_unique D own ptr)"
| write_unlink: "unlinks io r q (fst m) D x (fst m') D' b bytes extra \<Longrightarrow>
    conform io r p (Limbo (Some m) m' Holds_upgradable D' extra) \<Longrightarrow>
    conform io r (Write b bytes p) (Two q m Holds_unique D x m' Holds_upgradable D')"
| free_idle: "(\<And>fl. upd fl = fl) \<Longrightarrow> (\<And>fl. conform io r (k fl) (Idle p) \<or> (\<exists>res. settled io r fl res \<and> conform io r (k fl) (Gone res []))) \<Longrightarrow>
    conform io r (Free_List upd k) (Idle p)"
| free_take: "(\<And>b fl. upd (b # fl) = fl) \<Longrightarrow> mset (upd []) = mset own \<Longrightarrow>
    (\<And>b fl bytes. b \<notin> set (node_blocks D (fst m)) \<Longrightarrow> b \<notin> set own \<Longrightarrow> b < FS_DISKSIZE \<Longrightarrow> b \<noteq> 0 \<Longrightarrow>
       conform io r (k (b # fl)) (At q m h (D(b := bytes)) (b # own) ptr)) \<Longrightarrow>
    refusable r \<Longrightarrow> conform io r (k []) (Gone Error [(m, h, None)]) \<Longrightarrow>
    conform io r (Free_List upd k) (At q m h D own ptr)"
| free_back: "(\<And>fl. mset (upd fl) = mset fl + mset own) \<Longrightarrow> (\<And>fl. conform io r (k fl) (At q m h D [] ptr)) \<Longrightarrow>
    conform io r (Free_List upd k) (At q m h D own ptr)"
| free_limbo: "(\<And>fl. mset (upd fl) = mset fl + mset own) \<Longrightarrow> (\<And>fl. conform io r (k fl) (Limbo pm m h D [])) \<Longrightarrow>
    conform io r (Free_List upd k) (Limbo pm m h D own)"
| erase: "b = fst m \<Longrightarrow> conform io r p (Erased m (used_blocks D (fst m) @ [fst m])) \<Longrightarrow>
    conform io r (Erase_Lock b p) (Limbo None m Holds_unique D [])"
| free_erased: "(\<And>fl. mset (upd fl) = mset fl + mset own) \<Longrightarrow> (\<And>fl. conform io r (k fl) (Erased m [])) \<Longrightarrow>
    conform io r (Free_List upd k) (Erased m own)"

inductive_cases conform_returnE: "conform io r (Return res) ph"
inductive_cases conform_abortE: "conform io r Abort ph"
inductive_cases conform_getE: "conform io r (Get_Lock b k) ph"
inductive_cases conform_lockE: "conform io r (Lock mode m p) ph"
inductive_cases conform_uniqueE: "conform io r (Make_Unique m p) ph"
inductive_cases conform_unlockE: "conform io r (Unlock m p) ph"
inductive_cases conform_readE: "conform io r (Read b k) ph"
inductive_cases conform_writeE: "conform io r (Write b bytes p) ph"
inductive_cases conform_freeE: "conform io r (Free_List upd k) ph"
inductive_cases conform_eraseE: "conform io r (Erase_Lock b p) ph"

lemmas conform_return_cases = conform_returnE [consumes 1, case_names idle gone]
lemmas conform_get_cases = conform_getE [consumes 1, case_names root child]
lemmas conform_lock_cases = conform_lockE [consumes 1, case_names root child]
lemmas conform_unique_cases = conform_uniqueE [consumes 1, case_names at limbo]
lemmas conform_unlock_cases = conform_unlockE [consumes 1, case_names at parent child gone limbo erased]
lemmas conform_read_cases = conform_readE [consumes 1, case_names at two gone]
lemmas conform_write_cases = conform_writeE [consumes 1, case_names own commit unlink]
lemmas conform_free_cases = conform_freeE [consumes 1, case_names idle taking giving limbo erased]
lemmas conform_erase_cases = conform_eraseE [consumes 1, case_names limbo]

section \<open>What a phase says of the state\<close>

text \<open>\<open>g\<close> counts the erasures of mutexes, \<open>L\<close> are the mutexes of nodes in limbo.\<close>

abbreviation current :: "(nat \<Rightarrow> nat) \<Rightarrow> data_lock \<Rightarrow> bool" where
  "current g m \<equiv> snd m = g (fst m)"

definition placed :: "image \<Rightarrow> (nat \<Rightarrow> nat) \<Rightarrow> string \<Rightarrow> Path \<Rightarrow> data_lock \<Rightarrow> hold \<Rightarrow> image \<Rightarrow> bool" where
  "placed I g u q m h D \<longleftrightarrow> current g m \<and> walk (child I) 0 q = Some (fst m) \<and> agree D I (fst m)
     \<and> prefix_ok (fs_view I) u q \<and> (h = Holds_shared \<longrightarrow> firm D (fst m))"

fun phase_ok :: "image \<Rightarrow> (nat \<Rightarrow> nat) \<Rightarrow> data_lock set \<Rightarrow> string \<Rightarrow> phase \<Rightarrow> bool" where
  "phase_ok I g L u (Idle p) \<longleftrightarrow> (\<forall>m. p = Some m \<longrightarrow> m = (0, g 0))"
| "phase_ok I g L u (At q m h D own p) \<longleftrightarrow> placed I g u q m h D \<and> (\<forall>b \<in> set own. I b = D b)
     \<and> (\<forall>x m'. p = Some (x, m') \<longrightarrow> current g m' \<and> child D (fst m) x = Some (fst m'))"
| "phase_ok I g L u (Two q m h D x m' h' D') \<longleftrightarrow> placed I g u q m h D \<and> placed I g u (q @ [x]) m' h' D'"
| "phase_ok I g L u (Gone res cs) \<longleftrightarrow> distinct (map fst cs) \<and> (\<forall>(m, h, d) \<in> set cs. current g m
     \<and> (\<forall>D. d = Some D \<longrightarrow> agree D I (fst m) \<and> ((\<exists>q. walk (child I) 0 q = Some (fst m)) \<or> m \<in> L)))"
| "phase_ok I g L u (Limbo pm m h D own) \<longleftrightarrow> (\<forall>x. pm = Some x \<longrightarrow> current g x \<and> x \<noteq> m) \<and> current g m \<and> agree D I (fst m)"
| "phase_ok I g L u (Erased m own) \<longleftrightarrow> True"

fun limbos :: "phase \<Rightarrow> data_lock set" where
  "limbos (Limbo pm m h D own) = {m}"
| "limbos _ = {}"

fun compatible :: "hold \<Rightarrow> hold \<Rightarrow> bool" where
  "compatible Holds_shared Holds_unique \<longleftrightarrow> False"
| "compatible Holds_shared k \<longleftrightarrow> True"
| "compatible Holds_upgradable k \<longleftrightarrow> k = Holds_shared"
| "compatible Holds_unique k \<longleftrightarrow> False"

definition exclusive :: "phase list \<Rightarrow> bool" where
  "exclusive ps \<longleftrightarrow> (\<forall>i < length ps. \<forall>j < length ps. i \<noteq> j \<longrightarrow>
     (\<forall>m k k'. (m, k) \<in> set (locks_of (ps ! i)) \<longrightarrow> (m, k') \<in> set (locks_of (ps ! j)) \<longrightarrow> compatible k k'))"

fun worker_ok :: "'d disk_ops \<Rightarrow> worker \<Rightarrow> phase \<Rightarrow> bool" where
  "worker_ok io wk ph = (case activity wk of
     Finished res \<Rightarrow> ph = Gone res []
   | Running p h \<Rightarrow> h = locks_of ph \<and> conform io (request wk) p ph)"

declare worker_ok.simps [simp del]

definition limbo :: "phase list \<Rightarrow> data_lock set" where
  "limbo ps = (\<Union>p \<in> set ps. limbos p)"

definition taken :: "phase list \<Rightarrow> nat list" where
  "taken ps = concat (map owned ps)"

text \<open>The invariant: \<open>ps\<close> are the phases of the threads and \<open>t\<close> is the tree on the disk.\<close>

definition conc_inv :: "'d disk_ops \<Rightarrow> 'd world \<Rightarrow> phase list \<Rightarrow> tree \<Rightarrow> bool" where
  "conc_inv io w ps t \<longleftrightarrow> list_all2 (worker_ok io) (workers w) ps
     \<and> fs_tree io ((fsys w)\<lparr>free_disk_blocks := taken ps @ free_disk_blocks (fsys w)\<rparr>) t
     \<and> exclusive ps
     \<and> (\<forall>i < length ps. phase_ok (image_of io (disk (fsys w))) (erasures w) (limbo ps) (username (request (workers w ! i))) (ps ! i))"

end
