(* ===== verification/Fs_Stability.thy ===== *)
theory Fs_Stability
  imports Fs_Protocol
begin

text \<open>
  What a thread knows in its phase stays true while other threads move: a node whose lock it holds
  keeps its place and its contents, and nobody else touches the blocks it owns.
\<close>

section \<open>Contents and places\<close>

lemma agree_used: "agree D I b \<Longrightarrow> used_blocks I b = used_blocks D b"
  by (rule used_blocks_cong) (simp add: agree_def)

lemma agree_firm: "agree D I b \<Longrightarrow> firm I b = firm D b"
  by (simp add: firm_def agree_node(1))

lemma agree_upd: "agree D I b \<Longrightarrow> x \<notin> set (node_blocks D b) \<Longrightarrow> agree D (I(x := y)) b"
  by (auto simp: agree_def)

lemma agree_trans: "agree D I b \<Longrightarrow> agree I J b \<Longrightarrow> agree D J b"
  using agree_used [of D I b] by (auto simp: agree_def)

lemma agree_refl: "agree D D b"
  by (simp add: agree_def)

lemma walk_grow:
  assumes "\<And>q c. walk ch b q = Some c \<Longrightarrow> ch c \<subseteq>\<^sub>m ch' c" "walk ch b q = Some c"
  shows "walk ch' b q = Some c"
  using assms(2)
proof (induction q arbitrary: c rule: rev_induct)
  case (snoc x q)
  then obtain d where d: "walk ch b q = Some d" "ch d x = Some c" by (auto simp: walk_snoc bind_eq_Some_conv)
  with assms(1) [OF d(1)] snoc.IH [OF d(1)] show ?case by (auto simp: walk_snoc map_le_def dom_def)
qed simp

lemma spec_keeps_dirs:
  assumes "spec_request v r = (res, v')" "v q = Some (Directory u)" "v' q \<noteq> None"
  shows "v' q = Some (Directory u)"
  using assms
  by (cases r) (auto simp: spec_write_def spec_create_def spec_delete_def split: if_splits option.splits fs_entry.splits)

lemma walk_prefix: "walk ch b (q1 @ q2) = Some c \<Longrightarrow> \<exists>d. walk ch b q1 = Some d"
  by (cases "walk ch b q1") (simp_all add: walk_append)

lemma prefix_ok_step:
  assumes "spec_request (fs_view I) r = (res, fs_view I')" "prefix_ok (fs_view I) u q" "walk (child I') 0 q = Some c"
  shows "prefix_ok (fs_view I') u q"
  unfolding prefix_ok_def
proof (intro allI impI)
  fix q1 q2 assume q: "q = q1 @ q2" "q1 \<noteq> []" "q2 \<noteq> []"
  then have "fs_view I q1 = Some (Directory u)" using assms(2) by (auto simp: prefix_ok_def)
  moreover have "fs_view I' q1 \<noteq> None" using walk_prefix [of _ _ q1 q2] assms(3) q(1) by (auto simp: fs_view_def)
  ultimately show "fs_view I' q1 = Some (Directory u)" using spec_keeps_dirs [OF assms(1)] by blast
qed

lemma prefix_ok_Nil [simp]: "prefix_ok v u []"
  by (simp add: prefix_ok_def)

lemma prefix_ok_snoc: "prefix_ok v u q \<Longrightarrow> q = [] \<or> v q = Some (Directory u) \<Longrightarrow> prefix_ok v u (q @ [x])"
  unfolding prefix_ok_def
proof (intro allI impI)
  fix q1 q2
  assume ok: "\<forall>q1 q2. q = q1 @ q2 \<longrightarrow> q1 \<noteq> [] \<longrightarrow> q2 \<noteq> [] \<longrightarrow> v q1 = Some (Directory u)"
    "q = [] \<or> v q = Some (Directory u)" and q: "q @ [x] = q1 @ q2" "q1 \<noteq> []" "q2 \<noteq> []"
  then obtain q3 where q3: "q = q1 @ q3" by (cases q2 rule: rev_cases) auto
  with ok q(2) show "v q1 = Some (Directory u)" by (cases "q3 = []") auto
qed

lemma fs_tree_perm:
  assumes "fs_tree io s t" "image_of io (disk s') = image_of io (disk s)" "mset (free_disk_blocks s') = mset (free_disk_blocks s)"
  shows "fs_tree io s' t"
  using assms by (simp add: fs_tree_def)

text \<open>A change outside the tree.\<close>

lemma outside_tree:
  assumes "rep I t" "root t = 0" "\<And>x. x \<in> set (blocks_of I t) \<Longrightarrow> I' x = I x"
  shows "walk (child I') 0 q = walk (child I) 0 q" "fs_view I' = fs_view I" "rep I' t" "blocks_of I' t = blocks_of I t"
    "walk (child I) 0 q = Some c \<Longrightarrow> set (node_blocks I c) \<subseteq> set (blocks_of I t)"
proof -
  have nb: "set (node_blocks I c) \<subseteq> set (blocks_of I t)" if walk: "walk (child I) 0 q = Some c" for q c
  proof -
    obtain n where n: "n \<in> set (nodes t)" "root n = c" using walk_nodes [OF assms(1)] walk assms(2) by metis
    have "set (node_blocks I c) \<subseteq> set (blocks_of I n)" using n(2) by (cases n) auto
    with nodes_blocks [OF n(1), of I] show ?thesis by blast
  qed
  then show "walk (child I) 0 q = Some c \<Longrightarrow> set (node_blocks I c) \<subseteq> set (blocks_of I t)" .
  have ag: "agree I I' c" if "walk (child I) 0 q = Some c" for q c
    using nb [OF that] assms(3) by (auto simp: agree_def)
  show w: "walk (child I') 0 q = walk (child I) 0 q" for q
    by (rule walk_same) (use ag agree_node(1) in blast)
  show "fs_view I' = fs_view I"
  proof
    fix q show "fs_view I' q = fs_view I q" using ag [of q] agree_node(2) w [of q] by (cases "walk (child I) 0 q") (auto simp: fs_view_def)
  qed
  show "rep I' t" by (rule rep_cong [OF _ assms(1)]) (use assms(3) in simp)
  show "blocks_of I' t = blocks_of I t" by (rule blocks_of_cong) (use assms(3) in simp)
qed

section \<open>Locks\<close>

lemma compatible_sym: "compatible k k' = compatible k' k"
  by (cases k; cases k') simp_all

lemma compatible_unique [simp]: "\<not> compatible Holds_unique k" "\<not> compatible k Holds_unique"
  by (cases k; simp)+

section \<open>A phase under a change of the state\<close>

fun mutexes :: "phase \<Rightarrow> data_lock set" where
  "mutexes (At q m k D own p) = insert m (case p of None \<Rightarrow> {} | Some (x, m') \<Rightarrow> {m'})"
| "mutexes ph = fst ` set (locks_of ph)"

fun places :: "phase \<Rightarrow> (Path \<times> data_lock \<times> hold \<times> image) set" where
  "places (At q m k D own p) = {(q, m, k, D)}"
| "places (Two q m k D x m' k' D') = {(q, m, k, D), (q @ [x], m', k', D')}"
| "places ph = {}"

fun reads_from :: "phase \<Rightarrow> (data_lock \<times> image) set" where
  "reads_from (Gone res cs) = {(m, D) | m h D. (m, h, Some D) \<in> set cs}"
| "reads_from ph = {}"

lemma phase_ok_frame:
  assumes "phase_ok I g L u ph" "g' 0 = g 0"
    and "\<And>m. m \<in> mutexes ph \<Longrightarrow> current g m \<Longrightarrow> current g' m"
    and "\<And>q m h D. (q, m, h, D) \<in> places ph \<Longrightarrow> placed I g u q m h D \<Longrightarrow> placed I' g' u q m h D"
    and "\<And>b. b \<in> set (owned ph) \<Longrightarrow> I' b = I b"
    and "\<And>m D. (m, D) \<in> reads_from ph \<Longrightarrow> current g m \<Longrightarrow> agree D I (fst m) \<Longrightarrow> (\<exists>q. walk (child I) 0 q = Some (fst m)) \<or> m \<in> L \<Longrightarrow>
      agree D I' (fst m) \<and> ((\<exists>q. walk (child I') 0 q = Some (fst m)) \<or> m \<in> L')"
  shows "phase_ok I' g' L' u ph"
proof (cases ph)
  case (At q m h D own p)
  with assms show ?thesis by (auto split: option.splits)
next
  case (Gone res cs)
  have "current g' m \<and> (\<forall>D. d = Some D \<longrightarrow> agree D I' (fst m) \<and> ((\<exists>q. walk (child I') 0 q = Some (fst m)) \<or> m \<in> L'))"
    if c: "(m, h, d) \<in> set cs" for m h d
  proof -
    have ok: "current g m" "\<And>D. d = Some D \<Longrightarrow> agree D I (fst m) \<and> ((\<exists>q. walk (child I) 0 q = Some (fst m)) \<or> m \<in> L)"
      using assms(1) c Gone by auto
    have "m \<in> mutexes ph" using c Gone by (force simp: image_image)
    moreover have "d = Some D \<Longrightarrow> (m, D) \<in> reads_from ph" for D using c Gone by (cases m) auto
    ultimately show ?thesis using ok assms(3,6) by blast
  qed
  with Gone assms(1) show ?thesis unfolding Gone phase_ok.simps by (intro conjI ballI) (simp, blast)
next
  case (Limbo pm m h D own)
  with assms show ?thesis by (auto simp: agree_def)
qed (use assms in auto)

lemma phase_ok_mono: "phase_ok I g L u ph \<Longrightarrow> L \<subseteq> L' \<Longrightarrow> phase_ok I g L' u ph"
  by (rule phase_ok_frame [of I g L u ph g I L']) auto

end
