(* ===== verification/Fs_Interference.thy ===== *)
theory Fs_Interference
  imports Fs_Stability
begin

text \<open>
  The invariant of concurrent requests is kept by every kind of action: actions that change only
  locks and the free list, writes to a thread's own blocks, writes that carry a request out, the
  unlinking of a node and the erasure of its mutex.
\<close>

section \<open>The invariant taken apart\<close>

lemma disjoint_concat_nth:
  "distinct (concat xss) \<Longrightarrow> i < length xss \<Longrightarrow> j < length xss \<Longrightarrow> i \<noteq> j \<Longrightarrow> set (xss ! i) \<inter> set (xss ! j) = {}"
proof (induction xss arbitrary: i j)
  case (Cons xs xss)
  have "set xs \<inter> set (xss ! k) = {}" if "k < length xss" for k
    using Cons.prems(1) that by (auto dest: nth_mem)
  with Cons show ?case by (cases i; cases j) auto
qed simp

lemma taken_update:
  assumes "i < length ps"
  shows "mset (taken (ps[i := p])) + mset (owned (ps ! i)) = mset (taken ps) + mset (owned p)"
proof -
  have "ps = take i ps @ ps ! i # drop (Suc i) ps" using assms by (rule id_take_nth_drop)
  then have "mset (taken ps) = mset (taken (take i ps)) + mset (owned (ps ! i)) + mset (taken (drop (Suc i) ps))"
    by (metis (no_types, lifting) append.assoc concat_append list.simps(9) concat.simps(2) map_append mset_append taken_def)
  moreover have "mset (taken (ps[i := p])) = mset (taken (take i ps)) + mset (owned p) + mset (taken (drop (Suc i) ps))"
    using assms by (simp add: taken_def upd_conv_take_nth_drop)
  ultimately show ?thesis by simp
qed

lemma owned_taken: "i < length ps \<Longrightarrow> set (owned (ps ! i)) \<subseteq> set (taken ps)"
  by (auto simp: taken_def intro!: bexI [of _ "ps ! i"])

lemma limbo_update: "i < length ps \<Longrightarrow> limbo (ps[i := p]) \<subseteq> limbo ps \<union> limbos p" "i < length ps \<Longrightarrow> limbos p \<subseteq> limbo (ps[i := p])"
  "i < length ps \<Longrightarrow> limbos (ps ! i) \<subseteq> limbos p \<Longrightarrow> limbo ps \<subseteq> limbo (ps[i := p])"
proof -
  show "i < length ps \<Longrightarrow> limbo (ps[i := p]) \<subseteq> limbo ps \<union> limbos p"
    using set_update_subset_insert [of ps i p] by (auto simp: limbo_def)
  show sub: "i < length ps \<Longrightarrow> limbos p \<subseteq> limbo (ps[i := p])"
    using set_update_memI [of i ps p] by (auto simp: limbo_def)
  assume i: "i < length ps" "limbos (ps ! i) \<subseteq> limbos p"
  show "limbo ps \<subseteq> limbo (ps[i := p])"
  proof
    fix m assume "m \<in> limbo ps"
    then obtain j where j: "j < length ps" "m \<in> limbos (ps ! j)" by (auto simp: limbo_def in_set_conv_nth)
    show "m \<in> limbo (ps[i := p])"
    proof (cases "j = i")
      case True
      with i j sub show ?thesis by auto
    next
      case False
      then have "ps ! j \<in> set (ps[i := p])" using j(1) by (metis length_list_update nth_list_update_neq nth_mem)
      with j(2) show ?thesis by (auto simp: limbo_def)
    qed
  qed
qed

abbreviation image_in :: "'d disk_ops \<Rightarrow> 'd world \<Rightarrow> image" where
  "image_in io w \<equiv> image_of io (disk (fsys w))"

abbreviation user_of :: "'d world \<Rightarrow> nat \<Rightarrow> string" where
  "user_of w i \<equiv> username (request (workers w ! i))"

lemma conc_invD:
  assumes "conc_inv io w ps t"
  shows "length (workers w) = length ps"
    "i < length ps \<Longrightarrow> worker_ok io (workers w ! i) (ps ! i)"
    "fs_tree io ((fsys w)\<lparr>free_disk_blocks := taken ps @ free_disk_blocks (fsys w)\<rparr>) t"
    "\<lbrakk>i < length ps; j < length ps; i \<noteq> j; (m, k) \<in> set (locks_of (ps ! i)); (m, k') \<in> set (locks_of (ps ! j))\<rbrakk> \<Longrightarrow> compatible k k'"
    "i < length ps \<Longrightarrow> phase_ok (image_in io w) (erasures w) (limbo ps) (user_of w i) (ps ! i)"
proof -
  show "length (workers w) = length ps" using assms by (auto simp: conc_inv_def dest: list_all2_lengthD)
  show "i < length ps \<Longrightarrow> worker_ok io (workers w ! i) (ps ! i)"
    using assms by (simp add: conc_inv_def list_all2_conv_all_nth)
  show "fs_tree io ((fsys w)\<lparr>free_disk_blocks := taken ps @ free_disk_blocks (fsys w)\<rparr>) t" using assms by (simp add: conc_inv_def)
  have "exclusive ps" using assms by (simp add: conc_inv_def)
  then show "\<lbrakk>i < length ps; j < length ps; i \<noteq> j; (m, k) \<in> set (locks_of (ps ! i)); (m, k') \<in> set (locks_of (ps ! j))\<rbrakk> \<Longrightarrow> compatible k k'"
    unfolding exclusive_def by blast
  show "i < length ps \<Longrightarrow> phase_ok (image_in io w) (erasures w) (limbo ps) (user_of w i) (ps ! i)" using assms by (simp add: conc_inv_def)
qed

lemma conc_inv_tree:
  assumes "conc_inv io w ps t"
  shows "rep (image_in io w) t" "root t = 0" "distinct (blocks_of (image_in io w) t)"
    "b \<in> set (blocks_of (image_in io w) t) \<Longrightarrow> b < FS_DISKSIZE"
    "b \<in> set (taken ps) \<union> set (free_disk_blocks (fsys w)) \<Longrightarrow> b < FS_DISKSIZE \<and> b \<noteq> 0 \<and> b \<notin> set (blocks_of (image_in io w) t)"
    "set (taken ps) \<inter> set (free_disk_blocks (fsys w)) = {}" "distinct (taken ps)" "distinct (free_disk_blocks (fsys w))"
    "\<lbrakk>i < length ps; j < length ps; i \<noteq> j\<rbrakk> \<Longrightarrow> set (owned (ps ! i)) \<inter> set (owned (ps ! j)) = {}"
proof -
  note t = conc_invD(3) [OF assms] and b = fs_tree_blocks [OF conc_invD(3) [OF assms]]
  show "rep (image_in io w) t" "root t = 0" using t by (simp_all add: fs_tree_def)
  show "distinct (blocks_of (image_in io w) t)" using b(1) by simp
  show "b \<in> set (blocks_of (image_in io w) t) \<Longrightarrow> b < FS_DISKSIZE" using b(4) by simp
  show "b \<in> set (taken ps) \<union> set (free_disk_blocks (fsys w)) \<Longrightarrow> b < FS_DISKSIZE \<and> b \<noteq> 0 \<and> b \<notin> set (blocks_of (image_in io w) t)"
    using b(3,5) by auto
  show "set (taken ps) \<inter> set (free_disk_blocks (fsys w)) = {}" "distinct (taken ps)" "distinct (free_disk_blocks (fsys w))"
    using b(2) by auto
  then show "\<lbrakk>i < length ps; j < length ps; i \<noteq> j\<rbrakk> \<Longrightarrow> set (owned (ps ! i)) \<inter> set (owned (ps ! j)) = {}"
    using disjoint_concat_nth [of "map owned ps" i j] by (simp add: taken_def)
qed

text \<open>One thread has moved: what has to be shown.\<close>

lemma conc_inv_move:
  assumes inv: "conc_inv io w ps t" and i: "i < length ps"
    and wk: "worker_ok io wk p" "request wk = request (workers w ! i)"
    and tree: "fs_tree io (s\<lparr>free_disk_blocks := taken (ps[i := p]) @ free_disk_blocks s\<rparr>) t'"
    and own: "phase_ok (image_of io (disk s)) g (limbo (ps[i := p])) (user_of w i) p"
    and lk: "\<And>j m k k'. j < length ps \<Longrightarrow> j \<noteq> i \<Longrightarrow> (m, k) \<in> set (locks_of p) \<Longrightarrow> (m, k') \<in> set (locks_of (ps ! j)) \<Longrightarrow> compatible k k'"
    and oth: "\<And>j. j < length ps \<Longrightarrow> j \<noteq> i \<Longrightarrow> phase_ok (image_of io (disk s)) g (limbo (ps[i := p])) (user_of w j) (ps ! j)"
  shows "conc_inv io (w\<lparr>fsys := s, erasures := g, workers := (workers w)[i := wk]\<rparr>) (ps[i := p]) t'"
proof -
  note len = conc_invD(1) [OF inv]
  have "list_all2 (worker_ok io) ((workers w)[i := wk]) (ps[i := p])"
    using inv wk(1) by (auto simp: conc_inv_def intro: list_all2_update_cong)
  moreover have "exclusive (ps[i := p])"
    using conc_invD(4) [OF inv] lk compatible_sym i unfolding exclusive_def by (auto simp: nth_list_update) blast+
  ultimately show ?thesis using tree own oth wk(2) i len by (auto simp: conc_inv_def nth_list_update)
qed

section \<open>Actions on locks and the free list\<close>

lemma quiet_move:
  assumes inv: "conc_inv io w ps t" and i: "i < length ps"
    and wk: "worker_ok io wk p" "request wk = request (workers w ! i)"
    and own: "mset (owned p) + mset free = mset (owned (ps ! i)) + mset (free_disk_blocks (fsys w))"
    and lim: "limbos (ps ! i) \<subseteq> limbos p"
    and ok: "phase_ok (image_in io w) (erasures w) (limbo ps) (user_of w i) p"
    and lk: "set (locks_of p) \<subseteq> set (locks_of (ps ! i)) \<or> (\<forall>j m k k'. j < length ps \<longrightarrow> j \<noteq> i \<longrightarrow> (m, k) \<in> set (locks_of p) \<longrightarrow>
      (m, k') \<in> set (locks_of (ps ! j)) \<longrightarrow> compatible k k')"
  shows "conc_inv io (w\<lparr>fsys := (fsys w)\<lparr>free_disk_blocks := free\<rparr>, erasures := erasures w, workers := (workers w)[i := wk]\<rparr>) (ps[i := p]) t"
proof (rule conc_inv_move [OF inv i wk])
  note L = limbo_update(3) [OF i lim]
  have "mset (taken (ps[i := p])) + mset free + mset (owned (ps ! i))
      = mset (taken ps) + mset (free_disk_blocks (fsys w)) + mset (owned (ps ! i))"
    using taken_update [OF i, of p] own by (metis (no_types, lifting) add.assoc add.commute)
  then show "fs_tree io ((fsys w)\<lparr>free_disk_blocks := free, free_disk_blocks := taken (ps[i := p]) @ free_disk_blocks ((fsys w)\<lparr>free_disk_blocks := free\<rparr>)\<rparr>) t"
    by (intro fs_tree_perm [OF conc_invD(3) [OF inv]]) simp_all
  show "phase_ok (image_of io (disk ((fsys w)\<lparr>free_disk_blocks := free\<rparr>))) (erasures w) (limbo (ps[i := p])) (user_of w i) p"
    using phase_ok_mono [OF ok L] by simp
  show "compatible k k'" if "j < length ps" "j \<noteq> i" "(m, k) \<in> set (locks_of p)" "(m, k') \<in> set (locks_of (ps ! j))" for j m k k'
    using lk that conc_invD(4) [OF inv i] by blast
  show "phase_ok (image_of io (disk ((fsys w)\<lparr>free_disk_blocks := free\<rparr>))) (erasures w) (limbo (ps[i := p])) (user_of w j) (ps ! j)"
    if "j < length ps" "j \<noteq> i" for j
    using phase_ok_mono [OF conc_invD(5) [OF inv that(1)] L] by simp
qed

section \<open>Writes to own blocks\<close>

text \<open>The blocks that a thread reads after its request has taken effect are in the tree or in limbo.\<close>

lemma reads_from_blocks:
  assumes inv: "conc_inv io w ps t" and "agree D (image_in io w) (fst m)" "current (erasures w) m"
    and at: "(\<exists>q. walk (child (image_in io w)) 0 q = Some (fst m)) \<or> m \<in> limbo ps"
  shows "set (node_blocks D (fst m)) \<subseteq> set (blocks_of (image_in io w) t)
    \<or> (\<exists>j < length ps. limbos (ps ! j) = {m} \<and> set (node_blocks D (fst m)) \<subseteq> set (owned (ps ! j)))"
proof -
  have used: "node_blocks D (fst m) = node_blocks (image_in io w) (fst m)" using agree_used [OF assms(2)] by simp
  show ?thesis using at
  proof
    assume "\<exists>q. walk (child (image_in io w)) 0 q = Some (fst m)"
    then show ?thesis using outside_tree(5) [OF conc_inv_tree(1,2) [OF inv]] used by metis
  next
    assume "m \<in> limbo ps"
    then obtain j where j: "j < length ps" "m \<in> limbos (ps ! j)" by (auto simp: limbo_def in_set_conv_nth)
    then obtain pm h D' own where l: "ps ! j = Limbo pm m h D' own" by (cases "ps ! j") auto
    then have "agree D' (image_in io w) (fst m)" using conc_invD(5) [OF inv j(1)] by simp
    then have "used_blocks D (fst m) = used_blocks D' (fst m)" using agree_used used by (metis list.inject)
    with j l show ?thesis by auto
  qed
qed

lemma own_write:
  assumes inv: "conc_inv io w ps t" and i: "i < length ps" and at: "ps ! i = At q m h D own ptr"
    and wk: "worker_ok io wk (At q m h (D(b := bytes)) own ptr)" "request wk = request (workers w ! i)"
    and b: "b \<in> set own" and d: "image_of io d = (image_in io w)(b := bytes)"
  defines "w' \<equiv> w\<lparr>fsys := (fsys w)\<lparr>disk := d\<rparr>, erasures := erasures w, workers := (workers w)[i := wk]\<rparr>"
  shows "conc_inv io w' (ps[i := At q m h (D(b := bytes)) own ptr]) t" "fs_view (image_in io w') = fs_view (image_in io w)"
proof -
  let ?I = "image_in io w" and ?p = "At q m h (D(b := bytes)) own ptr"
  note tr = conc_inv_tree [OF inv]
  have out: "b \<notin> set (blocks_of ?I t)" using tr(5) [of b] owned_taken [OF i] b at by auto
  then have same: "\<And>x. x \<in> set (blocks_of ?I t) \<Longrightarrow> (?I(b := bytes)) x = ?I x" by auto
  note o = outside_tree [OF tr(1,2), of "?I(b := bytes)", OF same]
  show "fs_view (image_in io w') = fs_view ?I" using o(2) by (simp add: w'_def d)
  have L: "limbo (ps[i := ?p]) = limbo ps"
    using limbo_update [OF i, of ?p] at by auto
  have tk: "mset (taken (ps[i := ?p])) = mset (taken ps)" using taken_update [OF i, of ?p] at by simp
  have pl: "placed ?I (erasures w) u q' m' h' D' \<Longrightarrow> placed (?I(b := bytes)) (erasures w) u q' m' h' D'" for u q' m' h' D'
    using o(1,2) o(5) [of q' "fst m'"] agree_upd [of D' ?I "fst m'" b] agree_used [of D' ?I "fst m'"] out
    by (auto simp: placed_def)
  show "conc_inv io w' (ps[i := ?p]) t" unfolding w'_def
  proof (rule conc_inv_move [OF inv i wk])
    show "fs_tree io ((fsys w)\<lparr>disk := d, free_disk_blocks := taken (ps[i := ?p]) @ free_disk_blocks ((fsys w)\<lparr>disk := d\<rparr>)\<rparr>) t"
      using conc_invD(3) [OF inv] o(3,4) tk by (simp add: fs_tree_def d)
    have ok: "phase_ok ?I (erasures w) (limbo ps) (user_of w i) (At q m h D own ptr)" using conc_invD(5) [OF inv i] at by simp
    then have "placed (?I(b := bytes)) (erasures w) (user_of w i) q m h D" by (auto intro: pl)
    moreover have nb: "b \<notin> set (node_blocks D (fst m))"
      using ok out o(5) [of q "fst m"] agree_used [of D ?I "fst m"] by (auto simp: placed_def)
    ultimately have "placed (?I(b := bytes)) (erasures w) (user_of w i) q m h (D(b := bytes))"
      using agree_node(1) [OF agree_upd [OF agree_refl nb]] used_blocks_cong [of "D(b := bytes)" "fst m" D]
      by (auto simp: placed_def agree_def firm_def)
    moreover have "child (D(b := bytes)) (fst m) = child D (fst m)" using agree_node(1) [OF agree_upd [OF agree_refl nb]] .
    ultimately show "phase_ok (image_of io (disk ((fsys w)\<lparr>disk := d\<rparr>))) (erasures w) (limbo (ps[i := ?p])) (user_of w i) ?p"
      using ok by (auto simp: d)
    show "compatible k k'" if "j < length ps" "j \<noteq> i" "(m', k) \<in> set (locks_of ?p)" "(m', k') \<in> set (locks_of (ps ! j))" for j m' k k'
      using conc_invD(4) [OF inv i that(1), of m' k k'] that at by simp
    show "phase_ok (image_of io (disk ((fsys w)\<lparr>disk := d\<rparr>))) (erasures w) (limbo (ps[i := ?p])) (user_of w j) (ps ! j)"
      if j: "j < length ps" "j \<noteq> i" for j
    proof (rule phase_ok_frame [OF conc_invD(5) [OF inv j(1)]])
      show "image_of io (disk ((fsys w)\<lparr>disk := d\<rparr>)) x = ?I x" if "x \<in> set (owned (ps ! j))" for x
        using tr(9) [OF i j(1)] j(2) b at that by (auto simp: d)
      show "agree D' (image_of io (disk ((fsys w)\<lparr>disk := d\<rparr>))) (fst m')
          \<and> ((\<exists>q. walk (child (image_of io (disk ((fsys w)\<lparr>disk := d\<rparr>)))) 0 q = Some (fst m')) \<or> m' \<in> limbo (ps[i := ?p]))"
        if c: "current (erasures w) m'" "agree D' ?I (fst m')" "(\<exists>q. walk (child ?I) 0 q = Some (fst m')) \<or> m' \<in> limbo ps" for m' D'
      proof -
        have "b \<notin> set (node_blocks D' (fst m'))"
          using reads_from_blocks [OF inv c(2,1,3)]
        proof
          assume "\<exists>k < length ps. limbos (ps ! k) = {m'} \<and> set (node_blocks D' (fst m')) \<subseteq> set (owned (ps ! k))"
          then obtain k where k: "k < length ps" "limbos (ps ! k) = {m'}" "set (node_blocks D' (fst m')) \<subseteq> set (owned (ps ! k))" by blast
          then have "k \<noteq> i" using at by auto
          with tr(9) [OF i k(1)] k(3) b at show ?thesis by auto
        qed (use out in auto)
        with agree_upd [OF c(2)] c(3) o(1) L show ?thesis by (simp add: d)
      qed
    qed (use pl in \<open>simp_all add: d\<close>)
  qed
qed

section \<open>Writes that change the tree\<close>

lemma places_locks: "(q, m, h, D) \<in> places ph \<Longrightarrow> (m, h) \<in> set (locks_of ph)"
  by (cases ph) auto

lemma reads_from_locks: "(m, D) \<in> reads_from ph \<Longrightarrow> \<exists>h. (m, h) \<in> set (locks_of ph)"
proof (cases ph)
  case (Gone res cs)
  assume "(m, D) \<in> reads_from ph"
  with Gone obtain h where h: "(m, h, Some D) \<in> set cs" by auto
  have "(m, h) \<in> (\<lambda>(m, k, _). (m, k)) ` set cs" using imageI [OF h, of "\<lambda>(m, k, _). (m, k)"] by simp
  then show ?thesis unfolding Gone locks_of.simps set_map by blast
qed auto

lemma walk_disjoint:
  assumes "rep I t" "root t = 0" "distinct (blocks_of I t)" "walk (child I) 0 q = Some b" "walk (child I) 0 q' = Some c" "c \<noteq> b"
  shows "set (node_blocks I c) \<inter> set (node_blocks I b) = {}"
proof -
  obtain m n where "m \<in> set (nodes t)" "root m = c" "n \<in> set (nodes t)" "root n = b"
    using walk_nodes [OF assms(1)] assms(2,4,5) by metis
  with nodes_disjoint [OF assms(3)] assms(6) show ?thesis by metis
qed

text \<open>
  Thread \<open>i\<close> holds the node uniquely whose block or entry it writes; \<open>X\<close> is the node it removes from the
  tree, if any, which it has locked too and which is not firm.
\<close>

lemma tree_write_others:
  assumes inv: "conc_inv io w ps t" and i: "i < length ps" and j: "j < length ps" "j \<noteq> i"
    and m: "(m, Holds_unique) \<in> set (locks_of (ps ! i))" "current (erasures w) m" "walk (child (image_in io w)) 0 q = Some (fst m)"
    and wb: "wb \<in> set (node_blocks (image_in io w) (fst m))" and I': "I' = (image_in io w)(wb := bytes)"
    and sp: "spec_request (fs_view (image_in io w)) r = (res, fs_view I')"
    and keep: "\<And>q' c. walk (child (image_in io w)) 0 q' = Some c \<Longrightarrow> c \<notin> X \<Longrightarrow> walk (child I') 0 q' = Some c"
    and X: "\<And>c. c \<in> X \<Longrightarrow> (c, erasures w c) \<in> L' \<and> \<not> firm (image_in io w) c \<and> ((c, erasures w c), Holds_upgradable) \<in> set (locks_of (ps ! i))"
    and L': "limbo ps \<subseteq> L'"
  shows "phase_ok I' (erasures w) L' (user_of w j) (ps ! j)"
proof (rule phase_ok_frame [OF conc_invD(5) [OF inv j(1)]])
  let ?I = "image_in io w" and ?g = "erasures w"
  note tr = conc_inv_tree [OF inv]
  have tree: "wb \<in> set (blocks_of ?I t)" using outside_tree(5) [OF tr(1,2) _ m(3)] wb by blast
  have ne: "fst m' \<noteq> fst m" if "(m', h) \<in> set (locks_of (ps ! j))" "current ?g m'" for m' h
    using conc_invD(4) [OF inv i j(1) _ m(1)] j(2) that m(2) by (metis compatible_unique(1) prod_eqI)
  have ag: "agree D I' (fst m')" if "agree D ?I (fst m')" "walk (child ?I) 0 q' = Some (fst m')" "fst m' \<noteq> fst m" for D m' q'
  proof -
    have "wb \<notin> set (node_blocks ?I (fst m'))" using walk_disjoint [OF tr(1-3) m(3) that(2,3)] wb by blast
    then show ?thesis unfolding I' using agree_upd [OF that(1)] agree_used [OF that(1)] by simp
  qed
  show "I' b = ?I b" if "b \<in> set (owned (ps ! j))" for b
    using tr(5) [of b] owned_taken [OF j(1)] that tree by (auto simp: I')
  show "placed I' ?g (user_of w j) q' m' h D" if pl: "(q', m', h, D) \<in> places (ps ! j)" "placed ?I ?g (user_of w j) q' m' h D" for q' m' h D
  proof -
    note lk = places_locks [OF pl(1)]
    have p: "current ?g m'" "walk (child ?I) 0 q' = Some (fst m')" "agree D ?I (fst m')" "prefix_ok (fs_view ?I) (user_of w j) q'"
      "h = Holds_shared \<Longrightarrow> firm D (fst m')" using pl(2) by (auto simp: placed_def)
    have "fst m' \<notin> X"
    proof
      assume x: "fst m' \<in> X"
      then have "((fst m', ?g (fst m')), Holds_upgradable) \<in> set (locks_of (ps ! i))" using X by blast
      moreover have "(fst m', ?g (fst m')) = m'" using p(1) by (cases m') simp
      ultimately have "h = Holds_shared" using conc_invD(4) [OF inv i j(1) _ _ lk] j(2) by fastforce
      with p(5) X [OF x] agree_firm [OF p(3)] show False by blast
    qed
    then have wl: "walk (child I') 0 q' = Some (fst m')" using keep p(2) by blast
    with p ag [OF p(3,2) ne [OF lk p(1)]] prefix_ok_step [OF sp p(4) wl] show ?thesis by (simp add: placed_def)
  qed
  show "agree D I' (fst m') \<and> ((\<exists>q. walk (child I') 0 q = Some (fst m')) \<or> m' \<in> L')"
    if rd: "(m', D) \<in> reads_from (ps ! j)" and c: "current ?g m'" "agree D ?I (fst m')"
      and at: "(\<exists>q. walk (child ?I) 0 q = Some (fst m')) \<or> m' \<in> limbo ps" for m' D
    using at
  proof
    assume "\<exists>q. walk (child ?I) 0 q = Some (fst m')"
    then obtain q' where q': "walk (child ?I) 0 q' = Some (fst m')" by blast
    obtain h where lk: "(m', h) \<in> set (locks_of (ps ! j))" using reads_from_locks [OF rd] by blast
    have "(fst m', ?g (fst m')) = m'" using c(1) by (cases m') simp
    then show ?thesis using ag [OF c(2) q' ne [OF lk c(1)]] keep [OF q'] X [of "fst m'"] by (cases "fst m' \<in> X") auto
  next
    assume l: "m' \<in> limbo ps"
    then obtain k where k: "k < length ps" "m' \<in> limbos (ps ! k)" by (auto simp: limbo_def in_set_conv_nth)
    then obtain pm h D' own where lb: "ps ! k = Limbo pm m' h D' own" by (cases "ps ! k") auto
    then have "agree D' ?I (fst m')" using conc_invD(5) [OF inv k(1)] by simp
    then have "set (node_blocks D (fst m')) \<subseteq> set (owned (ps ! k))" using agree_used [OF c(2)] agree_used lb by fastforce
    then have "wb \<notin> set (node_blocks D (fst m'))" using owned_taken [OF k(1)] tr(5) [of wb] tree by blast
    with agree_upd [OF c(2)] l L' show ?thesis by (auto simp: I')
  qed
qed simp_all

text \<open>The write that carries out a request on the locked node.\<close>

lemma commit_write:
  assumes inv: "conc_inv io w ps t" and i: "i < length ps" and at: "ps ! i = At q m Holds_unique D own ptr"
    and wk: "worker_ok io wk (Gone res [(m, Holds_unique, None)])" "request wk = request (workers w ! i)"
    and cm: "commits io (request (workers w ! i)) q (fst m) D own wb bytes res" and d: "image_of io d = (image_in io w)(wb := bytes)"
  defines "w' \<equiv> w\<lparr>fsys := (fsys w)\<lparr>disk := d\<rparr>, erasures := erasures w, workers := (workers w)[i := wk]\<rparr>"
  shows "\<exists>t'. conc_inv io w' (ps[i := Gone res [(m, Holds_unique, None)]]) t'"
    "spec_request (fs_view (image_in io w)) (request (workers w ! i)) = (res, fs_view (image_in io w'))"
proof -
  let ?I = "image_in io w" and ?p = "Gone res [(m, Holds_unique, None)]" and ?r = "request (workers w ! i)"
  let ?rest = "taken (ps[i := ?p]) @ free_disk_blocks (fsys w)"
  let ?s = "(fsys w)\<lparr>free_disk_blocks := own @ ?rest\<rparr>"
  note tr = conc_inv_tree [OF inv]
  have ok: "placed ?I (erasures w) (user_of w i) q m Holds_unique D" "\<forall>b \<in> set own. ?I b = D b"
    using conc_invD(5) [OF inv i] at by simp_all
  have tk: "mset (taken (ps[i := ?p])) + mset own = mset (taken ps)" using taken_update [OF i, of ?p] at by simp
  have "fs_tree io ?s t"
    by (rule fs_tree_perm [OF conc_invD(3) [OF inv]]) (use tk in \<open>simp_all add: union_commute union_lcomm\<close>)
  then have loc: "located io (user_of w i) q (fst m) D own ?rest ?s t" using ok by (simp add: located_def placed_def)
  note c = cm [unfolded commits_def]
  obtain t' where t': "fs_tree io \<lparr>disk = d, free_disk_blocks = ?rest\<rparr> t'" and sp: "spec_request (fs_view ?I) ?r = (res, fs_view (image_of io d))"
    and ch: "child ?I (fst m) \<subseteq>\<^sub>m child (image_of io d) (fst m)"
    using c [THEN conjunct2, THEN conjunct2, rule_format, OF loc, of d] d by auto
  show "spec_request (fs_view ?I) ?r = (res, fs_view (image_in io w'))" using sp by (simp add: w'_def)
  have mm: "current (erasures w) m" "walk (child ?I) 0 q = Some (fst m)" "agree D ?I (fst m)" using ok by (simp_all add: placed_def)
  have wb: "wb \<in> set (node_blocks ?I (fst m))" using c agree_used [OF mm(3)] by auto
  have keep: "walk (child (image_of io d)) 0 q' = Some c" if "walk (child ?I) 0 q' = Some c" for q' c
  proof (rule walk_grow [OF _ that])
    fix q'' c' assume c': "walk (child ?I) 0 q'' = Some c'"
    show "child ?I c' \<subseteq>\<^sub>m child (image_of io d) c'"
    proof (cases "c' = fst m")
      case False
      then have "wb \<notin> set (node_blocks ?I c')" using walk_disjoint [OF tr(1-3) mm(2) c'] wb by blast
      then show ?thesis using agree_node(1) [OF agree_upd [OF agree_refl]] by (simp add: d)
    qed (use ch in simp)
  qed
  have L: "limbo ps \<subseteq> limbo (ps[i := ?p])" using limbo_update(3) [OF i] at by simp
  have "conc_inv io w' (ps[i := ?p]) t'" unfolding w'_def
  proof (rule conc_inv_move [OF inv i wk])
    show "fs_tree io ((fsys w)\<lparr>disk := d, free_disk_blocks := taken (ps[i := ?p]) @ free_disk_blocks ((fsys w)\<lparr>disk := d\<rparr>)\<rparr>) t'"
      using t' by (simp add: fs_tree_def)
    show "phase_ok (image_of io (disk ((fsys w)\<lparr>disk := d\<rparr>))) (erasures w) (limbo (ps[i := ?p])) (user_of w i) ?p" using mm(1) by simp
    show "compatible k k'" if "j < length ps" "j \<noteq> i" "(m', k) \<in> set (locks_of ?p)" "(m', k') \<in> set (locks_of (ps ! j))" for j m' k k'
      using conc_invD(4) [OF inv i that(1), of m' k k'] that at by simp
    show "phase_ok (image_of io (disk ((fsys w)\<lparr>disk := d\<rparr>))) (erasures w) (limbo (ps[i := ?p])) (user_of w j) (ps ! j)"
      if "j < length ps" "j \<noteq> i" for j
      using tree_write_others [OF inv i that _ mm(1,2) wb d sp, where X = "{}"] keep L at by simp
  qed
  then show "\<exists>t'. conc_inv io w' (ps[i := ?p]) t'" by blast
qed

text \<open>The write that unlinks a node from its parent.\<close>

lemma unlink_write:
  assumes inv: "conc_inv io w ps t" and i: "i < length ps" and at: "ps ! i = Two q m Holds_unique D x m' Holds_upgradable D'"
    and wk: "worker_ok io wk (Limbo (Some m) m' Holds_upgradable D' extra)" "request wk = request (workers w ! i)"
    and ul: "unlinks io (request (workers w ! i)) q (fst m) D x (fst m') D' wb bytes extra" and d: "image_of io d = (image_in io w)(wb := bytes)"
  defines "w' \<equiv> w\<lparr>fsys := (fsys w)\<lparr>disk := d\<rparr>, erasures := erasures w, workers := (workers w)[i := wk]\<rparr>"
  shows "\<exists>t'. conc_inv io w' (ps[i := Limbo (Some m) m' Holds_upgradable D' extra]) t'"
    "spec_request (fs_view (image_in io w)) (request (workers w ! i)) = (Done, fs_view (image_in io w'))"
proof -
  let ?I = "image_in io w" and ?p = "Limbo (Some m) m' Holds_upgradable D' extra" and ?r = "request (workers w ! i)"
  let ?own = "extra @ used_blocks D' (fst m') @ [fst m']"
  let ?rest = "taken ps @ free_disk_blocks (fsys w)" and ?s = "(fsys w)\<lparr>free_disk_blocks := taken ps @ free_disk_blocks (fsys w)\<rparr>"
  note tr = conc_inv_tree [OF inv]
  have ok: "placed ?I (erasures w) (user_of w i) q m Holds_unique D" "placed ?I (erasures w) (user_of w i) (q @ [x]) m' Holds_upgradable D'"
    using conc_invD(5) [OF inv i] at by simp_all
  have loc: "located io (user_of w i) q (fst m) D [] ?rest ?s t" "located io (user_of w i) (q @ [x]) (fst m') D' [] ?rest ?s t"
    using ok conc_invD(3) [OF inv] by (simp_all add: located_def placed_def)
  note c = ul [unfolded unlinks_def]
  obtain t' where t': "fs_tree io \<lparr>disk = d, free_disk_blocks = ?own @ ?rest\<rparr> t'" and sp: "spec_request (fs_view ?I) ?r = (Done, fs_view (image_of io d))"
    and ch: "child (image_of io d) (fst m) = (child ?I (fst m))(x := None)"
    using c [THEN conjunct2, THEN conjunct2, THEN conjunct2, rule_format, OF loc, of d] d by auto
  show "spec_request (fs_view ?I) ?r = (Done, fs_view (image_in io w'))" using sp by (simp add: w'_def)
  have mm: "current (erasures w) m" "walk (child ?I) 0 q = Some (fst m)" "agree D ?I (fst m)"
    "current (erasures w) m'" "walk (child ?I) 0 (q @ [x]) = Some (fst m')" "agree D' ?I (fst m')" using ok by (simp_all add: placed_def)
  have wb: "wb \<in> set (node_blocks ?I (fst m))" using c agree_used [OF mm(3)] by auto
  have uq: "unique_paths (child ?I) 0"
    unfolding unique_paths_def using walk_unique [OF tr(1,3)] tr(2) by metis
  have nf: "\<not> firm ?I (fst m')" using c agree_firm [OF mm(6)] by simp
  have ne: "fst m \<noteq> fst m'"
  proof
    assume "fst m = fst m'"
    with mm(2,5) uq have "q = q @ [x]" unfolding unique_paths_def by metis
    then show False by simp
  qed
  have sub: "child (image_of io d) c' = child ?I c'" if "walk (child ?I) 0 q' = Some c'" "c' \<noteq> fst m" for q' c'
  proof -
    have "wb \<notin> set (node_blocks ?I c')" using walk_disjoint [OF tr(1-3) mm(2) that] wb by blast
    then show ?thesis using agree_node(1) [OF agree_upd [OF agree_refl]] by (simp add: d)
  qed
  have chx: "child ?I (fst m) x = Some (fst m')" using mm(2,5) by (simp add: walk_snoc)
  have leaf: "child ?I (fst m') = Map.empty" using nf by (auto simp: firm_def)
  have wr: "walk (child (image_of io d)) 0 q' = (if q' = q @ [x] then None else walk (child ?I) 0 q')" for q'
    by (rule walk_remove [OF uq mm(2) chx leaf sub ch])
  have keep: "walk (child (image_of io d)) 0 q' = Some c'" if "walk (child ?I) 0 q' = Some c'" "c' \<notin> {fst m'}" for q' c'
    using wr [of q'] that mm(5) by auto
  have p: "(m', Holds_upgradable) = ((fst m', erasures w (fst m')), Holds_upgradable)" using mm(4) by (cases m') simp
  have L: "limbo ps \<subseteq> limbo (ps[i := ?p])" "m' \<in> limbo (ps[i := ?p])"
    using limbo_update(3) [OF i, of ?p] limbo_update(2) [OF i, of ?p] at by auto
  have tk: "mset (taken (ps[i := ?p])) = mset (taken ps) + mset ?own" using taken_update [OF i, of ?p] at by simp
  have "conc_inv io w' (ps[i := ?p]) t'" unfolding w'_def
  proof (rule conc_inv_move [OF inv i wk])
    show "fs_tree io ((fsys w)\<lparr>disk := d, free_disk_blocks := taken (ps[i := ?p]) @ free_disk_blocks ((fsys w)\<lparr>disk := d\<rparr>)\<rparr>) t'"
      by (rule fs_tree_perm [OF t']) (use tk in \<open>simp_all add: union_commute union_lcomm\<close>)
    have "wb \<notin> set (node_blocks ?I (fst m'))" using walk_disjoint [OF tr(1-3) mm(2,5) ne [symmetric]] wb by blast
    then have "agree D' (image_of io d) (fst m')" using agree_upd [OF mm(6)] agree_used [OF mm(6)] by (simp add: d)
    then show "phase_ok (image_of io (disk ((fsys w)\<lparr>disk := d\<rparr>))) (erasures w) (limbo (ps[i := ?p])) (user_of w i) ?p"
      using mm ne by auto
    show "compatible k k'" if "j < length ps" "j \<noteq> i" "(n, k) \<in> set (locks_of ?p)" "(n, k') \<in> set (locks_of (ps ! j))" for j n k k'
      using conc_invD(4) [OF inv i that(1), of n k k'] that at by auto
    show "phase_ok (image_of io (disk ((fsys w)\<lparr>disk := d\<rparr>))) (erasures w) (limbo (ps[i := ?p])) (user_of w j) (ps ! j)"
      if "j < length ps" "j \<noteq> i" for j
      using tree_write_others [OF inv i that _ mm(1,2) wb d sp keep, where L' = "limbo (ps[i := ?p])"] L at nf p mm(4) by (cases m') auto
  qed
  then show "\<exists>t'. conc_inv io w' (ps[i := ?p]) t'" by blast
qed

end
