(* ===== verification/Fs_Simulation.thy ===== *)
theory Fs_Simulation
  imports Fs_Interference
begin

text \<open>
  Every action of a thread that keeps to the protocol keeps the invariant, and either changes nothing that users
  see or carries out the thread's request at once, as the specification says.
\<close>

section \<open>Erasing a mutex\<close>

lemma mutexes_cases:
  assumes "m \<in> mutexes ph"
  obtains h where "(m, h) \<in> set (locks_of ph)" | q n h D own x where "ph = At q n h D own (Some (x, m))"
proof (cases ph)
  case (At q n h D own p)
  with assms that show thesis by (auto split: option.splits)
qed (use assms that(1) in \<open>force simp del: locks_of.simps\<close>)+

lemma erase_move:
  assumes inv: "conc_inv io w ps t" and i: "i < length ps" and lb: "ps ! i = Limbo None m Holds_unique D []"
    and wk: "worker_ok io wk (Erased m (used_blocks D (fst m) @ [fst m]))" "request wk = request (workers w ! i)"
  shows "conc_inv io (w\<lparr>fsys := fsys w, erasures := (erasures w)(fst m := Suc (erasures w (fst m))), workers := (workers w)[i := wk]\<rparr>)
    (ps[i := Erased m (used_blocks D (fst m) @ [fst m])]) t"
proof (rule conc_inv_move [OF inv i wk])
  let ?p = "Erased m (used_blocks D (fst m) @ [fst m])" and ?I = "image_in io w" and ?g = "erasures w"
  let ?g' = "?g(fst m := Suc (?g (fst m)))"
  note tr = conc_inv_tree [OF inv]
  have cur: "current ?g m" using conc_invD(5) [OF inv i] lb by simp
  have out: "fst m \<notin> set (blocks_of ?I t)" "fst m \<noteq> 0"
    using tr(5) [of "fst m"] owned_taken [OF i] lb by auto
  have "mset (taken (ps[i := ?p])) = mset (taken ps)" using taken_update [OF i, of ?p] lb by simp
  then show "fs_tree io ((fsys w)\<lparr>free_disk_blocks := taken (ps[i := ?p]) @ free_disk_blocks (fsys w)\<rparr>) t"
    by (intro fs_tree_perm [OF conc_invD(3) [OF inv]]) simp_all
  show "compatible k k'" if "j < length ps" "j \<noteq> i" "(m', k) \<in> set (locks_of ?p)" "(m', k') \<in> set (locks_of (ps ! j))" for j m' k k'
    using conc_invD(4) [OF inv i that(1), of m' k k'] that lb by simp
  fix j assume j: "j < length ps" "j \<noteq> i"
  have ne: "fst m' \<noteq> fst m" if "(m', h) \<in> set (locks_of (ps ! j))" "current ?g m'" for m' h
    using conc_invD(4) [OF inv i j(1), of m Holds_unique h] j(2) that cur lb by (cases m; cases m') auto
  have pl: "walk (child ?I) 0 q = Some b \<Longrightarrow> b \<noteq> fst m" for q b
    using outside_tree(5) [OF tr(1,2), of ?I q b] out(1) by auto
  have mx: "fst m' \<noteq> fst m" if "m' \<in> mutexes (ps ! j)" "current ?g m'" for m'
    using that(1)
  proof (cases rule: mutexes_cases)
    case (1 h)
    then show ?thesis using ne that(2) by blast
  next
    case at: (2 q n h D' own x)
    with conc_invD(5) [OF inv j(1)] have "walk (child ?I) 0 q = Some (fst n)" "agree D' ?I (fst n)" "child D' (fst n) x = Some (fst m')"
      by (simp_all add: placed_def del: split_paired_All)
    then have "walk (child ?I) 0 (q @ [x]) = Some (fst m')" using agree_node(1) by (fastforce simp: walk_snoc)
    then show ?thesis by (rule pl)
  qed
  have lim: "limbo ps - {m} \<subseteq> limbo (ps[i := ?p])"
  proof
    fix m' assume "m' \<in> limbo ps - {m}"
    then obtain k where k: "k < length ps" "m' \<in> limbos (ps ! k)" "m' \<noteq> m" by (auto simp: limbo_def in_set_conv_nth)
    then have "k \<noteq> i" using lb by auto
    with k(1) have "ps ! k \<in> set (ps[i := ?p])" by (metis length_list_update nth_list_update_neq nth_mem)
    with k(2) show "m' \<in> limbo (ps[i := ?p])" by (auto simp: limbo_def)
  qed
  show "phase_ok (image_of io (disk (fsys w))) ?g' (limbo (ps[i := ?p])) (user_of w j) (ps ! j)"
  proof (rule phase_ok_frame [OF conc_invD(5) [OF inv j(1)]])
    show "current ?g' m'" if "m' \<in> mutexes (ps ! j)" "current ?g m'" for m' using mx [OF that] that(2) by simp
    show "placed ?I ?g' (user_of w j) q m' h D'" if "(q, m', h, D') \<in> places (ps ! j)" "placed ?I ?g (user_of w j) q m' h D'" for q m' h D'
      using ne [OF places_locks [OF that(1)]] that(2) by (simp add: placed_def)
    show "agree D' ?I (fst m') \<and> ((\<exists>q. walk (child ?I) 0 q = Some (fst m')) \<or> m' \<in> limbo (ps[i := ?p]))"
      if rd: "(m', D') \<in> reads_from (ps ! j)" and c: "current ?g m'" "agree D' ?I (fst m')"
        "(\<exists>q. walk (child ?I) 0 q = Some (fst m')) \<or> m' \<in> limbo ps" for m' D'
    proof -
      obtain h where "(m', h) \<in> set (locks_of (ps ! j))" using reads_from_locks [OF rd] by blast
      then have "m' \<noteq> m" using ne c(1) by blast
      with c lim show ?thesis by auto
    qed
  qed (use out(2) in auto)
qed simp

section \<open>Taking effect\<close>

text \<open>
  Space is short for a request: no block is free, or its directory has the largest size.
\<close>

definition no_room :: "'d disk_ops \<Rightarrow> 'd world \<Rightarrow> Request \<Rightarrow> bool" where
  "no_room io w r \<longleftrightarrow> (is_FS_CREATE r \<or> is_FS_WRITEBLOCK r) \<and> free_disk_blocks (fsys w) = []
     \<or> is_FS_CREATE r \<and> (\<exists>b. walk (child (image_in io w)) 0 (butlast (path r)) = Some b
         \<and> isize (inode_at (image_in io w) b) = FS_MAXFILEBLOCKS)"

text \<open>
  The view goes from \<open>v\<close> to \<open>v'\<close> and the result of request \<open>r\<close> from \<open>e\<close> to \<open>e'\<close>: nothing happens, or the
  request is carried out, or it is refused for lack of space.
\<close>

definition takes_effect :: "'d disk_ops \<Rightarrow> 'd world \<Rightarrow> Request \<Rightarrow> view \<Rightarrow> view \<Rightarrow> out option \<Rightarrow> out option \<Rightarrow> bool" where
  "takes_effect io w r v v' e e' \<longleftrightarrow> v' = v \<and> e' = e
     \<or> e = None \<and> (\<exists>res. e' = Some res \<and> (spec_request v r = (res, v') \<or> res = Error \<and> v' = v \<and> no_room io w r))"

lemma decided_effect:
  assumes inv: "conc_inv io w ps t" and pl: "placed (image_in io w) g (username r) q m h D" and dec: "decided io r q (fst m) D res"
  shows "takes_effect io w r (fs_view (image_in io w)) (fs_view (image_in io w)) None (Some res)"
proof -
  have "located io (username r) q (fst m) D [] (taken ps @ free_disk_blocks (fsys w)) ((fsys w)\<lparr>free_disk_blocks := taken ps @ free_disk_blocks (fsys w)\<rparr>) t"
    using conc_invD(3) [OF inv] pl by (simp add: located_def placed_def)
  moreover have "inode_at D (fst m) = inode_at (image_in io w) (fst m)" "walk (child (image_in io w)) 0 q = Some (fst m)"
    using pl by (simp_all add: placed_def agree_def)
  ultimately show ?thesis using dec unfolding decided_def takes_effect_def no_room_def by fastforce
qed

lemma settled_effect:
  assumes "conc_inv io w ps t" "settled io r (free_disk_blocks (fsys w)) res"
  shows "takes_effect io w r (fs_view (image_in io w)) (fs_view (image_in io w)) None (Some res)"
  using conc_invD(3) [OF assms(1)] assms(2) unfolding settled_def takes_effect_def no_room_def refusable_def by fastforce

section \<open>The steps of a thread\<close>

lemma locks_held: "worker_ok io wk p \<Longrightarrow> held (activity wk) = locks_of p"
  by (auto simp: worker_ok.simps split: activity.splits)

lemma others_locks:
  assumes inv: "conc_inv io w ps t" and j: "j < length ps" "j \<noteq> i" "x \<in> set (locks_of (ps ! j))"
  shows "x \<in> set (others (workers w) i)"
  using conc_invD(1,2) [OF inv] j locks_held unfolding set_others by fastforce

lemma worker_running: "worker_ok io (wk\<lparr>activity := Running p h\<rparr>) ph \<longleftrightarrow> h = locks_of ph \<and> conform io (request wk) p ph"
  by (simp add: worker_ok.simps)

text \<open>Thread \<open>i\<close> goes on in state \<open>s\<close> with activity \<open>a\<close>.\<close>

definition moves_on :: "'d disk_ops \<Rightarrow> 'd world \<Rightarrow> phase list \<Rightarrow> nat \<Rightarrow> 'd fs_state \<Rightarrow> (nat \<Rightarrow> nat) \<Rightarrow> activity \<Rightarrow> bool" where
  "moves_on io w ps i s g a \<longleftrightarrow> (\<exists>p t'.
     conc_inv io (w\<lparr>fsys := s, erasures := g, workers := (workers w)[i := (workers w ! i)\<lparr>activity := a\<rparr>]\<rparr>) (ps[i := p]) t'
     \<and> takes_effect io w (request (workers w ! i)) (fs_view (image_in io w)) (fs_view (image_of io (disk s))) (effect (ps ! i)) (effect p))"

lemma quiet_moves_on:
  assumes inv: "conc_inv io w ps t" and i: "i < length ps" and cf: "conform io (request (workers w ! i)) p ph" "h = locks_of ph"
    and own: "mset (owned ph) + mset fl = mset (owned (ps ! i)) + mset (free_disk_blocks (fsys w))"
    and lim: "limbos (ps ! i) \<subseteq> limbos ph"
    and ok: "phase_ok (image_in io w) (erasures w) (limbo ps) (user_of w i) ph"
    and lk: "set (locks_of ph) \<subseteq> set (locks_of (ps ! i)) \<or> (\<forall>j m k k'. j < length ps \<longrightarrow> j \<noteq> i \<longrightarrow> (m, k) \<in> set (locks_of ph) \<longrightarrow>
      (m, k') \<in> set (locks_of (ps ! j)) \<longrightarrow> compatible k k')"
    and ef: "takes_effect io w (request (workers w ! i)) (fs_view (image_in io w)) (fs_view (image_in io w)) (effect (ps ! i)) (effect ph)"
    and s: "s = (fsys w)\<lparr>free_disk_blocks := fl\<rparr>"
  shows "moves_on io w ps i s (erasures w) (Running p h)"
  unfolding moves_on_def s
  using quiet_move [OF inv i _ _ own lim ok lk, of "(workers w ! i)\<lparr>activity := Running p h\<rparr>"] cf ef
  by (intro exI [of _ ph] exI [of _ t]) (simp add: worker_running)

lemma takes_effect_refl [simp]: "takes_effect io w r v v e e"
  by (simp add: takes_effect_def)

lemma same_free: "s = s\<lparr>free_disk_blocks := free_disk_blocks s\<rparr>"
  by simp

lemma placed_apart:
  assumes inv: "conc_inv io w ps t" and "placed (image_in io w) g u q m h D" "placed (image_in io w) g' u' (q @ [x]) m' h' D'"
  shows "m \<noteq> m'"
proof
  assume "m = m'"
  with assms(2,3) walk_unique [OF conc_inv_tree(1,3) [OF inv]] conc_inv_tree(2) [OF inv] have "q = q @ [x]"
    by (metis placed_def)
  then show False by simp
qed

lemma placed_here:
  assumes "conc_inv io w ps t" "walk (child (image_in io w)) 0 q = Some (fst m)" "current (erasures w) m"
    "prefix_ok (fs_view (image_in io w)) u q" "h = Holds_shared \<longrightarrow> firm (image_in io w) (fst m)"
  shows "placed (image_in io w) (erasures w) u q m h (image_in io w)" "node_at io q (fst m) (image_in io w)"
proof -
  show "placed (image_in io w) (erasures w) u q m h (image_in io w)" using assms by (simp add: placed_def agree_refl)
  have "fs_tree io ((fsys w)\<lparr>free_disk_blocks := taken ps @ free_disk_blocks (fsys w)\<rparr>) t" by (rule conc_invD(3) [OF assms(1)])
  then show "node_at io q (fst m) (image_in io w)" using assms(2) unfolding node_at_def by force
qed

lemma move_get:
  assumes inv: "conc_inv io w ps t" and i: "i < length ps" and cf: "conform io (request (workers w ! i)) (Get_Lock b k) (ps ! i)"
  shows "moves_on io w ps i (fsys w) (erasures w) (Running (k (b, erasures w b)) (locks_of (ps ! i)))"
  using cf
proof (cases rule: conform_get_cases)
  case root
  then show ?thesis using conc_invD(5) [OF inv i]
    by (intro quiet_moves_on [OF inv i _ _ _ _ _ _ _ same_free, of _ "Idle (Some (0, erasures w 0))"]) auto
next
  case (child D m x q h)
  then show ?thesis using conc_invD(5) [OF inv i]
    by (intro quiet_moves_on [OF inv i _ _ _ _ _ _ _ same_free, of _ "At q m h D [] (Some (x, b, erasures w b))"]) auto
qed

lemma lock_free_compatible:
  assumes inv: "conc_inv io w ps t" and fr: "lock_free (others (workers w) i) mode m"
    and j: "j < length ps" "j \<noteq> i" "(m, k') \<in> set (locks_of (ps ! j))"
  shows "compatible (hold_of mode) k'"
  using others_locks [OF inv j] fr by (cases mode; cases k') auto

lemma move_lock:
  assumes inv: "conc_inv io w ps t" and i: "i < length ps" and cf: "conform io (request (workers w ! i)) (Lock mode m p) (ps ! i)"
    and fr: "lock_free (others (workers w) i) mode m"
  shows "moves_on io w ps i (fsys w) (erasures w) (Running p ((m, hold_of mode) # locks_of (ps ! i)))"
proof -
  let ?I = "image_in io w" and ?u = "user_of w i"
  have lk: "\<forall>j m' k k'. j < length ps \<longrightarrow> j \<noteq> i \<longrightarrow> (m', k) \<in> set (locks_of ph) \<longrightarrow> (m', k') \<in> set (locks_of (ps ! j)) \<longrightarrow> compatible k k'"
    if "locks_of ph = (m, hold_of mode) # locks_of (ps ! i)" for ph
    using that lock_free_compatible [OF inv fr] conc_invD(4) [OF inv i] by (metis Pair_inject set_ConsD)
  show ?thesis using cf
  proof (cases rule: conform_lock_cases)
    case root
    have m: "m = (0, erasures w 0)" using conc_invD(5) [OF inv i] root(1) by simp
    note here = placed_here [OF inv, of "[]" m ?u "hold_of mode"]
    consider "mode = Shared \<longrightarrow> firm ?I 0" "conform io (request (workers w ! i)) p (At [] m (hold_of mode) ?I [] None)"
      | res where "decided io (request (workers w ! i)) [] 0 ?I res" "conform io (request (workers w ! i)) p (Gone res [(m, hold_of mode, Some ?I)])"
      using root(3) [of ?I] placed_here(2) [OF inv, of "[]" m ?u Holds_unique] m by auto
    then show ?thesis
    proof cases
      case a: 1
      then show ?thesis using here(1) m root(1)
        by (intro quiet_moves_on [OF inv i a(2) _ _ _ _ _ _ same_free] disjI2 lk) (auto, cases mode, auto)
    next
      case a: (2 res)
      have "placed ?I (erasures w) ?u [] m Holds_unique ?I" using placed_here(1) [OF inv, of "[]" m] m by simp
      then have "takes_effect io w (request (workers w ! i)) (fs_view ?I) (fs_view ?I) None (Some res)"
        using decided_effect [OF inv] a(1) m by fastforce
      with a m root(1) show ?thesis
        by (intro quiet_moves_on [OF inv i a(2) _ _ _ _ _ _ same_free] disjI2 lk) (auto simp: agree_refl intro: exI [of _ "[]"])
    qed
  next
    case (child q D n x h)
    have ok: "placed ?I (erasures w) ?u q n h D" "current (erasures w) m" "child D (fst n) x = Some (fst m)"
      using conc_invD(5) [OF inv i] child(1) by (simp_all del: split_paired_All)
    then have n: "walk (child ?I) 0 q = Some (fst n)" "agree D ?I (fst n)" "prefix_ok (fs_view ?I) ?u q" "current (erasures w) n"
      by (simp_all add: placed_def)
    have wk: "walk (child ?I) 0 (q @ [x]) = Some (fst m)" using n(1) ok(3) agree_node(1) [OF n(2)] by (simp add: walk_snoc)
    have "q = [] \<or> fs_view ?I q = Some (Directory ?u)" using child(2) n(1) agree_node(2) [OF n(2)] by (auto simp: fs_view_def)
    then have pre: "prefix_ok (fs_view ?I) ?u (q @ [x])" by (rule prefix_ok_snoc [OF n(3)])
    note here = placed_here [OF inv wk ok(2) pre]
    have apart: "n \<noteq> m" using placed_apart [OF inv ok(1) here(1) [of Holds_unique]] by simp
    consider "mode = Shared \<longrightarrow> firm ?I (fst m)" "conform io (request (workers w ! i)) p (Two q n h D x m (hold_of mode) ?I)"
      | res where "decided io (request (workers w ! i)) (q @ [x]) (fst m) ?I res"
          "conform io (request (workers w ! i)) p (Gone res [(m, hold_of mode, Some ?I), (n, h, None)])"
      using child(3) [OF here(2) [of Holds_unique]] by auto
    then show ?thesis
    proof cases
      case a: 1
      have "placed ?I (erasures w) ?u (q @ [x]) m (hold_of mode) ?I" using here(1) a(1) by (cases mode) auto
      with ok(1) a child(1) show ?thesis
        by (intro quiet_moves_on [OF inv i a(2) _ _ _ _ _ _ same_free] disjI2 lk) auto
    next
      case a: (2 res)
      then have "takes_effect io w (request (workers w ! i)) (fs_view ?I) (fs_view ?I) None (Some res)"
        using decided_effect [OF inv here(1) [of Holds_unique]] by simp
      with a child(1) ok(2) n(4) wk apart show ?thesis
        by (intro quiet_moves_on [OF inv i a(2) _ _ _ _ _ _ same_free] disjI2 lk) (auto simp: agree_refl)
    qed
  qed
qed

lemma move_unique:
  assumes inv: "conc_inv io w ps t" and i: "i < length ps" and cf: "conform io (request (workers w ! i)) (Make_Unique m p) (ps ! i)"
    and fr: "m \<notin> fst ` set (others (workers w) i)"
  shows "moves_on io w ps i (fsys w) (erasures w) (Running p (upgrade m (locks_of (ps ! i))))"
proof -
  have "(m, k') \<notin> set (locks_of (ps ! j))" if "j < length ps" "j \<noteq> i" for j k'
    using others_locks [OF inv that, of "(m, k')"] fr by (metis fst_conv image_eqI)
  then have lk: "\<forall>j m' k k'. j < length ps \<longrightarrow> j \<noteq> i \<longrightarrow> (m', k) \<in> set [(m, Holds_unique)] \<longrightarrow> (m', k') \<in> set (locks_of (ps ! j)) \<longrightarrow> compatible k k'"
    by auto
  show ?thesis using cf
  proof (cases rule: conform_unique_cases)
    case (at q D own ptr)
    with conc_invD(5) [OF inv i] lk show ?thesis
      by (intro quiet_moves_on [OF inv i at(2) _ _ _ _ _ _ same_free] disjI2) (auto simp: upgrade_def placed_def)
  next
    case (limbo D)
    with conc_invD(5) [OF inv i] lk show ?thesis
      by (intro quiet_moves_on [OF inv i limbo(2) _ _ _ _ _ _ same_free] disjI2) (auto simp: upgrade_def)
  qed
qed

lemma gone_filter:
  "phase_ok I g L u (Gone res cs) \<Longrightarrow> phase_ok I g L u (Gone res (filter P cs))"
  by (auto simp: distinct_map_filter)

lemma move_unlock:
  assumes inv: "conc_inv io w ps t" and i: "i < length ps" and cf: "conform io (request (workers w ! i)) (Unlock m p) (ps ! i)"
  shows "moves_on io w ps i (fsys w) (erasures w) (Running p (filter (\<lambda>x. fst x \<noteq> m) (locks_of (ps ! i))))"
  using cf
proof (cases rule: conform_unlock_cases)
  case (at q D res h ptr)
  with conc_invD(5) [OF inv i] have "placed (image_in io w) (erasures w) (user_of w i) q m h D" by simp
  from decided_effect [OF inv this at(2)] at show ?thesis
    by (intro quiet_moves_on [OF inv i at(3) _ _ _ _ _ _ same_free]) auto
next
  case (parent q x m' h' D' h D)
  with conc_invD(5) [OF inv i] have pl: "placed (image_in io w) (erasures w) (user_of w i) q m h D"
    "placed (image_in io w) (erasures w) (user_of w i) (q @ [x]) m' h' D'" by simp_all
  from placed_apart [OF inv pl] pl(2) parent show ?thesis
    by (intro quiet_moves_on [OF inv i parent(2) _ _ _ _ _ _ same_free]) auto
next
  case (child q x D' res n h D h')
  with conc_invD(5) [OF inv i] have pl: "placed (image_in io w) (erasures w) (user_of w i) q n h D"
    "placed (image_in io w) (erasures w) (user_of w i) (q @ [x]) m h' D'" by simp_all
  have "current (erasures w) n" using pl(1) by (simp add: placed_def)
  with placed_apart [OF inv pl] decided_effect [OF inv pl(2) child(2)] child show ?thesis
    by (intro quiet_moves_on [OF inv i child(3) _ _ _ _ _ _ same_free]) auto
next
  case (gone res cs)
  have "phase_ok (image_in io w) (erasures w) (limbo ps) (user_of w i) (Gone res (filter (\<lambda>c. fst c \<noteq> m) cs))"
    using conc_invD(5) [OF inv i] unfolding gone(1) by (rule gone_filter)
  moreover have "filter (\<lambda>x. fst x \<noteq> m) (locks_of (ps ! i)) = locks_of (Gone res (filter (\<lambda>c. fst c \<noteq> m) cs))"
    unfolding gone(1) by (induction cs) auto
  moreover have "set (locks_of (Gone res (filter (\<lambda>c. fst c \<noteq> m) cs))) \<subseteq> set (locks_of (ps ! i))"
    unfolding gone(1) locks_of.simps set_map by (rule image_mono) auto
  ultimately show ?thesis
    by (intro quiet_moves_on [OF inv i gone(2) _ _ _ _ _ _ same_free]) (simp_all add: gone(1) del: phase_ok.simps locks_of.simps)
next
  case (limbo n h D own)
  with conc_invD(5) [OF inv i] show ?thesis
    by (intro quiet_moves_on [OF inv i limbo(2) _ _ _ _ _ _ same_free]) auto
next
  case erased
  then show ?thesis by (intro quiet_moves_on [OF inv i erased(2) _ _ _ _ _ _ same_free]) auto
qed

text \<open>What a thread reads is what it knows.\<close>

lemma placed_read:
  assumes "placed I g u q m h D" "b \<in> set (node_blocks D (fst m))"
  shows "I b = D b"
  using assms by (auto simp: placed_def agree_def)

lemma conform_read:
  assumes inv: "conc_inv io w ps t" and i: "i < length ps" and cf: "conform io (request (workers w ! i)) (Read b k) (ps ! i)"
  shows "conform io (request (workers w ! i)) (k (image_in io w b)) (ps ! i) \<and> b < FS_DISKSIZE"
  using cf
proof (cases rule: conform_read_cases)
  case (at D m q h own ptr)
  with conc_invD(5) [OF inv i] have pl: "placed (image_in io w) (erasures w) (user_of w i) q m h D" by simp
  have "b \<in> set (blocks_of (image_in io w) t)"
    using outside_tree(5) [OF conc_inv_tree(1,2) [OF inv], of "image_in io w" q "fst m"] pl at(2) agree_used by (fastforce simp: placed_def)
  with placed_read [OF pl, of b] at conc_inv_tree(4) [OF inv] show ?thesis by simp
next
  case (two D' m' q m h D x h')
  with conc_invD(5) [OF inv i] have pl: "placed (image_in io w) (erasures w) (user_of w i) (q @ [x]) m' h' D'" by simp
  have "b \<in> set (blocks_of (image_in io w) t)"
    using outside_tree(5) [OF conc_inv_tree(1,2) [OF inv], of "image_in io w" "q @ [x]" "fst m'"] pl two(2) agree_used by (fastforce simp: placed_def)
  with placed_read [OF pl, of b] two conc_inv_tree(4) [OF inv] show ?thesis by simp
next
  case (gone m h D cs res)
  with conc_invD(5) [OF inv i] have c: "current (erasures w) m" "agree D (image_in io w) (fst m)"
    "(\<exists>q. walk (child (image_in io w)) 0 q = Some (fst m)) \<or> m \<in> limbo ps" by (auto simp del: split_paired_All)
  have b: "b \<in> set (node_blocks D (fst m))" using gone(3) by simp
  have "b < FS_DISKSIZE" using reads_from_blocks [OF inv c(2,1,3)]
  proof
    assume "set (node_blocks D (fst m)) \<subseteq> set (blocks_of (image_in io w) t)"
    with b conc_inv_tree(4) [OF inv] show ?thesis by blast
  next
    assume "\<exists>j < length ps. limbos (ps ! j) = {m} \<and> set (node_blocks D (fst m)) \<subseteq> set (owned (ps ! j))"
    then obtain j where "j < length ps" "b \<in> set (owned (ps ! j))" using b by blast
    with owned_taken [of j ps] conc_inv_tree(5) [OF inv, of b] show ?thesis by blast
  qed
  moreover have "image_in io w b = D b" using c(2) gone(3) by (auto simp: agree_def)
  ultimately show ?thesis using gone by simp
qed

lemma move_read:
  assumes inv: "conc_inv io w ps t" and i: "i < length ps" and cf: "conform io (request (workers w ! i)) (Read b k) (ps ! i)"
    and rd: "disk_readblock io (disk (fsys w)) b = Some raw"
  shows "moves_on io w ps i (fsys w) (erasures w) (Running (k raw) (locks_of (ps ! i)))"
proof -
  have "raw = image_in io w b" using rd by (simp add: image_of_def)
  then show ?thesis using conform_read [OF inv i cf] conc_invD(5) [OF inv i]
    by (intro quiet_moves_on [OF inv i _ _ _ _ _ _ _ same_free, of _ "ps ! i"]) auto
qed

text \<open>A write goes to a block of the disk and replaces it.\<close>

lemma conform_write:
  assumes inv: "conc_inv io w ps t" and i: "i < length ps" and cf: "conform io (request (workers w ! i)) (Write b bytes p) (ps ! i)"
  shows "b < FS_DISKSIZE" "length bytes = FS_BLOCKSIZE"
proof -
  note tree = outside_tree(5) [OF conc_inv_tree(1,2) [OF inv], of "image_in io w"]
  have "b < FS_DISKSIZE \<and> length bytes = FS_BLOCKSIZE" using cf
  proof (cases rule: conform_write_cases)
    case (own own q m h D ptr)
    then show ?thesis using conc_inv_tree(5) [OF inv, of b] owned_taken [OF i] by auto
  next
    case (commit q m D own res ptr)
    with conc_invD(5) [OF inv i] have pl: "placed (image_in io w) (erasures w) (user_of w i) q m Holds_unique D" by simp
    then have "b \<in> set (blocks_of (image_in io w) t)" using tree [of q "fst m"] commit(2) agree_used by (fastforce simp: placed_def commits_def)
    then show ?thesis using conc_inv_tree(4) [OF inv] commit(2) by (simp add: commits_def)
  next
    case (unlink q m D x m' D' extra)
    with conc_invD(5) [OF inv i] have pl: "placed (image_in io w) (erasures w) (user_of w i) q m Holds_unique D" by simp
    then have "b \<in> set (blocks_of (image_in io w) t)" using tree [of q "fst m"] unlink(2) agree_used by (fastforce simp: placed_def unlinks_def)
    then show ?thesis using conc_inv_tree(4) [OF inv] unlink(2) by (simp add: unlinks_def)
  qed
  then show "b < FS_DISKSIZE" "length bytes = FS_BLOCKSIZE" by blast+
qed

lemma move_write:
  assumes laws: "disk_laws io" and inv: "conc_inv io w ps t" and i: "i < length ps"
    and cf: "conform io (request (workers w ! i)) (Write b bytes p) (ps ! i)"
    and wr: "disk_writeblock io (disk (fsys w)) b bytes = Some d"
  shows "moves_on io w ps i ((fsys w)\<lparr>disk := d\<rparr>) (erasures w) (Running p (locks_of (ps ! i)))"
proof -
  have d: "image_of io d = (image_in io w)(b := bytes)"
    using disk_write [OF laws conform_write [OF inv i cf], of "disk (fsys w)"] wr by auto
  let ?wk = "(workers w ! i)\<lparr>activity := Running p (locks_of (ps ! i))\<rparr>"
  show ?thesis using cf
  proof (cases rule: conform_write_cases)
    case (own own q m h D ptr)
    note o = own_write [OF inv i own(1) _ _ own(2) d, of ?wk]
    show ?thesis unfolding moves_on_def
      by (intro exI [of _ "At q m h (D(b := bytes)) own ptr"] exI [of _ t]) (use o own in \<open>simp add: worker_running\<close>)
  next
    case (commit q m D own res ptr)
    note c = commit_write [OF inv i commit(1) _ _ commit(2) d, of ?wk]
    obtain t' where "conc_inv io (w\<lparr>fsys := (fsys w)\<lparr>disk := d\<rparr>, erasures := erasures w, workers := (workers w)[i := ?wk]\<rparr>)
        (ps[i := Gone res [(m, Holds_unique, None)]]) t'"
      using c(1) commit by (auto simp: worker_running)
    moreover have "spec_request (fs_view (image_in io w)) (request (workers w ! i)) = (res, fs_view (image_of io d))"
      using c(2) commit by (simp add: worker_running)
    ultimately show ?thesis unfolding moves_on_def takes_effect_def
      by (intro exI [of _ "Gone res [(m, Holds_unique, None)]"] exI [of _ t']) (use commit in simp)
  next
    case (unlink q m D x m' D' extra)
    note c = unlink_write [OF inv i unlink(1) _ _ unlink(2) d, of ?wk]
    obtain t' where "conc_inv io (w\<lparr>fsys := (fsys w)\<lparr>disk := d\<rparr>, erasures := erasures w, workers := (workers w)[i := ?wk]\<rparr>)
        (ps[i := Limbo (Some m) m' Holds_upgradable D' extra]) t'"
      using c(1) unlink by (auto simp: worker_running)
    moreover have "spec_request (fs_view (image_in io w)) (request (workers w ! i)) = (Done, fs_view (image_of io d))"
      using c(2) unlink by (simp add: worker_running)
    ultimately show ?thesis unfolding moves_on_def takes_effect_def
      by (intro exI [of _ "Limbo (Some m) m' Holds_upgradable D' extra"] exI [of _ t']) (use unlink in simp)
  qed
qed

lemma move_free:
  assumes inv: "conc_inv io w ps t" and i: "i < length ps" and cf: "conform io (request (workers w ! i)) (Free_List upd k) (ps ! i)"
  defines "fl \<equiv> free_disk_blocks (fsys w)"
  shows "moves_on io w ps i ((fsys w)\<lparr>free_disk_blocks := upd fl\<rparr>) (erasures w) (Running (k fl) (locks_of (ps ! i)))"
  using cf
proof (cases rule: conform_free_cases)
  case (idle p)
  from idle(3) [of fl] show ?thesis
  proof
    assume "conform io (request (workers w ! i)) (k fl) (Idle p)"
    with idle(1,2) conc_invD(5) [OF inv i] show ?thesis
      by (intro quiet_moves_on [OF inv i _ _ _ _ _ _ _ refl, of _ "Idle p"]) (auto simp: fl_def)
  next
    assume "\<exists>res. settled io (request (workers w ! i)) fl res \<and> conform io (request (workers w ! i)) (k fl) (Gone res [])"
    then obtain res where res: "settled io (request (workers w ! i)) fl res" "conform io (request (workers w ! i)) (k fl) (Gone res [])" by blast
    from settled_effect [OF inv] res idle(1,2) show ?thesis
      by (intro quiet_moves_on [OF inv i res(2) _ _ _ _ _ _ refl]) (auto simp: fl_def)
  qed
next
  case (taking own D m q h ptr)
  with conc_invD(5) [OF inv i] have ok: "placed (image_in io w) (erasures w) (user_of w i) q m h D" "\<forall>b \<in> set own. image_in io w b = D b"
    "\<forall>x m'. ptr = Some (x, m') \<longrightarrow> current (erasures w) m' \<and> child D (fst m) x = Some (fst m')" by (simp_all del: split_paired_All)
  show ?thesis
  proof (cases fl)
    case Nil
    with taking ok(1) show ?thesis
      by (intro quiet_moves_on [OF inv i _ _ _ _ _ _ _ refl, of _ "Gone Error [(m, h, None)]"])
        (auto simp: fl_def placed_def takes_effect_def no_room_def refusable_def)
  next
    case (Cons b fl')
    have fresh: "b \<notin> set (blocks_of (image_in io w) t)" "b < FS_DISKSIZE" "b \<noteq> 0" "b \<notin> set own"
      using conc_inv_tree(5) [OF inv, of b] conc_inv_tree(6) [OF inv] owned_taken [OF i] Cons taking(1) by (auto simp: fl_def)
    have nb: "b \<notin> set (node_blocks D (fst m))"
      using outside_tree(5) [OF conc_inv_tree(1,2) [OF inv], of "image_in io w" q "fst m"] ok(1) fresh(1) agree_used by (fastforce simp: placed_def)
    let ?D = "D(b := image_in io w b)"
    have ag: "agree D ?D (fst m)" by (rule agree_upd [OF agree_refl nb])
    have "agree ?D (image_in io w) (fst m)" using ok(1) agree_used [OF ag] by (auto simp: placed_def agree_def)
    then have "placed (image_in io w) (erasures w) (user_of w i) q m h ?D" using ok(1) agree_firm [OF ag] by (simp add: placed_def)
    then have "phase_ok (image_in io w) (erasures w) (limbo ps) (user_of w i) (At q m h ?D (b # own) ptr)"
      using ok(2,3) agree_node(1) [OF ag] by (simp del: split_paired_All)
    moreover have "conform io (request (workers w ! i)) (k fl) (At q m h ?D (b # own) ptr)"
      using taking(4) nb fresh unfolding Cons by auto
    ultimately show ?thesis using taking Cons
      by (intro quiet_moves_on [OF inv i _ _ _ _ _ _ _ refl, of _ "At q m h ?D (b # own) ptr"]) (auto simp: fl_def)
  qed
next
  case (giving own q m h D ptr)
  with conc_invD(5) [OF inv i] show ?thesis
    by (intro quiet_moves_on [OF inv i giving(3) _ _ _ _ _ _ refl]) (auto simp: fl_def union_commute)
next
  case (limbo own pm m h D)
  with conc_invD(5) [OF inv i] show ?thesis
    by (intro quiet_moves_on [OF inv i limbo(3) _ _ _ _ _ _ refl]) (auto simp: fl_def union_commute union_lcomm)
next
  case (erased own m)
  then show ?thesis by (intro quiet_moves_on [OF inv i erased(3) _ _ _ _ _ _ refl]) (auto simp: fl_def union_commute)
qed

lemma move_erase:
  assumes inv: "conc_inv io w ps t" and i: "i < length ps" and cf: "conform io (request (workers w ! i)) (Erase_Lock b p) (ps ! i)"
  shows "moves_on io w ps i (fsys w) ((erasures w)(b := Suc (erasures w b))) (Running p (locks_of (ps ! i)))"
  using cf
proof (cases rule: conform_erase_cases)
  case (limbo m D)
  have "conc_inv io (w\<lparr>fsys := fsys w, erasures := (erasures w)(fst m := Suc (erasures w (fst m))),
      workers := (workers w)[i := (workers w ! i)\<lparr>activity := Running p (locks_of (ps ! i))\<rparr>]\<rparr>) (ps[i := Erased m (used_blocks D (fst m) @ [fst m])]) t"
    by (rule erase_move [OF inv i limbo(2)]) (use limbo in \<open>simp_all add: worker_running\<close>)
  then show ?thesis unfolding moves_on_def
    by (intro exI [of _ "Erased m (used_blocks D (fst m) @ [fst m])"] exI [of _ t]) (use limbo in simp)
qed

lemma move_return:
  assumes inv: "conc_inv io w ps t" and i: "i < length ps" and cf: "conform io (request (workers w ! i)) (Return res) (ps ! i)"
  shows "moves_on io w ps i (fsys w) (erasures w) (Finished res)"
proof -
  have fin: "worker_ok io ((workers w ! i)\<lparr>activity := Finished res\<rparr>) (Gone res [])" by (simp add: worker_ok.simps)
  note q = quiet_move [OF inv i fin, of "free_disk_blocks (fsys w)"]
  show ?thesis using cf
  proof (cases rule: conform_return_cases)
    case (idle p)
    with q show ?thesis unfolding moves_on_def by (intro exI [of _ "Gone res []"] exI [of _ t]) (simp add: takes_effect_def)
  next
    case gone
    with q show ?thesis unfolding moves_on_def by (intro exI [of _ "Gone res []"] exI [of _ t]) simp
  qed
qed

lemma act_moves_on:
  assumes laws: "disk_laws io" and inv: "conc_inv io w ps t" and i: "i < length ps"
    and act: "act io (others (workers w) i) (fsys w) (erasures w) (activity (workers w ! i)) = Some (s, g, a)"
  shows "moves_on io w ps i s g a"
proof -
  obtain p h where r: "activity (workers w ! i) = Running p h" using act by (cases "activity (workers w ! i)") auto
  have c: "h = locks_of (ps ! i)" "conform io (request (workers w ! i)) p (ps ! i)"
    using conc_invD(2) [OF inv i] r by (simp_all add: worker_ok.simps)
  show ?thesis
  proof (cases p)
    case (Return res)
    with move_return [OF inv i] c act r show ?thesis by auto
  next
    case Abort
    with act r show ?thesis by simp
  next
    case (Get_Lock b k)
    with move_get [OF inv i] c act r show ?thesis by auto
  next
    case (Lock mode m p')
    with move_lock [OF inv i, where m = m] c act r show ?thesis by (auto split: if_splits)
  next
    case (Make_Unique m p')
    with move_unique [OF inv i, where m = m] c act r show ?thesis by (auto split: if_splits)
  next
    case (Unlock m p')
    with move_unlock [OF inv i, where m = m] c act r show ?thesis by auto
  next
    case (Read b k)
    with move_read [OF inv i] c act r show ?thesis by (auto split: option.splits)
  next
    case (Write b bytes p')
    with move_write [OF laws inv i] c act r show ?thesis by (auto split: option.splits)
  next
    case (Free_List upd k)
    with move_free [OF inv i] c act r show ?thesis by auto
  next
    case (Erase_Lock b p')
    with move_erase [OF inv i] c act r show ?thesis by auto
  qed
qed

end
