(* ===== verification/Fs_Conformance.thy ===== *)
theory Fs_Conformance
  imports Fs_Simulation
begin

text \<open>
  The path traversal of the handlers keeps to the protocol: the lock of the next node is taken
  while the node above is locked, and a request that cannot succeed takes effect with the lock of
  the node that makes it fail.
\<close>

section \<open>Nodes\<close>

lemma node_at_facts:
  assumes laws: "disk_laws io" and at: "node_at io q b D"
  shows "inode_ok D b" "wf_inode (inode_at D b)" "isize (inode_at D b) \<le> length (blocks (inode_at D b))"
    "\<And>x. x \<in> set (node_blocks D b) \<Longrightarrow> x < FS_DISKSIZE"
    "child D b x = Some c \<Longrightarrow> c \<noteq> b"
proof -
  obtain s t where s: "fs_tree io s t" "D = image_of io (disk s)" "walk (child D) 0 q = Some b" using at by (auto simp: node_at_def)
  have t: "root t = 0" "rep D t" using s by (simp_all add: fs_tree_def)
  obtain n where n: "n \<in> set (nodes t)" "root n = b" using walk_nodes [OF t(2)] s(3) t(1) by metis
  note nf = node_facts [OF laws s(1) n(1), folded s(2), unfolded n(2)]
  show "inode_ok D b" "wf_inode (inode_at D b)" "isize (inode_at D b) \<le> length (blocks (inode_at D b))"
    "\<And>x. x \<in> set (node_blocks D b) \<Longrightarrow> x < FS_DISKSIZE"
    using nf by auto
  assume "child D b x = Some c"
  then obtain k where k: "k \<in> set (kids n)" "root k = c" using kid_of_child [of D n x c] nf(7) n(2) by metis
  with nf(6) root_in_blocks [of k D] n(2) show "c \<noteq> b" by (cases n) auto
qed

lemma node_child:
  assumes "inode_ok D b" "itype (inode_at D b) = CHR ''d''" "j < isize (inode_at D b)" "isize (inode_at D b) \<le> length (blocks (inode_at D b))"
    "find_slot (dec_direntries (D (blocks (inode_at D b) ! j))) x = Some sl" "NUL \<notin> set x"
  shows "sl < length (dec_direntries (D (blocks (inode_at D b) ! j)))"
    "child D b x = Some (inode_block (dec_direntries (D (blocks (inode_at D b) ! j)) ! sl))"
    "c_str (dname (dec_direntries (D (blocks (inode_at D b) ! j)) ! sl)) = x"
    "inode_block (dec_direntries (D (blocks (inode_at D b) ! j)) ! sl) \<noteq> 0"
  using find_slot_Some [OF assms(5)] found_child(1) [OF assms(1,2) used_nth [of j D b, OF assms(3,4)] refl] c_str_id [OF assms(6)] by auto

lemma node_no_child:
  assumes "\<And>j. j < isize (inode_at D b) \<Longrightarrow> find_slot (dec_direntries (D (blocks (inode_at D b) ! j))) x = None" "NUL \<notin> set x"
    "isize (inode_at D b) \<le> length (blocks (inode_at D b))"
  shows "child D b x = None"
proof -
  have "x \<notin> set (names D b)"
  proof
    assume "x \<in> set (names D b)"
    then obtain e db where e: "c_str (dname e) = x" "inode_block e \<noteq> 0" "e \<in> set (dec_direntries (D db))" "db \<in> set (used_blocks D b)"
      by (auto simp: names_def live_entries_def entries_def split: if_splits)
    then obtain j where "j < isize (inode_at D b)" "blocks (inode_at D b) ! j = db"
      using assms(3) by (auto simp: used_blocks_def in_set_conv_nth)
    with assms(1) [of j] e c_str_id [OF assms(2)] show False by (auto simp: find_slot_None)
  qed
  then show ?thesis by (simp add: child_None)
qed

section \<open>The lookup loop\<close>

text \<open>In phase \<open>\<phi>\<close> the thread may read the blocks of node \<open>b\<close>, whose contents are \<open>D\<close>.\<close>

definition may_read :: "'d disk_ops \<Rightarrow> Request \<Rightarrow> phase \<Rightarrow> nat \<Rightarrow> image \<Rightarrow> bool" where
  "may_read io r ph b D \<longleftrightarrow> (\<forall>x k. x \<in> set (node_blocks D b) \<longrightarrow> conform io r (k (D x)) ph \<longrightarrow> conform io r (Read x k) ph)"

lemma may_read_at: "may_read io r (At q m h D own ptr) (fst m) D"
  by (auto simp: may_read_def intro: read_at)

lemma may_read_two: "may_read io r (Two q m h D x m' h' D') (fst m') D'"
  by (auto simp: may_read_def intro: read_two)

lemma may_read_gone: "(m, h, Some D) \<in> set cs \<Longrightarrow> may_read io r (Gone res cs) (fst m) D"
  by (auto simp: may_read_def intro: read_gone)

lemma conform_find_loop:
  assumes rd: "may_read io r ph b D" and len: "isize (inode_at D b) \<le> length (blocks (inode_at D b))"
  shows "\<lbrakk>i + n = isize (inode_at D b);
      (\<And>j. i \<le> j \<Longrightarrow> j < i + n \<Longrightarrow> find_slot (dec_direntries (D (blocks (inode_at D b) ! j))) x = None) \<Longrightarrow> conform io r (k None) ph;
      \<And>j sl. \<lbrakk>i \<le> j; j < i + n; find_slot (dec_direntries (D (blocks (inode_at D b) ! j))) x = Some sl\<rbrakk> \<Longrightarrow>
        conform io r (k (Some (j, blocks (inode_at D b) ! j, sl, dec_direntries (D (blocks (inode_at D b) ! j))))) ph\<rbrakk>
    \<Longrightarrow> conform io r (find_prog (inode_at D b) x k n i) ph"
proof (induction n arbitrary: i)
  case 0
  then show ?case by simp
next
  case (Suc n)
  let ?db = "blocks (inode_at D b) ! i"
  have i: "i < isize (inode_at D b)" using Suc.prems(1) by simp
  have "conform io r (case find_slot (dec_direntries (D ?db)) x of None \<Rightarrow> find_prog (inode_at D b) x k n (Suc i)
      | Some j \<Rightarrow> k (Some (i, ?db, j, dec_direntries (D ?db)))) ph"
  proof (cases "find_slot (dec_direntries (D ?db)) x")
    case None
    have "conform io r (find_prog (inode_at D b) x k n (Suc i)) ph"
    proof (rule Suc.IH)
      show "conform io r (k None) ph" if "\<And>j. Suc i \<le> j \<Longrightarrow> j < Suc i + n \<Longrightarrow> find_slot (dec_direntries (D (blocks (inode_at D b) ! j))) x = None"
        using Suc.prems(2) None that by (metis Suc_leI add_Suc_shift le_neq_implies_less)
    qed (use Suc.prems in auto)
    with None show ?thesis by simp
  qed (use Suc.prems(3) in auto)
  then have "conform io r (Read ?db (\<lambda>raw. case find_slot (dec_direntries raw) x of None \<Rightarrow> find_prog (inode_at D b) x k n (Suc i)
      | Some j \<Rightarrow> k (Some (i, ?db, j, dec_direntries raw)))) ph"
    using rd used_nth [of i D b, OF i len] unfolding may_read_def by auto
  then show ?case using i len by (simp add: at_def)
qed

lemma conform_lookup:
  assumes laws: "disk_laws io" and rd: "may_read io r ph b D" and at: "node_at io q b D" and dir: "itype (inode_at D b) = CHR ''d''"
    and x: "NUL \<notin> set x"
    and none: "child D b x = None \<Longrightarrow> conform io r (k None) ph"
    and some: "\<And>j sl es. \<lbrakk>j < isize (inode_at D b); es = dec_direntries (D (blocks (inode_at D b) ! j)); sl < length es;
        c_str (dname (es ! sl)) = x; inode_block (es ! sl) \<noteq> 0; child D b x = Some (inode_block (es ! sl))\<rbrakk> \<Longrightarrow>
        conform io r (k (Some (j, blocks (inode_at D b) ! j, sl, es))) ph"
  shows "conform io r (find_prog (inode_at D b) x k (isize (inode_at D b)) 0) ph"
proof (rule conform_find_loop [OF rd])
  note nf = node_at_facts [OF laws at]
  show "isize (inode_at D b) \<le> length (blocks (inode_at D b))" by (rule nf(3))
  show "conform io r (k None) ph" if "\<And>j. 0 \<le> j \<Longrightarrow> j < 0 + isize (inode_at D b) \<Longrightarrow> find_slot (dec_direntries (D (blocks (inode_at D b) ! j))) x = None"
    using none node_no_child [of D b x] that x nf(3) by simp
  show "conform io r (k (Some (j, blocks (inode_at D b) ! j, sl, dec_direntries (D (blocks (inode_at D b) ! j))))) ph"
    if "0 \<le> j" "j < 0 + isize (inode_at D b)" "find_slot (dec_direntries (D (blocks (inode_at D b) ! j))) x = Some sl" for j sl
    using some [OF _ refl] node_child [OF nf(1) dir _ nf(3) that(3) x] that by simp
qed simp

section \<open>When a request is bound to fail\<close>

text \<open>The path that a handler walks.\<close>

definition walked :: "Request \<Rightarrow> Path" where
  "walked r = (if is_FS_CREATE r \<or> is_FS_DELETE r then butlast (path r) else path r)"

lemma walked_nul: "ready_request r \<Longrightarrow> x \<in> set (walked r) \<Longrightarrow> NUL \<notin> set x"
  using ready_nul_free(3) [of r] by (auto simp: walked_def split: if_splits dest: in_set_butlastD)

lemma hidden_fails:
  "\<not> visible v (username r) (walked r) \<Longrightarrow> (case r of FS_WRITEBLOCK _ _ _ d \<Rightarrow> d \<noteq> None | _ \<Rightarrow> True) \<Longrightarrow> spec_request v r = (Error, v)"
  by (cases r) (auto simp: walked_def spec_read_def spec_write_def spec_create_def spec_delete_def)

lemma visible_from_prefix: "prefix_ok v u (a @ q) \<Longrightarrow> visible_from v u a (q @ rest) = visible_from v u (a @ q) rest"
proof (induction q arbitrary: a)
  case (Cons x q)
  have "a = [] \<or> v a = Some (Directory u)" using Cons.prems unfolding prefix_ok_def by blast
  with Cons.IH [of "a @ [x]"] Cons.prems show ?case by simp
qed simp

lemma visible_split: "prefix_ok v u q \<Longrightarrow> q @ rest \<noteq> [] \<Longrightarrow> visible v u (q @ rest) = visible_from v u q rest"
  using visible_from_prefix [of v u "[]" q rest] by (auto simp: visible_def)

text \<open>The node at path \<open>q\<close>, where \<open>rest\<close> is still to be walked, ends the walk.\<close>

definition blocks_walk :: "string \<Rightarrow> Path \<Rightarrow> Path \<Rightarrow> image \<Rightarrow> nat \<Rightarrow> bool" where
  "blocks_walk u q rest D b \<longleftrightarrow> (case rest of
     [] \<Rightarrow> q \<noteq> [] \<and> \<not> strcmp_eq u (owner (inode_at D b))
   | x # _ \<Rightarrow> itype (inode_at D b) = CHR ''f'' \<or> \<not> strcmp_eq u (owner (inode_at D b)) \<and> q \<noteq> [] \<or> child D b x = None)"

lemma blocked_decided:
  assumes "disk_laws io" and r: "ready_request r" "walked r = q @ rest" and bl: "blocks_walk (username r) q rest D b"
  shows "decided io r q b D Error"
  unfolding decided_def
proof (intro disjI1 allI impI)
  fix rs s t assume loc: "located io (username r) q b D [] rs s t"
  let ?I = "image_of io (disk s)" and ?u = "username r"
  have ag: "agree D ?I b" "walk (child ?I) 0 q = Some b" "prefix_ok (fs_view ?I) ?u q" using loc by (simp_all add: located_def)
  have cu: "c_str ?u = ?u" using ready_nul_free(1) [OF r(1)] by (simp add: c_str_id)
  have v: "fs_view ?I q = Some (entry_at D b)" using ag agree_node(2) [OF ag(1)] by (simp add: fs_view_def)
  have ow: "owned_by (entry_at D b) = c_str (owner (inode_at D b))" by (simp add: entry_at_def)
  have "\<not> visible_from (fs_view ?I) ?u q rest"
  proof (cases rest)
    case Nil
    with bl v ow cu show ?thesis by (auto simp: blocks_walk_def strcmp_eq_def)
  next
    case (Cons x p)
    show ?thesis
    proof (cases "child D b x = None")
      case True
      then have "walk (child ?I) 0 (q @ [x]) = None" using ag agree_node(1) [OF ag(1)] by (simp add: walk_snoc)
      then have "walk (child ?I) 0 ((q @ [x]) @ p) = None" by (simp only: walk_append) simp
      then have "fs_view ?I (q @ rest) = None" using Cons by (simp add: fs_view_def)
      then show ?thesis using visible_from_exists [of "fs_view ?I" ?u q rest] by auto
    next
      case False
      then have "itype (inode_at D b) = CHR ''d''" using child_of_dir by blast
      with False Cons bl v cu show ?thesis by (auto simp: blocks_walk_def strcmp_eq_def entry_at_def)
    qed
  qed
  moreover have "q @ rest \<noteq> []" using bl by (auto simp: blocks_walk_def split: list.splits)
  ultimately have "\<not> visible (fs_view ?I) ?u (walked r)" using visible_split [OF ag(3)] r(2) by simp
  then show "spec_request (view_in io s) r = (Error, view_in io s)"
    using r(1) by (intro hidden_fails) (auto simp: ready_request_def split: Request.splits)
qed

section \<open>The traversal\<close>

text \<open>What the traversal needs of the program \<open>k\<close> that follows it.\<close>

definition continues :: "'d disk_ops \<Rightarrow> Request \<Rightarrow> lock_mode \<Rightarrow> ((fs_inode \<times> data_lock) option \<Rightarrow> prog) \<Rightarrow> bool" where
  "continues io r mode k \<longleftrightarrow> conform io r (k None) (Gone Error []) \<and>
     (\<forall>m D. node_at io (walked r) (fst m) D \<longrightarrow> \<not> blocks_walk (username r) (walked r) [] D (fst m) \<longrightarrow>
        (mode = Upgradable \<longrightarrow> conform io r (k (Some (inode_at D (fst m), m))) (At (walked r) m Holds_upgradable D [] None))
      \<and> (mode = Shared \<longrightarrow> (\<exists>res. decided io r (walked r) (fst m) D res
            \<and> conform io r (k (Some (inode_at D (fst m), m))) (Gone res [(m, Holds_shared, Some D)]))))"

lemma blocked_steps:
  assumes laws: "disk_laws io" and k: "conform io r (k None) (Gone Error [])" and at: "node_at io q (fst m) D"
    and bl: "blocks_walk (username r) q rest D (fst m)" and nul: "\<forall>x \<in> set rest. NUL \<notin> set x"
  shows "conform io r (traverse_steps mode (username r) k rest (length q) (inode_at D (fst m)) m) (Gone Error [(m, h, Some D)])"
proof -
  have un: "conform io r (Unlock m (k None)) (Gone Error [(m, h, Some D)])" by (rule unlock_gone) (simp add: k)
  show ?thesis
  proof (cases rest)
    case Nil
    with bl un show ?thesis by (simp add: blocks_walk_def)
  next
    case (Cons x p)
    show ?thesis
    proof (cases "itype (inode_at D (fst m)) = CHR ''f'' \<or> \<not> strcmp_eq (username r) (owner (inode_at D (fst m))) \<and> q \<noteq> []")
      case True
      with un Cons show ?thesis by auto
    next
      case False
      then have dir: "itype (inode_at D (fst m)) = CHR ''d''" using node_at_facts(1) [OF laws at] by (auto simp: inode_ok_def)
      have "child D (fst m) x = None" using False bl Cons by (auto simp: blocks_walk_def)
      with False Cons nul un show ?thesis
        by (auto intro!: conform_lookup [OF laws may_read_gone at dir])
    qed
  qed
qed

text \<open>One step down: look the name up, lock the child, unlock the node, read the child's inode.\<close>

lemma conform_step_down:
  assumes laws: "disk_laws io" and rq: "ready_request r" and wr: "walked r = q @ x # rest" and at: "node_at io q (fst m) D"
    and open': "\<not> blocks_walk (username r) q (x # rest) D (fst m)" and k0: "conform io r (k None) (Gone Error [])"
    and nul: "\<forall>y \<in> set (x # rest). NUL \<notin> set y" and md: "md = (if rest = [] then mode else Shared)"
    and down: "\<And>m' D'. node_at io (q @ [x]) (fst m') D' \<Longrightarrow> \<not> blocks_walk (username r) (q @ [x]) rest D' (fst m') \<Longrightarrow>
      (md = Shared \<longrightarrow> firm D' (fst m'))
        \<and> conform io r (traverse_steps mode (username r) k rest (length (q @ [x])) (inode_at D' (fst m')) m') (At (q @ [x]) m' (hold_of md) D' [] None)
      \<or> (\<exists>res. decided io r (q @ [x]) (fst m') D' res
        \<and> conform io r (traverse_steps mode (username r) k rest (length (q @ [x])) (inode_at D' (fst m')) m') (Gone res [(m', hold_of md, Some D')]))"
  shows "conform io r (traverse_steps mode (username r) k (x # rest) (length q) (inode_at D (fst m)) m) (At q m Holds_shared D [] None)"
proof -
  let ?u = "username r"
  let ?go = "\<lambda>c m'. Unlock m (Read c (\<lambda>raw. traverse_steps mode ?u k rest (Suc (length q)) (dec_inode raw) m'))"
  have ok: "itype (inode_at D (fst m)) \<noteq> CHR ''f''" "strcmp_eq ?u (owner (inode_at D (fst m))) \<or> q = []" "child D (fst m) x \<noteq> None"
    using open' by (auto simp: blocks_walk_def)
  then have dir: "itype (inode_at D (fst m)) = CHR ''d''" using node_at_facts(1) [OF laws at] by (auto simp: inode_ok_def)
  have pre: "q = [] \<or> entry_at D (fst m) = Directory ?u"
    using ok(2) dir ready_nul_free(1) [OF rq] by (auto simp: entry_at_def strcmp_eq_def c_str_id)
  have step: "conform io r (Get_Lock c (\<lambda>m'. Lock md m' (?go c m'))) (At q m Holds_shared D [] None)"
    if c: "child D (fst m) x = Some c" for c
  proof (rule get_child [OF c], rule lock_child [OF pre])
    fix g :: nat and D' assume n: "node_at io (q @ [x]) (fst (c, g)) D'"
    let ?m = "(c, g)"
    have ne: "?m \<noteq> m" using node_at_facts(5) [OF laws at c] by auto
    have gone: "conform io r (?go c ?m) (Gone res [(?m, hold_of md, Some D'), (m, Holds_shared, None)])"
      if "conform io r (traverse_steps mode ?u k rest (length (q @ [x])) (inode_at D' c) ?m) (Gone res [(?m, hold_of md, Some D')])" for res
      using that ne by (intro unlock_gone) (auto intro!: read_gone [of ?m "hold_of md" D'])
    show "(md = Shared \<longrightarrow> firm D' (fst ?m)) \<and> conform io r (?go c ?m) (Two q m Holds_shared D x ?m (hold_of md) D')
      \<or> (\<exists>res. decided io r (q @ [x]) (fst ?m) D' res \<and> conform io r (?go c ?m) (Gone res [(?m, hold_of md, Some D'), (m, Holds_shared, None)]))"
    proof (cases "blocks_walk ?u (q @ [x]) rest D' c")
      case True
      then have "decided io r (q @ [x]) c D' Error" using blocked_decided [OF laws rq] wr by simp
      moreover have "conform io r (traverse_steps mode ?u k rest (length (q @ [x])) (inode_at D' c) ?m) (Gone Error [(?m, hold_of md, Some D')])"
        using blocked_steps [where k = k, OF laws k0 n] True nul by simp
      ultimately show ?thesis using gone by auto
    next
      case False
      have two: "conform io r (?go c ?m) (Two q m Holds_shared D x ?m (hold_of md) D')"
        if "conform io r (traverse_steps mode ?u k rest (length (q @ [x])) (inode_at D' c) ?m) (At (q @ [x]) ?m (hold_of md) D' [] None)"
        using that by (intro unlock_parent) (auto intro!: read_at)
      from down [OF n] False two gone show ?thesis by auto
    qed
  qed
  have "traverse_steps mode ?u k (x # rest) (length q) (inode_at D (fst m)) m = find_prog (inode_at D (fst m)) x (\<lambda>r. case r of
         None \<Rightarrow> Unlock m (k None)
       | Some (_, _, j, es) \<Rightarrow> (let nb = inode_block (es ! j) in Get_Lock nb (\<lambda>m'. Lock md m' (?go nb m')))) (isize (inode_at D (fst m))) 0"
    using ok(1,2) unfolding md traverse_steps.simps by auto
  moreover have "conform io r (find_prog (inode_at D (fst m)) x (\<lambda>r. case r of
         None \<Rightarrow> Unlock m (k None)
       | Some (_, _, j, es) \<Rightarrow> (let nb = inode_block (es ! j) in Get_Lock nb (\<lambda>m'. Lock md m' (?go nb m'))))
       (isize (inode_at D (fst m))) 0) (At q m Holds_shared D [] None)"
    by (rule conform_lookup [OF laws may_read_at at dir]) (use nul ok(3) step in \<open>auto simp: Let_def\<close>)
  ultimately show ?thesis by simp
qed

lemma conform_steps:
  assumes laws: "disk_laws io" and rq: "ready_request r" and k: "continues io r mode k"
  shows "\<lbrakk>walked r = q @ x # rest; node_at io q (fst m) D; \<not> blocks_walk (username r) q (x # rest) D (fst m)\<rbrakk> \<Longrightarrow>
    conform io r (traverse_steps mode (username r) k (x # rest) (length q) (inode_at D (fst m)) m) (At q m Holds_shared D [] None)"
proof (induction rest arbitrary: q x m D)
  case (Nil q x m D)
  have k0: "conform io r (k None) (Gone Error [])" using k by (simp add: continues_def)
  have nul: "\<forall>y \<in> set [x]. NUL \<notin> set y"
    using walked_nul [OF rq] Nil.prems(1) by simp
  show ?case
  proof (rule conform_step_down [where k = k, OF laws rq Nil.prems k0 nul refl])
    fix m' :: data_lock and D' assume n: "node_at io (q @ [x]) (fst m') D'" "\<not> blocks_walk (username r) (q @ [x]) [] D' (fst m')"
    then have "strcmp_eq (username r) (owner (inode_at D' (fst m')))" by (simp add: blocks_walk_def)
    moreover have "(mode = Upgradable \<longrightarrow> conform io r (k (Some (inode_at D' (fst m'), m'))) (At (q @ [x]) m' Holds_upgradable D' [] None))
      \<and> (mode = Shared \<longrightarrow> (\<exists>res. decided io r (q @ [x]) (fst m') D' res
            \<and> conform io r (k (Some (inode_at D' (fst m'), m'))) (Gone res [(m', Holds_shared, Some D')])))"
      using k n Nil.prems(1) unfolding continues_def by (cases m') simp
    ultimately show "((if [] = [] then mode else Shared) = Shared \<longrightarrow> firm D' (fst m'))
        \<and> conform io r (traverse_steps mode (username r) k [] (length (q @ [x])) (inode_at D' (fst m')) m') (At (q @ [x]) m' (hold_of (if [] = [] then mode else Shared)) D' [] None)
      \<or> (\<exists>res. decided io r (q @ [x]) (fst m') D' res
        \<and> conform io r (traverse_steps mode (username r) k [] (length (q @ [x])) (inode_at D' (fst m')) m') (Gone res [(m', hold_of (if [] = [] then mode else Shared), Some D')]))"
      by (cases mode) auto
  qed
next
  case (Cons y rest q x m D)
  have k0: "conform io r (k None) (Gone Error [])" using k by (simp add: continues_def)
  have nul: "\<forall>z \<in> set (x # y # rest). NUL \<notin> set z"
    using walked_nul [OF rq] Cons.prems(1) by simp
  show ?case
  proof (rule conform_step_down [where k = k, OF laws rq Cons.prems k0 nul refl])
    fix m' :: data_lock and D' assume n: "node_at io (q @ [x]) (fst m') D'" "\<not> blocks_walk (username r) (q @ [x]) (y # rest) D' (fst m')"
    have "walked r = (q @ [x]) @ y # rest" using Cons.prems(1) by simp
    from Cons.IH [OF this n] n(2) show "((if y # rest = [] then mode else Shared) = Shared \<longrightarrow> firm D' (fst m'))
        \<and> conform io r (traverse_steps mode (username r) k (y # rest) (length (q @ [x])) (inode_at D' (fst m')) m') (At (q @ [x]) m' (hold_of (if y # rest = [] then mode else Shared)) D' [] None)
      \<or> (\<exists>res. decided io r (q @ [x]) (fst m') D' res
        \<and> conform io r (traverse_steps mode (username r) k (y # rest) (length (q @ [x])) (inode_at D' (fst m')) m') (Gone res [(m', hold_of (if y # rest = [] then mode else Shared), Some D')]))"
      by (auto simp: firm_def blocks_walk_def simp del: traverse_steps.simps)
  qed
qed

lemma conform_traverse:
  assumes laws: "disk_laws io" and rq: "ready_request r" and k: "continues io r mode k" and root: "walked r = [] \<Longrightarrow> mode = Upgradable"
  shows "conform io r (traverse_prog mode (walked r) (username r) k) (Idle None)"
  unfolding traverse_prog_def
proof (rule get_root)
  fix g :: nat
  let ?m = "(0, g) :: data_lock"
  have k0: "conform io r (k None) (Gone Error [])" using k by (simp add: continues_def)
  show "conform io r (if walked r = [] then Lock mode ?m (Read 0 (\<lambda>raw. k (Some (dec_inode raw, ?m))))
      else Lock Shared ?m (Read 0 (\<lambda>raw. traverse_steps mode (username r) k (walked r) 0 (dec_inode raw) ?m))) (Idle (Some ?m))"
  proof (cases "walked r")
    case Nil
    have "conform io r (Lock mode ?m (Read 0 (\<lambda>raw. k (Some (dec_inode raw, ?m))))) (Idle (Some ?m))"
    proof (rule lock_root)
      fix D assume n: "node_at io [] 0 D"
      have "conform io r (k (Some (inode_at D (fst ?m), ?m))) (At [] ?m Holds_upgradable D [] None)"
        using k n root Nil unfolding continues_def by (simp add: blocks_walk_def)
      then show "(mode = Shared \<longrightarrow> firm D 0) \<and> conform io r (Read 0 (\<lambda>raw. k (Some (dec_inode raw, ?m)))) (At [] ?m (hold_of mode) D [] None)
        \<or> (\<exists>res. decided io r [] 0 D res \<and> conform io r (Read 0 (\<lambda>raw. k (Some (dec_inode raw, ?m)))) (Gone res [(?m, hold_of mode, Some D)]))"
        using root [OF Nil] by (auto intro!: read_at)
    qed simp
    with Nil show ?thesis by simp
  next
    case (Cons x rest)
    have "conform io r (Lock Shared ?m (Read 0 (\<lambda>raw. traverse_steps mode (username r) k (x # rest) 0 (dec_inode raw) ?m))) (Idle (Some ?m))"
    proof (rule lock_root)
      fix D assume n: "node_at io [] 0 D"
      show "(Shared = Shared \<longrightarrow> firm D 0) \<and> conform io r (Read 0 (\<lambda>raw. traverse_steps mode (username r) k (x # rest) 0 (dec_inode raw) ?m)) (At [] ?m (hold_of Shared) D [] None)
        \<or> (\<exists>res. decided io r [] 0 D res \<and> conform io r (Read 0 (\<lambda>raw. traverse_steps mode (username r) k (x # rest) 0 (dec_inode raw) ?m)) (Gone res [(?m, hold_of Shared, Some D)]))"
      proof (cases "blocks_walk (username r) [] (x # rest) D 0")
        case True
        have "decided io r [] 0 D Error" using blocked_decided [OF laws rq _ True] Cons by simp
        moreover have "conform io r (traverse_steps mode (username r) k (x # rest) 0 (inode_at D 0) ?m) (Gone Error [(?m, Holds_shared, Some D)])"
          using blocked_steps [where k = k and m = ?m and q = "[]", OF laws k0] n True walked_nul [OF rq] Cons by (simp del: traverse_steps.simps)
        ultimately show ?thesis by (auto simp del: traverse_steps.simps intro!: read_gone [of ?m Holds_shared D])
      next
        case False
        then have "firm D 0" by (auto simp: blocks_walk_def firm_def)
        moreover have "conform io r (traverse_steps mode (username r) k (x # rest) 0 (inode_at D 0) ?m) (At [] ?m Holds_shared D [] None)"
          using conform_steps [OF laws rq k, of "[]" x rest ?m D] Cons n False by (simp del: traverse_steps.simps)
        ultimately show ?thesis by (auto simp del: traverse_steps.simps intro!: read_at)
      qed
    qed simp
    with Cons show ?thesis by (simp del: traverse_steps.simps)
  qed
qed

section \<open>FS_READBLOCK\<close>

text \<open>At the end of the walk the user sees the entry that the locked node holds.\<close>

lemma located_entry:
  assumes rq: "ready_request r" and loc: "located io (username r) (walked r) b D own rest s t"
    and ok: "\<not> blocks_walk (username r) (walked r) [] D b"
  shows "view_in io s (walked r) = Some (entry_at D b)" "visible (view_in io s) (username r) (walked r)"
proof -
  have ag: "agree D (image_of io (disk s)) b" "walk (child (image_of io (disk s))) 0 (walked r) = Some b"
    "prefix_ok (view_in io s) (username r) (walked r)" using loc by (simp_all add: located_def)
  show v: "view_in io s (walked r) = Some (entry_at D b)" using ag agree_node(2) [OF ag(1)] by (simp add: fs_view_def)
  have "owned_by (entry_at D b) = username r \<or> walked r = []"
    using ok ready_nul_free(1) [OF rq] by (auto simp: blocks_walk_def strcmp_eq_def entry_at_def c_str_id)
  then show "visible (view_in io s) (username r) (walked r)"
    using visible_split [OF ag(3), of "[]"] v by (auto simp: visible_def)
qed

lemma conform_readblock:
  assumes laws: "disk_laws io" and rq: "ready_request (FS_READBLOCK u p blk)"
  shows "conform io (FS_READBLOCK u p blk) (read_prog u p blk) (Idle None)"
proof (cases "p = [] \<or> FS_MAXFILEBLOCKS \<le> blk")
  case True
  then show ?thesis by (auto simp: read_prog_def spec_read_def intro!: return_idle)
next
  case False
  let ?r = "FS_READBLOCK u p blk"
  let ?k = "\<lambda>r. case r of
      None \<Rightarrow> Return Error
    | Some (ino, m) \<Rightarrow>
        if itype ino = CHR ''d'' then Unlock m (Return Error)
        else if isize ino \<le> blk then Unlock m (Return Error)
        else checked (at (blocks ino) blk) (\<lambda>b. Read b (\<lambda>bytes. Unlock m (Return (Out bytes))))"
  have un: "conform io ?r (Unlock m (Return res)) (Gone res [(m, h, d)])" for m res h d
    by (rule unlock_gone) (simp add: return_gone)
  have "\<exists>res. decided io ?r p (fst m) D res \<and> conform io ?r (?k (Some (inode_at D (fst m), m))) (Gone res [(m, Holds_shared, Some D)])"
    if n: "node_at io p (fst m) D" "\<not> blocks_walk u p [] D (fst m)" for m D
  proof -
    let ?i = "inode_at D (fst m)"
    note nf = node_at_facts [OF laws n(1)]
    let ?res = "if itype ?i = CHR ''d'' \<or> isize ?i \<le> blk then Error else Out (D (blocks ?i ! blk))"
    have "decided io ?r p (fst m) D ?res" unfolding decided_def
    proof (intro disjI1 allI impI)
      fix rest s t assume "located io (username ?r) p (fst m) D [] rest s t"
      with located_entry [OF rq, of io "fst m" D "[]" rest s t] n(2)
      have v: "view_in io s p = Some (entry_at D (fst m))" "visible (view_in io s) u p" by (simp_all add: walked_def)
      have "itype ?i \<noteq> CHR ''d'' \<Longrightarrow> length (used_blocks D (fst m)) = isize ?i \<and> (blk < isize ?i \<longrightarrow> used_blocks D (fst m) ! blk = blocks ?i ! blk)"
        using nf(3) by (simp add: used_blocks_def)
      with v False nf(3) show "spec_request (view_in io s) ?r = (?res, view_in io s)"
        by (auto simp: spec_read_def entry_at_def used_blocks_def)
    qed
    moreover have "conform io ?r (?k (Some (?i, m))) (Gone ?res [(m, Holds_shared, Some D)])"
    proof (cases "itype ?i = CHR ''d'' \<or> isize ?i \<le> blk")
      case True
      then show ?thesis using un by auto
    next
      case False
      then have "blocks ?i ! blk \<in> set (used_blocks D (fst m))" using used_nth [of blk D "fst m"] nf(3) by simp
      then have "conform io ?r (Read (blocks ?i ! blk) (\<lambda>bytes. Unlock m (Return (Out bytes)))) (Gone ?res [(m, Holds_shared, Some D)])"
        using False un by (intro read_gone [of m Holds_shared D]) auto
      with False nf(3) show ?thesis by (auto simp: at_def)
    qed
    ultimately show ?thesis by blast
  qed
  then have "continues io ?r Shared ?k" unfolding continues_def by (auto simp: walked_def return_gone)
  from conform_traverse [OF laws rq this] False show ?thesis by (auto simp: read_prog_def walked_def)
qed

end
