(* ===== verification/Fs_Commits.thy ===== *)
theory Fs_Commits
  imports Fs_Conformance
begin

text \<open>
  The handlers that change the tree keep to the protocol: each has one write that carries the
  request out, made under a unique lock of the node it changes.
\<close>

lemma located_node:
  assumes laws: "disk_laws io" and loc: "located io u q b D own rest s t" and I: "I = image_of io (disk s)"
  obtains n where "n \<in> set (nodes t)" "root n = b" "at_path I t q n" "fs_tree io s t" "free_disk_blocks s = own @ rest"
    "inode_at I b = inode_at D b" "used_blocks I b = used_blocks D b" "map I (used_blocks I b) = map D (used_blocks I b)"
    "\<And>x. x \<in> set own \<Longrightarrow> I x = D x" "child I b = child D b" "names I b = names D b"
proof -
  have s: "fs_tree io s t" "free_disk_blocks s = own @ rest" "walk (child I) 0 q = Some b" "agree D I b" "\<And>x. x \<in> set own \<Longrightarrow> I x = D x"
    using loc unfolding located_def I by auto
  have t: "rep I t" "root t = 0" "distinct (blocks_of I t)" using s(1) fs_tree_blocks(1) [OF s(1)] by (simp_all add: fs_tree_def I)
  obtain n where n: "n \<in> set (nodes t)" "root n = b" using walk_nodes [OF t(1)] s(3) t(2) by metis
  have "live_entries I b = live_entries D b" using node_cong(1) [of D b I] s(4) by (simp add: agree_def)
  then have "names I b = names D b" by (simp add: names_def)
  moreover have "at_path I t q n" using t n s(3) by (simp add: at_path_def)
  moreover have "map I (used_blocks I b) = map D (used_blocks I b)" using agree_used [OF s(4)] s(4) by (simp add: agree_def)
  ultimately show thesis using that [OF n] s agree_used [OF s(4)] agree_node(1) [OF s(4)] by (auto simp: agree_def)
qed

lemma unlock_done: "conform io r (Unlock m (Return res)) (Gone res [(m, h, d)])"
  by (rule unlock_gone) (simp add: return_gone)

section \<open>FS_WRITEBLOCK\<close>

lemma overwrite_commits:
  assumes laws: "disk_laws io" and rq: "ready_request (FS_WRITEBLOCK u p blk (Some bytes))" and blk: "p \<noteq> []" "blk < FS_MAXFILEBLOCKS"
    and ok: "\<not> blocks_walk u p [] D b" and reg: "itype (inode_at D b) \<noteq> CHR ''d''" "blk < isize (inode_at D b)"
    and len: "isize (inode_at D b) \<le> length (blocks (inode_at D b))"
  shows "commits io (FS_WRITEBLOCK u p blk (Some bytes)) p b D [] (blocks (inode_at D b) ! blk) bytes Done"
  unfolding commits_def
proof (intro conjI allI impI)
  let ?r = "FS_WRITEBLOCK u p blk (Some bytes)" and ?wb = "blocks (inode_at D b) ! blk"
  show lb: "length bytes = FS_BLOCKSIZE" using rq by (simp add: ready_request_def)
  have wb: "?wb \<in> set (used_blocks D b)" by (rule used_nth [of blk D b, OF reg(2) len])
  then show "?wb \<in> set (node_blocks D b)" by simp
  fix rest s t d' assume loc: "located io (username ?r) p b D [] rest s t" and d': "image_of io d' = (image_of io (disk s))(?wb := bytes)"
  let ?I = "image_of io (disk s)"
  obtain n where n: "n \<in> set (nodes t)" "root n = b" "at_path ?I t p n" "fs_tree io s t" "free_disk_blocks s = [] @ rest"
    "inode_at ?I b = inode_at D b" "used_blocks ?I b = used_blocks D b" "map ?I (used_blocks ?I b) = map D (used_blocks ?I b)" "child ?I b = child D b"
    using located_node [OF laws loc refl] by metis
  obtain d1 t' where "image_of io d1 = ?I(?wb := bytes)" "fs_tree io (s\<lparr>disk := d1\<rparr>) t'"
    using write_existing [OF laws n(4,1) refl, of ?wb bytes] reg(1) wb lb n by auto
  then have "fs_tree io \<lparr>disk = d', free_disk_blocks = rest\<rparr> t'" using d' n(5) by (simp add: fs_tree_def)
  then show "\<exists>t'. fs_tree io \<lparr>disk = d', free_disk_blocks = rest\<rparr> t'" by blast
  have v: "view_in io s p = Some (entry_at D b)" "visible (view_in io s) u p"
    using located_entry [OF rq, of io b D "[]" rest s t] loc ok by (simp_all add: walked_def)
  have mp: "map ?I (used_blocks D b) = map D (used_blocks D b)" using n(7,8) by simp
  have "fs_view (image_of io d') = (fs_view ?I)(p \<mapsto> Regular (c_str (owner (inode_at D b))) ((map D (used_blocks D b))[blk := bytes]))"
    using view_overwrite [OF laws n(4) refl n(3,1), of blk "image_of io d'" bytes] reg n(2,6,7) d' by (simp add: mp)
  with v blk reg len show "spec_request (view_in io s) ?r = (Done, fs_view (image_of io d'))"
    by (simp add: spec_write_def entry_at_def used_blocks_def)
  have "child ?I b = Map.empty" using reg(1) n(6) by (simp add: child_def live_entries_def)
  then show "child ?I b \<subseteq>\<^sub>m child (image_of io d') b" by simp
qed

lemma append_commits:
  assumes laws: "disk_laws io" and rq: "ready_request (FS_WRITEBLOCK u p blk (Some bytes))" and blk: "p \<noteq> []" "blk < FS_MAXFILEBLOCKS"
    and ok: "\<not> blocks_walk u p [] D b" and reg: "itype (inode_at D b) \<noteq> CHR ''d''" "blk = isize (inode_at D b)"
    and wf: "wf_inode (inode_at D b)" "isize (inode_at D b) \<le> length (blocks (inode_at D b))"
    and nb: "D nb = bytes" "nb < FS_DISKSIZE"
    and ino': "ino' = (inode_at D b)\<lparr>blocks := (blocks (inode_at D b))[isize (inode_at D b) := nb], isize := isize (inode_at D b) + 1\<rparr>"
  shows "commits io (FS_WRITEBLOCK u p blk (Some bytes)) p b D [nb] b (enc_inode ino') Done"
  unfolding commits_def
proof (intro conjI allI impI)
  let ?r = "FS_WRITEBLOCK u p blk (Some bytes)"
  have room: "isize (inode_at D b) < FS_MAXFILEBLOCKS" using blk reg(2) by simp
  show "length (enc_inode ino') = FS_BLOCKSIZE" using inodes.length_enc [OF wf_inode_append [OF wf(1) room nb(2)]] ino' by simp
  show "b \<in> set (node_blocks D b)" by simp
  fix rest s t d' assume loc: "located io (username ?r) p b D [nb] rest s t" and d': "image_of io d' = (image_of io (disk s))(b := enc_inode ino')"
  let ?I = "image_of io (disk s)"
  obtain n where n: "n \<in> set (nodes t)" "root n = b" "at_path ?I t p n" "fs_tree io s t" "free_disk_blocks s = [nb] @ rest"
    "inode_at ?I b = inode_at D b" "used_blocks ?I b = used_blocks D b" "map ?I (used_blocks ?I b) = map D (used_blocks ?I b)"
    "\<And>x. x \<in> set [nb] \<Longrightarrow> ?I x = D x"
    using located_node [OF laws loc refl] by metis
  have fr: "free_disk_blocks s = nb # rest" and same: "?I(nb := bytes) = ?I" using n(5) n(9) [of nb] nb(1) by auto
  have lb: "length bytes = FS_BLOCKSIZE" using rq by (simp add: ready_request_def)
  obtain d2 t' where "image_of io d2 = ?I(nb := bytes, b := enc_inode ino')" "fs_tree io (s\<lparr>disk := d2, free_disk_blocks := rest\<rparr>) t'"
    using append_block [OF laws n(4,1) refl _ fr lb, of ino'] reg(1) room ino' n(2,6) by auto
  then have "fs_tree io \<lparr>disk = d', free_disk_blocks = rest\<rparr> t'" using d' unfolding same by (simp add: fs_tree_def)
  then show "\<exists>t'. fs_tree io \<lparr>disk = d', free_disk_blocks = rest\<rparr> t'" by blast
  have v: "view_in io s p = Some (entry_at D b)" "visible (view_in io s) u p"
    using located_entry [OF rq, of io b D "[nb]" rest s t] loc ok by (simp_all add: walked_def)
  have mp: "map ?I (used_blocks D b) = map D (used_blocks D b)" using n(7,8) by simp
  have "fs_view (image_of io d') = (fs_view ?I)(p \<mapsto> Regular (c_str (owner (inode_at D b))) (map D (used_blocks D b) @ [bytes]))"
    using view_append [OF laws n(4) refl n(3,1) _ _ fr, of ino' "image_of io d'" bytes] reg(1) room ino' n(2,6,7) d' same by (simp add: mp)
  with v blk reg wf(2) show "spec_request (view_in io s) ?r = (Done, fs_view (image_of io d'))"
    by (simp add: spec_write_def entry_at_def used_blocks_def)
  have "child ?I b = Map.empty" using reg(1) n(6) by (simp add: child_def live_entries_def)
  then show "child ?I b \<subseteq>\<^sub>m child (image_of io d') b" by simp
qed

lemma decided_entry:
  assumes rq: "ready_request r" and ok: "\<not> blocks_walk (username r) (walked r) [] D b"
    and err: "\<And>v. v (walked r) = Some (entry_at D b) \<Longrightarrow> spec_request v r = (Error, v)"
  shows "decided io r (walked r) b D Error"
  unfolding decided_def using located_entry(1) [OF rq _ ok] err by blast

lemma blocks_walk_cong: "D b = D' b \<Longrightarrow> blocks_walk u q [] D b = blocks_walk u q [] D' b"
  by (simp add: blocks_walk_def)

lemma conform_append:
  assumes laws: "disk_laws io" and rq: "ready_request (FS_WRITEBLOCK u p blk (Some bytes))" and blk: "p \<noteq> []" "blk < FS_MAXFILEBLOCKS"
    and n: "node_at io p (fst m) D" "\<not> blocks_walk u p [] D (fst m)"
    and reg: "itype (inode_at D (fst m)) \<noteq> CHR ''d''" "blk = isize (inode_at D (fst m))"
    and fin: "\<And>b. fin b = Write b bytes (Make_Unique m (Write (fst m) (enc_inode ((inode_at D (fst m))\<lparr>
        blocks := (blocks (inode_at D (fst m)))[isize (inode_at D (fst m)) := b], isize := isize (inode_at D (fst m)) + 1\<rparr>)) (Unlock m (Return Done))))"
  shows "conform io (FS_WRITEBLOCK u p blk (Some bytes)) (Free_List tl (\<lambda>free. case free of [] \<Rightarrow> Unlock m (Return Error) | b # _ \<Rightarrow> fin b))
    (At p m Holds_upgradable D [] None)"
proof (rule free_take, goal_cases)
  case (3 b fl x)
  let ?r = "FS_WRITEBLOCK u p blk (Some bytes)"
  have "conform io ?r (Make_Unique m (Write (fst m) (enc_inode ((inode_at D (fst m))\<lparr>
      blocks := (blocks (inode_at D (fst m)))[isize (inode_at D (fst m)) := b], isize := isize (inode_at D (fst m)) + 1\<rparr>)) (Unlock m (Return Done))))
    (At p m Holds_upgradable (D(b := x, b := bytes)) [b] None)"
    by (intro unique_at write_commit [OF _ unlock_done] append_commits [OF laws rq blk])
      (use n(2) reg 3 node_at_facts [OF laws n(1)] blocks_walk_cong [of D "fst m" "D(b := bytes)"] in auto)
  with rq show ?case by (auto simp: fin ready_request_def intro: write_own)
qed (auto simp: refusable_def unlock_done)

lemma conform_writeblock:
  assumes laws: "disk_laws io" and rq: "ready_request (FS_WRITEBLOCK u p blk (Some bytes))"
  shows "conform io (FS_WRITEBLOCK u p blk (Some bytes)) (write_prog u p blk (Some bytes)) (Idle None)"
proof (cases "p = [] \<or> FS_MAXFILEBLOCKS \<le> blk")
  case True
  then show ?thesis by (auto simp: write_prog_def spec_write_def intro!: return_idle)
next
  case False
  let ?r = "FS_WRITEBLOCK u p blk (Some bytes)"
  let ?k = "\<lambda>r. case r of
          None \<Rightarrow> Return Error
        | Some (ino, m) \<Rightarrow>
            if itype ino = CHR ''d'' then Unlock m (Return Error)
            else if blk < isize ino then
              checked (at (blocks ino) blk) (\<lambda>b. checked (Some bytes) (\<lambda>bytes.
                Make_Unique m (Write b bytes (Unlock m (Return Done)))))
            else if blk = isize ino then
              Free_List tl (\<lambda>free. case free of
                [] \<Rightarrow> Unlock m (Return Error)
              | b # _ \<Rightarrow>
                  checked (cassert (isize ino < length (blocks ino))) (\<lambda>_.
                    let ino' = ino\<lparr>blocks := (blocks ino)[isize ino := b], isize := isize ino + 1\<rparr> in
                    checked (Some bytes) (\<lambda>bytes.
                      Write b bytes (Make_Unique m (Write (fst m) (enc_inode ino') (Unlock m (Return Done)))))))
            else Unlock m (Return Error)"
  have "conform io ?r (?k (Some (inode_at D (fst m), m))) (At p m Holds_upgradable D [] None)"
    if n: "node_at io p (fst m) D" "\<not> blocks_walk u p [] D (fst m)" for m D
  proof -
    let ?i = "inode_at D (fst m)"
    note nf = node_at_facts [OF laws n(1)]
    have err: "conform io ?r (Unlock m (Return Error)) (At p m Holds_upgradable D [] None)" if "itype ?i = CHR ''d'' \<or> isize ?i < blk"
    proof (rule unlock_at [OF _ return_gone])
      show "decided io ?r p (fst m) D Error"
        using decided_entry [OF rq, of D "fst m" io] n(2) that nf(3) False
        by (auto simp: walked_def spec_write_def entry_at_def used_blocks_def)
    qed
    consider "itype ?i = CHR ''d'' \<or> isize ?i < blk" | "itype ?i \<noteq> CHR ''d''" "blk < isize ?i" | "itype ?i \<noteq> CHR ''d''" "blk = isize ?i" by linarith
    then show ?thesis
    proof cases
      case 1
      with err show ?thesis by auto
    next
      case 2
      have "conform io ?r (Write (blocks ?i ! blk) bytes (Unlock m (Return Done))) (At p m Holds_unique D [] None)"
        by (rule write_commit [OF _ unlock_done]) (use overwrite_commits [OF laws rq] False n(2) 2 nf(3) in auto)
      then show ?thesis using 2 nf(3) by (auto simp: at_def intro: unique_at)
    next
      case 3
      have lt: "isize ?i < length (blocks ?i)" using 3 False nf(2) by (simp add: wf_inode_def)
      note conform_append [OF laws rq _ _ n 3 refl]
      with 3 lt False show ?thesis by (simp add: Let_def cong: list.case_cong)
    qed
  qed
  then have "continues io ?r Upgradable ?k" unfolding continues_def by (auto simp: walked_def return_gone)
  from conform_traverse [OF laws rq this] False show ?thesis by (auto simp: write_prog_def walked_def)
qed

section \<open>FS_CREATE\<close>

lemma conform_scan_loop:
  assumes rd: "may_read io r ph b D" and len: "isize (inode_at D b) \<le> length (blocks (inode_at D b))"
    and found: "\<And>j. j < isize (inode_at D b) \<Longrightarrow> find_slot (dec_direntries (D (blocks (inode_at D b) ! j))) x \<noteq> None \<Longrightarrow> conform io r (k (Inl ())) ph"
    and absent: "\<And>sp. (\<And>j. j < isize (inode_at D b) \<Longrightarrow> find_slot (dec_direntries (D (blocks (inode_at D b) ! j))) x = None) \<Longrightarrow>
      (case sp of None \<Rightarrow> True | Some q \<Rightarrow> spot_ok D (set (used_blocks D b)) q) \<Longrightarrow> conform io r (k (Inr sp)) ph"
  shows "\<lbrakk>i + n = isize (inode_at D b); \<And>j. j < i \<Longrightarrow> find_slot (dec_direntries (D (blocks (inode_at D b) ! j))) x = None;
      case sp of None \<Rightarrow> True | Some q \<Rightarrow> spot_ok D (set (used_blocks D b)) q\<rbrakk>
    \<Longrightarrow> conform io r (scan_prog (inode_at D b) x k n i sp) ph"
proof (induction n arbitrary: i sp)
  case 0
  then show ?case using absent by simp
next
  case (Suc n)
  let ?db = "blocks (inode_at D b) ! i" and ?es = "dec_direntries (D (blocks (inode_at D b) ! i))"
  have i: "i < isize (inode_at D b)" using Suc.prems(1) by simp
  note db = used_nth [of i D b, OF i len]
  let ?sp = "case sp of Some sp \<Rightarrow> Some sp | None \<Rightarrow> map_option (\<lambda>j. (?db, j, ?es)) (first_free ?es)"
  have "conform io r (if find_slot ?es x \<noteq> None then k (Inl ()) else scan_prog (inode_at D b) x k n (Suc i) ?sp) ph"
  proof (cases "find_slot ?es x")
    case None
    have "conform io r (scan_prog (inode_at D b) x k n (Suc i) ?sp) ph"
    proof (rule Suc.IH)
      show "find_slot (dec_direntries (D (blocks (inode_at D b) ! j))) x = None" if "j < Suc i" for j
        using that Suc.prems(2) None by (cases "j = i") auto
      show "case ?sp of None \<Rightarrow> True | Some q \<Rightarrow> spot_ok D (set (used_blocks D b)) q"
        using Suc.prems(3) first_free_spec [of ?es] db by (auto simp: spot_ok_def split: option.splits)
    qed (use Suc.prems(1) in simp)
    with None show ?thesis by simp
  qed (use found i in auto)
  then have "conform io r (Read ?db (\<lambda>raw. let es = dec_direntries raw in
      if find_slot es x \<noteq> None then k (Inl ())
      else scan_prog (inode_at D b) x k n (Suc i) (case sp of Some sp \<Rightarrow> Some sp | None \<Rightarrow> map_option (\<lambda>j. (?db, j, es)) (first_free es)))) ph"
    using rd db unfolding may_read_def Let_def by auto
  then show ?case using i len by (simp add: at_def)
qed

text \<open>The parent of the new entry, as the users see it.\<close>

lemma located_parent:
  assumes rq: "ready_request r" and r: "is_FS_CREATE r \<or> is_FS_DELETE r" "path r \<noteq> []"
    and laws: "disk_laws io" and loc: "located io (username r) (walked r) b D own rest s t"
  shows "view_in io s (path r) = map_option (entry_at (image_of io (disk s))) (child D b (last (path r)))"
proof -
  obtain n where n: "root n = b" "at_path (image_of io (disk s)) t (walked r) n" "child (image_of io (disk s)) b = child D b"
    using located_node [OF laws loc refl] by metis
  with view_in_dir [OF r(2), of "image_of io (disk s)" t n] r(1) show ?thesis by (simp add: walked_def)
qed

lemma create_view:
  assumes rq: "ready_request (FS_CREATE u p ty)" and p: "p \<noteq> []" and laws: "disk_laws io"
    and loc: "located io u (butlast p) b D own rest s t" and ok: "\<not> blocks_walk u (butlast p) [] D b"
    and dir: "itype (inode_at D b) = CHR ''d''" and ab: "child D b (last p) = None"
    and v: "fs_view J = (view_in io s)(butlast p @ [last p] \<mapsto> new_entry u ty)"
  shows "spec_request (view_in io s) (FS_CREATE u p ty) = (Done, fs_view J)"
proof -
  let ?r = "FS_CREATE u p ty"
  have l: "located io (username ?r) (walked ?r) b D own rest s t" using loc by (simp add: walked_def)
  have "view_in io s (butlast p) = Some (entry_at D b)" "visible (view_in io s) u (butlast p)"
    using located_entry [OF rq l] ok by (simp_all add: walked_def)
  moreover have "view_in io s p = None" using located_parent [OF rq _ _ laws l] p ab by simp
  ultimately show ?thesis using p dir v by (simp add: spec_create_def entry_at_def new_entry_def)
qed

lemma slot_commits:
  assumes laws: "disk_laws io" and rq: "ready_request (FS_CREATE u p ty)" and p: "p \<noteq> []"
    and ok: "\<not> blocks_walk u (butlast p) [] D b" and dir: "itype (inode_at D b) = CHR ''d''" and ab: "child D b (last p) = None"
    and spot: "spot_ok D (set (used_blocks D b)) (sb, j, es)" and nm: "length nm = FS_MAXFILENAME + 1" "c_str nm = last p"
    and new: "D nb = enc_inode new" "wf_inode new" "isize new = 0" "itype new = ty" "c_str (owner new) = u"
    and len: "wf_direntries es" "nb < FS_DISKSIZE" and es': "es' = es[j := \<lparr>dname = nm, inode_block = nb\<rparr>]"
  shows "commits io (FS_CREATE u p ty) (butlast p) b D [nb] sb (enc_direntries es') Done"
  unfolding commits_def
proof (intro conjI allI impI)
  let ?r = "FS_CREATE u p ty"
  show "length (enc_direntries es') = FS_BLOCKSIZE"
    using direntries.length_enc [OF wf_new_entry [OF len(1), of "\<lparr>dname = nm, inode_block = nb\<rparr>" j]] nm(1) len(2) es' by simp
  show "sb \<in> set (node_blocks D b)" using spot by (simp add: spot_ok_def)
  fix rest s t d' assume loc: "located io (username ?r) (butlast p) b D [nb] rest s t"
    and d': "image_of io d' = (image_of io (disk s))(sb := enc_direntries es')"
  let ?I = "image_of io (disk s)"
  obtain n where n: "n \<in> set (nodes t)" "root n = b" "at_path ?I t (butlast p) n" "fs_tree io s t" "free_disk_blocks s = [nb] @ rest"
    "inode_at ?I b = inode_at D b" "used_blocks ?I b = used_blocks D b" "map ?I (used_blocks ?I b) = map D (used_blocks ?I b)"
    "\<And>x. x \<in> set [nb] \<Longrightarrow> ?I x = D x" "child ?I b = child D b" "names ?I b = names D b"
    using located_node [OF laws loc refl] by metis
  have fr: "free_disk_blocks s = nb # rest" and same: "?I(nb := enc_inode new) = ?I" using n(5) n(9) [of nb] new(1) by auto
  have isd: "itype (inode_at ?I (root n)) = CHR ''d''" using dir n(2,6) by simp
  have tyn: "itype new \<in> {CHR ''f'', CHR ''d''}" using rq new(4) by (simp add: ready_request_def)
  have sp: "spot_ok ?I (set (used_blocks ?I (root n))) (sb, j, es)" using spot n(2,7,8) by (auto simp: spot_ok_def)
  have nn: "c_str nm \<notin> set (names ?I (root n))" using ab n(2,11) nm(2) by (simp add: child_None)
  obtain d2 t' where d2: "image_of io d2 = ?I(nb := enc_inode new, sb := enc_direntries es')" "fs_tree io (s\<lparr>disk := d2, free_disk_blocks := rest\<rparr>) t'"
    "mset (live_entries (image_of io d2) b) = add_mset \<lparr>dname = nm, inode_block = nb\<rparr> (mset (live_entries ?I b))"
    "inode_at (image_of io d2) nb = new" "same_head (inode_at (image_of io d2) b) (inode_at ?I b)"
    using create_in_slot [OF laws n(4,1) refl isd sp fr new(2,3) tyn nm(1) nn es'] unfolding n(2) by blast
  have eq: "image_of io d' = image_of io d2" using d' d2(1) unfolding same by simp
  then have "fs_tree io \<lparr>disk = d', free_disk_blocks = rest\<rparr> t'" using d2(2) by (simp add: fs_tree_def)
  then show "\<exists>t'. fs_tree io \<lparr>disk = d', free_disk_blocks = rest\<rparr> t'" by blast
  have ok': "inode_ok ?I (root n)" using node_facts(3) [OF laws n(4,1)] .
  have tb: "nb \<notin> set (blocks_of ?I t)" using fs_tree_blocks(3) [OF n(4)] fr by auto
  then have tch: "touches ?I (image_of io d2) t (root n)" using spot n(2,7) by (auto simp: touches_def d2(1) spot_ok_def)
  have "fs_view (image_of io d2) = (fs_view ?I)(butlast p @ [last p] \<mapsto> new_entry u ty)"
    by (rule view_new_entry [OF n(3) _ ok' tch]) (use d2 n(2,6) dir nm nn new in auto)
  then show "spec_request (view_in io s) ?r = (Done, fs_view (image_of io d'))"
    using create_view [OF rq p laws _ ok dir ab] loc eq by simp
  have "child (image_of io d2) b = (child ?I b)(last p \<mapsto> nb)"
    using child_add [OF d2(3)] ok' nn n(2) nm(2) by (simp add: inode_ok_def)
  then show "child ?I b \<subseteq>\<^sub>m child (image_of io d') b" using ab n(10) eq by (auto simp: map_le_def)
qed

lemma new_block_commits:
  assumes laws: "disk_laws io" and rq: "ready_request (FS_CREATE u p ty)" and p: "p \<noteq> []"
    and ok: "\<not> blocks_walk u (butlast p) [] D b" and dir: "itype (inode_at D b) = CHR ''d''" and ab: "child D b (last p) = None"
    and room: "isize (inode_at D b) < FS_MAXFILEBLOCKS" and wf: "wf_inode (inode_at D b)"
    and nm: "length nm = FS_MAXFILENAME + 1" "c_str nm = last p"
    and new: "D nb = enc_inode new" "wf_inode new" "isize new = 0" "itype new = ty" "c_str (owner new) = u"
    and eb: "D eb = enc_direntries (fresh_entries \<lparr>dname = nm, inode_block = nb\<rparr>)" "eb < FS_DISKSIZE"
    and dir': "dir' = (inode_at D b)\<lparr>blocks := (blocks (inode_at D b))[isize (inode_at D b) := eb], isize := isize (inode_at D b) + 1\<rparr>"
  shows "commits io (FS_CREATE u p ty) (butlast p) b D [eb, nb] b (enc_inode dir') Done"
  unfolding commits_def
proof (intro conjI allI impI)
  let ?r = "FS_CREATE u p ty" and ?es = "fresh_entries \<lparr>dname = nm, inode_block = nb\<rparr>"
  show "length (enc_inode dir') = FS_BLOCKSIZE" using inodes.length_enc [OF wf_inode_append [OF wf room eb(2)]] dir' by simp
  show "b \<in> set (node_blocks D b)" by simp
  fix rest s t d' assume loc: "located io (username ?r) (butlast p) b D [eb, nb] rest s t"
    and d': "image_of io d' = (image_of io (disk s))(b := enc_inode dir')"
  let ?I = "image_of io (disk s)"
  obtain n where n: "n \<in> set (nodes t)" "root n = b" "at_path ?I t (butlast p) n" "fs_tree io s t" "free_disk_blocks s = [eb, nb] @ rest"
    "inode_at ?I b = inode_at D b" "used_blocks ?I b = used_blocks D b" "map ?I (used_blocks ?I b) = map D (used_blocks ?I b)"
    "\<And>x. x \<in> set [eb, nb] \<Longrightarrow> ?I x = D x" "child ?I b = child D b" "names ?I b = names D b"
    using located_node [OF laws loc refl] by metis
  let ?s = "s\<lparr>free_disk_blocks := nb # eb # rest\<rparr>"
  have fs: "fs_tree io ?s t" by (rule fs_tree_perm [OF n(4)]) (use n(5) in simp_all)
  have same: "?I(eb := enc_direntries ?es, nb := enc_inode new) = ?I"
    using n(9) [of nb] n(9) [of eb] new(1) eb(1) by (auto simp: fun_eq_iff)
  have isd: "itype (inode_at ?I (root n)) = CHR ''d''" using dir n(2,6) by simp
  have tyn: "itype new \<in> {CHR ''f'', CHR ''d''}" using rq new(4) by (simp add: ready_request_def)
  have nn: "c_str nm \<notin> set (names ?I (root n))" using ab n(2,11) nm(2) by (simp add: child_None)
  have pre: "?I = image_of io (disk ?s)" "free_disk_blocks ?s = nb # eb # rest" "isize (inode_at ?I (root n)) < FS_MAXFILEBLOCKS"
    "dir' = (inode_at ?I (root n))\<lparr>blocks := (blocks (inode_at ?I (root n)))[isize (inode_at ?I (root n)) := eb], isize := isize (inode_at ?I (root n)) + 1\<rparr>"
    using room dir' n(2,6) by simp_all
  obtain d2 t' where d2: "image_of io d2 = ?I(eb := enc_direntries ?es, nb := enc_inode new, b := enc_inode dir')"
    "fs_tree io (?s\<lparr>disk := d2, free_disk_blocks := rest\<rparr>) t'"
    "mset (live_entries (image_of io d2) b) = add_mset \<lparr>dname = nm, inode_block = nb\<rparr> (mset (live_entries ?I b))"
    "inode_at (image_of io d2) nb = new" "same_head (inode_at (image_of io d2) b) (inode_at ?I b)"
    using create_in_new_block [OF laws fs n(1) pre(1) isd pre(3,2) new(2,3) tyn nm(1) nn pre(4) refl] unfolding n(2) by blast
  have eq: "image_of io d' = image_of io d2" using d' d2(1) unfolding same by simp
  then have "fs_tree io \<lparr>disk = d', free_disk_blocks = rest\<rparr> t'" using d2(2) by (simp add: fs_tree_def)
  then show "\<exists>t'. fs_tree io \<lparr>disk = d', free_disk_blocks = rest\<rparr> t'" by blast
  have ok': "inode_ok ?I (root n)" using node_facts(3) [OF laws n(4,1)] .
  have tb: "nb \<notin> set (blocks_of ?I t)" "eb \<notin> set (blocks_of ?I t)" using fs_tree_blocks(3) [OF n(4)] n(5) by auto
  then have tch: "touches ?I (image_of io d2) t (root n)" using n(2) by (auto simp: touches_def d2(1))
  have "fs_view (image_of io d2) = (fs_view ?I)(butlast p @ [last p] \<mapsto> new_entry u ty)"
    by (rule view_new_entry [OF n(3) _ ok' tch]) (use d2 n(2,6) dir nm nn new in auto)
  then show "spec_request (view_in io s) ?r = (Done, fs_view (image_of io d'))"
    using create_view [OF rq p laws _ ok dir ab] loc eq by simp
  have "child (image_of io d2) b = (child ?I b)(last p \<mapsto> nb)"
    using child_add [OF d2(3)] ok' nn n(2) nm(2) by (simp add: inode_ok_def)
  then show "child ?I b \<subseteq>\<^sub>m child (image_of io d') b" using ab n(10) eq by (auto simp: map_le_def)
qed

text \<open>What the handler has learnt of the directory stays true of an image that agrees with it.\<close>

lemma agree_facts:
  assumes ag: "agree D D' b"
  shows "inode_at D' b = inode_at D b" "child D' b = child D b" "used_blocks D' b = used_blocks D b"
    "blocks_walk u q [] D' b = blocks_walk u q [] D b"
    "spot_ok D (set (used_blocks D b)) sp \<Longrightarrow> spot_ok D' (set (used_blocks D' b)) sp"
  using ag agree_node(1) [OF ag] agree_used [OF ag] by (auto simp: agree_def blocks_walk_def spot_ok_def)

lemma node_entries:
  assumes laws: "disk_laws io" and at: "node_at io q b D" and db: "db \<in> set (used_blocks D b)"
  shows "wf_direntries (dec_direntries (D db))"
proof -
  obtain s t where "fs_tree io s t" "D = image_of io (disk s)" using at unfolding node_at_def by blast
  with direntries.read_struct [OF laws, of db "disk s"] node_at_facts(4) [OF laws at, of db] db show ?thesis by simp
qed

lemma conform_slot:
  assumes laws: "disk_laws io" and rq: "ready_request (FS_CREATE u p ty)" and p: "p \<noteq> []" and at: "node_at io (butlast p) (fst m) D"
    and ok: "\<not> blocks_walk u (butlast p) [] D (fst m)" and dir: "itype (inode_at D (fst m)) = CHR ''d''" and ab: "child D (fst m) (last p) = None"
    and spot: "spot_ok D (set (used_blocks D (fst m))) (sb, j, es)"
    and nm: "length nm = FS_MAXFILENAME + 1" "c_str nm = last p"
    and new: "wf_inode new" "isize new = 0" "itype new = ty" "c_str (owner new) = u"
    and nb: "nb \<notin> set (node_blocks D (fst m))" "nb < FS_DISKSIZE"
  shows "conform io (FS_CREATE u p ty) (Write nb (enc_inode new) (Make_Unique m (Write sb
      (enc_direntries (es[j := \<lparr>dname = nm, inode_block = nb\<rparr>])) (Unlock m (Return Done)))))
    (At (butlast p) m Holds_upgradable (D(nb := x)) [nb] None)"
proof -
  let ?D = "D(nb := x, nb := enc_inode new)"
  have "agree D ?D (fst m)" using nb(1) by (auto simp: agree_def)
  note ag = agree_facts [OF this]
  have "wf_direntries es" using node_entries [OF laws at] spot by (auto simp: spot_ok_def)
  then have "commits io (FS_CREATE u p ty) (butlast p) (fst m) ?D [nb] sb (enc_direntries (es[j := \<lparr>dname = nm, inode_block = nb\<rparr>])) Done"
    using slot_commits [OF laws rq p, of ?D "fst m" sb j es nm nb new] ok dir ab nm new nb ag(1-4) ag(5) [OF spot] by simp
  from write_own [OF _ _ unique_at [OF write_commit [OF this unlock_done]]] inodes.length_enc [OF new(1)] show ?thesis by simp
qed

lemma conform_new_block:
  assumes laws: "disk_laws io" and rq: "ready_request (FS_CREATE u p ty)" and p: "p \<noteq> []" and at: "node_at io (butlast p) (fst m) D"
    and ok: "\<not> blocks_walk u (butlast p) [] D (fst m)" and dir: "itype (inode_at D (fst m)) = CHR ''d''" and ab: "child D (fst m) (last p) = None"
    and room: "isize (inode_at D (fst m)) < FS_MAXFILEBLOCKS"
    and nm: "length nm = FS_MAXFILENAME + 1" "c_str nm = last p"
    and new: "wf_inode new" "isize new = 0" "itype new = ty" "c_str (owner new) = u"
    and nb: "nb \<notin> set (node_blocks D (fst m))" "nb < FS_DISKSIZE"
    and eb: "eb \<notin> set (node_blocks D (fst m))" "eb < FS_DISKSIZE" "eb \<noteq> nb"
    and dir': "dir' = (inode_at D (fst m))\<lparr>blocks := (blocks (inode_at D (fst m)))[isize (inode_at D (fst m)) := eb], isize := isize (inode_at D (fst m)) + 1\<rparr>"
  shows "conform io (FS_CREATE u p ty) (Write eb (enc_direntries (fresh_entries \<lparr>dname = nm, inode_block = nb\<rparr>))
      (Write nb (enc_inode new) (Make_Unique m (Write (fst m) (enc_inode dir') (Unlock m (Return Done))))))
    (At (butlast p) m Holds_upgradable (D(nb := x, eb := y)) [eb, nb] None)"
proof -
  let ?D = "D(nb := x, eb := y, eb := enc_direntries (fresh_entries \<lparr>dname = nm, inode_block = nb\<rparr>), nb := enc_inode new)"
  have "agree D ?D (fst m)" using nb(1) eb(1) by (auto simp: agree_def)
  note ag = agree_facts [OF this]
  have com: "commits io (FS_CREATE u p ty) (butlast p) (fst m) ?D [eb, nb] (fst m) (enc_inode dir') Done"
    using new_block_commits [OF laws rq p, of ?D "fst m" nm nb new eb dir'] ok dir ab room nm new nb eb dir' node_at_facts(2) [OF laws at] ag(1-4)
    by simp
  have len: "length (enc_direntries (fresh_entries \<lparr>dname = nm, inode_block = nb\<rparr>)) = FS_BLOCKSIZE"
    using direntries.length_enc [OF wf_fresh_entries [of "\<lparr>dname = nm, inode_block = nb\<rparr>"]] nm(1) nb(2) by simp
  from write_own [OF _ _ write_own [OF _ _ unique_at [OF write_commit [OF com unlock_done]]]] inodes.length_enc [OF new(1)] len
  show ?thesis by simp
qed

lemma conform_create_commit:
  assumes laws: "disk_laws io" and rq: "ready_request (FS_CREATE u p ty)" and p: "p \<noteq> []" and at: "node_at io (butlast p) (fst m) D"
    and ok: "\<not> blocks_walk u (butlast p) [] D (fst m)" and dir: "itype (inode_at D (fst m)) = CHR ''d''" and ab: "child D (fst m) (last p) = None"
    and spot: "case sp of None \<Rightarrow> True | Some q \<Rightarrow> spot_ok D (set (used_blocks D (fst m))) q" and junk: "wf_inode junk"
  shows "conform io (FS_CREATE u p ty) (create_commit_prog junk u (last p) ty (inode_at D (fst m)) m sp) (At (butlast p) m Holds_upgradable D [] None)"
  unfolding create_commit_prog_def
proof (rule free_take, goal_cases)
  case (3 nb fl x)
  let ?r = "FS_CREATE u p ty" and ?i = "inode_at D (fst m)"
  note nb = 3(1,3)
  obtain own where own: "strcpy (owner junk) u = Some own" "c_str own = u" "wf_inode (junk\<lparr>isize := 0, itype := ty, owner := own\<rparr>)"
    using new_inode_wf [OF junk, of u ty] ready_names(1) [OF rq] by auto
  let ?new = "junk\<lparr>isize := 0, itype := ty, owner := own\<rparr>"
  have new: "wf_inode ?new" "isize ?new = 0" "itype ?new = ty" "c_str (owner ?new) = u" using own by simp_all
  have name: "good_name (last p)" using ready_names(2) [OF rq] p by simp
  note nf = node_at_facts [OF laws at]
  show ?case
  proof (cases sp)
    case (Some q)
    obtain sb j es where q: "q = (sb, j, es)" by (cases q)
    have sp': "spot_ok D (set (used_blocks D (fst m))) (sb, j, es)" using spot Some q by simp
    then have "length (dname (es ! j)) = FS_MAXFILENAME + 1"
      using node_entries [OF laws at, of sb] by (auto simp: spot_ok_def wf_direntries_def wf_direntry_def)
    then obtain nm where "strcpy (dname (es ! j)) (last p) = Some nm" "length nm = FS_MAXFILENAME + 1" "c_str nm = last p"
      using name_fits [OF _ name] by metis
    with conform_slot [OF laws rq p at ok dir ab sp' _ _ new nb, of nm x] own(1) Some q show ?thesis by simp
  next
    case None
    show ?thesis
    proof (cases "isize ?i = FS_MAXFILEBLOCKS")
      case True
      have "inode_at (D(nb := x)) (fst m) = ?i" using nb(1) by simp
      then have "decided io ?r (butlast p) (fst m) (D(nb := x)) Error" using True by (simp add: decided_def)
      then have "conform io ?r (Free_List (\<lambda>free. nb # free) (\<lambda>_. Unlock m (Return Error))) (At (butlast p) m Holds_upgradable (D(nb := x)) [nb] None)"
        by (intro free_back unlock_at [OF _ return_gone]) simp_all
      with True None own(1) show ?thesis by simp
    next
      case False
      then have room: "isize ?i < FS_MAXFILEBLOCKS" "isize ?i < length (blocks ?i)" using nf(1,2) by (auto simp: inode_ok_def wf_inode_def)
      obtain nm where nm: "strcpy (dname empty_direntry) (last p) = Some nm" "length nm = FS_MAXFILENAME + 1" "c_str nm = last p"
        using name_fits [OF _ name, of "dname empty_direntry"] by (auto simp: empty_direntry_def)
      let ?es = "\<lambda>eb. fresh_entries \<lparr>dname = nm, inode_block = nb\<rparr>"
      let ?fin = "\<lambda>eb. Write eb (enc_direntries (?es eb)) (Write nb (enc_inode ?new) (Make_Unique m (Write (fst m)
        (enc_inode (?i\<lparr>blocks := (blocks ?i)[isize ?i := eb], isize := isize ?i + 1\<rparr>)) (Unlock m (Return Done)))))"
      have "conform io ?r (Free_List (\<lambda>free. case free of [] \<Rightarrow> [nb] | _ # free' \<Rightarrow> free')
          (\<lambda>free. case free of [] \<Rightarrow> Unlock m (Return Error) | eb # _ \<Rightarrow> ?fin eb)) (At (butlast p) m Holds_upgradable (D(nb := x)) [nb] None)"
      proof (rule free_take)
        fix eb fl y assume eb: "eb \<notin> set (node_blocks (D(nb := x)) (fst m))" "eb \<notin> set [nb]" "eb < FS_DISKSIZE"
        have "agree D (D(nb := x)) (fst m)" using nb(1) by (auto simp: agree_def)
        from eb(1) [unfolded agree_used [OF this]] have "eb \<notin> set (node_blocks D (fst m))" .
        with eb conform_new_block [OF laws rq p at ok dir ab room(1) nm(2,3) new nb, of eb _ x y]
        show "conform io ?r (case eb # fl of [] \<Rightarrow> Unlock m (Return Error) | eb # _ \<Rightarrow> ?fin eb)
          (At (butlast p) m Holds_upgradable (D(nb := x, eb := y)) [eb, nb] None)" by simp
      qed (auto simp: refusable_def unlock_done)
      with False None own(1) nm(1) room(2) show ?thesis by (simp add: Let_def fresh_entries_def cong: list.case_cong)
    qed
  qed
qed (auto simp: unlock_done refusable_def)

text \<open>The handlers that lock the parent of the last component.\<close>

lemma conform_traverse_parent:
  assumes laws: "disk_laws io" and rq: "ready_request r" and r: "is_FS_CREATE r \<or> is_FS_DELETE r"
    and fail: "conform io r (k None) (Gone Error [])"
    and go: "\<And>m D. node_at io (butlast (path r)) (fst m) D \<Longrightarrow> \<not> blocks_walk (username r) (butlast (path r)) [] D (fst m) \<Longrightarrow>
      conform io r (k (Some (inode_at D (fst m), m))) (At (butlast (path r)) m Holds_upgradable D [] None)"
  shows "conform io r (traverse_prog Upgradable (butlast (path r)) (username r) k) (Idle None)"
proof -
  have w: "walked r = butlast (path r)" using r by (simp add: walked_def)
  have "continues io r Upgradable k" unfolding continues_def w using fail go by auto
  from conform_traverse [OF laws rq this] w show ?thesis by simp
qed

lemma conform_create:
  assumes laws: "disk_laws io" and rq: "ready_request (FS_CREATE u p ty)" and junk: "wf_inode junk"
  shows "conform io (FS_CREATE u p ty) (create_prog junk u p ty) (Idle None)"
proof (cases "p = []")
  case True
  then show ?thesis by (auto simp: create_prog_def spec_create_def intro!: return_idle)
next
  case False
  let ?r = "FS_CREATE u p ty"
  have w: "walked ?r = butlast p" by (simp add: walked_def)
  have nul: "NUL \<notin> set (last p)" using ready_nul_free(3) [OF rq] False by simp
  let ?k = "\<lambda>r. case r of
            None \<Rightarrow> Return Error
          | Some (dir, m) \<Rightarrow>
              if itype dir = CHR ''f'' then Unlock m (Return Error)
              else scan_prog dir (last p) (\<lambda>sc. case sc of
                  Inl _ \<Rightarrow> Unlock m (Return Error)
                | Inr spot \<Rightarrow> create_commit_prog junk u (last p) ty dir m spot) (isize dir) 0 None"
  have go: "conform io ?r (?k (Some (inode_at D (fst m), m))) (At (butlast p) m Holds_upgradable D [] None)"
    if n: "node_at io (butlast p) (fst m) D" "\<not> blocks_walk u (butlast p) [] D (fst m)" for m D
  proof (cases "itype (inode_at D (fst m)) = CHR ''f''")
    case True
    have "decided io ?r (butlast p) (fst m) D Error"
      using decided_entry [OF rq, of D "fst m" io] n(2) True w by (simp add: spec_create_def entry_at_def)
    with True show ?thesis by (simp add: unlock_at return_gone)
  next
    case nofile: False
    note nf = node_at_facts [OF laws n(1)]
    have dir: "itype (inode_at D (fst m)) = CHR ''d''" using nofile nf(1) by (auto simp: inode_ok_def)
    have "conform io ?r (scan_prog (inode_at D (fst m)) (last p) (\<lambda>sc. case sc of
        Inl _ \<Rightarrow> Unlock m (Return Error)
      | Inr spot \<Rightarrow> create_commit_prog junk u (last p) ty (inode_at D (fst m)) m spot) (isize (inode_at D (fst m))) 0 None)
      (At (butlast p) m Holds_upgradable D [] None)"
    proof (rule conform_scan_loop [where D = D and b = "fst m", OF may_read_at nf(3)], goal_cases)
      case (1 j)
      then obtain sl where "find_slot (dec_direntries (D (blocks (inode_at D (fst m)) ! j))) (last p) = Some sl" by auto
      from node_child(2) [OF nf(1) dir 1(1) nf(3) this nul] have "child D (fst m) (last p) \<noteq> None" by simp
      then have "decided io ?r (butlast p) (fst m) D Error" unfolding decided_def
        using located_parent [OF rq _ _ laws] w False by (auto simp: spec_create_def)
      then show ?case by (simp add: unlock_at return_gone)
    next
      case (2 sp)
      have "child D (fst m) (last p) = None" using node_no_child [OF 2(1) nul nf(3)] .
      with conform_create_commit [OF laws rq False n dir _ 2(2) junk] show ?case by simp
    qed simp_all
    with nofile show ?thesis by simp
  qed
  have "conform io ?r (traverse_prog Upgradable (butlast p) u ?k) (Idle None)"
    using conform_traverse_parent [OF laws rq, where k = ?k] go by (simp add: return_gone)
  then have "conform io ?r (Free_List id (\<lambda>free. if free = [] then Return Error else traverse_prog Upgradable (butlast p) u ?k)) (Idle None)"
    by (intro free_idle) (auto simp: settled_def refusable_def intro: return_gone)
  with False show ?thesis by (simp add: create_prog_def)
qed

end
