(* ===== verification/Fs_Unlinks.thy ===== *)
theory Fs_Unlinks
  imports Fs_Commits
begin

text \<open>
  Deleting keeps to the protocol: the parent is locked uniquely before the target is locked, the
  write to the parent carries the request out, and the target's blocks are returned only after
  everyone who still reads it has let go of its lock.
\<close>

section \<open>What the write to the parent does\<close>

lemma located_view:
  assumes "located io u q c D own rest s t"
  shows "view_in io s q = Some (entry_at D c)" "view_in io s (q @ [y]) = map_option (entry_at (image_of io (disk s))) (child D c y)"
proof -
  have ag: "agree D (image_of io (disk s)) c" "walk (child (image_of io (disk s))) 0 q = Some c" using assms by (simp_all add: located_def)
  then show "view_in io s q = Some (entry_at D c)" using agree_node(2) [OF ag(1)] by (simp add: fs_view_def)
  show "view_in io s (q @ [y]) = map_option (entry_at (image_of io (disk s))) (child D c y)"
    using ag agree_node(1) [OF ag(1)] by (simp add: fs_view_def walk_snoc)
qed

lemma unlinked:
  assumes laws: "disk_laws io" and rq: "ready_request (FS_DELETE u p)" and p: "p \<noteq> []"
    and loc: "located io u (butlast p) b D [] rest s t" "located io u p c D' [] rest s t"
    and ok: "\<not> blocks_walk u (butlast p) [] D b" and dir: "itype (inode_at D b) = CHR ''d''"
    and c: "child D b (last p) = Some c" "c_str (owner (inode_at D' c)) = u" "\<not> firm D' c"
    and wb: "wb \<in> set (node_blocks D b)" "image_of io d' = (image_of io (disk s))(wb := bytes)"
    and e: "c_str (dname e) = last p" "add_mset e (mset (live_entries (image_of io d') b)) = mset (live_entries (image_of io (disk s)) b)"
      "same_head (inode_at (image_of io d') b) (inode_at (image_of io (disk s)) b)"
  shows "spec_request (view_in io s) (FS_DELETE u p) = (Done, fs_view (image_of io d'))"
    "child (image_of io d') b = (child (image_of io (disk s)) b)(last p := None)"
proof -
  let ?r = "FS_DELETE u p" and ?I = "image_of io (disk s)"
  obtain n where n: "n \<in> set (nodes t)" "root n = b" "at_path ?I t (butlast p) n" "fs_tree io s t"
    "inode_at ?I b = inode_at D b" "used_blocks ?I b = used_blocks D b" "child ?I b = child D b"
    using located_node [OF laws loc(1) refl] by metis
  have ok': "inode_ok ?I (root n)" using node_facts(3) [OF laws n(4,1)] .
  show ch: "child (image_of io d') b = (child ?I b)(last p := None)"
    using child_remove [OF e(2)] ok' n(2) e(1) by (simp add: inode_ok_def)
  have ag: "agree D' ?I c" using loc(2) by (simp add: located_def)
  have none: "\<forall>y. child ?I c y = None" using c(3) agree_node(1) [OF ag] by (simp add: firm_def)
  have "touches ?I (image_of io d') t (root n)" using wb n(2,6) by (auto simp: touches_def)
  then have v: "fs_view (image_of io d') = (view_in io s)(p := None)"
    using view_unlink [OF n(3) _ ok', of "image_of io d'" e c] dir c(1) none e n(2,5,7) p by simp
  have "located io (username ?r) (walked ?r) b D [] rest s t" using loc(1) by (simp add: walked_def)
  from located_entry(2) [OF rq this] ok have "visible (view_in io s) u (butlast p)" by (simp add: walked_def)
  moreover have "view_in io s p = Some (entry_at D' c)" "\<And>y. view_in io s (p @ [y]) = None"
    using located_view [OF loc(2)] c(3) by (auto simp: firm_def)
  ultimately show "spec_request (view_in io s) ?r = (Done, fs_view (image_of io d'))"
    using p v c(2) by (simp add: spec_delete_def entry_at_def)
qed

text \<open>The target is a child of the parent in the tree, and has none of its own.\<close>

lemma located_kid:
  assumes laws: "disk_laws io" and loc: "located io u q b D own rest s t" "located io u (q @ [x]) c D' own rest s t"
    and leaf: "itype (inode_at D' c) \<noteq> CHR ''d'' \<or> isize (inode_at D' c) = 0" and I: "I = image_of io (disk s)"
  obtains n k where "n \<in> set (nodes t)" "root n = b" "k \<in> set (kids n)" "kids k = []" "root k = c"
    "used_blocks I c = used_blocks D' c"
proof -
  obtain n where n: "n \<in> set (nodes t)" "root n = b" "fs_tree io s t" using located_node [OF laws loc(1) refl] by metis
  have w: "walk (child I) 0 q = Some b" "walk (child I) 0 (q @ [x]) = Some c" "agree D' I c" using loc by (simp_all add: located_def I)
  then have c: "child I (root n) x = Some c" using n(2) by (simp add: walk_snoc)
  have "rep I n" using node_facts(7) [OF laws n(3,1)] I by simp
  then obtain k where k: "k \<in> set (kids n)" "root k = c" "rep I k" using kid_of_child [OF _ c] by blast
  have "kids k = []" using deletable_leaf(1) [OF k(3)] leaf w(3) k(2) by (simp add: agree_def)
  with n k that agree_used [OF w(3)] show thesis by blast
qed

lemma last_entry_unlinks:
  assumes laws: "disk_laws io" and rq: "ready_request (FS_DELETE u p)" and p: "p \<noteq> []" and at: "node_at io (butlast p) b D"
    and ok: "\<not> blocks_walk u (butlast p) [] D b" and dir: "itype (inode_at D b) = CHR ''d''"
    and c: "child D b (last p) = Some (inode_block (es ! sl))" "c_str (owner (inode_at D' c)) = u" "\<not> firm D' c" "c = inode_block (es ! sl)"
    and leaf: "itype (inode_at D' c) \<noteq> CHR ''d'' \<or> isize (inode_at D' c) = 0"
    and j: "j < isize (inode_at D b)" "db = blocks (inode_at D b) ! j" "es = dec_direntries (D db)" "sl < length es"
      "c_str (dname (es ! sl)) = last p" "inode_block (es ! sl) \<noteq> 0"
    and all: "list_all (\<lambda>e. inode_block e = 0 \<or> inode_block e = c) es"
    and p': "p' = (inode_at D b)\<lparr>blocks := shift_blocks (blocks (inode_at D b)) j (isize (inode_at D b)), isize := isize (inode_at D b) - 1\<rparr>"
  shows "unlinks io (FS_DELETE u p) (butlast p) b D (last p) c D' b (enc_inode p') [db]"
  unfolding unlinks_def
proof (intro conjI allI impI)
  note nf = node_at_facts [OF laws at]
  have "wf_inode p'" using nf(2) shift_blocks_set [OF j(1) nf(3)] shift_blocks_take(2) [OF j(1) nf(3)] j(1) by (auto simp: wf_inode_def p')
  then show "length (enc_inode p') = FS_BLOCKSIZE" by (rule inodes.length_enc)
  show "b \<in> set (node_blocks D b)" "\<not> firm D' c" using c(3) by simp_all
  fix rest s t d'
  let ?r = "FS_DELETE u p"
  assume loc: "located io (username ?r) (butlast p) b D [] rest s t" "located io (username ?r) (butlast p @ [last p]) c D' [] rest s t"
    and d': "image_of io d' = (image_of io (disk s))(b := enc_inode p')"
  let ?I = "image_of io (disk s)"
  obtain n k where k: "n \<in> set (nodes t)" "root n = b" "k \<in> set (kids n)" "kids k = []" "root k = c" "used_blocks ?I c = used_blocks D' c"
    using located_kid [OF laws loc leaf refl] by metis
  have ag: "agree D ?I b" "fs_tree io s t" "free_disk_blocks s = rest" using loc(1) by (simp_all add: located_def)
  have db: "?I db = D db" using ag(1) used_nth [of j D b, OF j(1) nf(3)] j(2) by (simp add: agree_def)
  have i: "inode_at ?I (root n) = inode_at D b" using ag(1) k(2) by (simp add: agree_def)
  have pre: "itype (inode_at ?I (root n)) = CHR ''d''" "j < isize (inode_at ?I (root n))" "db = blocks (inode_at ?I (root n)) ! j" "es = dec_direntries (?I db)"
    "list_all (\<lambda>e. inode_block e = 0 \<or> inode_block e = inode_block (es ! sl)) es" "root k = inode_block (es ! sl)"
    "p' = (inode_at ?I (root n))\<lparr>blocks := shift_blocks (blocks (inode_at ?I (root n))) j (isize (inode_at ?I (root n))), isize := isize (inode_at ?I (root n)) - 1\<rparr>"
    unfolding i db using dir j all c(4) k(5) p' by simp_all
  obtain d2 t' where d2: "image_of io d2 = ?I(b := enc_inode p')"
    "fs_tree io (s\<lparr>disk := d2, free_disk_blocks := free_disk_blocks s @ [db] @ used_blocks ?I (root k) @ [root k]\<rparr>) t'"
    "add_mset (es ! sl) (mset (live_entries (image_of io d2) b)) = mset (live_entries ?I b)"
    "same_head (inode_at (image_of io d2) b) (inode_at ?I b)"
    using remove_block [OF laws ag(2) k(1) refl pre(1-4) j(4,6) pre(5) k(3,4) pre(6,7)] unfolding k(2) by blast
  have eq: "image_of io d' = image_of io d2" using d' d2(1) by simp
  have "fs_tree io \<lparr>disk = d', free_disk_blocks = ([db] @ used_blocks D' c @ [c]) @ rest\<rparr> t'"
    by (rule fs_tree_perm [OF d2(2)]) (use eq ag(3) k(5,6) in simp_all)
  then show "\<exists>t'. fs_tree io \<lparr>disk = d', free_disk_blocks = ([db] @ used_blocks D' c @ [c]) @ rest\<rparr> t'" by blast
  have loc': "located io u (butlast p) b D [] rest s t" "located io u p c D' [] rest s t" using loc p by simp_all
  note un = unlinked [OF laws rq p loc' ok dir c(1) [folded c(4)] c(2,3) _ d' j(5), folded c(4), unfolded eq, OF _ d2(3,4)]
  show "spec_request (view_in io s) ?r = (Done, fs_view (image_of io d'))" "child (image_of io d') b = (child ?I b)(last p := None)"
    using un eq by simp_all
qed

lemma one_entry_unlinks:
  assumes laws: "disk_laws io" and rq: "ready_request (FS_DELETE u p)" and p: "p \<noteq> []" and at: "node_at io (butlast p) b D"
    and ok: "\<not> blocks_walk u (butlast p) [] D b" and dir: "itype (inode_at D b) = CHR ''d''"
    and c: "child D b (last p) = Some (inode_block (es ! sl))" "c_str (owner (inode_at D' c)) = u" "\<not> firm D' c" "c = inode_block (es ! sl)"
    and leaf: "itype (inode_at D' c) \<noteq> CHR ''d'' \<or> isize (inode_at D' c) = 0"
    and j: "db \<in> set (used_blocks D b)" "es = dec_direntries (D db)" "sl < length es" "c_str (dname (es ! sl)) = last p" "inode_block (es ! sl) \<noteq> 0"
    and more: "\<not> list_all (\<lambda>e. inode_block e = 0 \<or> inode_block e = c) es"
    and es': "es' = es[sl := (es ! sl)\<lparr>inode_block := 0\<rparr>]"
  shows "unlinks io (FS_DELETE u p) (butlast p) b D (last p) c D' db (enc_direntries es') []"
  unfolding unlinks_def
proof (intro conjI allI impI)
  have wes: "wf_direntries es" using node_entries [OF laws at j(1)] j(2) by simp
  then have "wf_direntry (es ! sl)" using j(3) by (simp add: wf_direntries_def)
  then have "wf_direntries es'" unfolding es' by (intro wf_new_entry [OF wes]) (simp_all add: wf_direntry_def FS_DISKSIZE_def)
  then show "length (enc_direntries es') = FS_BLOCKSIZE" by (rule direntries.length_enc)
  show dbn: "db \<in> set (node_blocks D b)" and "\<not> firm D' c" using c(3) j(1) by simp_all
  fix rest s t d'
  let ?r = "FS_DELETE u p"
  assume loc: "located io (username ?r) (butlast p) b D [] rest s t" "located io (username ?r) (butlast p @ [last p]) c D' [] rest s t"
    and d': "image_of io d' = (image_of io (disk s))(db := enc_direntries es')"
  let ?I = "image_of io (disk s)"
  obtain n k where k: "n \<in> set (nodes t)" "root n = b" "k \<in> set (kids n)" "kids k = []" "root k = c" "used_blocks ?I c = used_blocks D' c"
    using located_kid [OF laws loc leaf refl] by metis
  have ag: "agree D ?I b" "fs_tree io s t" "free_disk_blocks s = rest" using loc(1) by (simp_all add: located_def)
  have pre: "itype (inode_at ?I (root n)) = CHR ''d''" "db \<in> set (used_blocks ?I (root n))" "es = dec_direntries (?I db)"
    "\<not> list_all (\<lambda>e. inode_block e = 0 \<or> inode_block e = inode_block (es ! sl)) es" "root k = inode_block (es ! sl)"
    using dir j(1,2) more c(4) k(2,5) agree_used [OF ag(1)] ag(1) by (simp_all add: agree_def)
  obtain d2 t' where d2: "image_of io d2 = ?I(db := enc_direntries es')"
    "fs_tree io (s\<lparr>disk := d2, free_disk_blocks := free_disk_blocks s @ [] @ used_blocks ?I (root k) @ [root k]\<rparr>) t'"
    "add_mset (es ! sl) (mset (live_entries (image_of io d2) b)) = mset (live_entries ?I b)"
    "same_head (inode_at (image_of io d2) b) (inode_at ?I b)"
    using remove_entry [OF laws ag(2) k(1) refl pre(1-3) j(3,5) pre(4) k(3,4) pre(5) es'] unfolding k(2) by blast
  have eq: "image_of io d' = image_of io d2" using d' d2(1) by simp
  have "fs_tree io \<lparr>disk = d', free_disk_blocks = ([] @ used_blocks D' c @ [c]) @ rest\<rparr> t'"
    by (rule fs_tree_perm [OF d2(2)]) (use eq ag(3) k(5,6) in simp_all)
  then show "\<exists>t'. fs_tree io \<lparr>disk = d', free_disk_blocks = ([] @ used_blocks D' c @ [c]) @ rest\<rparr> t'" by blast
  have loc': "located io u (butlast p) b D [] rest s t" "located io u p c D' [] rest s t" using loc p by simp_all
  note un = unlinked [OF laws rq p loc' ok dir c(1) [folded c(4)] c(2,3) dbn d' j(4), folded c(4), unfolded eq, OF d2(3,4)]
  show "spec_request (view_in io s) ?r = (Done, fs_view (image_of io d'))" "child (image_of io d') b = (child ?I b)(last p := None)"
    using un eq by simp_all
qed

section \<open>FS_DELETE\<close>

lemma conform_delete_finish:
  assumes tgt: "isize (inode_at D' (fst tm)) \<le> length (blocks (inode_at D' (fst tm)))"
    and leaf: "itype (inode_at D' (fst tm)) = CHR ''f'' \<or> isize (inode_at D' (fst tm)) = 0"
  shows "conform io r (delete_finish_prog extra (inode_at D' (fst tm)) pm tm) (Limbo (Some pm) tm Holds_upgradable D' extra)"
proof -
  let ?i = "inode_at D' (fst tm)" and ?used = "used_blocks D' (fst tm)"
  have er: "conform io r (Free_List (\<lambda>free. free @ ?used @ [fst tm]) (\<lambda>_. Unlock tm (Return Done))) (Erased tm (?used @ [fst tm]))"
    by (intro free_erased unlock_erased return_gone) simp
  have fin: "conform io r (Unlock pm (Make_Unique tm (Erase_Lock (fst tm) (Free_List (\<lambda>free. free @ ?used @ [fst tm]) (\<lambda>_. Unlock tm (Return Done))))))
      (Limbo (Some pm) tm Holds_upgradable D' [])"
    by (intro unlock_limbo unique_limbo erase [OF refl] er)
  have dat: "(if itype ?i = CHR ''f'' then do { cassert (isize ?i \<le> length (blocks ?i)); Some (take (isize ?i) (blocks ?i)) } else Some []) = Some ?used"
    using tgt leaf by (auto simp: used_blocks_def)
  show ?thesis
  proof (cases "extra = []")
    case True
    with fin show ?thesis unfolding delete_finish_prog_def Let_def dat by simp
  next
    case False
    then show ?thesis unfolding delete_finish_prog_def Let_def dat checked_simps by (auto intro!: free_limbo fin)
  qed
qed

lemma conform_delete_commit:
  assumes laws: "disk_laws io" and rq: "ready_request (FS_DELETE u p)" and p: "p \<noteq> []" and at: "node_at io (butlast p) (fst pm) D"
    and ok: "\<not> blocks_walk u (butlast p) [] D (fst pm)" and dir: "itype (inode_at D (fst pm)) = CHR ''d''"
    and tgt: "node_at io (butlast p @ [last p]) (fst tm) D'" "fst tm = inode_block (es ! sl)"
    and j: "j < isize (inode_at D (fst pm))" "es = dec_direntries (D (blocks (inode_at D (fst pm)) ! j))" "sl < length es"
      "c_str (dname (es ! sl)) = last p" "inode_block (es ! sl) \<noteq> 0" "child D (fst pm) (last p) = Some (inode_block (es ! sl))"
  shows "conform io (FS_DELETE u p)
      (delete_commit_prog u (inode_at D (fst pm)) pm (j, blocks (inode_at D (fst pm)) ! j, sl, es) (inode_at D' (fst tm)) tm)
      (Two (butlast p) pm Holds_unique D (last p) tm Holds_upgradable D')"
proof -
  let ?r = "FS_DELETE u p" and ?i = "inode_at D' (fst tm)"
  note nf = node_at_facts [OF laws at] and tf = node_at_facts [OF laws tgt(1)]
  have cu: "c_str u = u" using ready_nul_free(1) [OF rq] by (simp add: c_str_id)
  have firm: "firm D' (fst tm) \<longleftrightarrow> itype ?i = CHR ''d'' \<and> 0 < isize ?i" using childless [OF tf(1)] tf(3) by (auto simp: firm_def)
  show ?thesis
  proof (cases "\<not> strcmp_eq (owner ?i) u \<or> firm D' (fst tm)")
    case True
    have "spec_request (view_in io s) ?r = (Error, view_in io s)" if "located io u p (fst tm) D' [] rest s t" for rest s t
    proof -
      have "view_in io s p = Some (entry_at D' (fst tm))" "firm D' (fst tm) \<Longrightarrow> \<exists>y. view_in io s (p @ [y]) \<noteq> None"
        using located_view [OF that] by (auto simp: firm_def)
      with True cu show ?thesis by (auto simp: spec_delete_def strcmp_eq_def entry_at_def)
    qed
    then have "decided io ?r (butlast p @ [last p]) (fst tm) D' Error" using p by (simp add: decided_def)
    from unlock_child [OF this unlock_done] True firm show ?thesis by (auto simp: delete_commit_prog_def)
  next
    case False
    then have leaf: "itype ?i \<noteq> CHR ''d'' \<or> isize ?i = 0" and own: "c_str (owner ?i) = u" and soft: "\<not> firm D' (fst tm)"
      using firm cu by (auto simp: strcmp_eq_def)
    then have leaf': "itype ?i = CHR ''f'' \<or> isize ?i = 0" using tf(1) by (auto simp: inode_ok_def)
    note fin = conform_delete_finish [where D' = D' and tm = tm and io = io and r = ?r and pm = pm, OF tf(3) leaf']
    note un = last_entry_unlinks [OF laws rq p at ok dir j(6) own soft tgt(2) leaf j(1) refl j(2-5) _ refl]
      one_entry_unlinks [OF laws rq p at ok dir j(6) own soft tgt(2) leaf used_nth [of j D "fst pm", OF j(1) nf(3)] j(2-5) _ refl]
    from write_unlink [OF un(1) fin] write_unlink [OF un(2) fin] False firm nf(3) show ?thesis
      by (auto simp: delete_commit_prog_def Let_def)
  qed
qed

text \<open>The short cut: when all blocks but the root's are free, there is nothing to delete.\<close>

lemma all_free:
  assumes "fs_tree io s t" "free_disk_blocks s = own @ fl" "length fl = 4095" "p \<noteq> []"
  shows "view_in io s p = None"
proof -
  have "length (blocks_of (image_of io (disk s)) t) + length (free_disk_blocks s) = FS_DISKSIZE"
    using assms(1) unfolding fs_tree_def by (metis length_append length_upt mset_append mset_eq_length diff_zero)
  moreover have "0 < length (blocks_of (image_of io (disk s)) t)" by (cases t) simp
  ultimately have "length (free_disk_blocks s) = 4095" using assms(2,3) unfolding FS_DISKSIZE_def by (simp only: length_append)
  then show ?thesis using only_root [OF assms(1) _ assms(4)] by simp
qed

lemma all_free_settled:
  assumes "length fl = 4095" "p \<noteq> []"
  shows "settled io (FS_DELETE u p) fl Error"
  unfolding settled_def
proof (intro disjI1 allI impI)
  fix own s t assume "fs_tree io s t \<and> free_disk_blocks s = own @ fl"
  then have "view_in io s p = None" using all_free [OF _ _ assms] by blast
  then show "spec_request (view_in io s) (FS_DELETE u p) = (Error, view_in io s)" by (simp add: spec_delete_def)
qed

text \<open>The entry has been found: the parent is locked alone, then the target is locked and read.\<close>

lemma conform_found_target:
  assumes laws: "disk_laws io" and rq: "ready_request (FS_DELETE u p)" and p: "p \<noteq> []" and n: "node_at io (butlast p) (fst pm) D"
    and ok: "\<not> blocks_walk u (butlast p) [] D (fst pm)" and dir: "itype (inode_at D (fst pm)) = CHR ''d''"
    and e: "j < isize (inode_at D (fst pm))" "es = dec_direntries (D (blocks (inode_at D (fst pm)) ! j))" "sl < length es"
      "c_str (dname (es ! sl)) = last p" "inode_block (es ! sl) \<noteq> 0" "child D (fst pm) (last p) = Some (inode_block (es ! sl))"
  shows "conform io (FS_DELETE u p) (Get_Lock (inode_block (es ! sl)) (\<lambda>tm. Make_Unique pm (Lock Upgradable tm (Read (inode_block (es ! sl)) (\<lambda>raw.
      delete_commit_prog u (inode_at D (fst pm)) pm (j, blocks (inode_at D (fst pm)) ! j, sl, es) (dec_inode raw) tm)))))
    (At (butlast p) pm Holds_upgradable D [] None)"
proof (intro get_child [OF e(6)] unique_at lock_child)
  let ?i = "inode_at D (fst pm)" and ?c = "inode_block (es ! sl)"
  show "butlast p = [] \<or> entry_at D (fst pm) = Directory (username (FS_DELETE u p))"
    using ok dir ready_nul_free(1) [OF rq] by (auto simp: blocks_walk_def entry_at_def strcmp_eq_def c_str_id)
  fix g :: nat and D' assume "node_at io (butlast p @ [last p]) (fst (?c, g)) D'"
  from conform_delete_commit [OF laws rq p n ok dir this _ e] show
    "(Upgradable = Shared \<longrightarrow> firm D' (fst (?c, g))) \<and> conform io (FS_DELETE u p) (Read ?c (\<lambda>raw. delete_commit_prog u ?i pm (j, blocks ?i ! j, sl, es) (dec_inode raw) (?c, g)))
        (Two (butlast p) pm Holds_unique D (last p) (?c, g) (hold_of Upgradable) D')
      \<or> (\<exists>res. decided io (FS_DELETE u p) (butlast p @ [last p]) (fst (?c, g)) D' res
        \<and> conform io (FS_DELETE u p) (Read ?c (\<lambda>raw. delete_commit_prog u ?i pm (j, blocks ?i ! j, sl, es) (dec_inode raw) (?c, g)))
          (Gone res [((?c, g), hold_of Upgradable, Some D'), (pm, Holds_unique, None)]))"
    by (auto intro!: read_two)
qed

lemma conform_delete:
  assumes laws: "disk_laws io" and rq: "ready_request (FS_DELETE u p)"
  shows "conform io (FS_DELETE u p) (delete_prog u p) (Idle None)"
proof (cases "p = []")
  case True
  then show ?thesis by (auto simp: delete_prog_def spec_delete_def intro!: return_idle)
next
  case False
  let ?r = "FS_DELETE u p"
  have nul: "NUL \<notin> set (last p)" using ready_nul_free(3) [OF rq] False by simp
  let ?found = "\<lambda>parent pm f. case f of
                  None \<Rightarrow> Unlock pm (Return Error)
                | Some (k, db, j, es) \<Rightarrow>
                    (let tblk = inode_block (es ! j) in
                     Get_Lock tblk (\<lambda>tm. Make_Unique pm (Lock Upgradable tm (Read tblk (\<lambda>raw.
                       delete_commit_prog u parent pm (k, db, j, es) (dec_inode raw) tm)))))"
  let ?k = "\<lambda>r. case r of
            None \<Rightarrow> Return Error
          | Some (parent, pm) \<Rightarrow>
              if isize parent = 0 then Unlock pm (Return Error)
              else if itype parent = CHR ''f'' then Unlock pm (Return Error)
              else find_prog parent (last p) (?found parent pm) (isize parent) 0"
  have go: "conform io ?r (?k (Some (inode_at D (fst pm), pm))) (At (butlast p) pm Holds_upgradable D [] None)"
    if n: "node_at io (butlast p) (fst pm) D" "\<not> blocks_walk u (butlast p) [] D (fst pm)" for pm D
  proof -
    let ?i = "inode_at D (fst pm)"
    note nf = node_at_facts [OF laws n(1)]
    have err: "conform io ?r (Unlock pm (Return Error)) (At (butlast p) pm Holds_upgradable D [] None)" if "child D (fst pm) (last p) = None"
    proof (rule unlock_at [OF _ return_gone])
      show "decided io ?r (butlast p) (fst pm) D Error" unfolding decided_def
        using located_parent [OF rq _ _ laws] that False by (auto simp: spec_delete_def walked_def)
    qed
    show ?thesis
    proof (cases "isize ?i = 0 \<or> itype ?i = CHR ''f''")
      case True
      then have "child D (fst pm) (last p) = None" by (auto simp: child_def live_entries_def entries_def used_blocks_def)
      with err True show ?thesis by auto
    next
      case go: False
      have dir: "itype ?i = CHR ''d''" using go nf(1) by (auto simp: inode_ok_def)
      have "conform io ?r (find_prog ?i (last p) (?found ?i pm) (isize ?i) 0) (At (butlast p) pm Holds_upgradable D [] None)"
      proof (rule conform_lookup [OF laws may_read_at n(1) dir nul], goal_cases)
        case 1
        with err show ?case by simp
      next
        case (2 j sl es)
        from conform_found_target [OF laws rq False n dir 2] show ?case by (simp add: Let_def)
      qed
      with go show ?thesis by simp
    qed
  qed
  have tr: "conform io ?r (traverse_prog Upgradable (butlast p) u ?k) (Idle None)"
    using conform_traverse_parent [OF laws rq, where k = ?k] go by (simp add: return_gone)
  have "settled io ?r fl Error" if "length fl = 4095" for fl by (rule all_free_settled [OF that False])
  with tr have "conform io ?r (Free_List id (\<lambda>free. if length free = 4095 then Return Error else traverse_prog Upgradable (butlast p) u ?k)) (Idle None)"
    by (intro free_idle) (auto intro: return_gone)
  with False show ?thesis by (simp add: delete_prog_def)
qed

theorem request_conforms:
  assumes "disk_laws io" "ready_request r" "wf_inode junk"
  shows "conform io r (request_prog junk r) (Idle None)"
proof (cases r)
  case (FS_WRITEBLOCK u p b d)
  with assms(2) obtain bytes where "d = Some bytes" by (auto simp: ready_request_def split: option.splits)
  with FS_WRITEBLOCK conform_writeblock assms show ?thesis by auto
qed (use assms conform_readblock conform_create conform_delete in auto)

end
