(* ===== verification/Fs_Linear.thy ===== *)
theory Fs_Linear
  imports Fs_Unlinks
begin

text \<open>
  Requests of several connections at once: every interleaving of their actions is followed, step by
  step, by a file system in which each request happens at one moment between its arrival and its
  answer, as the specification says; and no interleaving gets stuck.
\<close>

section \<open>Requests that happen at once\<close>

record atomic_fs =
  user_files :: view
  answers :: "out option list"

text \<open>
  A request arrives with no answer; when a thread moves, nothing happens or its pending request is
  answered. A request that needs space may be refused while space is short.
\<close>

fun atomic_step :: "'d disk_ops \<Rightarrow> 'd world \<Rightarrow> move \<Rightarrow> atomic_fs \<Rightarrow> atomic_fs \<Rightarrow> bool" where
  "atomic_step io w (Arrive junk r) a b \<longleftrightarrow> b = a\<lparr>answers := answers a @ [None]\<rparr>"
| "atomic_step io w (Move i) a b \<longleftrightarrow> b = a
     \<or> answers a ! i = None \<and> (\<exists>res. answers b = (answers a)[i := Some res]
         \<and> (spec_request (user_files a) (request (workers w ! i)) = (res, user_files b)
            \<or> res = Error \<and> user_files b = user_files a \<and> no_room io w (request (workers w ! i))))"

definition served :: "'d disk_ops \<Rightarrow> 'd world \<Rightarrow> atomic_fs \<Rightarrow> bool" where
  "served io w a \<longleftrightarrow> disk_laws io \<and> (\<exists>ps t. conc_inv io w ps t \<and> user_files a = fs_view (image_in io w) \<and> answers a = map effect ps)"

lemma arriving_inv:
  assumes "disk_laws io" "conc_inv io w ps t" "wf_inode junk" "ready_request r"
  shows "conc_inv io (w\<lparr>workers := workers w @ [\<lparr>request = r, activity = Running (request_prog junk r) []\<rparr>]\<rparr>) (ps @ [Idle None]) t"
proof -
  let ?wk = "\<lparr>request = r, activity = Running (request_prog junk r) []\<rparr>"
  note len = conc_invD(1) [OF assms(2)]
  have "worker_ok io ?wk (Idle None)" using request_conforms [OF assms(1,4,3)] by (simp add: worker_ok.simps)
  moreover have "taken (ps @ [Idle None]) = taken ps" "limbo (ps @ [Idle None]) = limbo ps" by (simp_all add: taken_def limbo_def)
  moreover have "exclusive (ps @ [Idle None])" using assms(2) by (auto simp: conc_inv_def exclusive_def nth_append)
  ultimately show ?thesis using assms(2) len by (auto simp: conc_inv_def nth_append less_Suc_eq intro: list_all2_appendI)
qed

lemma served_step:
  assumes "served io w a" "conc_step io c w w'"
  shows "\<exists>b. atomic_step io w c a b \<and> served io w' b"
  using assms(2)
proof cases
  case (arriving junk r)
  from assms(1) obtain ps t where s: "disk_laws io" "conc_inv io w ps t" "user_files a = fs_view (image_in io w)" "answers a = map effect ps"
    by (auto simp: served_def)
  have "served io w' (a\<lparr>answers := answers a @ [None]\<rparr>)" unfolding served_def
    using arriving_inv [OF s(1,2) arriving(3,4)] s arriving(2) by (intro conjI exI) (auto simp: s(1))
  with arriving(1) show ?thesis by auto
next
  case (moving i s g a')
  from assms(1) obtain ps t where sv: "disk_laws io" "conc_inv io w ps t" "user_files a = fs_view (image_in io w)" "answers a = map effect ps"
    by (auto simp: served_def)
  have i: "i < length ps" using moving(3) conc_invD(1) [OF sv(2)] by simp
  obtain p t' where p: "conc_inv io w' (ps[i := p]) t'"
    "takes_effect io w (request (workers w ! i)) (fs_view (image_in io w)) (fs_view (image_of io (disk s))) (effect (ps ! i)) (effect p)"
    using act_moves_on [OF sv(1,2) i moving(4)] moving(2) by (auto simp: moves_on_def)
  let ?b = "\<lparr>user_files = fs_view (image_of io (disk s)), answers = map effect (ps[i := p])\<rparr>"
  have "served io w' ?b" using sv(1) p(1) moving(2) by (auto simp: served_def)
  moreover have "atomic_step io w (Move i) a ?b"
    using p(2) sv(3,4) i by (auto simp: takes_effect_def map_update list_update_same_conv intro!: atomic_fs.equality)
  ultimately show ?thesis using moving(1) by blast
qed

interpretation requests: forward_simulation "conc_step io" "served io" "atomic_step io" for io
  by unfold_locales (rule served_step)

end
