(* ===== verification/Fs_Progress.thy ===== *)
theory Fs_Progress
  imports Fs_Linear
begin

text \<open>
  Concurrent requests never get stuck. A thread waits for a lock only of a node below the one it
  holds, or for the others to let go of the node it holds; so of the threads that are not finished, the one that is
  furthest down can move. With the termination of all schedules, every request is answered.
\<close>

section \<open>Who waits, and for whom\<close>

abbreviation next_act :: "'d disk_ops \<Rightarrow> 'd world \<Rightarrow> nat \<Rightarrow> ('d fs_state \<times> (nat \<Rightarrow> nat) \<times> activity) option" where
  "next_act io w i \<equiv> act io (others (workers w) i) (fsys w) (erasures w) (activity (workers w ! i))"

abbreviation unfinished :: "worker \<Rightarrow> bool" where
  "unfinished wk \<equiv> \<not> (\<exists>res. activity wk = Finished res)"

lemma running_conform:
  assumes "conc_inv io w ps t" "i < length ps" "unfinished (workers w ! i)"
  obtains p where "activity (workers w ! i) = Running p (locks_of (ps ! i))" "conform io (request (workers w ! i)) p (ps ! i)"
  using conc_invD(2) [OF assms(1,2)] assms(3) by (auto simp: worker_ok.simps split: activity.splits)

lemma holder_unfinished:
  assumes "conc_inv io w ps t" "i < length ps" "x \<in> set (locks_of (ps ! i))"
  shows "unfinished (workers w ! i)"
  using conc_invD(2) [OF assms(1,2)] assms(3) by (auto simp: worker_ok.simps)

text \<open>The only reason to be blocked is a lock that another thread holds.\<close>

lemma blocked_waits:
  assumes laws: "disk_laws io" and inv: "conc_inv io w ps t" and i: "i < length ps" and un: "unfinished (workers w ! i)" and bl: "next_act io w i = None"
  obtains (lock) mode m p where "activity (workers w ! i) = Running (Lock mode m p) (locks_of (ps ! i))"
      "conform io (request (workers w ! i)) (Lock mode m p) (ps ! i)" "\<not> lock_free (others (workers w) i) mode m"
    | (unique) m p where "activity (workers w ! i) = Running (Make_Unique m p) (locks_of (ps ! i))"
      "conform io (request (workers w ! i)) (Make_Unique m p) (ps ! i)" "m \<in> fst ` set (others (workers w) i)"
proof -
  obtain p where p: "activity (workers w ! i) = Running p (locks_of (ps ! i))" "conform io (request (workers w ! i)) p (ps ! i)"
    using running_conform [OF inv i un] .
  show thesis
  proof (cases p)
    case Abort
    with p(2) show thesis by (auto elim: conform_abortE)
  next
    case (Lock mode m p')
    with p bl lock show thesis by (auto split: if_splits)
  next
    case (Make_Unique m p')
    with p bl unique show thesis by (auto split: if_splits)
  next
    case (Read b k)
    with conform_read [OF inv i] p(2) disk_read(1) [OF laws] bl p(1) show thesis by auto
  next
    case (Write b bytes p')
    with conform_write [OF inv i] p(2) disk_write [OF laws, of b bytes "disk (fsys w)"] bl p(1) show thesis by auto
  qed (use p(1) bl in auto)
qed

lemma other_holder:
  assumes inv: "conc_inv io w ps t" and x: "(m, k) \<in> set (others (workers w) i)"
  obtains j where "j < length ps" "j \<noteq> i" "(m, k) \<in> set (locks_of (ps ! j))"
  using x conc_invD(1,2) [OF inv] locks_held unfolding set_others by fastforce

text \<open>A blocked thread holds at most one lock: of a node in the tree, or of the node it has unlinked.\<close>

lemma blocked_phase:
  assumes laws: "disk_laws io" and inv: "conc_inv io w ps t" and i: "i < length ps" and un: "unfinished (workers w ! i)"
    and bl: "next_act io w i = None" and lk: "(m, k) \<in> set (locks_of (ps ! i))"
  obtains (at) q D own ptr where "ps ! i = At q m k D own ptr" | (limbo) D where "ps ! i = Limbo None m Holds_upgradable D []" "k = Holds_upgradable"
  using laws inv i un bl
proof (cases rule: blocked_waits)
  case (lock mode m' p)
  from lock(2) show thesis by (cases rule: conform_lock_cases) (use lk at in auto)
next
  case (unique m' p)
  from unique(2) show thesis by (cases rule: conform_unique_cases) (use lk at limbo in auto)
qed

section \<open>The thread furthest down can move\<close>

fun rank :: "prog \<Rightarrow> phase \<Rightarrow> nat" where
  "rank (Make_Unique m p) (At q n k D own ptr) = Suc (2 * length q)"
| "rank p (At q n k D own ptr) = Suc (Suc (2 * length q))"
| "rank p ph = 0"

fun program :: "activity \<Rightarrow> prog" where
  "program (Running p h) = p"
| "program (Finished res) = Return res"

abbreviation rank_of :: "'d world \<Rightarrow> phase list \<Rightarrow> nat \<Rightarrow> nat" where
  "rank_of w ps i \<equiv> rank (program (activity (workers w ! i))) (ps ! i)"

lemma rank_bounds:
  "ph = At q n k D own ptr \<Longrightarrow> Suc (2 * length q) \<le> rank p ph" "rank (Lock mode m p') (At q n k D own ptr) = Suc (Suc (2 * length q))"
  by (cases p; simp)+

lemma tree_mutex:
  assumes inv: "conc_inv io w ps t" and i: "i < length ps" and at: "walk (child (image_in io w)) 0 q = Some (fst m)" and lim: "ps ! i = Limbo pm m k D own"
  shows False
proof -
  have "fst m \<in> set (taken ps)" using owned_taken [OF i] lim by auto
  with conc_inv_tree(5) [OF inv] walk_blocks [OF conc_inv_tree(1) [OF inv], of q "fst m"] at conc_inv_tree(2) [OF inv] show False by auto
qed

lemma same_place:
  assumes inv: "conc_inv io w ps t" and i: "i < length ps" and at: "walk (child (image_in io w)) 0 q = Some (fst m)" "ps ! i = At q' m k D own ptr"
  shows "q' = q"
proof -
  have "walk (child (image_in io w)) 0 q' = Some (fst m)" using conc_invD(5) [OF inv i] at(2) by (simp add: placed_def)
  with at(1) walk_unique [OF conc_inv_tree(1,3) [OF inv]] conc_inv_tree(2) [OF inv] show ?thesis by metis
qed

text \<open>Somebody can move, or waits further down than thread \<open>i\<close>.\<close>

definition relieved :: "'d disk_ops \<Rightarrow> 'd world \<Rightarrow> phase list \<Rightarrow> nat \<Rightarrow> bool" where
  "relieved io w ps i \<longleftrightarrow> (\<exists>j < length ps. unfinished (workers w ! j) \<and> (next_act io w j \<noteq> None \<or> rank_of w ps i < rank_of w ps j))"

lemma holder_in_tree:
  assumes laws: "disk_laws io" and inv: "conc_inv io w ps t" and q: "walk (child (image_in io w)) 0 q = Some (fst m)"
    and j: "j < length ps" "(m, k) \<in> set (locks_of (ps ! j))"
    and rk: "\<And>D own ptr. ps ! j = At q m k D own ptr \<Longrightarrow> next_act io w j = None \<Longrightarrow> rank_of w ps i < rank_of w ps j"
  shows "relieved io w ps i"
proof -
  have un: "unfinished (workers w ! j)" using holder_unfinished [OF inv j] .
  have "next_act io w j \<noteq> None \<or> rank_of w ps i < rank_of w ps j"
  proof (cases "next_act io w j")
    case None
    from laws inv j(1) un None j(2) show ?thesis
    proof (cases rule: blocked_phase)
      case (at q' D own ptr)
      with same_place [OF inv j(1) q] rk None show ?thesis by blast
    next
      case (limbo D)
      with tree_mutex [OF inv j(1) q] show ?thesis by blast
    qed
  qed simp
  with un j(1) show ?thesis unfolding relieved_def by blast
qed

text \<open>Waiting for a lock: its node is below the one held.\<close>

lemma lock_relieved:
  assumes laws: "disk_laws io" and inv: "conc_inv io w ps t" and i: "i < length ps"
    and p: "activity (workers w ! i) = Running (Lock mode m p) (locks_of (ps ! i))" "conform io (request (workers w ! i)) (Lock mode m p) (ps ! i)"
    and j: "j < length ps" "(m, k) \<in> set (locks_of (ps ! j))"
  shows "relieved io w ps i"
  using p(2)
proof (cases rule: conform_lock_cases)
  case root
  then have "walk (child (image_in io w)) 0 [] = Some (fst m)" by simp
  then show ?thesis
  proof (rule holder_in_tree [OF laws inv _ j])
    fix D own ptr assume "ps ! j = At [] m k D own ptr"
    from rank_bounds(1) [OF this] root show "rank_of w ps i < rank_of w ps j" by (simp add: less_eq_Suc_le)
  qed
next
  case (child q D n x h)
  with conc_invD(5) [OF inv i] have "walk (child (image_in io w)) 0 q = Some (fst n)" "agree D (image_in io w) (fst n)" "child D (fst n) x = Some (fst m)"
    by (simp_all add: placed_def del: split_paired_All)
  then have "walk (child (image_in io w)) 0 (q @ [x]) = Some (fst m)" using agree_node(1) by (fastforce simp: walk_snoc)
  then show ?thesis
  proof (rule holder_in_tree [OF laws inv _ j])
    fix D' own ptr assume "ps ! j = At (q @ [x]) m k D' own ptr"
    from rank_bounds(1) [OF this, of "program (activity (workers w ! j))"] child p(1) show "rank_of w ps i < rank_of w ps j" by simp
  qed
qed

text \<open>Waiting for the others to leave the node held: they are readers, which wait for nodes below it.\<close>

lemma unique_relieved:
  assumes laws: "disk_laws io" and inv: "conc_inv io w ps t" and i: "i < length ps"
    and p: "activity (workers w ! i) = Running (Make_Unique m p) (locks_of (ps ! i))" "conform io (request (workers w ! i)) (Make_Unique m p) (ps ! i)"
    and j: "j < length ps" "(m, k) \<in> set (locks_of (ps ! j))" "j \<noteq> i"
  shows "relieved io w ps i"
  using p(2)
proof (cases rule: conform_unique_cases)
  case (at q D own ptr)
  with conc_invD(5) [OF inv i] have "walk (child (image_in io w)) 0 q = Some (fst m)" by (simp add: placed_def)
  then show ?thesis
  proof (rule holder_in_tree [OF laws inv _ j(1,2)])
    fix D' own' ptr' assume js: "ps ! j = At q m k D' own' ptr'" "next_act io w j = None"
    have sh: "k = Holds_shared" using conc_invD(4) [OF inv i j(1)] j at by auto
    from laws inv j(1) holder_unfinished [OF inv j(1,2)] js(2) show "rank_of w ps i < rank_of w ps j"
    proof (cases rule: blocked_waits)
      case (lock mode m' p')
      with p(1) at js(1) show ?thesis by simp
    next
      case (unique m' p')
      from unique(2) js(1) sh show ?thesis by (auto elim: conform_unique_cases)
    qed
  qed
next
  case (limbo D)
  have sh: "k = Holds_shared" using conc_invD(4) [OF inv i j(1)] j limbo by auto
  have un: "unfinished (workers w ! j)" using holder_unfinished [OF inv j(1,2)] .
  have "next_act io w j \<noteq> None"
  proof
    assume "next_act io w j = None"
    from laws inv j(1) un this j(2) show False
    proof (cases rule: blocked_phase)
      case (at q D' own ptr)
      with conc_invD(5) [OF inv j(1)] have "walk (child (image_in io w)) 0 q = Some (fst m)" by (simp add: placed_def)
      from tree_mutex [OF inv i this limbo(1)] show False .
    qed (use sh in simp)
  qed
  with j(1) un show ?thesis unfolding relieved_def by blast
qed

lemma blocked_relieved:
  assumes laws: "disk_laws io" and inv: "conc_inv io w ps t" and i: "i < length ps" and un: "unfinished (workers w ! i)" and bl: "next_act io w i = None"
  shows "relieved io w ps i"
  using laws inv i un bl
proof (cases rule: blocked_waits)
  case (lock mode m p)
  then obtain k where "(m, k) \<in> set (others (workers w) i)" by (cases mode) auto
  then obtain j where "j < length ps" "(m, k) \<in> set (locks_of (ps ! j))" using other_holder [OF inv] by blast
  from lock_relieved [OF laws inv i lock(1,2) this] show ?thesis .
next
  case (unique m p)
  then obtain k where "(m, k) \<in> set (others (workers w) i)" by auto
  then obtain j where "j < length ps" "(m, k) \<in> set (locks_of (ps ! j))" "j \<noteq> i" using other_holder [OF inv] by blast
  from unique_relieved [OF laws inv i unique(1,2) this] show ?thesis .
qed

theorem some_thread_moves:
  assumes laws: "disk_laws io" and inv: "conc_inv io w ps t" and i: "i < length (workers w)" "unfinished (workers w ! i)"
  shows "\<exists>j w'. conc_step io (Move j) w w'"
proof -
  let ?U = "{j. j < length ps \<and> unfinished (workers w ! j)}"
  note len = conc_invD(1) [OF inv]
  have U: "finite (rank_of w ps ` ?U)" "rank_of w ps ` ?U \<noteq> {}" using i len by auto
  obtain j where j: "j \<in> ?U" "rank_of w ps j = Max (rank_of w ps ` ?U)" using Max_in [OF U] by (metis (no_types, lifting) imageE)
  have most: "rank_of w ps k \<le> rank_of w ps j" if "k \<in> ?U" for k using Max_ge [OF U(1)] that j(2) by simp
  have "\<exists>k < length ps. next_act io w k \<noteq> None"
  proof (cases "next_act io w j")
    case None
    with blocked_relieved [OF laws inv, of j] j(1) obtain k where "k \<in> ?U" "next_act io w k \<noteq> None \<or> rank_of w ps j < rank_of w ps k"
      unfolding relieved_def by blast
    with most [of k] show ?thesis by auto
  qed (use j in auto)
  then obtain k s g a where "k < length ps" "next_act io w k = Some (s, g, a)" by auto
  with moving [of k w io s g a] len show ?thesis by metis
qed

section \<open>All requests are answered\<close>

lemma schedule_ends:
  assumes "served io w a"
  shows "\<exists>js w'. run_of (conc_step io) w (map Move js) w' \<and> list_all (\<lambda>wk. \<not> unfinished wk) (workers w')"
  using assms
proof (induction w arbitrary: a rule: wf_induct_rule [OF wf_moves [of io]])
  case (1 w)
  then obtain ps t where inv: "disk_laws io" "conc_inv io w ps t" by (auto simp: served_def)
  show ?case
  proof (cases "list_all (\<lambda>wk. \<not> unfinished wk) (workers w)")
    case True
    then show ?thesis by (metis list.map_disc_iff run_of.simps(1))
  next
    case False
    then obtain i where "i < length (workers w)" "unfinished (workers w ! i)" by (auto simp: list_all_length)
    then obtain j w' where st: "conc_step io (Move j) w w'" using some_thread_moves [OF inv] by blast
    then obtain b where "served io w' b" using served_step [OF 1(2)] by blast
    moreover have "(w', w) \<in> moves io" using st by (auto simp: moves_def)
    ultimately obtain js w'' where "run_of (conc_step io) w' (map Move js) w''" "list_all (\<lambda>wk. \<not> unfinished wk) (workers w'')"
      using 1(1) by blast
    with st have "run_of (conc_step io) w (map Move (j # js)) w''" by auto
    then show ?thesis using \<open>list_all (\<lambda>wk. \<not> unfinished wk) (workers w'')\<close> by blast
  qed
qed

text \<open>Once all are answered, nobody owns a block and the file system on the disk is consistent.\<close>

lemma finished_consistent:
  assumes "served io w a" "list_all (\<lambda>wk. \<not> unfinished wk) (workers w)"
  shows "fs_inv io (fsys w)"
proof -
  obtain ps t where inv: "conc_inv io w ps t" using assms(1) by (auto simp: served_def)
  have "owned (ps ! i) = []" if "i < length ps" for i
    using conc_invD(2) [OF inv that] assms(2) that conc_invD(1) [OF inv] by (auto simp: worker_ok.simps list_all_length split: activity.splits)
  then have "taken ps = []" by (auto simp: taken_def in_set_conv_nth)
  with conc_invD(3) [OF inv] show ?thesis by (auto simp: fs_inv_def)
qed

lemma served_progress:
  assumes "served io w a"
  shows "(\<exists>j w'. conc_step io (Move j) w w') \<or> list_all (\<lambda>wk. \<exists>res. activity wk = Finished res) (workers w) \<and> fs_inv io (fsys w)"
proof -
  obtain ps t where "disk_laws io" "conc_inv io w ps t" using assms by (auto simp: served_def)
  then show ?thesis using some_thread_moves finished_consistent [OF assms] unfolding list_all_length by blast
qed

end
