(* ===== verification/Fs_Service.thy ===== *)
theory Fs_Service
  imports Fs_Progress
begin

text \<open>
  What the file server promises to clients that send requests at the same time.
\<close>

section \<open>No races on the disk\<close>

text \<open>A block that a thread is about to write is its own, or belongs to a node of the tree that it has locked alone.\<close>

lemma write_claim:
  assumes inv: "conc_inv io w ps t" and i: "i < length ps" and cf: "conform io (request (workers w ! i)) (Write b bytes p) (ps ! i)"
  obtains (own) "b \<in> set (owned (ps ! i))" "limbos (ps ! i) = {}"
    | (node) q m where "(m, Holds_unique) \<in> set (locks_of (ps ! i))" "current (erasures w) m"
        "walk (child (image_in io w)) 0 q = Some (fst m)" "b \<in> set (node_blocks (image_in io w) (fst m))"
  using cf
proof (cases rule: conform_write_cases)
  case (own own q m h D ptr)
  with that(1) show thesis by auto
next
  case (commit q m D own res ptr)
  then show thesis using that(2) [of m q] conc_invD(5) [OF inv i] by (auto simp: placed_def commits_def agree_used)
next
  case (unlink q m D x m' D' extra)
  then show thesis using that(2) [of m q] conc_invD(5) [OF inv i] by (auto simp: placed_def unlinks_def agree_used)
qed

lemma read_claim:
  assumes inv: "conc_inv io w ps t" and i: "i < length ps" and cf: "conform io (request (workers w ! i)) (Read b k) (ps ! i)"
  obtains m h where "(m, h) \<in> set (locks_of (ps ! i))" "current (erasures w) m" "b \<in> set (node_blocks (image_in io w) (fst m))"
    "(\<exists>q. walk (child (image_in io w)) 0 q = Some (fst m)) \<or> m \<in> limbo ps"
  using cf
proof (cases rule: conform_read_cases)
  case (at D m q h own ptr)
  with conc_invD(5) [OF inv i] have "placed (image_in io w) (erasures w) (user_of w i) q m h D" by simp
  then have "current (erasures w) m" "walk (child (image_in io w)) 0 q = Some (fst m)" "agree D (image_in io w) (fst m)"
    by (simp_all add: placed_def)
  with at that [of m h] agree_used show thesis by fastforce
next
  case (two D' m' q m h D x h')
  with conc_invD(5) [OF inv i] have "placed (image_in io w) (erasures w) (user_of w i) (q @ [x]) m' h' D'" by simp
  then have "current (erasures w) m'" "walk (child (image_in io w)) 0 (q @ [x]) = Some (fst m')" "agree D' (image_in io w) (fst m')"
    by (simp_all add: placed_def)
  with two that [of m' h'] agree_used show thesis by fastforce
next
  case (gone m h D cs res)
  with conc_invD(5) [OF inv i] have "current (erasures w) m" "agree D (image_in io w) (fst m)"
    "(\<exists>q. walk (child (image_in io w)) 0 q = Some (fst m)) \<or> m \<in> limbo ps" by fastforce+
  moreover have "(m, h) \<in> set (locks_of (ps ! i))" using imageI [OF gone(2), of "\<lambda>(m, k, _). (m, k)"] gone(1) by simp
  ultimately show thesis using gone that [of m h] agree_used by auto
qed

lemma claims_exclude:
  assumes inv: "conc_inv io w ps t" and ij: "i < length ps" "j < length ps" "i \<noteq> j"
    and i: "(m, Holds_unique) \<in> set (locks_of (ps ! i))" "current (erasures w) m" "walk (child (image_in io w)) 0 q = Some (fst m)"
      "b \<in> set (node_blocks (image_in io w) (fst m))"
    and j: "(m', h) \<in> set (locks_of (ps ! j))" "current (erasures w) m'" "walk (child (image_in io w)) 0 q' = Some (fst m')"
      "b \<in> set (node_blocks (image_in io w) (fst m'))"
  shows False
proof -
  have "fst m = fst m'" using walk_disjoint [OF conc_inv_tree(1-3) [OF inv] i(3) j(3)] i(4) j(4) by (metis IntI empty_iff)
  then have "m = m'" using i(2) j(2) by (simp add: prod_eq_iff)
  then show False using conc_invD(4) [OF inv ij] i(1) j(1) by fastforce
qed

lemma owned_outside:
  assumes "conc_inv io w ps t" "l < length ps" "b \<in> set (owned (ps ! l))"
  shows "b \<notin> set (blocks_of (image_in io w) t)"
  using conc_inv_tree(5) [OF assms(1), of b] owned_taken [OF assms(2)] assms(3) by blast

lemma walk_inside:
  assumes "conc_inv io w ps t" "walk (child (image_in io w)) 0 q = Some c" "b \<in> set (node_blocks (image_in io w) c)"
  shows "b \<in> set (blocks_of (image_in io w) t)"
  using outside_tree(5) [OF conc_inv_tree(1,2) [OF assms(1)], of "image_in io w"] assms(2,3) by blast

lemma limbo_owned:
  assumes inv: "conc_inv io w ps t" and m: "m \<in> limbo ps" "b \<in> set (node_blocks (image_in io w) (fst m))"
  obtains l where "l < length ps" "limbos (ps ! l) = {m}" "b \<in> set (owned (ps ! l))"
proof -
  obtain l where l: "l < length ps" "m \<in> limbos (ps ! l)" using m(1) by (auto simp: limbo_def in_set_conv_nth)
  then obtain pm h D' own where "ps ! l = Limbo pm m h D' own" by (cases "ps ! l") auto
  with conc_invD(5) [OF inv l(1)] m(2) l(1) that agree_used [of D' "image_in io w" "fst m"] show thesis by auto
qed

lemma no_read_beside_write:
  assumes inv: "conc_inv io w ps t" and ij: "i < length ps" "j < length ps" "i \<noteq> j"
    and cf: "conform io (request (workers w ! i)) (Write b bytes p) (ps ! i)"
  shows "\<not> conform io (request (workers w ! j)) (Read b k) (ps ! j)"
proof
  assume rd: "conform io (request (workers w ! j)) (Read b k) (ps ! j)"
  obtain m' h where r: "(m', h) \<in> set (locks_of (ps ! j))" "current (erasures w) m'" "b \<in> set (node_blocks (image_in io w) (fst m'))"
    "(\<exists>q. walk (child (image_in io w)) 0 q = Some (fst m')) \<or> m' \<in> limbo ps" using read_claim [OF inv ij(2) rd] .
  from inv ij(1) cf show False
  proof (cases rule: write_claim)
    case own
    then have "m' \<in> limbo ps" using r(3,4) owned_outside [OF inv ij(1)] walk_inside [OF inv] by blast
    then obtain l where "l < length ps" "limbos (ps ! l) = {m'}" "b \<in> set (owned (ps ! l))" using limbo_owned [OF inv] r(3) by blast
    with conc_inv_tree(9) [OF inv, of i l] own ij(1) show False by (cases "i = l") auto
  next
    case (node q m)
    then have "m' \<notin> limbo ps" using r(3) limbo_owned [OF inv] owned_outside [OF inv] walk_inside [OF inv node(3)] by metis
    then show False using claims_exclude [OF inv ij node r(1,2) _ r(3)] r(4) by blast
  qed
qed

lemma no_write_beside_write:
  assumes inv: "conc_inv io w ps t" and ij: "i < length ps" "j < length ps" "i \<noteq> j"
    and cf: "conform io (request (workers w ! i)) (Write b bytes p) (ps ! i)"
  shows "\<not> conform io (request (workers w ! j)) (Write b bytes' p') (ps ! j)"
proof
  assume wr: "conform io (request (workers w ! j)) (Write b bytes' p') (ps ! j)"
  from inv ij(1) cf show False
  proof (cases rule: write_claim)
    case 1: own
    from inv ij(2) wr show False
      by (cases rule: write_claim) (use 1 conc_inv_tree(9) [OF inv ij] owned_outside [OF inv ij(1)] walk_inside [OF inv] in blast)+
  next
    case 1: (node q m)
    from inv ij(2) wr show False
      by (cases rule: write_claim) (use 1 claims_exclude [OF inv ij 1] owned_outside [OF inv ij(2)] walk_inside [OF inv] in blast)+
  qed
qed

text \<open>Two actions that must not come together: a write of a block, and a read or write of the same block.\<close>

fun conflicting :: "prog \<Rightarrow> prog \<Rightarrow> bool" where
  "conflicting (Write b bytes p) (Read c k) \<longleftrightarrow> b = c"
| "conflicting (Write b bytes p) (Write c bytes' p') \<longleftrightarrow> b = c"
| "conflicting p p' \<longleftrightarrow> False"

lemma served_no_conflict:
  assumes sv: "served io w a" and ij: "i < length (workers w)" "j < length (workers w)" "i \<noteq> j"
  shows "\<not> conflicting (program (activity (workers w ! i))) (program (activity (workers w ! j)))"
proof -
  obtain ps t where inv: "conc_inv io w ps t" using sv by (auto simp: served_def)
  have cf: "conform io (request (workers w ! l)) (program (activity (workers w ! l))) (ps ! l)" if "l < length (workers w)" for l
    using conc_invD(1) [OF inv] conc_invD(2) [OF inv, of l] that return_gone by (fastforce simp: worker_ok.simps split: activity.splits)
  have ij': "i < length ps" "j < length ps" using ij conc_invD(1) [OF inv] by simp_all
  show ?thesis using cf [OF ij(1)] cf [OF ij(2)] no_read_beside_write [OF inv ij' ij(3)] no_write_beside_write [OF inv ij' ij(3)]
    by (cases "(program (activity (workers w ! i)), program (activity (workers w ! j)))" rule: conflicting.cases) auto
qed

section \<open>Runs of the server\<close>

definition before_requests :: "'d fs_state \<Rightarrow> (nat \<Rightarrow> nat) \<Rightarrow> 'd world" where
  "before_requests s g = \<lparr>fsys = s, erasures = g, workers = []\<rparr>"

abbreviation at_rest :: "'d disk_ops \<Rightarrow> 'd fs_state \<Rightarrow> atomic_fs" where
  "at_rest io s \<equiv> \<lparr>user_files = view_of io s, answers = []\<rparr>"

lemma start_served: "disk_laws io \<Longrightarrow> fs_inv io s \<Longrightarrow> served io (before_requests s g) (at_rest io s)"
  by (auto simp: served_def before_requests_def conc_inv_def fs_inv_def taken_def exclusive_def view_of_def)

lemma runs_served:
  assumes "disk_laws io" "fs_inv io s" "run_of (conc_step io) (before_requests s g) cs w"
  obtains a where "run_of (alongside (conc_step io) (atomic_step io)) (before_requests s g, at_rest io s) cs (w, a)" "served io w a"
  using requests.run_follows [OF assms(3) start_served [OF assms(1,2)]] that by blast

lemma served_answers:
  assumes "served io w a"
  shows "user_files a = view_of io (fsys w)" "length (answers a) = length (workers w)"
    "\<And>i res. i < length (workers w) \<Longrightarrow> activity (workers w ! i) = Finished res \<Longrightarrow> answers a ! i = Some res"
proof -
  obtain ps t where s: "conc_inv io w ps t" "user_files a = fs_view (image_in io w)" "answers a = map effect ps"
    using assms by (auto simp: served_def)
  show "user_files a = view_of io (fsys w)" "length (answers a) = length (workers w)"
    using s conc_invD(1) [OF s(1)] by (simp_all add: view_of_def)
  show "answers a ! i = Some res" if "i < length (workers w)" "activity (workers w ! i) = Finished res" for i res
    using conc_invD(1) [OF s(1)] conc_invD(2) [OF s(1), of i] that s(3) by (simp add: worker_ok.simps)
qed

text \<open>Two clients that create the same file at the same time, on a freshly formatted disk.\<close>

definition two_creates :: "move list" where
  "two_creates = replicate 2 (Arrive root_inode (FS_CREATE ''bob'' [''a''] CHR ''f''))"

lemma moves_keep_workers: "run_of (conc_step io) w (map Move js) w' \<Longrightarrow> length (workers w') = length (workers w)"
  by (induction js arbitrary: w) (auto elim!: moveE)

lemma two_creates_run:
  obtains js w where "run_of (conc_step mem_disk) (before_requests fresh_fs g) (two_creates @ map Move js) w"
    "length (workers w) = 2" "list_all (\<lambda>wk. \<not> unfinished wk) (workers w)"
proof -
  let ?r = "FS_CREATE ''bob'' [''a''] CHR ''f''"
  let ?wk = "\<lparr>request = ?r, activity = Running (request_prog root_inode ?r) []\<rparr>" and ?w = "before_requests fresh_fs g"
  have "conc_step mem_disk (Arrive root_inode ?r) v (v\<lparr>workers := workers v @ [?wk]\<rparr>)" for v
    by (rule arriving [OF formatted_root(2) ready_create])
  from this [of ?w] this [of "?w\<lparr>workers := [?wk]\<rparr>"]
  have run: "run_of (conc_step mem_disk) ?w two_creates (?w\<lparr>workers := [?wk, ?wk]\<rparr>)"
    by (simp add: two_creates_def numeral_2_eq_2 before_requests_def) blast
  obtain a where "served mem_disk (?w\<lparr>workers := [?wk, ?wk]\<rparr>) a" using runs_served [OF mem_disk_laws fresh_inv run] .
  then obtain js w where js: "run_of (conc_step mem_disk) (?w\<lparr>workers := [?wk, ?wk]\<rparr>) (map Move js) w" "list_all (\<lambda>wk. \<not> unfinished wk) (workers w)"
    using schedule_ends by blast
  with that [of js w] run moves_keep_workers [OF js(1)] show thesis by (auto simp: run_of_append)
qed

text \<open>
  C1. However the actions of concurrent requests are interleaved, each request takes effect at one
  moment between its arrival and its answer: the run is followed, step by step, by a file system on which
  requests happen at once as the abstract specification says, or are refused while space is short. The
  answers are those of that file system, and users see its files.
\<close>

theorem requests_linearize:
  assumes "disk_laws io" "fs_inv io s" "run_of (conc_step io) (before_requests s g) cs w"
  shows "\<exists>a. run_of (alongside (conc_step io) (atomic_step io)) (before_requests s g, at_rest io s) cs (w, a)
    \<and> user_files a = view_of io (fsys w) \<and> length (answers a) = length (workers w)
    \<and> (\<forall>i res. i < length (workers w) \<and> activity (workers w ! i) = Finished res \<longrightarrow> answers a ! i = Some res)"
proof -
  obtain a where "run_of (alongside (conc_step io) (atomic_step io)) (before_requests s g, at_rest io s) cs (w, a)" "served io w a"
    using runs_served [OF assms] .
  with served_answers show ?thesis by blast
qed

theorem requests_linearize_witness:
  "\<exists>js w a. run_of (alongside (conc_step mem_disk) (atomic_step mem_disk)) (before_requests fresh_fs (\<lambda>_. 0), at_rest mem_disk fresh_fs)
      (two_creates @ map Move js) (w, a) \<and> user_files a = view_of mem_disk (fsys w) \<and> length (answers a) = 2 \<and> None \<notin> set (answers a)"
proof -
  obtain js w where w: "run_of (conc_step mem_disk) (before_requests fresh_fs (\<lambda>_. 0)) (two_creates @ map Move js) w"
    "length (workers w) = 2" "list_all (\<lambda>wk. \<not> unfinished wk) (workers w)" using two_creates_run .
  obtain a where a: "run_of (alongside (conc_step mem_disk) (atomic_step mem_disk)) (before_requests fresh_fs (\<lambda>_. 0), at_rest mem_disk fresh_fs)
      (two_creates @ map Move js) (w, a)" "user_files a = view_of mem_disk (fsys w)" "length (answers a) = length (workers w)"
      "\<And>i res. i < length (workers w) \<Longrightarrow> activity (workers w ! i) = Finished res \<Longrightarrow> answers a ! i = Some res"
    using requests_linearize [OF mem_disk_laws fresh_inv w(1)] by blast
  have "None \<notin> set (answers a)" using a(3,4) w(3) by (fastforce simp: in_set_conv_nth list_all_length)
  with a w(2) show ?thesis by auto
qed

text \<open>
  C4. Concurrent requests never deadlock, abort or run forever: in every state of every run some thread can move
  or all requests are answered, and then the file system is consistent. No schedule of the
  threads is endless, and there is one that answers all requests.
\<close>

theorem concurrent_requests_answered:
  assumes "disk_laws io" "fs_inv io s" "run_of (conc_step io) (before_requests s g) cs w"
  shows "wf (moves io)
    \<and> ((\<exists>j w'. conc_step io (Move j) w w') \<or> list_all (\<lambda>wk. \<exists>res. activity wk = Finished res) (workers w) \<and> fs_inv io (fsys w))
    \<and> (\<exists>js w'. run_of (conc_step io) w (map Move js) w'
        \<and> list_all (\<lambda>wk. \<exists>res. activity wk = Finished res) (workers w') \<and> fs_inv io (fsys w'))"
proof (intro conjI)
  obtain a where sv: "served io w a" using runs_served [OF assms] .
  show "wf (moves io)" by (rule wf_moves)
  show "(\<exists>j w'. conc_step io (Move j) w w') \<or> list_all (\<lambda>wk. \<exists>res. activity wk = Finished res) (workers w) \<and> fs_inv io (fsys w)"
    by (rule served_progress [OF sv])
  obtain js w' where js: "run_of (conc_step io) w (map Move js) w'" "list_all (\<lambda>wk. \<not> unfinished wk) (workers w')" using schedule_ends [OF sv] by blast
  moreover obtain b where "served io w' b" using requests.run_follows [OF js(1) sv] by blast
  ultimately show "\<exists>js w'. run_of (conc_step io) w (map Move js) w'
      \<and> list_all (\<lambda>wk. \<exists>res. activity wk = Finished res) (workers w') \<and> fs_inv io (fsys w')"
    using finished_consistent by (metis (no_types, lifting) list.pred_cong)
qed

theorem concurrent_requests_answered_witness:
  "\<exists>cs w. run_of (conc_step mem_disk) (before_requests fresh_fs (\<lambda>_. 0)) cs w \<and> length (workers w) = 2
    \<and> list_all (\<lambda>wk. \<exists>res. activity wk = Finished res) (workers w) \<and> fs_inv mem_disk (fsys w)"
proof -
  obtain js w where w: "run_of (conc_step mem_disk) (before_requests fresh_fs (\<lambda>_. 0)) (two_creates @ map Move js) w" "length (workers w) = 2"
    using two_creates_run .
  from concurrent_requests_answered [OF mem_disk_laws fresh_inv w(1)] obtain ks w'
    where "run_of (conc_step mem_disk) w (map Move ks) w'" "list_all (\<lambda>wk. \<exists>res. activity wk = Finished res) (workers w')" "fs_inv mem_disk (fsys w')"
    by blast
  with w moves_keep_workers show ?thesis by (metis run_of_append)
qed

text \<open>
  C5. No two threads are ever about to access the same block of the disk in conflict, a write with a
  read or another write.
\<close>

theorem no_disk_races:
  assumes "disk_laws io" "fs_inv io s" "run_of (conc_step io) (before_requests s g) cs w"
    and "i < length (workers w)" "j < length (workers w)" "i \<noteq> j"
  shows "\<not> conflicting (program (activity (workers w ! i))) (program (activity (workers w ! j)))"
proof -
  obtain a where "served io w a" using runs_served [OF assms(1-3)] .
  from served_no_conflict [OF this assms(4-6)] show ?thesis .
qed

theorem no_disk_races_witness:
  "\<exists>cs w. run_of (conc_step mem_disk) (before_requests fresh_fs (\<lambda>_. 0)) cs w
    \<and> \<not> conflicting (program (activity (workers w ! 0))) (program (activity (workers w ! 1)))"
proof -
  obtain js w where w: "run_of (conc_step mem_disk) (before_requests fresh_fs (\<lambda>_. 0)) (two_creates @ map Move js) w" "length (workers w) = 2"
    using two_creates_run .
  with no_disk_races [OF mem_disk_laws fresh_inv w(1), of 0 1] show ?thesis by auto
qed


end
