(* ===== verification/Server_Concurrent.thy ===== *)
theory Server_Concurrent
  imports Server_Main Fs_Service
begin

text \<open>
  The server from \<^verbatim>\<open>main\<close> on with its detached threads side by side: a connection thread receives
  and parses its request, then the actions of its handler interleave with those of all the others,
  and at the end it answers.
\<close>

section \<open>A connection before and after its request\<close>

text \<open>What \<^verbatim>\<open>handle_connection\<close> does before it calls \<^verbatim>\<open>execute_request\<close>; it touches nothing that threads share.\<close>

datatype incoming = Closed int | Thrown cpp_exn | Got Request

definition incoming_request :: "'k sock_ops \<Rightarrow> 'k \<Rightarrow> incoming" where
  "incoming_request so k =
     (case read_header so k (replicate (MAX_HEADER_SIZE + 1) NUL) 0 of
        None \<Rightarrow> Closed (-1)
      | Some (msg, k1) \<Rightarrow>
          (case parse_request msg of
             Inl e \<Rightarrow> Thrown e
           | Inr None \<Rightarrow> Closed 0
           | Inr (Some parsed) \<Rightarrow>
               (case attach_data so k1 parsed of None \<Rightarrow> Closed (-1) | Some req \<Rightarrow> Got req)))"

lemma handle_connection_incoming:
  "handle_connection so io junk k s = (case incoming_request so k of
     Closed st \<Rightarrow> Returned st [] s []
   | Thrown e \<Rightarrow> Terminated e
   | Got req \<Rightarrow>
       (case execute_request io junk s req of
          None \<Rightarrow> Aborted
        | Some (r, s', evs) \<Rightarrow>
            (case respond req r of None \<Rightarrow> Aborted | Some sent \<Rightarrow> Returned 0 sent s' evs)))"
  by (simp add: handle_connection_def incoming_request_def split: option.split sum.split)

lemma incoming_ready:
  assumes "delivers so pend" "incoming_request so k = Got r"
  shows "ready_request r"
proof -
  obtain msg k1 parsed where "parse_request msg = Inr (Some parsed)" "attach_data so k1 parsed = Some r"
    using assms(2) by (auto simp: incoming_request_def split: option.splits sum.splits)
  then show ?thesis using attached_ready(1) [OF assms(1)] parse_request_accepts by blast
qed

text \<open>A request that a client prints is the one that its connection receives.\<close>

lemma incoming_sent:
  assumes "delivers so pend" "wf_request r" "path r \<noteq> []" "pend k = request_string r @ NUL # rest" "\<not> is_FS_WRITEBLOCK r"
  shows "incoming_request so k = Got r"
proof -
  note fits = request_string_fits [OF assms(2,3)]
  obtain k' where "read_header so k (replicate (MAX_HEADER_SIZE + 1) NUL) 0
      = Some (request_string r @ NUL # replicate (MAX_HEADER_SIZE - length (request_string r)) NUL, k')"
    using read_header_reads [OF assms(1) fits(2) assms(4), of "[]"] fits(1) by auto
  moreover have "attach_data so k' r = Some r" using assms(5) by (cases r) (simp_all add: attach_data_def)
  ultimately show ?thesis
    using parse_request_terminated [OF fits(2)] parse_print_request [OF assms(2,3)] by (simp add: incoming_request_def)
qed

section \<open>Runs\<close>

record ('o, 'd) conc_server =
  system :: 'o
  waiting :: "int list"
  world :: "'d world"

definition conc_listening :: "'o os_ops \<Rightarrow> int \<Rightarrow> 'o \<Rightarrow> 'd \<Rightarrow> nat list \<Rightarrow> ('o, 'd) conc_server" where
  "conc_listening os sockfd st d free =
     \<lparr>system = sys_listen os st sockfd, waiting = [], world = before_requests \<lparr>disk = d, free_disk_blocks = free\<rparr> (\<lambda>_. 0)\<rparr>"

text \<open>
  A turn of the accept loop; a thread whose client sends no request; a thread that has received one; an action of a
  thread. An exception of the parser ends the process, so there is no step after it.
\<close>

inductive conc_server_step :: "'o os_ops \<Rightarrow> 'd disk_ops \<Rightarrow> int \<Rightarrow> ('o, 'd) conc_server \<Rightarrow> ('o, 'd) conc_server \<Rightarrow> bool"
  for os io sockfd where
  accept_client: "accept_turn os sockfd (system v, waiting v) = (st, ts) \<Longrightarrow>
    conc_server_step os io sockfd v (v\<lparr>system := st, waiting := ts\<rparr>)"
| drop_client: "c \<in> set (waiting v) \<Longrightarrow> delivers (so :: char list sock_ops) id \<Longrightarrow> incoming_request so k = Closed st \<Longrightarrow>
    conc_server_step os io sockfd v (v\<lparr>waiting := remove1 c (waiting v)\<rparr>)"
| take_request: "c \<in> set (waiting v) \<Longrightarrow> delivers (so :: char list sock_ops) id \<Longrightarrow> incoming_request so k = Got r \<Longrightarrow> wf_inode junk \<Longrightarrow>
    conc_step io (Arrive junk r) (world v) w \<Longrightarrow>
    conc_server_step os io sockfd v (v\<lparr>waiting := remove1 c (waiting v), world := w\<rparr>)"
| run_thread: "conc_step io (Move i) (world v) w \<Longrightarrow> conc_server_step os io sockfd v (v\<lparr>world := w\<rparr>)"

lemma conc_server_run:
  "(conc_server_step os io sockfd)\<^sup>*\<^sup>* v v' \<Longrightarrow> \<exists>cs. run_of (conc_step io) (world v) cs (world v')"
proof (induction rule: rtranclp_induct)
  case base
  show ?case by (metis run_of.simps(1))
next
  case (step v' v'')
  then obtain cs where cs: "run_of (conc_step io) (world v) cs (world v')" by blast
  have "world v'' = world v' \<or> (\<exists>c. conc_step io c (world v') (world v''))" using step.hyps(2) by cases auto
  then show ?case
  proof
    assume "\<exists>c. conc_step io c (world v') (world v'')"
    then obtain c where "conc_step io c (world v') (world v'')" by blast
    with cs have "run_of (conc_step io) (world v) (cs @ [c]) (world v'')" by (auto simp: run_of_append)
    then show ?case by blast
  qed (use cs in auto)
qed

text \<open>A request that waits for nobody can be received whatever the other threads do.\<close>

lemma take_request_enabled:
  assumes "c \<in> set (waiting v)" "delivers (so :: char list sock_ops) id" "incoming_request so k = Got r" "wf_inode junk"
  shows "\<exists>v'. conc_server_step os io sockfd v v' \<and> length (workers (world v')) = Suc (length (workers (world v)))"
  using take_request [OF assms arriving [OF assms(4) incoming_ready [OF assms(2,3)]]] by fastforce

section \<open>Answers\<close>

text \<open>Every answer can be sent: a read that succeeds has a block to send.\<close>

lemma spec_respond: "spec_request v r = (res, v') \<Longrightarrow> respond r res \<noteq> None"
  by (cases r) (auto simp: respond_def spec_read_def spec_write_def spec_create_def spec_delete_def
      split: option.splits fs_entry.splits if_splits)

definition sendable :: "'d world \<times> atomic_fs \<Rightarrow> bool" where
  "sendable x \<longleftrightarrow> length (answers (snd x)) = length (workers (fst x))
     \<and> (\<forall>i < length (workers (fst x)). \<forall>res. answers (snd x) ! i = Some res \<longrightarrow> respond (request (workers (fst x) ! i)) res \<noteq> None)"

lemma sendable_step:
  assumes "sendable (w, a)" "conc_step io c w w'" "atomic_step io w c a b"
  shows "sendable (w', b)"
  using assms(2)
proof cases
  case (arriving junk r)
  with assms(1,3) show ?thesis by (auto simp: sendable_def nth_append less_Suc_eq)
next
  case (moving i s g a')
  have "respond r Error \<noteq> None" for r by (simp add: respond_def)
  with assms(1,3) moving(1-3) spec_respond show ?thesis by (auto simp: sendable_def nth_list_update)
qed

interpretation answers: labelled_system "\<lambda>x. workers (fst x) = [] \<and> answers (snd x) = []" "alongside (conc_step io) (atomic_step io)" sendable for io
proof
  show "sendable x" if "workers (fst x) = [] \<and> answers (snd x) = []" for x using that by (simp add: sendable_def)
  show "sendable y" if "sendable x" "alongside (conc_step io) (atomic_step io) c x y" for x y c
    using that sendable_step [of "fst x" "snd x" io c "fst y" "snd y"] by (simp add: alongside_def)
qed

section \<open>From start-up on\<close>

lemma start_consistent:
  assumes "disk_laws io" "holds_tree io d t" "server_main os io junk d argv st = Some (Serving sockfd port unused st')"
  shows "fs_inv io \<lparr>disk = d, free_disk_blocks = unused\<rparr>"
  using server.inv_initial [of io "\<lparr>disk = d, free_disk_blocks = unused\<rparr>"] server_main_serving [OF assms(3)] assms(1,2)
  by (auto simp: started_def)

lemma one_socket_serving:
  obtains port unused st' where "server_main one_socket mem_disk no_address formatted [''fs''] None = Some (Serving 3 port unused st')"
proof -
  have h: "holds_tree mem_disk formatted (Node 0 [])" using fs_tree_holds [OF fresh_fs_tree] by (simp add: fresh_fs_def)
  have "server_connect one_socket no_address None 0 = (3, Some (no_address\<lparr>sin_family := AF_INET, sin_port := htons 40000\<rparr>))"
    by (simp add: server_connect_def one_socket_def make_server_sockaddr_def no_address_def INADDR_ANY_def htons_def)
  with server_main_started [OF mem_disk_laws h, of "[''fs'']" 0 one_socket no_address None] that show thesis by auto
qed

lemma threads_run:
  "run_of (conc_step io) (world v) (map Move js) w \<Longrightarrow> (conc_server_step os io sockfd)\<^sup>*\<^sup>* v (v\<lparr>world := w\<rparr>)"
proof (induction js arbitrary: v)
  case (Cons i js)
  then obtain u where u: "conc_step io (Move i) (world v) u" "run_of (conc_step io) u (map Move js) w" by auto
  have "(conc_server_step os io sockfd)\<^sup>*\<^sup>* (v\<lparr>world := u\<rparr>) (v\<lparr>world := w\<rparr>)" using Cons.IH [of "v\<lparr>world := u\<rparr>"] u(2) by simp
  with run_thread [OF u(1)] show ?case by (rule converse_rtranclp_into_rtranclp)
qed simp

text \<open>A client that creates a file, from the arrival of its connection to the answer.\<close>

lemma one_client:
  assumes inv: "fs_inv mem_disk \<lparr>disk = d, free_disk_blocks = unused\<rparr>"
  obtains v where "(conc_server_step one_socket mem_disk 3)\<^sup>*\<^sup>* (conc_listening one_socket 3 st d unused) v"
    "length (workers (world v)) = 1" "list_all (\<lambda>wk. \<not> unfinished wk) (workers (world v))"
proof -
  let ?r = "FS_CREATE ''bob'' [''a''] CHR ''f''" and ?v = "conc_listening one_socket 3 st d unused"
  have "accept_turn one_socket 3 (system ?v, waiting ?v) = (system ?v, [4])" by (simp add: accept_turn_def one_socket_def conc_listening_def)
  note acc = accept_client [OF this, of mem_disk]
  have "wf_request ?r" by (simp add: wf_request_def wf_user_def wf_path_def wf_name_def wf_operand_def fs_param_defs)
  then have got: "incoming_request sent_bytes (request_string ?r @ [NUL]) = Got ?r"
    by (intro incoming_sent [OF sent_bytes_delivers]) simp_all
  let ?w = "(world ?v)\<lparr>workers := [\<lparr>request = ?r, activity = Running (request_prog root_inode ?r) []\<rparr>]\<rparr>"
  have arr: "conc_step mem_disk (Arrive root_inode ?r) (world ?v) ?w"
    using arriving [OF formatted_root(2) ready_create, of mem_disk "world ?v"] by (simp add: conc_listening_def before_requests_def)
  have took: "conc_server_step one_socket mem_disk 3 (?v\<lparr>waiting := [4]\<rparr>) (?v\<lparr>waiting := [], world := ?w\<rparr>)"
    using take_request [OF _ sent_bytes_delivers got formatted_root(2), of 4 "?v\<lparr>waiting := [4]\<rparr>" mem_disk ?w one_socket 3] arr by simp
  have run: "run_of (conc_step mem_disk) (before_requests \<lparr>disk = d, free_disk_blocks = unused\<rparr> (\<lambda>_. 0)) [Arrive root_inode ?r] ?w"
    using arr by (simp add: conc_listening_def)
  obtain a where "served mem_disk ?w a" using runs_served [OF mem_disk_laws inv run] .
  then obtain js w where js: "run_of (conc_step mem_disk) ?w (map Move js) w" "list_all (\<lambda>wk. \<not> unfinished wk) (workers w)" using schedule_ends by blast
  have "(conc_server_step one_socket mem_disk 3)\<^sup>*\<^sup>* (?v\<lparr>waiting := [], world := ?w\<rparr>) (?v\<lparr>waiting := [], world := w\<rparr>)"
    using threads_run [of mem_disk "?v\<lparr>waiting := [], world := ?w\<rparr>" js w one_socket 3] js(1) by simp
  with acc took have "(conc_server_step one_socket mem_disk 3)\<^sup>*\<^sup>* ?v (?v\<lparr>waiting := [], world := w\<rparr>)"
    by (simp add: converse_rtranclp_into_rtranclp)
  then show thesis using that [of "?v\<lparr>waiting := [], world := w\<rparr>"] js moves_keep_workers [OF js(1)] by simp
qed

end
