(* ===== verification/Threads.thy ===== *)
theory Threads
  imports Prelude
begin

text \<open>
  The thread library of \<^verbatim>\<open>src/thread_library\<close>: CPUs and the ready queue (\<^verbatim>\<open>cpu.cpp\<close>), thread
  creation, termination, join and yield (\<^verbatim>\<open>thread.cpp\<close>), mutexes (\<^verbatim>\<open>mutex.cpp\<close>) and condition
  variables (\<^verbatim>\<open>cv.cpp\<close>).

  Every operation of the library runs between \<^verbatim>\<open>guard_lock\<close> and \<^verbatim>\<open>guard_unlock\<close> with interrupts
  off, and a context switch passes the guard to the context that is resumed, so one operation
  on one CPU, up to the release of the guard, is one atomic step. What the resumed context
  does before it releases the guard is part of that step: \<open>resume\<close> records for each context
  the call of \<^verbatim>\<open>swapcontext\<close> it is suspended in.
\<close>

section \<open>State\<close>

text \<open>Where a suspended context continues.\<close>

datatype resume_point =
    Start
  | In_yield
  | In_timer
  | In_join
  | In_lock nat
  | In_wait nat

text \<open>
  A \<^verbatim>\<open>cpu\<close>: \<^verbatim>\<open>*last_context\<close> and \<^verbatim>\<open>*to_kill\<close> (contexts are named by the \<^verbatim>\<open>id\<close> of their
  \<^verbatim>\<open>managed_uc\<close>), the idle flag, and two facts about the hardware: whether interrupts are
  enabled and whether the CPU is suspended in \<^verbatim>\<open>interrupt_enable_suspend\<close>.
\<close>

record cpu =
  last_context :: "nat option"
  to_kill :: "nat option"
  is_idle :: bool
  interrupts :: bool
  suspended :: bool

record mutex =
  waiting_queue :: "nat list"
  owner :: nat
  free :: bool

record shared_thread_info =
  join_waiting_queue :: "nat list"
  alive :: bool

text \<open>
  The global state. \<open>must_lock x = Some m\<close>: context \<open>x\<close> has been woken in \<^verbatim>\<open>cv::wait\<close> and its
  next action is \<^verbatim>\<open>m.lock()\<close>. \<open>ipis\<close> lists the CPUs that \<^verbatim>\<open>interrupt_send\<close> was called on.
\<close>

record sys =
  guard :: bool
  max_id :: nat
  cpu_vec :: "cpu list"
  ready_queue :: "nat list"
  mutexes :: "nat \<Rightarrow> mutex"
  cvs :: "nat \<Rightarrow> nat list"
  threads :: "nat \<Rightarrow> shared_thread_info"
  resume :: "nat \<Rightarrow> resume_point"
  must_lock :: "nat \<Rightarrow> nat option"
  ipis :: "nat list"

text \<open>The waiting queues a context can be pushed to by reference.\<close>

datatype queue_ref = Q_ready | Q_mutex nat | Q_cv nat | Q_join nat

definition new_mutex :: mutex where
  "new_mutex = \<lparr>waiting_queue = [], owner = 0, free = True\<rparr>"

definition init_sys :: sys where
  "init_sys = \<lparr>guard = False, max_id = 1, cpu_vec = [], ready_queue = [],
     mutexes = (\<lambda>_. new_mutex), cvs = (\<lambda>_. []),
     threads = (\<lambda>_. \<lparr>join_waiting_queue = [], alive = False\<rparr>),
     resume = (\<lambda>_. Start), must_lock = (\<lambda>_. None), ipis = []\<rparr>"

definition upd_cpu :: "nat \<Rightarrow> (cpu \<Rightarrow> cpu) \<Rightarrow> sys \<Rightarrow> sys" where
  "upd_cpu c f s = s\<lparr>cpu_vec := (cpu_vec s)[c := f (cpu_vec s ! c)]\<rparr>"

definition upd_mutex :: "nat \<Rightarrow> (mutex \<Rightarrow> mutex) \<Rightarrow> sys \<Rightarrow> sys" where
  "upd_mutex m f s = s\<lparr>mutexes := (mutexes s)(m := f (mutexes s m))\<rparr>"

definition upd_thread :: "nat \<Rightarrow> (shared_thread_info \<Rightarrow> shared_thread_info) \<Rightarrow> sys \<Rightarrow> sys" where
  "upd_thread t f s = s\<lparr>threads := (threads s)(t := f (threads s t))\<rparr>"

text \<open>The context running on CPU \<open>c\<close>; a null \<^verbatim>\<open>*last_context\<close> is not dereferenced.\<close>

definition current :: "nat \<Rightarrow> sys \<Rightarrow> nat option" where
  "current c s = (if c < length (cpu_vec s) then last_context (cpu_vec s ! c) else None)"

section \<open>Guard and interrupts\<close>

text \<open>
  The exchange loop of \<^verbatim>\<open>guard_lock\<close> leaves exactly when the guard was false; while it is true
  the CPU spins and no step is taken.
\<close>

definition guard_lock :: "sys \<Rightarrow> sys option" where
  "guard_lock s = (if guard s then None else Some (s\<lparr>guard := True\<rparr>))"

definition guard_unlock :: "sys \<Rightarrow> sys" where
  "guard_unlock s = s\<lparr>guard := False\<rparr>"

definition interrupt_disable :: "nat \<Rightarrow> sys \<Rightarrow> sys" where
  "interrupt_disable c = upd_cpu c (\<lambda>p. p\<lparr>interrupts := False\<rparr>)"

definition interrupt_enable :: "nat \<Rightarrow> sys \<Rightarrow> sys" where
  "interrupt_enable c = upd_cpu c (\<lambda>p. p\<lparr>interrupts := True\<rparr>)"

text \<open>The two lines that open and close every operation.\<close>

definition enter :: "nat \<Rightarrow> sys \<Rightarrow> sys option" where
  "enter c s = guard_lock (interrupt_disable c s)"

definition leave :: "nat \<Rightarrow> sys \<Rightarrow> sys" where
  "leave c s = interrupt_enable c (guard_unlock s)"

definition assert_guarded :: "nat \<Rightarrow> sys \<Rightarrow> unit option" where
  "assert_guarded c s =
     cassert (c < length (cpu_vec s) \<and> \<not> interrupts (cpu_vec s ! c) \<and> guard s)"

section \<open>The ready queue\<close>

text \<open>
  The loop of \<^verbatim>\<open>check_ready_and_wake\<close>: \<open>n\<close> threads are unhandled, \<open>i\<close> is the index of the
  first CPU of the list.
\<close>

fun wake_loop :: "nat \<Rightarrow> nat \<Rightarrow> cpu list \<Rightarrow> cpu list \<times> nat list" where
  "wake_loop n i [] = ([], [])"
| "wake_loop n i (p # ps) =
     (if n = 0 then (p # ps, [])
      else if is_idle p then
        (case wake_loop (n - 1) (Suc i) ps of (ps', woken) \<Rightarrow> (p\<lparr>is_idle := False\<rparr> # ps', i # woken))
      else (case wake_loop n (Suc i) ps of (ps', woken) \<Rightarrow> (p # ps', woken)))"

definition check_ready_and_wake :: "nat \<Rightarrow> sys \<Rightarrow> sys option" where
  "check_ready_and_wake c s = do {
     assert_guarded c s;
     let (ps, woken) = wake_loop (length (ready_queue s)) 0 (cpu_vec s);
     Some (s\<lparr>cpu_vec := ps, ipis := ipis s @ woken\<rparr>) }"

definition add_to_ready_queue :: "nat \<Rightarrow> nat \<Rightarrow> sys \<Rightarrow> sys option" where
  "add_to_ready_queue c x s = check_ready_and_wake c (s\<lparr>ready_queue := ready_queue s @ [x]\<rparr>)"

text \<open>The overload that moves a whole queue; clearing that queue is left to its owner below.\<close>

definition add_all_to_ready_queue :: "nat \<Rightarrow> nat list \<Rightarrow> sys \<Rightarrow> sys option" where
  "add_all_to_ready_queue c xs s = check_ready_and_wake c (s\<lparr>ready_queue := ready_queue s @ xs\<rparr>)"

fun push_queue :: "queue_ref \<Rightarrow> nat \<Rightarrow> sys \<Rightarrow> sys" where
  "push_queue Q_ready x s = s\<lparr>ready_queue := ready_queue s @ [x]\<rparr>"
| "push_queue (Q_mutex m) x s = upd_mutex m (\<lambda>q. q\<lparr>waiting_queue := waiting_queue q @ [x]\<rparr>) s"
| "push_queue (Q_cv v) x s = s\<lparr>cvs := (cvs s)(v := cvs s v @ [x])\<rparr>"
| "push_queue (Q_join t) x s =
     upd_thread t (\<lambda>i. i\<lparr>join_waiting_queue := join_waiting_queue i @ [x]\<rparr>) s"

section \<open>Context switches\<close>

text \<open>
  What the context now in \<^verbatim>\<open>last_context\<close> of CPU \<open>c\<close> does from where it is resumed until it
  releases the guard.
\<close>

definition continue_current :: "nat \<Rightarrow> sys \<Rightarrow> sys option" where
  "continue_current c s = do {
     x \<leftarrow> current c s;
     Some (case resume s x of
             In_lock m \<Rightarrow> leave c (upd_mutex m (\<lambda>q. q\<lparr>owner := x\<rparr>) s)
           | In_wait m \<Rightarrow> (leave c s)\<lparr>must_lock := (must_lock s)(x \<mapsto> m)\<rparr>
           | _ \<Rightarrow> leave c s) }"

text \<open>One turn of the loop of \<^verbatim>\<open>watch_suspend\<close>, which every jump to the goldfish context reaches.\<close>

definition watch_suspend :: "nat \<Rightarrow> sys \<Rightarrow> sys option" where
  "watch_suspend c s = do {
     assert_guarded c s;
     let s = upd_cpu c (\<lambda>p. p\<lparr>to_kill := None\<rparr>) s;
     cassert (current c s = None);
     case ready_queue s of
       x # rest \<Rightarrow> continue_current c (upd_cpu c (\<lambda>p. p\<lparr>last_context := Some x\<rparr>) (s\<lparr>ready_queue := rest\<rparr>))
     | [] \<Rightarrow> Some (upd_cpu c (\<lambda>p. p\<lparr>interrupts := True, suspended := True\<rparr>)
                 (guard_unlock (upd_cpu c (\<lambda>p. p\<lparr>is_idle := True\<rparr>) s))) }"

text \<open>Run the next ready context, or the goldfish.\<close>

definition dispatch :: "nat \<Rightarrow> sys \<Rightarrow> sys option" where
  "dispatch c s =
     (case ready_queue s of
        x # rest \<Rightarrow> continue_current c (upd_cpu c (\<lambda>p. p\<lparr>last_context := Some x\<rparr>) (s\<lparr>ready_queue := rest\<rparr>))
      | [] \<Rightarrow> watch_suspend c s)"

text \<open>
  \<^verbatim>\<open>swap_self_to_queue\<close>: the context is saved into \<^verbatim>\<open>queue.back()\<close> after the front of the ready
  queue was popped, so pushing to an empty ready queue would save into a removed element.
\<close>

definition swap_self_to_queue :: "nat \<Rightarrow> queue_ref \<Rightarrow> resume_point \<Rightarrow> sys \<Rightarrow> sys option" where
  "swap_self_to_queue c q rp s = do {
     assert_guarded c s;
     x \<leftarrow> current c s;
     cassert (q = Q_ready \<longrightarrow> ready_queue s \<noteq> []);
     dispatch c (upd_cpu c (\<lambda>p. p\<lparr>last_context := None\<rparr>)
       ((push_queue q x s)\<lparr>resume := (resume s)(x := rp)\<rparr>)) }"

section \<open>Threads\<close>

text \<open>Exceptions an operation can throw to the application, and which allocation fails.\<close>

datatype thrown = Nothing | Runtime_error | Bad_alloc
datatype alloc = Alloc_ok | Fail_context | Fail_info

text \<open>
  \<^verbatim>\<open>construct_thread\<close>: the context takes the next \<^verbatim>\<open>id\<close>; a failing allocation releases the
  guard before it is rethrown.
\<close>

definition construct_thread :: "nat \<Rightarrow> alloc \<Rightarrow> sys \<Rightarrow> (thrown \<times> sys) option" where
  "construct_thread c al s =
     (case al of
        Fail_context \<Rightarrow> Some (Bad_alloc, leave c s)
      | Fail_info \<Rightarrow> Some (Bad_alloc, leave c (s\<lparr>max_id := Suc (max_id s)\<rparr>))
      | Alloc_ok \<Rightarrow> do {
          let x = max_id s;
          s' \<leftarrow> add_to_ready_queue c x
            (upd_thread x (\<lambda>_. \<lparr>join_waiting_queue = [], alive = True\<rparr>)
              (s\<lparr>max_id := Suc x, resume := (resume s)(x := Start)\<rparr>));
          Some (Nothing, s') })"

definition thread_create :: "nat \<Rightarrow> alloc \<Rightarrow> sys \<Rightarrow> (thrown \<times> sys) option" where
  "thread_create c al s = do {
     s \<leftarrow> enter c s;
     (e, s) \<leftarrow> construct_thread c al s;
     Some (e, if e = Nothing then leave c s else s) }"

text \<open>The end of \<^verbatim>\<open>wrapped_function\<close>, after \<^verbatim>\<open>func(arg)\<close> has returned.\<close>

definition thread_exit :: "nat \<Rightarrow> sys \<Rightarrow> sys option" where
  "thread_exit c s = do {
     s \<leftarrow> enter c s;
     x \<leftarrow> current c s;
     let waiters = join_waiting_queue (threads s x);
     s \<leftarrow> add_all_to_ready_queue c waiters
            (upd_thread x (\<lambda>i. i\<lparr>alive := False, join_waiting_queue := []\<rparr>) s);
     dispatch c (upd_cpu c (\<lambda>p. p\<lparr>to_kill := last_context p, last_context := None\<rparr>) s) }"

definition thread_join :: "nat \<Rightarrow> nat \<Rightarrow> sys \<Rightarrow> sys option" where
  "thread_join c t s = do {
     s \<leftarrow> enter c s;
     if alive (threads s t) then swap_self_to_queue c (Q_join t) In_join s
     else Some (leave c s) }"

definition thread_yield :: "nat \<Rightarrow> sys \<Rightarrow> sys option" where
  "thread_yield c s = do {
     s \<leftarrow> enter c s;
     if ready_queue s \<noteq> [] then swap_self_to_queue c Q_ready In_yield s
     else Some (leave c s) }"

section \<open>CPUs\<close>

text \<open>
  The constructor of \<^verbatim>\<open>cpu\<close>, with interrupts off as each CPU starts; \<open>func\<close> tells whether a
  first thread is to be created. The goldfish context takes an \<^verbatim>\<open>id\<close>, too.
\<close>

definition cpu_boot :: "bool \<Rightarrow> sys \<Rightarrow> sys option" where
  "cpu_boot func s = do {
     s \<leftarrow> guard_lock s;
     let c = length (cpu_vec s);
     let s = s\<lparr>max_id := Suc (max_id s),
               cpu_vec := cpu_vec s @ [\<lparr>last_context = None, to_kill = None, is_idle = False,
                                          interrupts = False, suspended = False\<rparr>]\<rparr>;
     if func then do {
       (e, s) \<leftarrow> construct_thread c Alloc_ok s;
       let s = upd_cpu c (\<lambda>p. p\<lparr>is_idle := False\<rparr>) s;
       case ready_queue s of
         [] \<Rightarrow> None
       | x # rest \<Rightarrow> continue_current c (upd_cpu c (\<lambda>p. p\<lparr>last_context := Some x\<rparr>) (s\<lparr>ready_queue := rest\<rparr>)) }
     else watch_suspend c (upd_cpu c (\<lambda>p. p\<lparr>is_idle := True\<rparr>) s) }"

definition timer_interrupt_handler :: "nat \<Rightarrow> sys \<Rightarrow> sys option" where
  "timer_interrupt_handler c s = do {
     s \<leftarrow> enter c s;
     if \<not> is_idle (cpu_vec s ! c) \<and> current c s \<noteq> None \<and> ready_queue s \<noteq> []
     then swap_self_to_queue c Q_ready In_timer s
     else Some (leave c s) }"

text \<open>A suspended CPU receives an inter-processor interrupt and goes round the loop again.\<close>

definition wake_from_suspend :: "nat \<Rightarrow> sys \<Rightarrow> sys option" where
  "wake_from_suspend c s = do {
     s \<leftarrow> enter c (upd_cpu c (\<lambda>p. p\<lparr>suspended := False\<rparr>) s);
     watch_suspend c s }"

section \<open>Mutexes\<close>

definition mutex_lock :: "nat \<Rightarrow> nat \<Rightarrow> sys \<Rightarrow> sys option" where
  "mutex_lock c m s = do {
     s \<leftarrow> enter c s;
     if \<not> free (mutexes s m) then swap_self_to_queue c (Q_mutex m) (In_lock m) s
     else do {
       x \<leftarrow> current c s;
       Some (leave c (upd_mutex m (\<lambda>q. q\<lparr>free := False, owner := x\<rparr>) s)) } }"

text \<open>Both exceptions release the guard and enable interrupts before they are thrown.\<close>

definition release_lock :: "nat \<Rightarrow> nat \<Rightarrow> sys \<Rightarrow> (thrown \<times> sys) option" where
  "release_lock c m s =
     (if free (mutexes s m) then Some (Runtime_error, leave c s)
      else do {
        x \<leftarrow> current c s;
        if x \<noteq> owner (mutexes s m) then Some (Runtime_error, leave c s)
        else
          (let s = upd_mutex m (\<lambda>q. q\<lparr>free := True, owner := 0\<rparr>) s in
           case waiting_queue (mutexes s m) of
             [] \<Rightarrow> Some (Nothing, s)
           | y # rest \<Rightarrow> do {
               s' \<leftarrow> add_to_ready_queue c y (upd_mutex m (\<lambda>q. q\<lparr>waiting_queue := rest, free := False\<rparr>) s);
               Some (Nothing, s') }) })"

definition mutex_unlock :: "nat \<Rightarrow> nat \<Rightarrow> sys \<Rightarrow> (thrown \<times> sys) option" where
  "mutex_unlock c m s = do {
     s \<leftarrow> enter c s;
     (e, s) \<leftarrow> release_lock c m s;
     Some (e, if e = Nothing then leave c s else s) }"

section \<open>Condition variables\<close>

definition cv_wait :: "nat \<Rightarrow> nat \<Rightarrow> nat \<Rightarrow> sys \<Rightarrow> (thrown \<times> sys) option" where
  "cv_wait c v m s = do {
     s \<leftarrow> enter c s;
     (e, s) \<leftarrow> release_lock c m s;
     if e \<noteq> Nothing then Some (e, s)
     else do {
       s \<leftarrow> swap_self_to_queue c (Q_cv v) (In_wait m) s;
       Some (Nothing, s) } }"

text \<open>The last line of \<^verbatim>\<open>cv::wait\<close>, run by the context that was woken.\<close>

definition cv_relock :: "nat \<Rightarrow> sys \<Rightarrow> sys option" where
  "cv_relock c s = do {
     x \<leftarrow> current c s;
     m \<leftarrow> must_lock s x;
     mutex_lock c m (s\<lparr>must_lock := (must_lock s)(x := None)\<rparr>) }"

definition cv_signal :: "nat \<Rightarrow> nat \<Rightarrow> sys \<Rightarrow> sys option" where
  "cv_signal c v s = do {
     s \<leftarrow> enter c s;
     s \<leftarrow> (case cvs s v of
             [] \<Rightarrow> Some s
           | y # rest \<Rightarrow> add_to_ready_queue c y (s\<lparr>cvs := (cvs s)(v := rest)\<rparr>));
     Some (leave c s) }"

definition cv_broadcast :: "nat \<Rightarrow> nat \<Rightarrow> sys \<Rightarrow> sys option" where
  "cv_broadcast c v s = do {
     s \<leftarrow> enter c s;
     s \<leftarrow> add_all_to_ready_queue c (cvs s v) (s\<lparr>cvs := (cvs s)(v := [])\<rparr>);
     Some (leave c s) }"

section \<open>Steps\<close>

text \<open>
  The library's clients: a CPU may boot, a running context may call any operation (after
  \<^verbatim>\<open>cv::wait\<close> was woken only \<^verbatim>\<open>m.lock()\<close>), a timer interrupt may arrive at a CPU that is not
  suspended, and a suspended CPU may receive an inter-processor interrupt.
\<close>

definition running :: "nat \<Rightarrow> sys \<Rightarrow> bool" where
  "running c s \<longleftrightarrow> (\<exists>x. current c s = Some x \<and> must_lock s x = None)"

inductive step :: "sys \<Rightarrow> sys \<Rightarrow> bool" where
  boot: "cpu_boot func s = Some t \<Longrightarrow> step s t"
| create: "running c s \<Longrightarrow> thread_create c al s = Some (e, t) \<Longrightarrow> step s t"
| exit: "running c s \<Longrightarrow> thread_exit c s = Some t \<Longrightarrow> step s t"
| join: "running c s \<Longrightarrow> thread_join c x s = Some t \<Longrightarrow> step s t"
| yield: "running c s \<Longrightarrow> thread_yield c s = Some t \<Longrightarrow> step s t"
| lock: "running c s \<Longrightarrow> mutex_lock c m s = Some t \<Longrightarrow> step s t"
| unlock: "running c s \<Longrightarrow> mutex_unlock c m s = Some (e, t) \<Longrightarrow> step s t"
| wait: "running c s \<Longrightarrow> cv_wait c v m s = Some (e, t) \<Longrightarrow> step s t"
| relock: "cv_relock c s = Some t \<Longrightarrow> step s t"
| signal: "running c s \<Longrightarrow> cv_signal c v s = Some t \<Longrightarrow> step s t"
| broadcast: "running c s \<Longrightarrow> cv_broadcast c v s = Some t \<Longrightarrow> step s t"
| timer: "c < length (cpu_vec s) \<Longrightarrow> \<not> suspended (cpu_vec s ! c) \<Longrightarrow>
    timer_interrupt_handler c s = Some t \<Longrightarrow> step s t"
| ipi: "c < length (cpu_vec s) \<Longrightarrow> suspended (cpu_vec s ! c) \<Longrightarrow>
    wake_from_suspend c s = Some t \<Longrightarrow> step s t"

abbreviation reachable :: "sys \<Rightarrow> bool" where
  "reachable s \<equiv> step\<^sup>*\<^sup>* init_sys s"

end
