(* ===== verification/Thread_Ownership.thy ===== *)
theory Thread_Ownership
  imports Threads
begin

text \<open>
  Ownership of contexts. The source keeps every suspended context in exactly one
  \<^verbatim>\<open>unique_ptr\<close>: in the ready queue, in one waiting queue, on one CPU, or as the context a CPU
  will destroy. Here the places are made explicit, every operation is described by what it
  moves between them, and the uniqueness is the predicate \<open>own\<close>.
\<close>

section \<open>Places\<close>

datatype place = P_ready | P_cpu nat | P_kill nat | P_mutex nat | P_cv nat | P_join nat

fun place_of :: "queue_ref \<Rightarrow> place" where
  "place_of Q_ready = P_ready"
| "place_of (Q_mutex m) = P_mutex m"
| "place_of (Q_cv v) = P_cv v"
| "place_of (Q_join t) = P_join t"

fun contents :: "sys \<Rightarrow> place \<Rightarrow> nat list" where
  "contents s P_ready = ready_queue s"
| "contents s (P_cpu c) =
     (if c < length (cpu_vec s) then case_option [] (\<lambda>x. [x]) (last_context (cpu_vec s ! c)) else [])"
| "contents s (P_kill c) =
     (if c < length (cpu_vec s) then case_option [] (\<lambda>x. [x]) (to_kill (cpu_vec s ! c)) else [])"
| "contents s (P_mutex m) = waiting_queue (mutexes s m)"
| "contents s (P_cv v) = cvs s v"
| "contents s (P_join t) = join_waiting_queue (threads s t)"

text \<open>No context is in two places or twice in one; all carry a valid \<^verbatim>\<open>id\<close>.\<close>

definition own :: "(place \<Rightarrow> nat list) \<Rightarrow> nat \<Rightarrow> bool" where
  "own A n \<longleftrightarrow> (\<forall>p. distinct (A p)) \<and> (\<forall>p q x. x \<in> set (A p) \<longrightarrow> x \<in> set (A q) \<longrightarrow> p = q)
     \<and> (\<forall>p. \<forall>x \<in> set (A p). 0 < x \<and> x < n)"

lemma ownD:
  "own A n \<Longrightarrow> distinct (A p)"
  "own A n \<Longrightarrow> x \<in> set (A p) \<Longrightarrow> x \<in> set (A q) \<Longrightarrow> p = q"
  "own A n \<Longrightarrow> x \<in> set (A p) \<Longrightarrow> 0 < x"
  "own A n \<Longrightarrow> x \<in> set (A p) \<Longrightarrow> x < n"
  by (auto simp: own_def)

section \<open>Moves\<close>

lemma own_move:
  assumes "own A n" "A p = x # xs" "p \<noteq> q"
  shows "own (A(p := xs, q := A q @ [x])) n"
proof -
  have x: "x \<in> set (A p)" "x \<notin> set xs" using assms ownD(1) [OF assms(1), of p] by auto
  then have "x \<notin> set (A r)" if "r \<noteq> p" for r using ownD(2) [OF assms(1)] that by blast
  moreover have "distinct xs" "\<forall>y \<in> set (x # xs). 0 < y \<and> y < n"
    using ownD(1) [OF assms(1), of p] ownD(3,4) [OF assms(1), of _ p] assms(2) by auto
  ultimately show ?thesis
    using x assms unfolding own_def by (auto simp: fun_upd_apply) (metis list.set_intros(1,2))+
qed

lemma own_move_all:
  assumes "own A n" "p \<noteq> q"
  shows "own (A(p := [], q := A q @ A p)) n"
  using assms unfolding own_def by (auto simp: fun_upd_apply)

lemma own_fresh:
  assumes "own A n" "0 < n"
  shows "own (A(q := A q @ [n])) (Suc n)"
proof -
  have "n \<notin> set (A r)" for r using ownD(4) [OF assms(1)] by blast
  with assms show ?thesis unfolding own_def by (auto simp: fun_upd_apply less_Suc_eq)
qed

lemma own_drop: "own A n \<Longrightarrow> own (A(p := [])) n"
  unfolding own_def by (auto simp: fun_upd_apply)

lemma own_more_ids: "own A n \<Longrightarrow> n \<le> m \<Longrightarrow> own A m"
  unfolding own_def by (meson less_le_trans)

section \<open>The view of an update\<close>

text \<open>How the updates of the state change the contents of the places.\<close>

named_theorems view_simps \<open>the contents of the places after an update\<close>

lemma contents_frame [view_simps]:
  "contents (s\<lparr>guard := g\<rparr>) = contents s"
  "contents (s\<lparr>max_id := n\<rparr>) = contents s"
  "contents (s\<lparr>resume := r\<rparr>) = contents s"
  "contents (s\<lparr>must_lock := ml\<rparr>) = contents s"
  "contents (s\<lparr>ipis := l\<rparr>) = contents s"
  by (rule ext, case_tac x; simp)+

lemma contents_queues [view_simps]:
  "contents (s\<lparr>ready_queue := r\<rparr>) = (contents s)(P_ready := r)"
  "contents (s\<lparr>cvs := (cvs s)(v := l)\<rparr>) = (contents s)(P_cv v := l)"
  "contents (upd_mutex m f s) = (contents s)(P_mutex m := waiting_queue (f (mutexes s m)))"
  "contents (upd_thread t g s) = (contents s)(P_join t := join_waiting_queue (g (threads s t)))"
  by (rule ext, case_tac x; simp add: upd_mutex_def upd_thread_def)+

lemma contents_upd_cpu [view_simps]:
  "c < length (cpu_vec s) \<Longrightarrow> contents (upd_cpu c f s) =
     (contents s)(P_cpu c := case_option [] (\<lambda>x. [x]) (last_context (f (cpu_vec s ! c))),
                  P_kill c := case_option [] (\<lambda>x. [x]) (to_kill (f (cpu_vec s ! c))))"
  by (rule ext, case_tac x; simp add: upd_cpu_def)

lemma contents_cong:
  assumes "ready_queue s = ready_queue t" "mutexes s = mutexes t" "cvs s = cvs t" "threads s = threads t"
    "map last_context (cpu_vec s) = map last_context (cpu_vec t)"
    "map to_kill (cpu_vec s) = map to_kill (cpu_vec t)"
  shows "contents s = contents t"
proof (rule ext)
  have len: "length (cpu_vec s) = length (cpu_vec t)" using assms(5) map_eq_imp_length_eq by blast
  have "\<And>c. c < length (cpu_vec t) \<Longrightarrow> last_context (cpu_vec s ! c) = last_context (cpu_vec t ! c)"
    and "\<And>c. c < length (cpu_vec t) \<Longrightarrow> to_kill (cpu_vec s ! c) = to_kill (cpu_vec t ! c)"
    using assms(5,6) len by (metis nth_map)+
  with assms len show "contents s p = contents t p" for p by (cases p) auto
qed

section \<open>Queues by reference\<close>

text \<open>
  The contract of a queue that is handed to \<^verbatim>\<open>swap_self_to_queue\<close> by reference: pushing appends
  to that queue and touches no other place.
\<close>

locale context_queues =
  fixes view :: "'s \<Rightarrow> 'p \<Rightarrow> 'x list" and push :: "'q \<Rightarrow> 'x \<Rightarrow> 's \<Rightarrow> 's" and place :: "'q \<Rightarrow> 'p"
  assumes view_push: "view (push q x s) = (view s)(place q := view s (place q) @ [x])"
begin

lemma push_last: "last (view (push q x s) (place q)) = x"
  by (simp add: view_push)

text \<open>Pushing a sequence of contexts keeps their order: the queue is first in, first out.\<close>

lemma push_all: "view (fold (push q) xs s) (place q) = view s (place q) @ xs"
  by (induction xs arbitrary: s) (simp_all add: view_push)

lemma push_other: "p \<noteq> place q \<Longrightarrow> view (fold (push q) xs s) p = view s p"
  by (induction xs arbitrary: s) (simp_all add: view_push)

end

interpretation queues: context_queues contents push_queue place_of
proof
  show "contents (push_queue q x s) = (contents s)(place_of q := contents s (place_of q) @ [x])" for q x s
    by (cases q) (simp_all add: view_simps)
qed

end
