(* ===== verification/Thread_Invariant.thy ===== *)
theory Thread_Invariant
  imports Thread_Ownership
begin

text \<open>
  The invariant of the thread library and its preservation. It has two halves: \<open>core_ok\<close>
  (ownership of contexts, the state of every mutex, where waiting contexts resume) and the
  hardware side, which inside an operation of CPU \<open>c\<close> is \<open>guarded c\<close> and between operations
  \<open>quiet\<close>. Every operation of a running context is shown to return, so none of the assertions
  of the source can fail.
\<close>

section \<open>The invariant\<close>

text \<open>
  A mutex is free with nobody waiting, or held by its owner, or handed to exactly one ready
  context that has not resumed yet; in the last case it has no owner.
\<close>

definition mutex_ok :: "nat list \<Rightarrow> (nat \<Rightarrow> resume_point) \<Rightarrow> nat \<Rightarrow> mutex \<Rightarrow> bool" where
  "mutex_ok rdy rs m q \<longleftrightarrow>
     (\<forall>x \<in> set (waiting_queue q). rs x = In_lock m)
     \<and> (let handed = filter (\<lambda>x. rs x = In_lock m) rdy in
        if free q then waiting_queue q = [] \<and> owner q = 0 \<and> handed = []
        else (handed = [] \<and> owner q \<noteq> 0) \<or> (length handed = 1 \<and> owner q = 0))"

definition core_ok :: "sys \<Rightarrow> bool" where
  "core_ok s \<longleftrightarrow> own (contents s) (max_id s) \<and> 0 < max_id s
     \<and> (\<forall>m. mutex_ok (ready_queue s) (resume s) m (mutexes s m))
     \<and> (\<forall>v. \<forall>x \<in> set (cvs s v). \<exists>m. resume s x = In_wait m)
     \<and> (\<forall>t. \<forall>x \<in> set (join_waiting_queue (threads s t)). resume s x = In_join)"

text \<open>A CPU at rest has interrupts on, and runs a context unless it is suspended.\<close>

definition cpu_ok :: "cpu \<Rightarrow> bool" where
  "cpu_ok p \<longleftrightarrow> interrupts p \<and> (suspended p \<longleftrightarrow> last_context p = None)"

definition quiet :: "sys \<Rightarrow> bool" where
  "quiet s \<longleftrightarrow> \<not> guard s \<and> (\<forall>i < length (cpu_vec s). cpu_ok (cpu_vec s ! i))"

definition guarded :: "nat \<Rightarrow> sys \<Rightarrow> bool" where
  "guarded c s \<longleftrightarrow> guard s \<and> c < length (cpu_vec s) \<and> \<not> interrupts (cpu_vec s ! c)
     \<and> \<not> suspended (cpu_vec s ! c) \<and> (\<forall>i < length (cpu_vec s). i \<noteq> c \<longrightarrow> cpu_ok (cpu_vec s ! i))"

definition sys_inv :: "sys \<Rightarrow> bool" where
  "sys_inv s \<longleftrightarrow> core_ok s \<and> quiet s"

section \<open>The hardware side\<close>

lemma length_cpu_vec_upd [simp]: "length (cpu_vec (upd_cpu c f s)) = length (cpu_vec s)"
  by (simp add: upd_cpu_def)

lemma upd_cpu_fields [simp]:
  "guard (upd_cpu c f s) = guard s" "max_id (upd_cpu c f s) = max_id s"
  "ready_queue (upd_cpu c f s) = ready_queue s" "mutexes (upd_cpu c f s) = mutexes s"
  "cvs (upd_cpu c f s) = cvs s" "threads (upd_cpu c f s) = threads s"
  "resume (upd_cpu c f s) = resume s" "must_lock (upd_cpu c f s) = must_lock s"
  by (simp_all add: upd_cpu_def)

lemma nth_upd_cpu [simp]:
  "i < length (cpu_vec s) \<Longrightarrow> cpu_vec (upd_cpu c f s) ! i = (if i = c then f (cpu_vec s ! i) else cpu_vec s ! i)"
  by (simp add: upd_cpu_def nth_list_update)

lemma upd_mutex_fields [simp]:
  "guard (upd_mutex m f s) = guard s" "max_id (upd_mutex m f s) = max_id s"
  "cpu_vec (upd_mutex m f s) = cpu_vec s" "ready_queue (upd_mutex m f s) = ready_queue s"
  "cvs (upd_mutex m f s) = cvs s" "threads (upd_mutex m f s) = threads s"
  "resume (upd_mutex m f s) = resume s" "must_lock (upd_mutex m f s) = must_lock s"
  "mutexes (upd_mutex m f s) = (mutexes s)(m := f (mutexes s m))"
  by (simp_all add: upd_mutex_def)

lemma upd_thread_fields [simp]:
  "guard (upd_thread t g s) = guard s" "max_id (upd_thread t g s) = max_id s"
  "cpu_vec (upd_thread t g s) = cpu_vec s" "ready_queue (upd_thread t g s) = ready_queue s"
  "cvs (upd_thread t g s) = cvs s" "mutexes (upd_thread t g s) = mutexes s"
  "resume (upd_thread t g s) = resume s" "must_lock (upd_thread t g s) = must_lock s"
  "threads (upd_thread t g s) = (threads s)(t := g (threads s t))"
  by (simp_all add: upd_thread_def)

lemma current_contents: "current c s = Some x \<longleftrightarrow> contents s (P_cpu c) = [x]"
  by (auto simp: current_def split: option.splits)

lemma current_None_contents: "current c s = None \<longleftrightarrow> contents s (P_cpu c) = []"
  by (auto simp: current_def split: option.splits)

lemma current_cpu_vec: "cpu_vec s = cpu_vec t \<Longrightarrow> current c s = current c t"
  by (simp add: current_def)

lemma current_upd [simp]:
  "current c (upd_mutex m f s) = current c s" "current c (upd_thread t g s) = current c s"
  "current c (s\<lparr>ready_queue := r\<rparr>) = current c s" "current c (s\<lparr>resume := rs\<rparr>) = current c s"
  "current c (s\<lparr>cvs := q\<rparr>) = current c s" "current c (s\<lparr>must_lock := ml\<rparr>) = current c s"
  "current c (s\<lparr>max_id := n\<rparr>) = current c s"
  by (simp_all add: current_def)

lemma current_upd_cpu_other [simp]: "d \<noteq> c \<Longrightarrow> current d (upd_cpu c f s) = current d s"
  by (simp add: current_def)

lemma core_ok_upd_cpu:
  assumes "core_ok s" "c < length (cpu_vec s)"
    "last_context (f (cpu_vec s ! c)) = last_context (cpu_vec s ! c)"
    "to_kill (f (cpu_vec s ! c)) = to_kill (cpu_vec s ! c)"
  shows "core_ok (upd_cpu c f s)"
proof -
  have "contents (upd_cpu c f s) = contents s"
    using assms(2-4) by (auto simp: view_simps fun_eq_iff)
  with assms(1) show ?thesis by (simp add: core_ok_def)
qed

lemma core_ok_frame [simp]:
  "core_ok (s\<lparr>guard := g\<rparr>) = core_ok s" "core_ok (s\<lparr>must_lock := ml\<rparr>) = core_ok s"
  "core_ok (s\<lparr>ipis := l\<rparr>) = core_ok s"
  by (simp_all add: core_ok_def view_simps)

text \<open>Entering and leaving an operation.\<close>

lemma enter_guarded:
  assumes "sys_inv s" "current c s = Some x"
  obtains s' where "enter c s = Some s'" "guarded c s'" "core_ok s'" "current c s' = Some x"
    "s' = (upd_cpu c (\<lambda>p. p\<lparr>interrupts := False\<rparr>) s)\<lparr>guard := True\<rparr>"
proof -
  have c: "c < length (cpu_vec s)" and lc: "last_context (cpu_vec s ! c) = Some x"
    using assms(2) by (auto simp: current_def split: if_splits)
  let ?s = "(upd_cpu c (\<lambda>p. p\<lparr>interrupts := False\<rparr>) s)\<lparr>guard := True\<rparr>"
  have "enter c s = Some ?s"
    using assms(1) by (simp add: enter_def interrupt_disable_def guard_lock_def sys_inv_def quiet_def)
  moreover have "core_ok ?s" using assms(1) c by (simp add: core_ok_upd_cpu sys_inv_def)
  moreover have "guarded c ?s"
    using assms(1) c lc by (auto simp: guarded_def sys_inv_def quiet_def cpu_ok_def)
  moreover have "current c ?s = Some x" using c lc by (simp add: current_def)
  ultimately show ?thesis by (intro that) auto
qed

lemma leave_quiet:
  assumes "core_ok s" "guarded c s" "current c s \<noteq> None"
  shows "sys_inv (leave c s)"
proof -
  have c: "c < length (cpu_vec s)" using assms(2) by (simp add: guarded_def)
  then have "core_ok (leave c s)"
    using assms(1) by (simp add: leave_def guard_unlock_def interrupt_enable_def core_ok_upd_cpu)
  moreover have "quiet (leave c s)"
    using assms(2,3) c
    by (auto simp: leave_def guard_unlock_def interrupt_enable_def quiet_def guarded_def cpu_ok_def current_def)
  ultimately show ?thesis by (simp add: sys_inv_def)
qed

lemma leave_fields [simp]:
  "mutexes (leave c s) = mutexes s" "ready_queue (leave c s) = ready_queue s"
  "resume (leave c s) = resume s" "max_id (leave c s) = max_id s" "threads (leave c s) = threads s"
  "cvs (leave c s) = cvs s" "current d (leave c s) = current d s"
  by (auto simp: leave_def guard_unlock_def interrupt_enable_def current_def)

lemma guarded_frame [simp]:
  "guarded c (s\<lparr>max_id := n\<rparr>) = guarded c s" "guarded c (s\<lparr>ready_queue := r\<rparr>) = guarded c s"
  "guarded c (s\<lparr>resume := rs\<rparr>) = guarded c s" "guarded c (s\<lparr>cvs := q\<rparr>) = guarded c s"
  "guarded c (s\<lparr>ipis := l\<rparr>) = guarded c s" "guarded c (s\<lparr>must_lock := ml\<rparr>) = guarded c s"
  "guarded c (upd_mutex m f s) = guarded c s" "guarded c (upd_thread t g s) = guarded c s"
  by (simp_all add: guarded_def)

lemma guarded_upd_cpu:
  "guarded c s \<Longrightarrow> interrupts (f (cpu_vec s ! c)) = interrupts (cpu_vec s ! c) \<Longrightarrow>
   suspended (f (cpu_vec s ! c)) = suspended (cpu_vec s ! c) \<Longrightarrow> guarded c (upd_cpu c f s)"
  by (auto simp: guarded_def)

lemma guarded_assert: "guarded c s \<Longrightarrow> assert_guarded c s = Some ()"
  by (simp add: guarded_def assert_guarded_def)

lemma guarded_push_queue [simp]: "guarded c (push_queue q x s) = guarded c s"
  by (cases q) simp_all

section \<open>Waking CPUs\<close>

lemma wake_loop_same:
  "wake_loop n i ps = (ps', w) \<Longrightarrow>
     map last_context ps' = map last_context ps \<and> map to_kill ps' = map to_kill ps
     \<and> map interrupts ps' = map interrupts ps \<and> map suspended ps' = map suspended ps"
  by (induction n i ps arbitrary: ps' w rule: wake_loop.induct) (auto split: if_splits prod.splits)

text \<open>
  The idle CPUs are woken in order until every ready thread has one: afterwards either nobody
  is idle or as many interrupts were sent as threads are ready.
\<close>

lemma wake_loop_enough:
  "wake_loop n i ps = (ps', w) \<Longrightarrow> length w \<le> n \<and> (length w = n \<or> (\<forall>p \<in> set ps'. \<not> is_idle p))"
  by (induction n i ps arbitrary: ps' w rule: wake_loop.induct) (fastforce split: if_splits prod.splits)+

lemma wake_loop_targets:
  "wake_loop n i ps = (ps', w) \<Longrightarrow>
     \<forall>j \<in> set w. i \<le> j \<and> j < i + length ps \<and> is_idle (ps ! (j - i)) \<and> \<not> is_idle (ps' ! (j - i))"
proof (induction n i ps arbitrary: ps' w rule: wake_loop.induct)
  case (2 n i p ps)
  show ?case
  proof (cases "n = 0")
    case True
    with "2.prems" show ?thesis by simp
  next
    case False
    obtain qs1 w1 where e1: "wake_loop (n - 1) (Suc i) ps = (qs1, w1)" by fastforce
    obtain qs2 w2 where e2: "wake_loop n (Suc i) ps = (qs2, w2)" by fastforce
    have shift: "j - i = Suc (j - Suc i)" if "Suc i \<le> j" for j using that by simp
    show ?thesis
    proof (cases "is_idle p")
      case True
      with False e1 "2.prems" "2.IH"(1) [OF False True e1] show ?thesis
        by (auto simp: shift) (meson Suc_leD)
    next
      case idle: False
      with False e2 "2.prems" "2.IH"(2) [OF False idle e2] show ?thesis
        by (auto simp: shift) (meson Suc_leD)?
    qed
  qed
qed simp

lemma check_ready_and_wake_guarded:
  assumes "guarded c s"
  obtains t where "check_ready_and_wake c s = Some t" "guarded c t" "contents t = contents s"
    "mutexes t = mutexes s" "ready_queue t = ready_queue s" "resume t = resume s" "max_id t = max_id s"
    "cvs t = cvs s" "threads t = threads s" "must_lock t = must_lock s" "\<And>d. current d t = current d s"
proof -
  obtain ps w where e: "wake_loop (length (ready_queue s)) 0 (cpu_vec s) = (ps, w)" by fastforce
  note same = wake_loop_same [OF e]
  let ?t = "s\<lparr>cpu_vec := ps, ipis := ipis s @ w\<rparr>"
  have len: "length ps = length (cpu_vec s)" using same map_eq_imp_length_eq by blast
  have nth: "last_context (ps ! i) = last_context (cpu_vec s ! i)" "interrupts (ps ! i) = interrupts (cpu_vec s ! i)"
    "suspended (ps ! i) = suspended (cpu_vec s ! i)" if "i < length (cpu_vec s)" for i
    using same len that by (metis nth_map)+
  have "check_ready_and_wake c s = Some ?t"
    using assms e by (simp add: check_ready_and_wake_def guarded_assert)
  moreover have "guarded c ?t" using assms nth len by (auto simp: guarded_def cpu_ok_def)
  moreover have "contents ?t = contents s" by (rule contents_cong) (use same in simp_all)
  moreover have "current d ?t = current d s" for d using nth len by (simp add: current_def)
  ultimately show ?thesis by (intro that [of ?t]) simp_all
qed

section \<open>The life of a mutex\<close>

lemma mutex_ok_pop:
  "mutex_ok (x # rest) rs m q \<Longrightarrow> rs x \<noteq> In_lock m \<Longrightarrow> mutex_ok rest rs m q"
  by (simp add: mutex_ok_def)

lemma mutex_ok_resumed:
  "mutex_ok (x # rest) rs m q \<Longrightarrow> rs x = In_lock m \<Longrightarrow> 0 < x \<Longrightarrow> mutex_ok rest rs m (q\<lparr>owner := x\<rparr>)"
  by (auto simp: mutex_ok_def Let_def split: if_splits)

lemma mutex_ok_push:
  "mutex_ok rdy rs m q \<Longrightarrow> \<forall>y \<in> set ys. rs y \<noteq> In_lock m \<Longrightarrow> mutex_ok (rdy @ ys) rs m q"
  by (simp add: mutex_ok_def filter_False)

lemma mutex_ok_suspend:
  "x \<notin> set rdy \<Longrightarrow> x \<notin> set (waiting_queue q) \<Longrightarrow> mutex_ok rdy rs m q \<Longrightarrow> mutex_ok rdy (rs(x := rp)) m q"
proof -
  assume a: "x \<notin> set rdy" "x \<notin> set (waiting_queue q)" "mutex_ok rdy rs m q"
  have "filter (\<lambda>y. (rs(x := rp)) y = In_lock m) rdy = filter (\<lambda>y. rs y = In_lock m) rdy"
    using a(1) by (intro filter_cong) auto
  with a(2,3) show ?thesis by (auto simp: mutex_ok_def simp del: fun_upd_apply)
      (metis fun_upd_apply)+
qed

lemma mutex_ok_block:
  "mutex_ok rdy rs m q \<Longrightarrow> \<not> free q \<Longrightarrow> rs x = In_lock m \<Longrightarrow>
   mutex_ok rdy rs m (q\<lparr>waiting_queue := waiting_queue q @ [x]\<rparr>)"
  by (auto simp: mutex_ok_def)

lemma mutex_ok_acquire:
  "mutex_ok rdy rs m q \<Longrightarrow> free q \<Longrightarrow> 0 < x \<Longrightarrow> mutex_ok rdy rs m (q\<lparr>free := False, owner := x\<rparr>)"
  by (auto simp: mutex_ok_def Let_def)

lemma mutex_ok_release:
  "mutex_ok rdy rs m q \<Longrightarrow> \<not> free q \<Longrightarrow> owner q \<noteq> 0 \<Longrightarrow> waiting_queue q = [] \<Longrightarrow>
   mutex_ok rdy rs m (q\<lparr>free := True, owner := 0\<rparr>)"
  by (auto simp: mutex_ok_def Let_def)

lemma mutex_ok_hand_over:
  "mutex_ok rdy rs m q \<Longrightarrow> \<not> free q \<Longrightarrow> owner q \<noteq> 0 \<Longrightarrow> waiting_queue q = y # rest \<Longrightarrow>
   mutex_ok (rdy @ [y]) rs m (q\<lparr>owner := 0, waiting_queue := rest, free := False\<rparr>)"
  by (auto simp: mutex_ok_def Let_def)

lemmas mutex_ok_steps = mutex_ok_pop mutex_ok_resumed mutex_ok_push mutex_ok_suspend
  mutex_ok_block mutex_ok_acquire mutex_ok_release mutex_ok_hand_over

section \<open>Context switches\<close>

lemma core_okD:
  assumes "core_ok s"
  shows "own (contents s) (max_id s)" "0 < max_id s"
    "mutex_ok (ready_queue s) (resume s) m (mutexes s m)"
    "x \<in> set (cvs s v) \<Longrightarrow> \<exists>m. resume s x = In_wait m"
    "x \<in> set (join_waiting_queue (threads s t)) \<Longrightarrow> resume s x = In_join"
  using assms by (auto simp: core_ok_def)

text \<open>Taking the front of the ready queue onto the CPU and running it up to the guard release.\<close>

lemma run_next:
  assumes "core_ok s" "guarded c s" "current c s = None" "ready_queue s = x # rest"
  shows "\<exists>t. continue_current c (upd_cpu c (\<lambda>p. p\<lparr>last_context := Some x\<rparr>) (s\<lparr>ready_queue := rest\<rparr>)) = Some t
    \<and> sys_inv t"
proof -
  let ?s = "upd_cpu c (\<lambda>p. p\<lparr>last_context := Some x\<rparr>) (s\<lparr>ready_queue := rest\<rparr>)"
  have c: "c < length (cpu_vec s)" using assms(2) by (simp add: guarded_def)
  have cur: "current c ?s = Some x" using c by (simp add: current_def)
  have "contents ?s = (contents s)(P_ready := rest, P_cpu c := contents s (P_cpu c) @ [x])"
    using c assms(3) by (auto simp: view_simps current_def fun_eq_iff split: option.splits)
  then have own: "own (contents ?s) (max_id ?s)"
    using own_move [of "contents s" "max_id s" P_ready x rest "P_cpu c"] core_okD(1) [OF assms(1)] assms(4)
    by simp
  then have pos: "0 < x" using ownD(3) [of _ _ x "P_cpu c"] cur by (simp add: current_contents)
  have g: "guarded c ?s" using assms(2) by (auto intro: guarded_upd_cpu)
  let ?u = "case resume s x of In_lock m \<Rightarrow> upd_mutex m (\<lambda>q. q\<lparr>owner := x\<rparr>) ?s | _ \<Rightarrow> ?s"
  have mx: "mutex_ok (ready_queue ?u) (resume ?u) m (mutexes ?u m)" for m
    using core_okD(3) [OF assms(1), of m] assms(4) pos
    by (auto split: resume_point.splits intro: mutex_ok_steps)
  have "contents ?u = contents ?s"
    by (auto split: resume_point.splits simp: contents_queues fun_eq_iff)
  with own mx assms(1) have "core_ok ?u" by (auto simp: core_ok_def split: resume_point.splits)
  moreover have "guarded c ?u" "current c ?u \<noteq> None"
    using g cur by (auto split: resume_point.splits )
  ultimately have "sys_inv (leave c ?u)" by (rule leave_quiet)
  then have "sys_inv ((leave c ?u)\<lparr>must_lock := ml\<rparr>)" for ml
    by (simp add: sys_inv_def quiet_def)
  with \<open>sys_inv (leave c ?u)\<close> cur show ?thesis
    by (auto simp: continue_current_def split: resume_point.splits)
qed

lemma watch_suspend_inv:
  assumes "core_ok s" "guarded c s" "current c s = None"
  shows "\<exists>t. watch_suspend c s = Some t \<and> sys_inv t"
proof -
  let ?s = "upd_cpu c (\<lambda>p. p\<lparr>to_kill := None\<rparr>) s"
  have c: "c < length (cpu_vec s)" using assms(2) by (simp add: guarded_def)
  have "contents ?s = (contents s)(P_kill c := [])"
    using c by (auto simp: view_simps fun_eq_iff)
  then have core: "core_ok ?s" using assms(1) by (auto simp: core_ok_def own_drop)
  have g: "guarded c ?s" using assms(2) by (auto intro: guarded_upd_cpu)
  have cur: "current c ?s = None" using assms(3) c by (simp add: current_def)
  show ?thesis
  proof (cases "ready_queue s")
    case Nil
    let ?t = "upd_cpu c (\<lambda>p. p\<lparr>interrupts := True, suspended := True\<rparr>)
      (guard_unlock (upd_cpu c (\<lambda>p. p\<lparr>is_idle := True\<rparr>) ?s))"
    have "core_ok ?t" using core c by (simp add: core_ok_upd_cpu guard_unlock_def)
    moreover have "quiet ?t" using g c cur
      by (auto simp: quiet_def guarded_def guard_unlock_def cpu_ok_def current_def)
    ultimately show ?thesis
      using Nil assms(2) cur by (simp add: watch_suspend_def guarded_assert sys_inv_def)
  next
    case (Cons x rest)
    with run_next [OF core g cur] assms(2) cur show ?thesis
      by (simp add: watch_suspend_def guarded_assert)
  qed
qed

lemma dispatch_inv:
  assumes "core_ok s" "guarded c s" "current c s = None"
  shows "\<exists>t. dispatch c s = Some t \<and> sys_inv t"
  using run_next [OF assms] watch_suspend_inv [OF assms]
  by (cases "ready_queue s") (simp_all add: dispatch_def)

text \<open>The queues a context may suspend itself into, with the point where it resumes.\<close>

definition may_block :: "queue_ref \<Rightarrow> resume_point \<Rightarrow> sys \<Rightarrow> bool" where
  "may_block q rp s =
     (case q of
        Q_ready \<Rightarrow> ready_queue s \<noteq> [] \<and> (\<forall>m. rp \<noteq> In_lock m)
      | Q_mutex m \<Rightarrow> rp = In_lock m \<and> \<not> free (mutexes s m)
      | Q_cv v \<Rightarrow> \<exists>m. rp = In_wait m
      | Q_join t \<Rightarrow> rp = In_join)"

text \<open>The state between pushing the running context and the context switch.\<close>

definition parked :: "nat \<Rightarrow> queue_ref \<Rightarrow> resume_point \<Rightarrow> nat \<Rightarrow> sys \<Rightarrow> sys" where
  "parked c q rp x s =
     upd_cpu c (\<lambda>p. p\<lparr>last_context := None\<rparr>) ((push_queue q x s)\<lparr>resume := (resume s)(x := rp)\<rparr>)"

lemma parked_inv:
  assumes "core_ok s" "guarded c s" "current c s = Some x" "may_block q rp s"
  shows "core_ok (parked c q rp x s)" "guarded c (parked c q rp x s)" "current c (parked c q rp x s) = None"
proof -
  let ?s = "upd_cpu c (\<lambda>p. p\<lparr>last_context := None\<rparr>) ((push_queue q x s)\<lparr>resume := (resume s)(x := rp)\<rparr>)"
  note ow = core_okD(1) [OF assms(1)]
  have c: "c < length (cpu_vec s)" using assms(2) by (simp add: guarded_def)
  have x: "contents s (P_cpu c) = [x]" using assms(3) by (simp add: current_contents)
  then have nx: "x \<notin> set (contents s p)" if "p \<noteq> P_cpu c" for p
    using ownD(2) [OF ow, of x "P_cpu c" p] that by auto
  have pq: "place_of q \<noteq> P_cpu c" "place_of q \<noteq> P_kill c" by (cases q; simp)+
  have len: "length (cpu_vec (push_queue q x s)) = length (cpu_vec s)"
    and vec: "cpu_vec (push_queue q x s) = cpu_vec s" and mid: "max_id (push_queue q x s) = max_id s"
    by (cases q; simp)+
  have "contents ?s = (contents s)(P_cpu c := [], place_of q := contents s (place_of q) @ [x])"
    using c pq len vec by (auto simp: view_simps queues.view_push fun_eq_iff)
  then have own: "own (contents ?s) (max_id ?s)"
    using own_move [OF ow x] pq mid by simp
  have mx: "mutex_ok (ready_queue ?s) (resume ?s) m (mutexes ?s m)" for m
  proof -
    have "mutex_ok (ready_queue s) ((resume s)(x := rp)) m (mutexes s m)"
      using nx [of P_ready] nx [of "P_mutex m"] core_okD(3) [OF assms(1)] by (auto intro: mutex_ok_suspend)
    then show ?thesis using assms(4)
      by (cases q) (auto simp: may_block_def intro!: mutex_ok_push mutex_ok_block)
  qed
  have "core_ok ?s"
    unfolding core_ok_def
  proof (intro conjI allI ballI own mx)
    show "0 < max_id ?s" using core_okD(2) [OF assms(1)] mid by simp
    show "\<exists>m. resume ?s y = In_wait m" if "y \<in> set (cvs ?s v)" for v y
      using that assms(4) nx [of "P_cv v"] core_okD(4) [OF assms(1), of y v]
      by (cases q) (auto simp: may_block_def split: if_splits)
    show "resume ?s y = In_join" if "y \<in> set (join_waiting_queue (threads ?s t))" for t y
      using that assms(4) nx [of "P_join t"] core_okD(5) [OF assms(1), of y t]
      by (cases q) (auto simp: may_block_def split: if_splits)
  qed
  then show "core_ok (parked c q rp x s)" by (simp add: parked_def)
  show "guarded c (parked c q rp x s)" using assms(2) vec by (auto simp: parked_def intro: guarded_upd_cpu)
  show "current c (parked c q rp x s) = None" using c len by (simp add: parked_def current_def)
qed

lemma swap_self_to_queue_parked:
  assumes "guarded c s" "current c s = Some x" "may_block q rp s"
  shows "swap_self_to_queue c q rp s = dispatch c (parked c q rp x s)"
proof -
  have "q = Q_ready \<longrightarrow> ready_queue s \<noteq> []" using assms(3) by (auto simp: may_block_def)
  with assms show ?thesis by (simp add: swap_self_to_queue_def guarded_assert parked_def)
qed

lemma swap_self_to_queue_inv:
  assumes "core_ok s" "guarded c s" "current c s = Some x" "may_block q rp s"
  shows "\<exists>t. swap_self_to_queue c q rp s = Some t \<and> sys_inv t"
  using dispatch_inv [OF parked_inv [OF assms]] swap_self_to_queue_parked [OF assms(2-4)] by simp

end
