(* ===== verification/Thread_Steps.thy ===== *)
theory Thread_Steps
  imports Thread_Invariant
begin

text \<open>
  Every operation of the thread library, started in a state with the invariant, returns and
  re-establishes the invariant; so the invariant holds in every reachable state.
\<close>

section \<open>Moving contexts to the ready queue\<close>

lemma add_all_inv:
  assumes "guarded c s" "core_ok (s\<lparr>ready_queue := ready_queue s @ xs\<rparr>)"
  obtains t where "add_all_to_ready_queue c xs s = Some t" "guarded c t" "core_ok t"
    "ready_queue t = ready_queue s @ xs" "mutexes t = mutexes s" "resume t = resume s"
    "must_lock t = must_lock s" "threads t = threads s" "cvs t = cvs s" "\<And>d. current d t = current d s"
proof -
  let ?s = "s\<lparr>ready_queue := ready_queue s @ xs\<rparr>"
  have "guarded c ?s" using assms(1) by simp
  then obtain t where t: "check_ready_and_wake c ?s = Some t" "guarded c t" "contents t = contents ?s"
    "mutexes t = mutexes ?s" "ready_queue t = ready_queue ?s" "resume t = resume ?s" "max_id t = max_id ?s"
    "cvs t = cvs ?s" "threads t = threads ?s" "must_lock t = must_lock ?s" "\<And>d. current d t = current d ?s"
    by (rule check_ready_and_wake_guarded) blast
  have "core_ok t" using assms(2) t(3-9) by (simp add: core_ok_def)
  with t show ?thesis by (intro that [of t]) (simp_all add: add_all_to_ready_queue_def)
qed

lemma add_one: "add_to_ready_queue c x = add_all_to_ready_queue c [x]"
  by (simp add: fun_eq_iff add_to_ready_queue_def add_all_to_ready_queue_def)

text \<open>A new context.\<close>

lemma core_ok_fresh:
  assumes "core_ok s"
  shows "core_ok ((upd_thread (max_id s) (\<lambda>_. \<lparr>join_waiting_queue = [], alive = True\<rparr>)
     (s\<lparr>max_id := Suc (max_id s), resume := (resume s)(max_id s := Start)\<rparr>))\<lparr>ready_queue := ready_queue s @ [max_id s]\<rparr>)"
    (is "core_ok ?s")
proof -
  let ?x = "max_id s"
  note ow = core_okD(1) [OF assms]
  have nx: "?x \<notin> set (contents s p)" for p using ownD(4) [OF ow] by blast
  have "contents ?s = (contents s)(P_join ?x := [], P_ready := contents s P_ready @ [?x])"
    by (auto simp: view_simps fun_eq_iff)
  then have "own (contents ?s) (max_id ?s)"
    using own_fresh [OF own_drop [OF ow], of "P_join ?x" P_ready] core_okD(2) [OF assms] by simp
  moreover have "mutex_ok (ready_queue ?s) (resume ?s) m (mutexes ?s m)" for m
    using nx [of P_ready] nx [of "P_mutex m"] core_okD(3) [OF assms, of m]
    by (auto intro!: mutex_ok_push mutex_ok_suspend)
  ultimately show ?thesis
    using nx [of "P_cv _"] nx [of "P_join _"] core_okD(4,5) [OF assms] unfolding core_ok_def
    by (auto split: if_splits)
qed

lemma construct_thread_inv:
  assumes "core_ok s" "guarded c s"
  obtains t where "construct_thread c Alloc_ok s = Some (Nothing, t)" "core_ok t" "guarded c t"
    "mutexes t = mutexes s" "ready_queue t = ready_queue s @ [max_id s]" "\<And>d. current d t = current d s" "must_lock t = must_lock s"
proof -
  let ?s = "upd_thread (max_id s) (\<lambda>_. \<lparr>join_waiting_queue = [], alive = True\<rparr>)
     (s\<lparr>max_id := Suc (max_id s), resume := (resume s)(max_id s := Start)\<rparr>)"
  have "guarded c ?s" using assms(2) by simp
  moreover have "core_ok (?s\<lparr>ready_queue := ready_queue ?s @ [max_id s]\<rparr>)"
    using core_ok_fresh [OF assms(1)] by simp
  ultimately obtain t where "add_all_to_ready_queue c [max_id s] ?s = Some t" "guarded c t" "core_ok t"
    "ready_queue t = ready_queue ?s @ [max_id s]" "mutexes t = mutexes ?s" "must_lock t = must_lock ?s" "\<And>d. current d t = current d ?s"
    by (rule add_all_inv) blast
  then show ?thesis by (intro that [of t]) (simp_all add: construct_thread_def add_one Let_def)
qed

lemma core_ok_more_ids: "core_ok s \<Longrightarrow> core_ok (s\<lparr>max_id := Suc (max_id s)\<rparr>)"
  by (auto simp: core_ok_def view_simps intro: own_more_ids)

section \<open>Threads\<close>

lemma thread_create_inv:
  assumes "sys_inv s" "running c s"
  shows "\<exists>e t. thread_create c al s = Some (e, t) \<and> sys_inv t"
proof -
  obtain x where "current c s = Some x" using assms(2) by (auto simp: running_def)
  with assms(1) obtain s' where s': "enter c s = Some s'" "guarded c s'" "core_ok s'" "current c s' = Some x"
    by (rule enter_guarded)
  show ?thesis
  proof (cases al)
    case Alloc_ok
    obtain t where "construct_thread c Alloc_ok s' = Some (Nothing, t)" "core_ok t" "guarded c t"
      "current c t = current c s'"
      by (rule construct_thread_inv [OF s'(3,2)]) blast
    with s' Alloc_ok show ?thesis by (simp add: thread_create_def leave_quiet)
  qed (use s' in \<open>auto simp: thread_create_def construct_thread_def intro!: leave_quiet core_ok_more_ids\<close>)
qed

lemma core_ok_exit:
  assumes "core_ok s" "current c s = Some x"
  shows "core_ok ((upd_thread x (\<lambda>i. i\<lparr>alive := False, join_waiting_queue := []\<rparr>) s)
     \<lparr>ready_queue := ready_queue s @ join_waiting_queue (threads s x)\<rparr>)"
    (is "core_ok ?s")
proof -
  note ow = core_okD(1) [OF assms(1)]
  have "contents ?s = (contents s)(P_join x := [], P_ready := contents s P_ready @ contents s (P_join x))"
    by (auto simp: view_simps fun_eq_iff)
  then have "own (contents ?s) (max_id ?s)" using own_move_all [OF ow, of "P_join x" P_ready] by simp
  moreover have "mutex_ok (ready_queue ?s) (resume ?s) m (mutexes ?s m)" for m
    using core_okD(3,5) [OF assms(1)] by (auto intro!: mutex_ok_push)
  ultimately show ?thesis using core_okD(2,4,5) [OF assms(1)] unfolding core_ok_def
    by (auto split: if_splits)
qed

lemma core_ok_kill:
  assumes "core_ok s" "current c s = Some x"
  shows "core_ok (upd_cpu c (\<lambda>p. p\<lparr>to_kill := last_context p, last_context := None\<rparr>) s)" (is "core_ok ?s")
proof -
  note ow = core_okD(1) [OF assms(1)]
  have c: "c < length (cpu_vec s)" "last_context (cpu_vec s ! c) = Some x"
    using assms(2) by (auto simp: current_def split: if_splits)
  then have "contents ?s = (contents s)(P_kill c := [], P_cpu c := [], P_kill c := [] @ [x])"
    by (auto simp: view_simps fun_eq_iff)
  then have "own (contents ?s) (max_id ?s)"
    using own_move [OF own_drop [OF ow, of "P_kill c"], of "P_cpu c" x "[]" "P_kill c"] c by simp
  then show ?thesis using assms(1) by (simp add: core_ok_def)
qed

text \<open>The state in which the exiting context's CPU looks for the next context.\<close>

lemma thread_exit_reaches:
  assumes "sys_inv s" "running c s"
  obtains x u where "current c s = Some x" "thread_exit c s = dispatch c u"
    "core_ok u" "guarded c u" "current c u = None" "mutexes u = mutexes s"
    "ready_queue u = ready_queue s @ join_waiting_queue (threads s x)" "\<not> alive (threads u x)"
    "join_waiting_queue (threads u x) = []" "\<And>d. d \<noteq> c \<Longrightarrow> current d u = current d s"
    "contents u (P_kill c) = [x]"
proof -
  obtain x where x: "current c s = Some x" using assms(2) by (auto simp: running_def)
  with assms(1) obtain s' where s': "enter c s = Some s'" "guarded c s'" "core_ok s'" "current c s' = Some x"
    "s' = (upd_cpu c (\<lambda>p. p\<lparr>interrupts := False\<rparr>) s)\<lparr>guard := True\<rparr>"
    by (rule enter_guarded)
  have same: "threads s' = threads s" "mutexes s' = mutexes s" "ready_queue s' = ready_queue s"
    "current d s' = current d s" for d by (simp_all add: s'(5) current_def)
  let ?s = "upd_thread x (\<lambda>i. i\<lparr>alive := False, join_waiting_queue := []\<rparr>) s'"
  have "guarded c ?s" "core_ok (?s\<lparr>ready_queue := ready_queue ?s @ join_waiting_queue (threads s' x)\<rparr>)"
    using s'(2) core_ok_exit [OF s'(3,4)] by auto
  then obtain t where t: "add_all_to_ready_queue c (join_waiting_queue (threads s' x)) ?s = Some t"
    "guarded c t" "core_ok t" "mutexes t = mutexes ?s"
    "ready_queue t = ready_queue ?s @ join_waiting_queue (threads s' x)" "threads t = threads ?s"
    "\<And>d. current d t = current d ?s"
    by (rule add_all_inv) blast
  let ?u = "upd_cpu c (\<lambda>p. p\<lparr>to_kill := last_context p, last_context := None\<rparr>) t"
  have "core_ok ?u" using core_ok_kill t(3,7) s'(4) by simp
  moreover have "guarded c ?u" using t(2) by (auto intro: guarded_upd_cpu)
  moreover have "current c ?u = None" by (simp add: current_def)
  moreover have "current c t = Some x" using t(7) [of c] s'(4) by simp
  then have "contents ?u (P_kill c) = [x]" using t(2) by (auto simp: guarded_def current_def)
  moreover have "current d ?u = current d s" if "d \<noteq> c" for d
    using that t(7) [of d] same(4) [of d] by simp
  ultimately show ?thesis using s'(1,4) t same x
    by (intro that [of x ?u]) (simp_all add: thread_exit_def Let_def)
qed

lemma thread_exit_inv:
  assumes "sys_inv s" "running c s"
  shows "\<exists>t. thread_exit c s = Some t \<and> sys_inv t"
  using thread_exit_reaches [OF assms] dispatch_inv by metis

text \<open>Operations that only decide whether to suspend the running context.\<close>

lemma swap_or_leave_inv:
  assumes "core_ok s" "guarded c s" "current c s = Some x" "b \<Longrightarrow> may_block q rp s"
  shows "\<exists>t. (if b then swap_self_to_queue c q rp s else Some (leave c s)) = Some t \<and> sys_inv t"
  using assms swap_self_to_queue_inv leave_quiet by (cases b) auto

lemma thread_join_inv:
  assumes "sys_inv s" "running c s"
  shows "\<exists>t. thread_join c y s = Some t \<and> sys_inv t"
proof -
  obtain x where "current c s = Some x" using assms(2) by (auto simp: running_def)
  with assms(1) obtain s' where s': "enter c s = Some s'" "guarded c s'" "core_ok s'" "current c s' = Some x"
    by (rule enter_guarded)
  with swap_or_leave_inv [OF s'(3,2,4), of "alive (threads s' y)" "Q_join y" In_join] show ?thesis
    by (auto simp: thread_join_def may_block_def)
qed

lemma thread_yield_inv:
  assumes "sys_inv s" "running c s"
  shows "\<exists>t. thread_yield c s = Some t \<and> sys_inv t"
proof -
  obtain x where "current c s = Some x" using assms(2) by (auto simp: running_def)
  with assms(1) obtain s' where s': "enter c s = Some s'" "guarded c s'" "core_ok s'" "current c s' = Some x"
    by (rule enter_guarded)
  with swap_or_leave_inv [OF s'(3,2,4), of "ready_queue s' \<noteq> []" Q_ready In_yield] show ?thesis
    by (auto simp: thread_yield_def may_block_def)
qed

lemma timer_inv:
  assumes "sys_inv s" "c < length (cpu_vec s)" "\<not> suspended (cpu_vec s ! c)"
  shows "\<exists>t. timer_interrupt_handler c s = Some t \<and> sys_inv t"
proof -
  obtain x where "current c s = Some x"
    using assms by (auto simp: current_def sys_inv_def quiet_def cpu_ok_def)
  with assms(1) obtain s' where s': "enter c s = Some s'" "guarded c s'" "core_ok s'" "current c s' = Some x"
    by (rule enter_guarded)
  with swap_or_leave_inv [OF s'(3,2,4), of "\<not> is_idle (cpu_vec s' ! c) \<and> current c s' \<noteq> None \<and> ready_queue s' \<noteq> []"
      Q_ready In_timer] show ?thesis
    by (auto simp: timer_interrupt_handler_def may_block_def)
qed

section \<open>CPUs\<close>

lemma wake_from_suspend_reaches:
  assumes "sys_inv s" "c < length (cpu_vec s)" "suspended (cpu_vec s ! c)"
  obtains u where "wake_from_suspend c s = watch_suspend c u" "core_ok u" "guarded c u" "current c u = None"
    "mutexes u = mutexes s" "ready_queue u = ready_queue s"
proof -
  let ?s = "(upd_cpu c (\<lambda>p. p\<lparr>interrupts := False\<rparr>) (upd_cpu c (\<lambda>p. p\<lparr>suspended := False\<rparr>) s))\<lparr>guard := True\<rparr>"
  have "enter c (upd_cpu c (\<lambda>p. p\<lparr>suspended := False\<rparr>) s) = Some ?s"
    using assms(1) by (simp add: enter_def interrupt_disable_def guard_lock_def sys_inv_def quiet_def)
  moreover have "core_ok ?s" using assms(1,2) by (simp add: core_ok_upd_cpu sys_inv_def)
  moreover have "guarded c ?s" using assms by (auto simp: guarded_def sys_inv_def quiet_def)
  moreover have "current c ?s = None"
    using assms by (simp add: current_def sys_inv_def quiet_def cpu_ok_def)
  ultimately show ?thesis by (intro that [of ?s]) (simp_all add: wake_from_suspend_def)
qed

lemma wake_from_suspend_inv:
  assumes "sys_inv s" "c < length (cpu_vec s)" "suspended (cpu_vec s ! c)"
  shows "\<exists>t. wake_from_suspend c s = Some t \<and> sys_inv t"
  using wake_from_suspend_reaches [OF assms] watch_suspend_inv by metis

lemma cpu_boot_reaches:
  assumes "sys_inv s"
  obtains u where "cpu_boot func s = (if func then dispatch (length (cpu_vec s)) u else watch_suspend (length (cpu_vec s)) u)"
    "core_ok u" "guarded (length (cpu_vec s)) u" "current (length (cpu_vec s)) u = None" "mutexes u = mutexes s"
proof -
  let ?c = "length (cpu_vec s)"
  let ?p = "\<lparr>last_context = None, to_kill = None, is_idle = False, interrupts = False, suspended = False\<rparr>"
  let ?s = "s\<lparr>guard := True, max_id := Suc (max_id s), cpu_vec := cpu_vec s @ [?p]\<rparr>"
  have lock: "guard_lock s = Some (s\<lparr>guard := True\<rparr>)"
    using assms by (simp add: guard_lock_def sys_inv_def quiet_def)
  have "contents ?s = contents s"
  proof (rule ext)
    show "contents ?s p = contents s p" for p by (cases p) (auto simp: nth_append less_Suc_eq)
  qed
  then have core: "core_ok ?s" using assms by (auto simp: core_ok_def sys_inv_def intro: own_more_ids)
  have g: "guarded ?c ?s" using assms
    by (auto simp: guarded_def sys_inv_def quiet_def less_Suc_eq nth_append)
  have cur: "current ?c ?s = None" by (simp add: current_def)
  show ?thesis
  proof (cases func)
    case True
    obtain t where t: "construct_thread ?c Alloc_ok ?s = Some (Nothing, t)" "core_ok t" "guarded ?c t"
      "ready_queue t = ready_queue ?s @ [max_id ?s]" "current ?c t = current ?c ?s" "mutexes t = mutexes ?s"
      by (rule construct_thread_inv [OF core g]) blast
    let ?t = "upd_cpu ?c (\<lambda>p. p\<lparr>is_idle := False\<rparr>) t"
    have c: "?c < length (cpu_vec t)" using t(3) by (simp add: guarded_def)
    have "core_ok ?t" using t(2) c by (simp add: core_ok_upd_cpu)
    moreover have "guarded ?c ?t" using t(3) by (auto intro: guarded_upd_cpu)
    moreover have "current ?c ?t = None" using t(5) cur c by (simp add: current_def)
    moreover obtain x rest where "ready_queue ?t = x # rest" using t(4) by (cases "ready_queue s") auto
    ultimately show ?thesis
      using True lock t(1,6) by (intro that [of ?t]) (simp_all add: cpu_boot_def Let_def dispatch_def)
  next
    case False
    let ?t = "upd_cpu ?c (\<lambda>p. p\<lparr>is_idle := True\<rparr>) ?s"
    have "core_ok ?t" using core by (intro core_ok_upd_cpu) simp_all
    moreover have "guarded ?c ?t" using g by (intro guarded_upd_cpu) simp_all
    moreover have "current ?c ?t = None" by (simp add: current_def)
    ultimately show ?thesis
      using False lock by (intro that [of ?t]) (simp_all add: cpu_boot_def Let_def)
  qed
qed

lemma cpu_boot_inv:
  assumes "sys_inv s"
  shows "\<exists>t. cpu_boot func s = Some t \<and> sys_inv t"
  using cpu_boot_reaches [OF assms, of func] dispatch_inv watch_suspend_inv by metis

section \<open>Mutexes and condition variables\<close>

lemma core_ok_upd_mutex:
  assumes "core_ok s" "waiting_queue (f (mutexes s m)) = waiting_queue (mutexes s m)"
    "mutex_ok (ready_queue s) (resume s) m (f (mutexes s m))"
  shows "core_ok (upd_mutex m f s)"
proof -
  have "contents (upd_mutex m f s) = contents s" using assms(2) by (auto simp: view_simps fun_eq_iff)
  with assms show ?thesis by (auto simp: core_ok_def)
qed

lemma current_pos: "core_ok s \<Longrightarrow> current c s = Some x \<Longrightarrow> 0 < x"
  using ownD(3) [OF core_okD(1), of s x "P_cpu c"] by (simp add: current_contents del: contents.simps)

lemma mutex_lock_inv:
  assumes "sys_inv s" "current c s = Some x"
  shows "\<exists>t. mutex_lock c m s = Some t \<and> sys_inv t"
proof -
  from assms obtain s' where s': "enter c s = Some s'" "guarded c s'" "core_ok s'" "current c s' = Some x"
    by (rule enter_guarded)
  show ?thesis
  proof (cases "free (mutexes s' m)")
    case True
    then have "core_ok (upd_mutex m (\<lambda>q. q\<lparr>free := False, owner := x\<rparr>) s')"
      using s' current_pos core_okD(3) by (auto intro!: core_ok_upd_mutex mutex_ok_acquire)
    with True s' show ?thesis by (simp add: mutex_lock_def leave_quiet)
  next
    case False
    then have "may_block (Q_mutex m) (In_lock m) s'" by (simp add: may_block_def)
    from swap_self_to_queue_inv [OF s'(3,2,4) this] False s'(1) show ?thesis by (simp add: mutex_lock_def)
  qed
qed

text \<open>
  \<^verbatim>\<open>release_lock\<close> either throws, having left the operation, or returns still inside it.
\<close>

lemma core_ok_hand_over:
  assumes "core_ok s" "\<not> free (mutexes s m)" "owner (mutexes s m) \<noteq> 0" "waiting_queue (mutexes s m) = y # rest"
  shows "core_ok ((upd_mutex m (\<lambda>q. q\<lparr>owner := 0, waiting_queue := rest, free := False\<rparr>) s)
     \<lparr>ready_queue := ready_queue s @ [y]\<rparr>)" (is "core_ok ?s")
proof -
  have y: "resume s y = In_lock m" using core_okD(3) [OF assms(1), of m] assms(4) by (simp add: mutex_ok_def)
  have "contents ?s = (contents s)(P_mutex m := rest, P_ready := contents s P_ready @ [y])"
    by (auto simp: view_simps fun_eq_iff)
  then have "own (contents ?s) (max_id ?s)"
    using own_move [of "contents s" "max_id s" "P_mutex m" y rest P_ready] core_okD(1) [OF assms(1)] assms(4)
    by simp
  moreover have "mutex_ok (ready_queue ?s) (resume ?s) k (mutexes ?s k)" for k
  proof (cases "k = m")
    case True
    with mutex_ok_hand_over [OF core_okD(3) [OF assms(1), of m] assms(2-4)] show ?thesis by simp
  next
    case False
    with mutex_ok_push [OF core_okD(3) [OF assms(1), of k], of "[y]"] y show ?thesis by simp
  qed
  ultimately show ?thesis using core_okD(2,4,5) [OF assms(1)] unfolding core_ok_def by simp
qed

lemma release_lock_cases:
  assumes "core_ok s" "guarded c s" "current c s = Some x"
  obtains (throws) "release_lock c m s = Some (Runtime_error, leave c s)" "free (mutexes s m) \<or> owner (mutexes s m) \<noteq> x"
  | (returns) t where "release_lock c m s = Some (Nothing, t)" "core_ok t" "guarded c t" "\<And>d. current d t = current d s"
    "\<not> free (mutexes s m)" "owner (mutexes s m) = x" "must_lock t = must_lock s" "cvs t = cvs s"
    "resume t = resume s" "owner (mutexes t m) = 0" "\<And>k. k \<noteq> m \<Longrightarrow> mutexes t k = mutexes s k"
    "free (mutexes t m) = (waiting_queue (mutexes s m) = [])"
    "waiting_queue (mutexes t m) = tl (waiting_queue (mutexes s m))"
    "ready_queue t = ready_queue s @ take 1 (waiting_queue (mutexes s m))"
proof (cases "free (mutexes s m) \<or> owner (mutexes s m) \<noteq> x")
  case True
  with assms throws show ?thesis by (auto simp: release_lock_def)
next
  case False
  with current_pos [OF assms(1,3)] have own: "\<not> free (mutexes s m)" "owner (mutexes s m) = x" "x \<noteq> 0" by auto
  let ?s = "upd_mutex m (\<lambda>q. q\<lparr>free := True, owner := 0\<rparr>) s"
  show ?thesis
  proof (cases "waiting_queue (mutexes s m)")
    case Nil
    have "core_ok ?s"
      using own Nil core_okD(3) [OF assms(1)] assms(1) by (auto intro!: core_ok_upd_mutex mutex_ok_release)
    with Nil own assms show ?thesis by (intro returns [of ?s]) (simp_all add: release_lock_def)
  next
    case (Cons y rest)
    let ?u = "upd_mutex m (\<lambda>q. q\<lparr>waiting_queue := rest, free := False\<rparr>) ?s"
    have eq: "?u = upd_mutex m (\<lambda>q. q\<lparr>owner := 0, waiting_queue := rest, free := False\<rparr>) s"
      by (simp add: upd_mutex_def)
    have "guarded c ?u" using assms(2) by simp
    moreover have "core_ok (?u\<lparr>ready_queue := ready_queue ?u @ [y]\<rparr>)"
      using core_ok_hand_over [OF assms(1) own(1) _ Cons] own eq by simp
    ultimately obtain t where "add_all_to_ready_queue c [y] ?u = Some t" "guarded c t" "core_ok t"
      "ready_queue t = ready_queue ?u @ [y]" "mutexes t = mutexes ?u" "resume t = resume ?u"
      "must_lock t = must_lock ?u" "cvs t = cvs ?u" "\<And>d. current d t = current d ?u"
      by (rule add_all_inv) blast
    with Cons own assms(3) show ?thesis by (intro returns [of t]) (simp_all add: release_lock_def add_one Let_def)
  qed
qed

lemma mutex_unlock_inv:
  assumes "sys_inv s" "running c s"
  shows "\<exists>e t. mutex_unlock c m s = Some (e, t) \<and> sys_inv t"
proof -
  obtain x where "current c s = Some x" using assms(2) by (auto simp: running_def)
  with assms(1) obtain s' where s': "enter c s = Some s'" "guarded c s'" "core_ok s'" "current c s' = Some x"
    by (rule enter_guarded)
  from s'(3,2,4) show ?thesis
  proof (cases rule: release_lock_cases [where m = m])
    case throws
    with s' show ?thesis by (simp add: mutex_unlock_def leave_quiet)
  next
    case (returns t)
    with s' show ?thesis by (simp add: mutex_unlock_def leave_quiet)
  qed
qed

lemma cv_wait_inv:
  assumes "sys_inv s" "running c s"
  shows "\<exists>e t. cv_wait c v m s = Some (e, t) \<and> sys_inv t"
proof -
  obtain x where "current c s = Some x" using assms(2) by (auto simp: running_def)
  with assms(1) obtain s' where s': "enter c s = Some s'" "guarded c s'" "core_ok s'" "current c s' = Some x"
    by (rule enter_guarded)
  from s'(3,2,4) show ?thesis
  proof (cases rule: release_lock_cases [where m = m])
    case throws
    with s' show ?thesis by (simp add: cv_wait_def leave_quiet)
  next
    case (returns t)
    have "may_block (Q_cv v) (In_wait m) t" by (simp add: may_block_def)
    moreover have "current c t = Some x" using returns(4) s'(4) by simp
    ultimately obtain u where "swap_self_to_queue c (Q_cv v) (In_wait m) t = Some u" "sys_inv u"
      using swap_self_to_queue_inv [OF returns(2,3)] by blast
    with returns(1) s'(1) show ?thesis by (simp add: cv_wait_def)
  qed
qed

lemma sys_inv_must_lock [simp]: "sys_inv (s\<lparr>must_lock := ml\<rparr>) = sys_inv s"
  by (simp add: sys_inv_def quiet_def)

lemma cv_relock_inv:
  assumes "sys_inv s" "current c s = Some x" "must_lock s x = Some m"
  shows "\<exists>t. cv_relock c s = Some t \<and> sys_inv t"
  using mutex_lock_inv [of "s\<lparr>must_lock := (must_lock s)(x := None)\<rparr>" c x m] assms
  by (simp add: cv_relock_def)

text \<open>Waking any front part of the queue of a condition variable.\<close>

lemma wake_waiters_inv:
  assumes "core_ok s" "guarded c s" "current c s \<noteq> None" "cvs s v = ys @ rest" "length ys = 1 \<or> rest = []"
  shows "\<exists>t. add_all_to_ready_queue c ys (s\<lparr>cvs := (cvs s)(v := rest)\<rparr>) = Some t \<and> sys_inv (leave c t)"
proof -
  let ?s = "s\<lparr>cvs := (cvs s)(v := rest)\<rparr>"
  let ?t = "?s\<lparr>ready_queue := ready_queue s @ ys\<rparr>"
  note ow = core_okD(1) [OF assms(1)]
  have "contents ?t = (contents s)(P_cv v := rest, P_ready := contents s P_ready @ ys)"
    by (auto simp: view_simps fun_eq_iff)
  then have "own (contents ?t) (max_id ?t)"
    using own_move [OF ow, of "P_cv v" _ rest P_ready] own_move_all [OF ow, of "P_cv v" P_ready] assms(4,5)
    by (auto simp: length_Suc_conv)
  moreover have "mutex_ok (ready_queue ?t) (resume ?t) m (mutexes ?t m)" for m
  proof -
    have "resume s y \<noteq> In_lock m" if "y \<in> set ys" for y
      using core_okD(4) [OF assms(1), of y v] that assms(4) by auto
    with core_okD(3) [OF assms(1)] show ?thesis by (simp add: mutex_ok_push)
  qed
  ultimately have "core_ok ?t"
    using core_okD(2,4,5) [OF assms(1)] assms(4) unfolding core_ok_def
    by auto (metis Un_iff set_append)
  moreover have "guarded c ?s" using assms(2) by simp
  ultimately obtain t where "add_all_to_ready_queue c ys ?s = Some t" "guarded c t" "core_ok t"
    "\<And>d. current d t = current d ?s"
    using add_all_inv [of c ?s ys] by auto
  with assms(3) show ?thesis by (simp add: leave_quiet)
qed

lemma cv_signal_inv:
  assumes "sys_inv s" "running c s"
  shows "\<exists>t. cv_signal c v s = Some t \<and> sys_inv t"
proof -
  obtain x where "current c s = Some x" using assms(2) by (auto simp: running_def)
  with assms(1) obtain s' where s': "enter c s = Some s'" "guarded c s'" "core_ok s'" "current c s' = Some x"
    by (rule enter_guarded)
  show ?thesis
  proof (cases "cvs s' v")
    case Nil
    with s' show ?thesis by (simp add: cv_signal_def leave_quiet)
  next
    case (Cons y rest)
    with wake_waiters_inv [OF s'(3,2), of v "[y]" rest] s' show ?thesis by (auto simp: cv_signal_def add_one)
  qed
qed

lemma cv_broadcast_inv:
  assumes "sys_inv s" "running c s"
  shows "\<exists>t. cv_broadcast c v s = Some t \<and> sys_inv t"
proof -
  obtain x where "current c s = Some x" using assms(2) by (auto simp: running_def)
  with assms(1) obtain s' where s': "enter c s = Some s'" "guarded c s'" "core_ok s'" "current c s' = Some x"
    by (rule enter_guarded)
  with wake_waiters_inv [OF s'(3,2), of v "cvs s' v" "[]"] show ?thesis by (auto simp: cv_broadcast_def)
qed

section \<open>All steps\<close>

lemma step_inv:
  assumes "sys_inv s" "step s t"
  shows "sys_inv t"
  using assms(2)
proof cases
  case (boot func) with cpu_boot_inv [OF assms(1), of func] show ?thesis by simp
next
  case (create c al e) with thread_create_inv [OF assms(1), of c al] show ?thesis by simp
next
  case (exit c) with thread_exit_inv [OF assms(1), of c] show ?thesis by simp
next
  case (join c x) with thread_join_inv [OF assms(1), of c x] show ?thesis by simp
next
  case (yield c) with thread_yield_inv [OF assms(1), of c] show ?thesis by simp
next
  case (lock c m) with mutex_lock_inv [OF assms(1), of c _ m] show ?thesis by (auto simp: running_def)
next
  case (unlock c m e) with mutex_unlock_inv [OF assms(1), of c m] show ?thesis by simp
next
  case (wait c v m e) with cv_wait_inv [OF assms(1), of c v m] show ?thesis by simp
next
  case (relock c)
  then obtain x m where "current c s = Some x" "must_lock s x = Some m"
    by (auto simp: cv_relock_def option_simps)
  with relock cv_relock_inv [OF assms(1)] show ?thesis by fastforce
next
  case (signal c v) with cv_signal_inv [OF assms(1), of c v] show ?thesis by simp
next
  case (broadcast c v) with cv_broadcast_inv [OF assms(1), of c v] show ?thesis by simp
next
  case (timer c) with timer_inv [OF assms(1), of c] show ?thesis by simp
next
  case (ipi c) with wake_from_suspend_inv [OF assms(1), of c] show ?thesis by simp
qed

lemma init_sys_inv: "sys_inv init_sys"
proof -
  have "contents init_sys p = []" for p by (cases p) (simp_all add: init_sys_def new_mutex_def)
  then show ?thesis
    by (simp add: sys_inv_def core_ok_def quiet_def own_def init_sys_def new_mutex_def mutex_ok_def)
qed

interpretation thread_sys: invariant_system "\<lambda>s. s = init_sys" step sys_inv
proof
  show "sys_inv s" if "s = init_sys" for s using init_sys_inv that by simp
  show "sys_inv t" if "sys_inv s" "step s t" for s t using step_inv that by blast
qed

end
