(* ===== verification/Thread_Properties.thy ===== *)
theory Thread_Properties
  imports Thread_Steps
begin

text \<open>
  What the thread library promises its clients: the operations of a running context never hit
  an assertion, a mutex stays with its owner, it is handed over in arrival order, misuse throws
  and changes nothing, waiting and waking are first in, first out.
\<close>

section \<open>Effects of a context switch\<close>

text \<open>A context switch leaves every mutex as it is, but for the owner of one that was handed over.\<close>

definition locks_kept :: "sys \<Rightarrow> sys \<Rightarrow> bool" where
  "locks_kept s t \<longleftrightarrow> (\<forall>m. waiting_queue (mutexes t m) = waiting_queue (mutexes s m)
     \<and> free (mutexes t m) = free (mutexes s m)
     \<and> (owner (mutexes s m) \<noteq> 0 \<longrightarrow> owner (mutexes t m) = owner (mutexes s m)))"

lemma locks_kept_refl: "mutexes t = mutexes s \<Longrightarrow> locks_kept s t"
  by (simp add: locks_kept_def)

lemma locks_kept_trans: "locks_kept s t \<Longrightarrow> locks_kept t u \<Longrightarrow> locks_kept s u"
  by (simp add: locks_kept_def)

text \<open>The outcome of running the next context on CPU \<open>c\<close> in state \<open>s\<close>.\<close>

definition switched :: "nat \<Rightarrow> sys \<Rightarrow> sys \<Rightarrow> bool" where
  "switched c s t \<longleftrightarrow> locks_kept s t \<and> ready_queue t = tl (ready_queue s) \<and> cvs t = cvs s
     \<and> threads t = threads s \<and> resume t = resume s \<and> max_id t = max_id s
     \<and> current c t = (case ready_queue s of [] \<Rightarrow> None | x # _ \<Rightarrow> Some x)
     \<and> (\<forall>d. d \<noteq> c \<longrightarrow> current d t = current d s)
     \<and> (\<forall>m. owner (mutexes t m) = owner (mutexes s m) \<or> ready_queue s \<noteq> [] \<and> owner (mutexes t m) = hd (ready_queue s))
     \<and> (\<forall>m. ready_queue s \<noteq> [] \<longrightarrow> resume s (hd (ready_queue s)) = In_lock m
          \<longrightarrow> owner (mutexes t m) = hd (ready_queue s))"

lemma run_next_switched:
  assumes "core_ok s" "guarded c s" "ready_queue s = x # rest"
    "continue_current c (upd_cpu c (\<lambda>p. p\<lparr>last_context := Some x\<rparr>) (s\<lparr>ready_queue := rest\<rparr>)) = Some t"
  shows "switched c s t"
proof -
  have c: "c < length (cpu_vec s)" using assms(2) by (simp add: guarded_def)
  have "current c (upd_cpu c (\<lambda>p. p\<lparr>last_context := Some x\<rparr>) (s\<lparr>ready_queue := rest\<rparr>)) = Some x"
    using c by (simp add: current_def)
  moreover have "owner (mutexes s m) = 0" if "resume s x = In_lock m" for m
    using core_okD(3) [OF assms(1), of m] assms(3) that by (auto simp: mutex_ok_def Let_def split: if_splits)
  moreover have "current d (upd_cpu c (\<lambda>p. p\<lparr>last_context := Some x\<rparr>) (s\<lparr>ready_queue := rest\<rparr>)) = current d s"
    if "d \<noteq> c" for d using that by (simp add: current_def)
  ultimately show ?thesis using assms(3,4)
    by (auto simp: continue_current_def switched_def locks_kept_def split: resume_point.splits if_splits)
qed

lemma watch_suspend_switched:
  assumes "core_ok s" "guarded c s" "current c s = None" "watch_suspend c s = Some t"
  shows "switched c s t"
proof -
  let ?s = "upd_cpu c (\<lambda>p. p\<lparr>to_kill := None\<rparr>) s"
  have c: "c < length (cpu_vec s)" using assms(2) by (simp add: guarded_def)
  have "contents ?s = (contents s)(P_kill c := [])" using c by (auto simp: view_simps fun_eq_iff)
  then have core: "core_ok ?s" using assms(1) by (auto simp: core_ok_def own_drop)
  have g: "guarded c ?s" using assms(2) by (auto intro: guarded_upd_cpu)
  have cur: "current d ?s = current d s" for d by (simp add: current_def)
  show ?thesis
  proof (cases "ready_queue s")
    case Nil
    with assms cur have t: "t = upd_cpu c (\<lambda>p. p\<lparr>interrupts := True, suspended := True\<rparr>)
      (guard_unlock (upd_cpu c (\<lambda>p. p\<lparr>is_idle := True\<rparr>) ?s))"
      by (simp add: watch_suspend_def guarded_assert)
    have "current d t = current d s" for d by (simp add: t guard_unlock_def current_def)
    with Nil assms(3) show ?thesis by (simp add: t guard_unlock_def switched_def locks_kept_def)
  next
    case (Cons x rest)
    with assms cur have "switched c ?s t"
      by (intro run_next_switched [OF core g]) (simp_all add: watch_suspend_def guarded_assert)
    with cur show ?thesis by (simp add: switched_def locks_kept_def)
  qed
qed

lemma dispatch_switched:
  assumes "core_ok s" "guarded c s" "current c s = None" "dispatch c s = Some t"
  shows "switched c s t"
  using assms run_next_switched watch_suspend_switched
  by (cases "ready_queue s") (simp_all add: dispatch_def)


lemma swap_self_to_queue_switched:
  assumes "core_ok s" "guarded c s" "current c s = Some x" "may_block q rp s"
    "swap_self_to_queue c q rp s = Some t"
  shows "switched c (parked c q rp x s) t"
  using dispatch_switched [OF parked_inv [OF assms(1-4)]] swap_self_to_queue_parked [OF assms(2-4)] assms(5)
  by simp

lemma parked_fields [simp]:
  "ready_queue (parked c q rp x s) = ready_queue s @ (if q = Q_ready then [x] else [])"
  "cvs (parked c q rp x s) v = cvs s v @ (if q = Q_cv v then [x] else [])"
  "waiting_queue (mutexes (parked c q rp x s) m) = waiting_queue (mutexes s m) @ (if q = Q_mutex m then [x] else [])"
  "free (mutexes (parked c q rp x s) m) = free (mutexes s m)"
  "owner (mutexes (parked c q rp x s) m) = owner (mutexes s m)"
  "join_waiting_queue (threads (parked c q rp x s) y) = join_waiting_queue (threads s y) @ (if q = Q_join y then [x] else [])"
  "resume (parked c q rp x s) = (resume s)(x := rp)"
  by (cases q; simp add: parked_def)+

lemma parked_current [simp]: "d \<noteq> c \<Longrightarrow> current d (parked c q rp x s) = current d s"
  by (cases q) (simp_all add: parked_def current_def)

section \<open>Mutual exclusion\<close>










lemma step_enter:
  assumes "sys_inv s" "current c s = Some x" "enter c s = Some s'"
  shows "guarded c s'" "core_ok s'" "current c s' = Some x" "mutexes s' = mutexes s"
    "cvs s' = cvs s" "ready_queue s' = ready_queue s" "threads s' = threads s" "resume s' = resume s"
    "must_lock s' = must_lock s" "leave c s' = s" "\<And>d. current d s' = current d s"
proof -
  obtain u where u: "enter c s = Some u" "guarded c u" "core_ok u" "current c u = Some x"
    "u = (upd_cpu c (\<lambda>p. p\<lparr>interrupts := False\<rparr>) s)\<lparr>guard := True\<rparr>"
    using enter_guarded [OF assms(1,2)] by metis
  with assms(3) have eq: "s' = u" by simp
  have c: "c < length (cpu_vec s)" "interrupts (cpu_vec s ! c)" "\<not> guard s"
    using assms(1,2) by (auto simp: current_def sys_inv_def quiet_def cpu_ok_def split: if_splits)
  have p: "(cpu_vec s ! c)\<lparr>interrupts := True\<rparr> = cpu_vec s ! c" using c(2) by (cases "cpu_vec s ! c") simp
  have "s\<lparr>guard := False, cpu_vec := (cpu_vec s)[c := cpu_vec s ! c]\<rparr> = s" using c(3) by (cases s) simp
  with c(1) show "leave c s' = s"
    by (simp only: eq u(5) leave_def guard_unlock_def interrupt_enable_def upd_cpu_def) (simp add: p)
  show "current d s' = current d s" for d by (simp add: eq u(5) current_def)
  show "guarded c s'" "core_ok s'" "current c s' = Some x" using u eq by simp_all
  show "mutexes s' = mutexes s" "cvs s' = cvs s" "ready_queue s' = ready_queue s" "threads s' = threads s"
    "resume s' = resume s" "must_lock s' = must_lock s"
    by (simp_all add: eq u(5))
qed















section \<open>A concrete run\<close>

text \<open>
  The first CPU boots and its thread (context 2) takes mutex 7 and creates a thread (context 3);
  a second CPU boots and runs it; context 3 blocks on the mutex and CPU 1 suspends; context 2
  unlocks, which hands the mutex to context 3 and wakes CPU 1.
\<close>

definition run_boot :: sys where "run_boot = the (cpu_boot True init_sys)"
definition run_lock :: sys where "run_lock = the (mutex_lock 0 7 run_boot)"
definition run_create :: sys where "run_create = snd (the (thread_create 0 Alloc_ok run_lock))"
definition run_boot2 :: sys where "run_boot2 = the (cpu_boot False run_create)"
definition run_block :: sys where "run_block = the (mutex_lock 1 7 run_boot2)"
definition run_unlock :: sys where "run_unlock = snd (the (mutex_unlock 0 7 run_block))"

lemma current_eval:
  "current 0 run_boot = Some 2" "current 0 run_lock = Some 2" "current 0 run_create = Some 2"
  "current 0 run_boot2 = Some 2" "current 1 run_boot2 = Some 3" "current 0 run_block = Some 2"
  "current 1 run_block = None" "current 0 run_unlock = Some 2"
  by code_simp+

lemma must_lock_eval:
  "must_lock run_boot 2 = None" "must_lock run_lock 2 = None" "must_lock run_create 2 = None"
  "must_lock run_boot2 2 = None" "must_lock run_boot2 3 = None" "must_lock run_block 2 = None"
  "must_lock run_unlock 2 = None"
  by code_simp+

lemma run_steps:
  "reachable run_boot" "step run_boot run_lock" "step run_lock run_create" "step run_create run_boot2"
  "step run_boot2 run_block" "step run_block run_unlock"
proof -
  have "cpu_boot True init_sys = Some run_boot"
    using cpu_boot_inv [OF init_sys_inv, of True] by (auto simp: run_boot_def)
  then show r1: "reachable run_boot" by (blast intro: step.boot)
  have run: "running 0 run_boot" "running 0 run_lock" "running 1 run_boot2" "running 0 run_block"
    unfolding running_def using current_eval must_lock_eval by blast+
  have i1: "sys_inv run_boot" using r1 thread_sys.inv_reachable by blast
  have "mutex_lock 0 7 run_boot = Some run_lock"
    using mutex_lock_inv [OF i1 current_eval(1), of 7] by (auto simp: run_lock_def)
  with run show s2: "step run_boot run_lock" by (blast intro: step.lock)
  have i2: "sys_inv run_lock" using step_inv [OF i1 s2] .
  obtain e where "thread_create 0 Alloc_ok run_lock = Some (e, run_create)"
    using thread_create_inv [OF i2 run(2), of Alloc_ok] by (auto simp: run_create_def)
  with run show s3: "step run_lock run_create" by (blast intro: step.create)
  have i3: "sys_inv run_create" using step_inv [OF i2 s3] .
  have "cpu_boot False run_create = Some run_boot2"
    using cpu_boot_inv [OF i3, of False] by (auto simp: run_boot2_def)
  then show s4: "step run_create run_boot2" by (blast intro: step.boot)
  have i4: "sys_inv run_boot2" using step_inv [OF i3 s4] .
  have "mutex_lock 1 7 run_boot2 = Some run_block"
    using mutex_lock_inv [OF i4 current_eval(5), of 7] by (auto simp: run_block_def)
  with run show s5: "step run_boot2 run_block" by (blast intro: step.lock)
  have i5: "sys_inv run_block" using step_inv [OF i4 s5] .
  obtain e where "mutex_unlock 0 7 run_block = Some (e, run_unlock)"
    using mutex_unlock_inv [OF i5 run(4), of 7] by (auto simp: run_unlock_def)
  with run show "step run_block run_unlock" by (blast intro: step.unlock)
qed

lemma run_reachable:
  "reachable run_boot" "reachable run_lock" "reachable run_create" "reachable run_boot2"
  "reachable run_block" "reachable run_unlock"
  using run_steps by (meson rtranclp.rtrancl_into_rtrancl)+

section \<open>Properties\<close>




text \<open>
  C30. No assertion of the library can fail and no null context is used: in every reachable
  state, each operation called by a running context, and the boot of a further CPU, returns.
\<close>

theorem operations_never_abort:
  assumes "reachable s" "running c s"
  shows "(\<exists>t. cpu_boot func s = Some t) \<and> (\<exists>e t. thread_create c al s = Some (e, t))
    \<and> (\<exists>t. thread_exit c s = Some t) \<and> (\<exists>t. thread_join c x s = Some t) \<and> (\<exists>t. thread_yield c s = Some t)
    \<and> (\<exists>t. mutex_lock c m s = Some t) \<and> (\<exists>e t. mutex_unlock c m s = Some (e, t))
    \<and> (\<exists>e t. cv_wait c v m s = Some (e, t)) \<and> (\<exists>t. cv_signal c v s = Some t)
    \<and> (\<exists>t. cv_broadcast c v s = Some t) \<and> (\<exists>t. timer_interrupt_handler c s = Some t)"
proof -
  have inv: "sys_inv s" using assms thread_sys.inv_reachable by blast
  obtain y where y: "current c s = Some y" using assms(2) by (auto simp: running_def)
  then have "c < length (cpu_vec s)" "\<not> suspended (cpu_vec s ! c)"
    using inv by (auto simp: current_def sys_inv_def quiet_def cpu_ok_def split: if_splits)
  with inv have "\<exists>t. timer_interrupt_handler c s = Some t" using timer_inv by blast
  moreover have "\<exists>t. mutex_lock c m s = Some t" using mutex_lock_inv [OF inv y] by blast
  ultimately show ?thesis
    using cpu_boot_inv [OF inv, of func] thread_create_inv [OF inv assms(2), of al] thread_exit_inv [OF inv assms(2)]
      thread_join_inv [OF inv assms(2), of x] thread_yield_inv [OF inv assms(2)]
      mutex_unlock_inv [OF inv assms(2), of m] cv_wait_inv [OF inv assms(2), of v m]
      cv_signal_inv [OF inv assms(2), of v] cv_broadcast_inv [OF inv assms(2), of v] by blast
qed

theorem operations_never_abort_witness:
  "running 0 run_block \<and> (\<exists>e t. mutex_unlock 0 7 run_block = Some (e, t)) \<and> (\<exists>e t. cv_wait 0 5 7 run_block = Some (e, t))"
proof -
  have "running 0 run_block" by (simp add: running_def current_eval must_lock_eval)
  with operations_never_abort [OF run_reachable(5) this, of True Alloc_ok 3 7 5] show ?thesis by blast
qed




text \<open>The running context is in no queue.\<close>

lemma current_not_queued:
  assumes "core_ok s" "current c s = Some x"
  shows "x \<notin> set (ready_queue s)" "x \<notin> set (waiting_queue (mutexes s m))"
proof -
  have x: "x \<in> set (contents s (P_cpu c))" using assms(2) by (simp add: current_contents del: contents.simps)
  note own = ownD(2) [OF core_okD(1) [OF assms(1)] x]
  show "x \<notin> set (ready_queue s)" "x \<notin> set (waiting_queue (mutexes s m))"
    using own [of P_ready] own [of "P_mutex m"] by (simp_all, blast+)
qed

lemma swap_current:
  assumes "core_ok s" "guarded c s" "current c s = Some x" "may_block q rp s"
    "swap_self_to_queue c q rp s = Some t"
  shows "current c t \<noteq> Some x"
proof -
  have "hd (ready_queue s @ ys) \<noteq> x" if "ready_queue s \<noteq> []" for ys
    using current_not_queued(1) [OF assms(1,3)] that by (metis hd_append2 hd_in_set)
  moreover have "q = Q_ready \<Longrightarrow> ready_queue s \<noteq> []" using assms(4) by (auto simp: may_block_def)
  ultimately show ?thesis using swap_self_to_queue_switched [OF assms]
    by (auto simp: switched_def split: list.splits if_splits)
qed

text \<open>
  \<^verbatim>\<open>mutex::lock\<close> on a free mutex returns as its owner; on a taken one the caller stops running
  and is appended to the waiting queue, and the owner stays.
\<close>

theorem mutex_lock_behaviour:
  assumes "reachable s" "current c s = Some x" "mutex_lock c m s = Some t"
  shows "if free (mutexes s m)
    then current c t = Some x \<and> \<not> free (mutexes t m) \<and> owner (mutexes t m) = x
    else current c t \<noteq> Some x \<and> waiting_queue (mutexes t m) = waiting_queue (mutexes s m) @ [x]
      \<and> \<not> free (mutexes t m) \<and> (owner (mutexes s m) \<noteq> 0 \<longrightarrow> owner (mutexes t m) = owner (mutexes s m))"
proof -
  have inv: "sys_inv s" using assms(1) thread_sys.inv_reachable by blast
  obtain s' where s': "enter c s = Some s'" using assms(3) by (auto simp: mutex_lock_def option_simps)
  note e = step_enter [OF inv assms(2) s']
  show ?thesis
  proof (cases "free (mutexes s m)")
    case True
    with assms(3) s' e(3,4) show ?thesis by (auto simp: mutex_lock_def)
  next
    case False
    with assms(3) s' e(4) have sw: "swap_self_to_queue c (Q_mutex m) (In_lock m) s' = Some t"
      and mb: "may_block (Q_mutex m) (In_lock m) s'" by (simp_all add: mutex_lock_def may_block_def)
    with swap_self_to_queue_switched [OF e(2,1,3) mb sw] swap_current [OF e(2,1,3) mb sw] False e(4) show ?thesis
      by (simp add: switched_def locks_kept_def)
  qed
qed

theorem mutex_lock_behaviour_witness:
  "mutex_lock 1 7 run_boot2 = Some run_block \<and> \<not> free (mutexes run_boot2 7) \<and> current 1 run_block \<noteq> Some 3
   \<and> waiting_queue (mutexes run_block 7) = waiting_queue (mutexes run_boot2 7) @ [3]"
proof -
  have l: "mutex_lock 1 7 run_boot2 = Some run_block"
    using mutex_lock_inv [OF _ current_eval(5), of 7] run_reachable(4) thread_sys.inv_reachable
    by (auto simp: run_block_def)
  have "\<not> free (mutexes run_boot2 7)" by code_simp
  with l mutex_lock_behaviour [OF run_reachable(4) current_eval(5) l] show ?thesis by simp
qed

text \<open>
  C31. \<^verbatim>\<open>mutex::unlock\<close> by anyone but the owner throws and changes nothing; by the owner it frees the
  mutex, or, if contexts are waiting, moves the one that waited longest to the ready queue and
  keeps the mutex taken for it.
\<close>

theorem mutex_unlock_behaviour:
  assumes "reachable s" "current c s = Some x" "mutex_unlock c m s = Some (e, t)"
  shows "if free (mutexes s m) \<or> owner (mutexes s m) \<noteq> x then e = Runtime_error \<and> t = s
    else e = Nothing \<and> current c t = Some x \<and> owner (mutexes t m) = 0
      \<and> free (mutexes t m) = (waiting_queue (mutexes s m) = [])
      \<and> waiting_queue (mutexes t m) = tl (waiting_queue (mutexes s m))
      \<and> ready_queue t = ready_queue s @ take 1 (waiting_queue (mutexes s m))"
proof -
  have inv: "sys_inv s" using assms(1) thread_sys.inv_reachable by blast
  obtain s' where s': "enter c s = Some s'" using assms(3) by (auto simp: mutex_unlock_def option_simps)
  note en = step_enter [OF inv assms(2) s']
  from en(2,1,3) show ?thesis
  proof (cases rule: release_lock_cases [where m = m])
    case throws
    with assms(3) s' en(4,10) show ?thesis by (auto simp: mutex_unlock_def)
  next
    case (returns u)
    then have "e = Nothing" "t = leave c u" using assms(3) s' by (simp_all add: mutex_unlock_def)
    with returns assms(2) en(4,6,11) show ?thesis by simp
  qed
qed

theorem mutex_unlock_behaviour_witness:
  "\<exists>e. mutex_unlock 0 7 run_block = Some (e, run_unlock) \<and> e = Nothing
     \<and> waiting_queue (mutexes run_block 7) = [3] \<and> ready_queue run_unlock = [3] \<and> \<not> free (mutexes run_unlock 7)"
proof -
  have r: "sys_inv run_block" "running 0 run_block"
    unfolding running_def using run_reachable(5) thread_sys.inv_reachable current_eval(6) must_lock_eval(6) by blast+
  obtain e where u: "mutex_unlock 0 7 run_block = Some (e, run_unlock)"
    using mutex_unlock_inv [OF r, of 7] by (auto simp: run_unlock_def)
  have "\<not> free (mutexes run_block 7)" "owner (mutexes run_block 7) = 2" "waiting_queue (mutexes run_block 7) = [3]"
    "ready_queue run_block = []" by code_simp+
  with u mutex_unlock_behaviour [OF run_reachable(5) current_eval(6) u] show ?thesis by simp
qed








lemma add_all_effect:
  assumes "add_all_to_ready_queue c xs s = Some t"
  shows "ready_queue t = ready_queue s @ xs" "cvs t = cvs s" "mutexes t = mutexes s"
  using assms by (auto simp: add_all_to_ready_queue_def check_ready_and_wake_def option_simps split: prod.splits)

text \<open>
  C33. \<^verbatim>\<open>cv::signal\<close> moves the context that waited longest, \<^verbatim>\<open>cv::broadcast\<close> all waiting contexts in
  arrival order, from the condition variable to the end of the ready queue, and nothing else.
\<close>

theorem cv_wakeup_behaviour:
  assumes "reachable s" "running c s"
  shows "(\<exists>t. cv_signal c v s = Some t \<and> cvs t = (cvs s)(v := tl (cvs s v)) \<and> mutexes t = mutexes s
            \<and> ready_queue t = ready_queue s @ take 1 (cvs s v))
    \<and> (\<exists>t. cv_broadcast c v s = Some t \<and> cvs t = (cvs s)(v := []) \<and> mutexes t = mutexes s
            \<and> ready_queue t = ready_queue s @ cvs s v)"
proof -
  have inv: "sys_inv s" using assms(1) thread_sys.inv_reachable by blast
  obtain x where x: "current c s = Some x" using assms(2) by (auto simp: running_def)
  obtain s' where s': "enter c s = Some s'" using enter_guarded [OF inv x] by metis
  note en = step_enter [OF inv x s']
  obtain t where t: "cv_signal c v s = Some t" using cv_signal_inv [OF inv assms(2)] by blast
  obtain u where u: "cv_broadcast c v s = Some u" using cv_broadcast_inv [OF inv assms(2)] by blast
  have "cvs t = (cvs s)(v := tl (cvs s v)) \<and> mutexes t = mutexes s \<and> ready_queue t = ready_queue s @ take 1 (cvs s v)"
    using t s' en(4-6)
    by (cases "cvs s v") (auto simp: cv_signal_def add_one option_simps dest: add_all_effect)
  moreover have "cvs u = (cvs s)(v := []) \<and> mutexes u = mutexes s \<and> ready_queue u = ready_queue s @ cvs s v"
    using u s' en(4-6) by (auto simp: cv_broadcast_def option_simps dest: add_all_effect)
  ultimately show ?thesis using t u by blast
qed

definition run_wait :: sys where "run_wait = snd (the (cv_wait 0 5 7 run_boot2))"

lemma run_wait_step: "\<exists>e. cv_wait 0 5 7 run_boot2 = Some (e, run_wait)" "reachable run_wait"
proof -
  have r: "sys_inv run_boot2" "running 0 run_boot2"
    unfolding running_def using run_reachable(4) thread_sys.inv_reachable current_eval(4) must_lock_eval(4) by blast+
  then show w: "\<exists>e. cv_wait 0 5 7 run_boot2 = Some (e, run_wait)"
    using cv_wait_inv [OF r, of 5 7] by (auto simp: run_wait_def)
  then show "reachable run_wait" using run_reachable(4) r(2) by (meson rtranclp.rtrancl_into_rtrancl step.wait)
qed

theorem cv_wakeup_behaviour_witness:
  "cvs run_wait 5 = [2] \<and> (\<exists>t. cv_signal 1 5 run_wait = Some t \<and> cvs t 5 = [] \<and> ready_queue t = [2])"
proof -
  have "current 1 run_wait = Some 3" "must_lock run_wait 3 = None" by code_simp+
  then have "running 1 run_wait" unfolding running_def by blast
  note woken = cv_wakeup_behaviour [OF run_wait_step(2) this, of 5]
  have "cvs run_wait 5 = [2]" "ready_queue run_wait = []" by code_simp+
  with woken show ?thesis by auto
qed


text \<open>
  \<^verbatim>\<open>thread::join\<close> on a thread that has ended returns at once with the state unchanged; on a live one
  the caller stops running and is appended to that thread's queue of joining contexts.
\<close>

theorem thread_join_behaviour:
  assumes "reachable s" "current c s = Some x" "thread_join c y s = Some t"
  shows "if alive (threads s y)
    then current c t \<noteq> Some x \<and> join_waiting_queue (threads t y) = join_waiting_queue (threads s y) @ [x]
    else t = s"
proof -
  have inv: "sys_inv s" using assms(1) thread_sys.inv_reachable by blast
  obtain s' where s': "enter c s = Some s'" using assms(3) by (auto simp: thread_join_def option_simps)
  note en = step_enter [OF inv assms(2) s']
  show ?thesis
  proof (cases "alive (threads s y)")
    case True
    with assms(3) s' en(7) have sw: "swap_self_to_queue c (Q_join y) In_join s' = Some t"
      and mb: "may_block (Q_join y) In_join s'" by (simp_all add: thread_join_def may_block_def)
    with swap_self_to_queue_switched [OF en(2,1,3) mb sw] swap_current [OF en(2,1,3) mb sw] True en(7) show ?thesis
      by (simp add: switched_def)
  qed (use assms(3) s' en(7,10) in \<open>simp add: thread_join_def\<close>)
qed


text \<open>A second thread joins the first one, which then ends.\<close>

definition run_join :: sys where "run_join = the (thread_join 1 2 run_boot2)"

lemma run_join_step: "thread_join 1 2 run_boot2 = Some run_join" "reachable run_join"
proof -
  have r: "sys_inv run_boot2" "running 1 run_boot2"
    unfolding running_def using run_reachable(4) thread_sys.inv_reachable current_eval(5) must_lock_eval(5) by blast+
  show j: "thread_join 1 2 run_boot2 = Some run_join"
    using thread_join_inv [OF r, of 2] by (auto simp: run_join_def)
  then show "reachable run_join" using run_reachable(4) r(2) by (meson rtranclp.rtrancl_into_rtrancl step.join)
qed

theorem thread_join_behaviour_witness:
  "alive (threads run_boot2 2) \<and> thread_join 1 2 run_boot2 = Some run_join \<and> join_waiting_queue (threads run_join 2) = [3]"
proof -
  have "alive (threads run_boot2 2)" "join_waiting_queue (threads run_boot2 2) = []" by code_simp+
  with run_join_step(1) thread_join_behaviour [OF run_reachable(4) current_eval(5) run_join_step(1)] show ?thesis
    by simp
qed


text \<open>
  Waking CPUs for ready threads: \<^verbatim>\<open>check_ready_and_wake\<close> sends at most one interrupt per ready
  context, only to CPUs that were marked idle, and stops short of one per ready context only when
  no CPU is marked idle any more.
\<close>

theorem check_ready_and_wake_behaviour:
  assumes "check_ready_and_wake c s = Some t"
  shows "\<exists>woken. ipis t = ipis s @ woken \<and> length woken \<le> length (ready_queue s)
    \<and> (length woken = length (ready_queue s) \<or> (\<forall>p \<in> set (cpu_vec t). \<not> is_idle p))
    \<and> (\<forall>j \<in> set woken. j < length (cpu_vec s) \<and> is_idle (cpu_vec s ! j) \<and> \<not> is_idle (cpu_vec t ! j))
    \<and> ready_queue t = ready_queue s \<and> map last_context (cpu_vec t) = map last_context (cpu_vec s)"
proof -
  obtain ps w where e: "wake_loop (length (ready_queue s)) 0 (cpu_vec s) = (ps, w)" by fastforce
  then have "t = s\<lparr>cpu_vec := ps, ipis := ipis s @ w\<rparr>"
    using assms by (auto simp: check_ready_and_wake_def option_simps)
  with wake_loop_same [OF e] wake_loop_enough [OF e] wake_loop_targets [OF e] show ?thesis by auto
qed

definition run_entered :: sys where
  "run_entered = (the (enter 0 run_block))\<lparr>ready_queue := [9, 10]\<rparr>"

theorem check_ready_and_wake_behaviour_witness:
  "\<exists>t. check_ready_and_wake 0 run_entered = Some t \<and> ipis t = ipis run_entered @ [1] \<and> (\<forall>p \<in> set (cpu_vec t). \<not> is_idle p)"
proof -
  have e: "\<not> Option.is_none (check_ready_and_wake 0 run_entered)" "length (ready_queue run_entered) = 2"
    "ipis (the (check_ready_and_wake 0 run_entered)) = ipis run_entered @ [1]"
    by code_simp+
  from e(1) obtain t where t: "check_ready_and_wake 0 run_entered = Some t"
    by (auto simp: Option.is_none_def)
  from check_ready_and_wake_behaviour [OF t] t e(2,3) show ?thesis by auto
qed



end
