(* ===== verification/Pages.thy ===== *)
theory Pages
  imports Prelude "HOL-Library.AList"
begin

text \<open>
  The data of the external pager: pages and page table entries (\<^verbatim>\<open>src/pager_library/Page.h\<close>,
  \<^verbatim>\<open>Page.cpp\<close>, \<^verbatim>\<open>vm_pager.h\<close>, \<^verbatim>\<open>vm_arena.h\<close>) and the global state of \<^verbatim>\<open>vm_pager.cpp\<close>. A
  \<^verbatim>\<open>VirtualPage\<close> is named by a number, so that the sharing of one page by several mappings is
  explicit; a \<^verbatim>\<open>page_table_entry_t*\<close> is the process whose table it points into and an index.
\<close>

section \<open>Constants and addresses\<close>

definition VM_PAGESIZE :: nat where "VM_PAGESIZE = 65536"
definition VM_ARENA_BASEADDR :: nat where "VM_ARENA_BASEADDR = 0x600000000"
definition VM_ARENA_SIZE :: nat where "VM_ARENA_SIZE = 0x01000000"
definition VM_ARENA_MAXADDR :: nat where "VM_ARENA_MAXADDR = VM_ARENA_BASEADDR + VM_ARENA_SIZE"
definition page_table_size :: nat where "page_table_size = VM_ARENA_SIZE div VM_PAGESIZE"

lemmas vm_const_defs = VM_PAGESIZE_def VM_ARENA_BASEADDR_def VM_ARENA_SIZE_def
  VM_ARENA_MAXADDR_def page_table_size_def

type_synonym pte_ptr = "nat \<times> nat"

text \<open>The subtraction is on \<^verbatim>\<open>uint64_t\<close>, so it wraps below the arena.\<close>

definition VA_to_PTE :: "nat \<Rightarrow> nat \<Rightarrow> pte_ptr" where
  "VA_to_PTE va pid = (pid, ((va + 2 ^ 64 - VM_ARENA_BASEADDR) mod 2 ^ 64) div VM_PAGESIZE)"

section \<open>Records\<close>

text \<open>The bit-field \<open>ppage\<close> has 20 bits.\<close>

record pte =
  ppage :: nat
  read_enable :: bool
  write_enable :: bool

record physical_page =
  PPN :: nat
  clocked :: bool
  dirty :: bool

record virtual_page =
  affiliated :: "pte_ptr list"
  isSwap :: bool
  filename :: string
  blocks :: "nat list"
  physicalPage :: "physical_page option"
  resident :: bool

text \<open>\<^verbatim>\<open>std::make_unique<PhysicalPage>()\<close> and \<^verbatim>\<open>std::make_shared<VirtualPage>()\<close> value-initialise.\<close>

definition new_physical_page :: physical_page where
  "new_physical_page = \<lparr>PPN = 0, clocked = False, dirty = False\<rparr>"

definition new_virtual_page :: virtual_page where
  "new_virtual_page = \<lparr>affiliated = [], isSwap = False, filename = [], blocks = [],
     physicalPage = None, resident = False\<rparr>"

definition new_page_table :: "pte list" where
  "new_page_table = replicate page_table_size \<lparr>ppage = 0, read_enable = False, write_enable = False\<rparr>"

text \<open>The contents of one page of memory, by offset.\<close>

type_synonym page = "nat \<Rightarrow> char"

definition zero_page :: page where
  "zero_page = (\<lambda>_. NUL)"

section \<open>Files\<close>

text \<open>
  \<^verbatim>\<open>file_read\<close> and \<^verbatim>\<open>file_write\<close> are infrastructure: parameters of the model. The name \<open>None\<close> is
  the swap file. A read returns whether it succeeded and the new contents of the buffer.
\<close>

record 'f file_ops =
  file_read :: "'f \<Rightarrow> string option \<Rightarrow> nat \<Rightarrow> page \<Rightarrow> bool \<times> page \<times> 'f"
  file_write :: "'f \<Rightarrow> string option \<Rightarrow> nat \<Rightarrow> page \<Rightarrow> bool \<times> 'f"

section \<open>The global state\<close>

text \<open>
  The hash maps over processes, addresses and file blocks are association lists; code that
  iterates over one gets the order from a parameter. \<open>filename_block_to_vpage\<close> is keyed by the
  pair of file name and block. \<open>page_table_base_register\<close> is the process whose table it points
  to.
\<close>

record 'f pager =
  process_table :: "nat \<Rightarrow> pte list option"
  translateVA :: "(nat \<times> (nat \<times> nat) list) list"
  next_free_VA :: "nat \<Rightarrow> nat option"
  filename_block_to_vpage :: "((string \<times> nat) \<times> nat) list"
  vpages :: "nat \<Rightarrow> virtual_page"
  next_vpage :: nat
  max_swap_blocks :: nat
  next_free_swap :: "nat list"
  next_free_PPN :: "nat list"
  clock_queue :: "nat list"
  mem_pages_cap :: nat
  current_pid :: nat
  page_table_base_register :: nat
  vm_physmem :: "nat \<Rightarrow> page"
  files :: 'f

text \<open>The mappings of a process, and one of them.\<close>

definition mappings :: "'f pager \<Rightarrow> nat \<Rightarrow> (nat \<times> nat) list" where
  "mappings s pid = (case map_of (translateVA s) pid of None \<Rightarrow> [] | Some m \<Rightarrow> m)"

definition lookup_va :: "'f pager \<Rightarrow> nat \<Rightarrow> nat \<Rightarrow> nat option" where
  "lookup_va s pid va = map_of (mappings s pid) va"

text \<open>\<^verbatim>\<open>translateVA[pid][va] = v\<close>; and \<^verbatim>\<open>translateVA[pid]\<close> alone, which creates an empty map.\<close>

definition set_va :: "nat \<Rightarrow> nat \<Rightarrow> nat \<Rightarrow> 'f pager \<Rightarrow> 'f pager" where
  "set_va pid va v s = s\<lparr>translateVA := AList.update pid (AList.update va v (mappings s pid)) (translateVA s)\<rparr>"

definition touch_va :: "nat \<Rightarrow> 'f pager \<Rightarrow> 'f pager" where
  "touch_va pid s = s\<lparr>translateVA := AList.update pid (mappings s pid) (translateVA s)\<rparr>"

definition upd_vpage :: "nat \<Rightarrow> (virtual_page \<Rightarrow> virtual_page) \<Rightarrow> 'f pager \<Rightarrow> 'f pager" where
  "upd_vpage v f s = s\<lparr>vpages := (vpages s)(v := f (vpages s v))\<rparr>"

text \<open>\<^verbatim>\<open>next_free_VA[pid]\<close>: a missing key reads as 0.\<close>

definition get_next_free_VA :: "'f pager \<Rightarrow> nat \<Rightarrow> nat" where
  "get_next_free_VA s pid = (case next_free_VA s pid of None \<Rightarrow> 0 | Some va \<Rightarrow> va)"

text \<open>A weak pointer locks as long as a map holds a shared pointer to the page.\<close>

definition live :: "'f pager \<Rightarrow> nat \<Rightarrow> bool" where
  "live s v \<longleftrightarrow> v \<in> set (map snd (concat (map snd (translateVA s))))
     \<or> v \<in> set (map snd (filename_block_to_vpage s))"

section \<open>Page table entries\<close>

definition get_pte :: "'f pager \<Rightarrow> pte_ptr \<Rightarrow> pte option" where
  "get_pte s p = do { tab \<leftarrow> process_table s (fst p); at tab (snd p) }"

definition set_pte :: "pte_ptr \<Rightarrow> (pte \<Rightarrow> pte) \<Rightarrow> 'f pager \<Rightarrow> 'f pager option" where
  "set_pte p f s = do {
     tab \<leftarrow> process_table s (fst p);
     e \<leftarrow> at tab (snd p);
     Some (s\<lparr>process_table := (process_table s)(fst p \<mapsto> tab[snd p := f e])\<rparr>) }"

text \<open>
  The permission bits of \<^verbatim>\<open>VirtualPage::updatePTEs\<close>, with its two assertions; a null
  \<^verbatim>\<open>physicalPage\<close> of a resident page is dereferenced.
\<close>

definition pte_bits :: "virtual_page \<Rightarrow> (bool \<times> bool) option" where
  "pte_bits vp = do {
     cassert (0 < length (affiliated vp));
     if \<not> resident vp then Some (False, False)
     else do {
       pp \<leftarrow> physicalPage vp;
       if \<not> clocked pp then Some (False, False)
       else if \<not> isSwap vp then Some (True, dirty pp)
       else do {
         cassert (length (affiliated vp) = length (blocks vp));
         Some (True, length (affiliated vp) = 1 \<and> dirty pp) } } }"

definition updatePTEs :: "nat \<Rightarrow> 'f pager \<Rightarrow> 'f pager option" where
  "updatePTEs v s = do {
     (r, w) \<leftarrow> pte_bits (vpages s v);
     fold_option (\<lambda>p. set_pte p (\<lambda>e.
         e\<lparr>read_enable := r, write_enable := w,
           ppage := (case physicalPage (vpages s v) of None \<Rightarrow> ppage e | Some pp \<Rightarrow> PPN pp mod 2 ^ 20)\<rparr>))
       (affiliated (vpages s v)) s }"

text \<open>Access to the physical page of a page: a null pointer is dereferenced otherwise.\<close>

definition upd_phys :: "nat \<Rightarrow> (physical_page \<Rightarrow> physical_page) \<Rightarrow> 'f pager \<Rightarrow> 'f pager option" where
  "upd_phys v f s = do {
     pp \<leftarrow> physicalPage (vpages s v);
     Some (upd_vpage v (\<lambda>vp. vp\<lparr>physicalPage := Some (f pp)\<rparr>) s) }"

end
