(* ===== verification/Pager.thy ===== *)
theory Pager
  imports Pages
begin

text \<open>
  The operations of \<^verbatim>\<open>src/pager_library/vm_pager.cpp\<close>: page allocation and clock eviction, the
  five entry points of the kernel and \<^verbatim>\<open>vm_map\<close>, and the consistency check the code runs after
  each of them. The loops over a hash map take the iteration order as the parameter \<open>ord\<close>.
\<close>

section \<open>The consistency check\<close>

text \<open>The assertions on one mapping \<open>va \<mapsto> v\<close> of process \<open>pid\<close>.\<close>

definition check_mapping :: "'f pager \<Rightarrow> nat \<Rightarrow> nat \<times> nat \<Rightarrow> bool" where
  "check_mapping s pid m =
     (let va = fst m; v = snd m; vp = vpages s v in
      blocks vp \<noteq> []
      \<and> (case next_free_VA s pid of None \<Rightarrow> False | Some nva \<Rightarrow> va < nva)
      \<and> (if isSwap vp then
           list_all (\<lambda>b. b \<notin> set (next_free_swap s)) (blocks vp)
           \<and> length (blocks vp) = length (affiliated vp)
           \<and> (1 < length (affiliated vp) \<longrightarrow>
                list_all (\<lambda>p. case get_pte s p of None \<Rightarrow> False | Some e \<Rightarrow> \<not> write_enable e) (affiliated vp))
         else length (blocks vp) = 1)
      \<and> (resident vp \<longleftrightarrow> physicalPage vp \<noteq> None)
      \<and> (resident vp \<longrightarrow> PPN (the (physicalPage vp)) \<notin> set (next_free_PPN s))
      \<and> process_table s pid \<noteq> None
      \<and> VA_to_PTE va pid \<in> set (affiliated vp)
      \<and> (case pte_bits vp of
           None \<Rightarrow> False
         | Some (r, w) \<Rightarrow>
             list_all (\<lambda>p. case get_pte s p of
                 None \<Rightarrow> False
               | Some e \<Rightarrow> read_enable e = r \<and> write_enable e = w
                   \<and> (resident vp \<longrightarrow> ppage e = PPN (the (physicalPage vp)) mod 2 ^ 20)) (affiliated vp))
      \<and> (resident vp \<and> PPN (the (physicalPage vp)) \<noteq> 0 \<longrightarrow> v \<in> set (clock_queue s)))"

text \<open>The second pass counts the mappings of each page.\<close>

definition all_mapped :: "'f pager \<Rightarrow> nat list" where
  "all_mapped s = map snd (concat (map snd (translateVA s)))"

definition check_counts :: "'f pager \<Rightarrow> bool" where
  "check_counts s = list_all (\<lambda>v. length (affiliated (vpages s v)) = count_list (all_mapped s) v) (all_mapped s)"

text \<open>The size comparison is on unsigned integers, with wrap-around.\<close>

definition check_clock :: "'f pager \<Rightarrow> bool" where
  "check_clock s \<longleftrightarrow>
     length (clock_queue s) = (mem_pages_cap s + 2 * 2 ^ 64 - length (next_free_PPN s) - 1) mod 2 ^ 64
     \<and> list_all (\<lambda>v. live s v \<and> resident (vpages s v)
          \<and> (case physicalPage (vpages s v) of None \<Rightarrow> False | Some pp \<Rightarrow> PPN pp \<noteq> 0)) (clock_queue s)"

definition assert_structure_consistency :: "'f pager \<Rightarrow> unit option" where
  "assert_structure_consistency s =
     cassert (list_all (\<lambda>(pid, vas). list_all (check_mapping s pid) vas) (translateVA s)
       \<and> check_counts s \<and> check_clock s)"

section \<open>Eviction\<close>

text \<open>
  The first loop of \<^verbatim>\<open>evict_and_replace\<close>: rotate the queue past the pages whose clock bit is set,
  clearing it. Every turn clears a bit, so one turn more than the queue is long is enough.
\<close>

primrec clock_loop :: "nat \<Rightarrow> 'f pager \<Rightarrow> 'f pager option" where
  "clock_loop 0 s = None"
| "clock_loop (Suc n) s =
     (case clock_queue s of
        [] \<Rightarrow> None
      | v # rest \<Rightarrow> do {
          cassert (live s v);
          pp \<leftarrow> physicalPage (vpages s v);
          if clocked pp then do {
            s \<leftarrow> upd_phys v (\<lambda>pp. pp\<lparr>clocked := False\<rparr>) s;
            s \<leftarrow> (if affiliated (vpages s v) \<noteq> [] then updatePTEs v s else Some s);
            clock_loop n (s\<lparr>clock_queue := rest @ [v]\<rparr>) }
          else Some s })"

definition backing :: "virtual_page \<Rightarrow> string option" where
  "backing vp = (if isSwap vp then None else Some (filename vp))"

definition remove_from_filename_block :: "nat \<Rightarrow> 'f pager \<Rightarrow> 'f pager option" where
  "remove_from_filename_block v s = do {
     b \<leftarrow> at (blocks (vpages s v)) 0;
     Some (s\<lparr>filename_block_to_vpage :=
               AList.delete (filename (vpages s v), b) (filename_block_to_vpage s)\<rparr>) }"

definition evict_and_replace :: "'f file_ops \<Rightarrow> nat \<Rightarrow> 'f pager \<Rightarrow> 'f pager option" where
  "evict_and_replace fo r s = do {
     s \<leftarrow> clock_loop (Suc (length (clock_queue s))) s;
     e \<leftarrow> at (clock_queue s) 0;
     let s = s\<lparr>clock_queue := tl (clock_queue s)\<rparr>;
     pp \<leftarrow> physicalPage (vpages s e);
     s \<leftarrow> (if dirty pp then do {
              b \<leftarrow> at (blocks (vpages s e)) 0;
              Some (s\<lparr>files := snd (file_write fo (files s) (backing (vpages s e)) b (vm_physmem s (PPN pp)))\<rparr>) }
            else Some s);
     let s = upd_vpage r (\<lambda>vp. vp\<lparr>physicalPage := Some \<lparr>PPN = PPN pp, clocked = True, dirty = False\<rparr>\<rparr>) s;
     s \<leftarrow> updatePTEs r s;
     let s = s\<lparr>clock_queue := clock_queue s @ [r]\<rparr>;
     let s = upd_vpage e (\<lambda>vp. vp\<lparr>resident := False, physicalPage := None\<rparr>) s;
     s \<leftarrow> (if affiliated (vpages s e) \<noteq> [] then updatePTEs e s else Some s);
     if \<not> isSwap (vpages s e) \<and> affiliated (vpages s e) = [] then remove_from_filename_block e s
     else Some s }"

section \<open>Allocation of physical pages\<close>

definition give_new_ppn :: "'f file_ops \<Rightarrow> nat \<Rightarrow> 'f pager \<Rightarrow> 'f pager option" where
  "give_new_ppn fo v s = do {
     let s = upd_vpage v (\<lambda>vp. vp\<lparr>physicalPage := Some new_physical_page\<rparr>) s;
     s \<leftarrow> (case next_free_PPN s of
             p # rest \<Rightarrow> Some (upd_vpage v (\<lambda>vp. vp\<lparr>physicalPage := Some (new_physical_page\<lparr>PPN := p, clocked := True\<rparr>)\<rparr>)
                                (s\<lparr>next_free_PPN := rest, clock_queue := clock_queue s @ [v]\<rparr>))
           | [] \<Rightarrow> evict_and_replace fo v s);
     Some (upd_vpage v (\<lambda>vp. vp\<lparr>resident := True\<rparr>) s) }"

definition return_ppn_remove_from_clock :: "nat \<Rightarrow> 'f pager \<Rightarrow> 'f pager option" where
  "return_ppn_remove_from_clock v s = do {
     pp \<leftarrow> physicalPage (vpages s v);
     q \<leftarrow> erase_first v (clock_queue s);
     updatePTEs v (upd_vpage v (\<lambda>vp. vp\<lparr>resident := False, physicalPage := None\<rparr>)
       (s\<lparr>next_free_PPN := next_free_PPN s @ [PPN pp], clock_queue := q\<rparr>)) }"

text \<open>\<open>None\<close> inside the result is the null pointer: the swap file is full.\<close>

definition make_swap_to_nullpage :: "nat \<Rightarrow> nat \<Rightarrow> 'f pager \<Rightarrow> (nat option \<times> 'f pager) option" where
  "make_swap_to_nullpage va pid s =
     (case next_free_swap s of
        [] \<Rightarrow> do { assert_structure_consistency s; Some (None, s) }
      | b # rest \<Rightarrow> do {
          let v = next_vpage s;
          cassert (process_table s pid \<noteq> None);
          s \<leftarrow> updatePTEs v
            ((set_va pid va v s)\<lparr>next_vpage := Suc v, next_free_swap := rest,
               vpages := (vpages s)(v := new_virtual_page\<lparr>blocks := [b], resident := True,
                 physicalPage := Some \<lparr>PPN = 0, clocked = True, dirty = False\<rparr>,
                 isSwap := True, affiliated := [VA_to_PTE va pid]\<rparr>)\<rparr>);
          Some (Some v, s) })"

section \<open>Start-up and processes\<close>

definition vm_init :: "nat \<Rightarrow> nat \<Rightarrow> 'f pager \<Rightarrow> 'f pager" where
  "vm_init memory_pages swap_blocks s =
     s\<lparr>vm_physmem := (vm_physmem s)(0 := zero_page), mem_pages_cap := memory_pages,
       max_swap_blocks := swap_blocks,
       next_free_PPN := next_free_PPN s @ [1..<memory_pages],
       next_free_swap := next_free_swap s @ [0..<swap_blocks]\<rparr>"

text \<open>
  One turn of the loop that gives the child the mappings of its parent: a page that is still
  the null page gets a copy of its own, any other page is shared.
\<close>

definition share_page :: "nat \<Rightarrow> nat \<times> nat \<Rightarrow> 'f pager \<Rightarrow> 'f pager option" where
  "share_page child m s = do {
     let va = fst m; let v = snd m;
     null \<leftarrow> (if resident (vpages s v) then map_option (\<lambda>pp. PPN pp = 0) (physicalPage (vpages s v))
              else Some False);
     if null then do { (_, s) \<leftarrow> make_swap_to_nullpage va child s; Some s }
     else do {
       let s = set_va child va v s;
       s \<leftarrow> (if isSwap (vpages s v) then do {
                b \<leftarrow> at (next_free_swap s) 0;
                Some (upd_vpage v (\<lambda>vp. vp\<lparr>blocks := blocks vp @ [b]\<rparr>)
                        (s\<lparr>next_free_swap := tl (next_free_swap s)\<rparr>)) }
              else Some s);
       updatePTEs v (upd_vpage v (\<lambda>vp. vp\<lparr>affiliated := affiliated vp @ [VA_to_PTE va child]\<rparr>) s) } }"

definition vm_create ::
  "((nat \<times> nat) list \<Rightarrow> (nat \<times> nat) list) \<Rightarrow> nat \<Rightarrow> nat \<Rightarrow> 'f pager \<Rightarrow> (int \<times> 'f pager) option" where
  "vm_create ord parent child s = do {
     let s = (if process_table s child = None
              then s\<lparr>process_table := (process_table s)(child \<mapsto> new_page_table)\<rparr> else s);
     let s = s\<lparr>next_free_VA := (next_free_VA s)(child \<mapsto> VM_ARENA_BASEADDR)\<rparr>;
     let parent_known = (map_of (translateVA s) parent \<noteq> None);
     let swap_needed = length (filter (\<lambda>m. isSwap (vpages s (snd m))) (mappings s parent));
     if parent_known \<and> length (next_free_swap s) < swap_needed then
       Some (-1, s\<lparr>process_table := (process_table s)(child := None),
                   next_free_VA := (next_free_VA s)(child := None)\<rparr>)
     else do {
       s \<leftarrow> (if parent_known then
                fold_option (share_page child) (ord (mappings s parent))
                  (s\<lparr>next_free_VA := (next_free_VA s)(child \<mapsto> get_next_free_VA s parent)\<rparr>)
              else Some s);
       let s = (if process_table s parent = None
                then s\<lparr>current_pid := child, page_table_base_register := child\<rparr> else s);
       assert_structure_consistency s;
       Some (0, s) } }"

definition vm_switch :: "nat \<Rightarrow> 'f pager \<Rightarrow> 'f pager option" where
  "vm_switch pid s = do {
     cassert (process_table s pid \<noteq> None);
     let s = s\<lparr>current_pid := pid, page_table_base_register := pid\<rparr>;
     assert_structure_consistency s;
     Some s }"

section \<open>Faults\<close>

definition page_base :: "nat \<Rightarrow> nat" where
  "page_base addr = addr - addr mod VM_PAGESIZE"

text \<open>
  The part of \<^verbatim>\<open>vm_fault\<close> after the copy-on-write branch: bring the page into memory if it is
  not there or is the null page. The flag tells whether the file could be read.
\<close>

definition load_page :: "'f file_ops \<Rightarrow> nat \<Rightarrow> 'f pager \<Rightarrow> (bool \<times> 'f pager) option" where
  "load_page fo v s = do {
     let s = upd_vpage v (\<lambda>vp. vp\<lparr>physicalPage := Some new_physical_page\<rparr>) s;
     let isNullPage = resident (vpages s v);
     s \<leftarrow> give_new_ppn fo v s;
     pp \<leftarrow> physicalPage (vpages s v);
     if isNullPage then
       Some (True, upd_vpage v (\<lambda>vp. vp\<lparr>resident := True\<rparr>)
               (s\<lparr>vm_physmem := (vm_physmem s)(PPN pp := zero_page)\<rparr>))
     else do {
       b \<leftarrow> at (blocks (vpages s v)) 0;
       let (ok, buf, f') = file_read fo (files s) (backing (vpages s v)) b (vm_physmem s (PPN pp));
       let s = s\<lparr>vm_physmem := (vm_physmem s)(PPN pp := buf), files := f'\<rparr>;
       if ok then Some (True, upd_vpage v (\<lambda>vp. vp\<lparr>resident := True\<rparr>) s)
       else do {
         s \<leftarrow> (if length (affiliated (vpages s v)) = 1 then remove_from_filename_block v s else Some s);
         s \<leftarrow> return_ppn_remove_from_clock v s;
         assert_structure_consistency s;
         Some (False, s) } } }"

definition fault_page_in :: "'f file_ops \<Rightarrow> nat \<Rightarrow> bool \<Rightarrow> 'f pager \<Rightarrow> (int \<times> 'f pager) option" where
  "fault_page_in fo v write s = do {
     needs_page \<leftarrow> (if \<not> resident (vpages s v) then Some True
                   else map_option (\<lambda>pp. PPN pp = 0) (physicalPage (vpages s v)));
     (ok, s) \<leftarrow> (if needs_page then load_page fo v s else Some (True, s));
     if \<not> ok then Some (-1, s)
     else do {
       pp \<leftarrow> physicalPage (vpages s v);
       cassert (dirty pp \<and> write \<longrightarrow> 1 < length (blocks (vpages s v)) \<or> \<not> clocked pp);
       s \<leftarrow> upd_phys v (\<lambda>pp. pp\<lparr>dirty := (dirty pp \<or> write), clocked := True\<rparr>) s;
       s \<leftarrow> updatePTEs v s;
       assert_structure_consistency s;
       Some (0, s) } }"

text \<open>
  The copy-on-write branch once the shared page can be read: the faulting mapping moves to a
  new page, which takes over the last swap block. When the eviction inside \<^verbatim>\<open>give_new_ppn\<close> chose
  the shared page itself, its bytes are already in the new page's frame.
\<close>

definition copy_on_write :: "'f file_ops \<Rightarrow> nat \<Rightarrow> nat \<Rightarrow> 'f pager \<Rightarrow> 'f pager option" where
  "copy_on_write fo va v s = do {
     let p = VA_to_PTE va (page_table_base_register s);
     let n = next_vpage s;
     aff \<leftarrow> erase_first p (affiliated (vpages s v));
     cassert (blocks (vpages s v) \<noteq> []);
     let b = last (blocks (vpages s v));
     let s = upd_vpage v (\<lambda>vp. vp\<lparr>affiliated := aff, blocks := butlast (blocks vp)\<rparr>)
               ((set_va (current_pid s) va n s)\<lparr>next_vpage := Suc n,
                  vpages := (vpages s)(n := new_virtual_page\<lparr>affiliated := [p], blocks := [b], isSwap := True\<rparr>)\<rparr>);
     s \<leftarrow> give_new_ppn fo n s;
     pn \<leftarrow> physicalPage (vpages s n);
     s \<leftarrow> (if resident (vpages s v) then do {
              pv \<leftarrow> physicalPage (vpages s v);
              Some (s\<lparr>vm_physmem := (vm_physmem s)(PPN pn := vm_physmem s (PPN pv))\<rparr>) }
            else Some s);
     s \<leftarrow> upd_phys n (\<lambda>pp. pp\<lparr>dirty := True, clocked := True\<rparr>) s;
     s \<leftarrow> updatePTEs v s;
     s \<leftarrow> updatePTEs n s;
     assert_structure_consistency s;
     Some s }"

text \<open>
  \<^verbatim>\<open>vm_fault(addr, false)\<close>, which never takes the copy-on-write branch, and the general case,
  which calls it.
\<close>

definition vm_fault_read :: "'f file_ops \<Rightarrow> nat \<Rightarrow> 'f pager \<Rightarrow> (int \<times> 'f pager) option" where
  "vm_fault_read fo addr s =
     (let va = page_base addr; s = touch_va (current_pid s) s in
      case lookup_va s (current_pid s) va of
        None \<Rightarrow> do { assert_structure_consistency s; Some (-1, s) }
      | Some v \<Rightarrow> fault_page_in fo v False s)"

definition first_pte :: "'f pager \<Rightarrow> nat \<Rightarrow> pte option" where
  "first_pte s v = do { p \<leftarrow> at (affiliated (vpages s v)) 0; get_pte s p }"

definition vm_fault :: "'f file_ops \<Rightarrow> nat \<Rightarrow> bool \<Rightarrow> 'f pager \<Rightarrow> (int \<times> 'f pager) option" where
  "vm_fault fo addr write s =
     (let va = page_base addr; s = touch_va (current_pid s) s in
      case lookup_va s (current_pid s) va of
        None \<Rightarrow> do { assert_structure_consistency s; Some (-1, s) }
      | Some v \<Rightarrow>
          if write \<and> 1 < length (blocks (vpages s v)) then do {
            e \<leftarrow> first_pte s v;
            (res, s) \<leftarrow> (if \<not> read_enable e then vm_fault_read fo addr s else Some (0, s));
            if res = -1 then Some (-1, s)
            else do { s \<leftarrow> copy_on_write fo va v s; Some (0, s) } }
          else fault_page_in fo v write s)"

section \<open>Mapping\<close>

text \<open>
  Make the page of address \<open>va\<close> readable and find the physical page of its bytes; the first
  component is \<open>None\<close> where the code returns no string.
\<close>

definition frame_of :: "'f file_ops \<Rightarrow> nat \<Rightarrow> 'f pager \<Rightarrow> (nat option \<times> 'f pager) option" where
  "frame_of fo va s =
     (let s = touch_va (current_pid s) s in
      case lookup_va s (current_pid s) (page_base va) of
        None \<Rightarrow> Some (None, s)
      | Some v \<Rightarrow> do {
          e \<leftarrow> first_pte s v;
          (res, s) \<leftarrow> (if \<not> read_enable e then vm_fault_read fo va s else Some (0, s));
          if res = -1 then Some (None, s)
          else do {
            v' \<leftarrow> lookup_va s (current_pid s) (page_base va);
            pp \<leftarrow> physicalPage (vpages s v');
            Some (Some (PPN pp), s) } })"

text \<open>
  The copying loop. \<open>blk0\<close> is the page of the first character: the variable of that name in the
  loop body shadows it, so once the first page is left every further character looks its page
  up again.
\<close>

partial_function (option) copy_filename ::
  "'f file_ops \<Rightarrow> nat \<Rightarrow> nat \<Rightarrow> nat \<Rightarrow> string \<Rightarrow> 'f pager \<Rightarrow> (string option \<times> 'f pager) option" where
  "copy_filename fo blk0 va frame running s =
     (let c = vm_physmem s frame (va mod VM_PAGESIZE) in
      if c = NUL then Some (Some running, s)
      else if blk0 + VM_PAGESIZE \<le> Suc va then do {
        (fr, s) \<leftarrow> frame_of fo (Suc va) s;
        case fr of
          None \<Rightarrow> Some (None, s)
        | Some frame' \<Rightarrow> copy_filename fo blk0 (Suc va) frame' (running @ [c]) s }
      else copy_filename fo blk0 (Suc va) frame (running @ [c]) s)"

declare copy_filename.simps [code]

definition translate_from_other_addr_space ::
  "'f file_ops \<Rightarrow> nat \<Rightarrow> 'f pager \<Rightarrow> (string option \<times> 'f pager) option" where
  "translate_from_other_addr_space fo va s = do {
     (fr, s) \<leftarrow> frame_of fo va s;
     case fr of
       None \<Rightarrow> Some (None, s)
     | Some frame \<Rightarrow> copy_filename fo (page_base va) va frame [] s }"

text \<open>The part of \<^verbatim>\<open>vm_map\<close> for a file-backed page, once the name is known.\<close>

definition map_file_page :: "nat \<Rightarrow> string \<Rightarrow> nat \<Rightarrow> 'f pager \<Rightarrow> 'f pager option" where
  "map_file_page va name block s =
     (case map_of (filename_block_to_vpage s) (name, block) of
        Some v \<Rightarrow>
          updatePTEs v (upd_vpage v (\<lambda>vp. vp\<lparr>affiliated := affiliated vp @ [VA_to_PTE va (page_table_base_register s)]\<rparr>)
            (set_va (current_pid s) va v s))
      | None \<Rightarrow>
          (let v = next_vpage s in
           updatePTEs v ((set_va (current_pid s) va v s)\<lparr>next_vpage := Suc v,
             filename_block_to_vpage := AList.update (name, block) v (filename_block_to_vpage s),
             vpages := (vpages s)(v := new_virtual_page\<lparr>resident := False, filename := name, isSwap := False,
               blocks := [block], affiliated := [VA_to_PTE va (page_table_base_register s)]\<rparr>)\<rparr>)))"

text \<open>
  \<^verbatim>\<open>vm_map\<close>: \<open>name_ptr\<close> is the address of the file name in the process, \<open>None\<close> for a null
  pointer; the result is the address of the new page or \<open>None\<close> for a null pointer.
\<close>

definition vm_map :: "'f file_ops \<Rightarrow> nat option \<Rightarrow> nat \<Rightarrow> 'f pager \<Rightarrow> (nat option \<times> 'f pager) option" where
  "vm_map fo name_ptr block s =
     (let va = get_next_free_VA s (current_pid s);
          finish = (\<lambda>s. do {
            let s = s\<lparr>next_free_VA := (next_free_VA s)(current_pid s \<mapsto> get_next_free_VA s (current_pid s) + VM_PAGESIZE)\<rparr>;
            assert_structure_consistency s;
            Some (Some va, s) })
      in
      if VM_ARENA_MAXADDR \<le> va then do { assert_structure_consistency s; Some (None, s) }
      else
        (case name_ptr of
           Some ptr \<Rightarrow> do {
             (nm, s) \<leftarrow> translate_from_other_addr_space fo ptr s;
             case nm of
               None \<Rightarrow> Some (None, s)
             | Some name \<Rightarrow> do { s \<leftarrow> map_file_page va name block s; finish s } }
         | None \<Rightarrow> do {
             (v, s) \<leftarrow> make_swap_to_nullpage va (current_pid s) s;
             case v of None \<Rightarrow> Some (None, s) | Some _ \<Rightarrow> finish s }))"

section \<open>Exit\<close>

definition destroy_mapping :: "nat \<times> nat \<Rightarrow> 'f pager \<Rightarrow> 'f pager option" where
  "destroy_mapping m s = do {
     let va = fst m; let v = snd m;
     s \<leftarrow> (if isSwap (vpages s v) then do {
              cassert (blocks (vpages s v) \<noteq> []);
              Some (upd_vpage v (\<lambda>vp. vp\<lparr>blocks := butlast (blocks vp)\<rparr>)
                      (s\<lparr>next_free_swap := next_free_swap s @ [last (blocks (vpages s v))]\<rparr>)) }
            else Some s);
     in_memory \<leftarrow> (if resident (vpages s v) then map_option (\<lambda>pp. PPN pp \<noteq> 0) (physicalPage (vpages s v))
                   else Some False);
     s \<leftarrow> (if in_memory \<and> blocks (vpages s v) = [] then return_ppn_remove_from_clock v s else Some s);
     aff \<leftarrow> erase_first (VA_to_PTE va (page_table_base_register s)) (affiliated (vpages s v));
     let s = upd_vpage v (\<lambda>vp. vp\<lparr>affiliated := aff\<rparr>) s;
     if aff \<noteq> [] then updatePTEs v s else Some s }"

definition vm_destroy :: "((nat \<times> nat) list \<Rightarrow> (nat \<times> nat) list) \<Rightarrow> 'f pager \<Rightarrow> 'f pager option" where
  "vm_destroy ord s = do {
     s \<leftarrow> fold_option destroy_mapping (ord (mappings s (current_pid s))) (touch_va (current_pid s) s);
     let s = s\<lparr>translateVA := AList.delete (current_pid s) (translateVA s),
               process_table := (process_table s)(current_pid s := None),
               next_free_VA := (next_free_VA s)(current_pid s := None)\<rparr>;
     assert_structure_consistency s;
     Some s }"

end
