(* ===== verification/Pager_Clock.thy ===== *)
theory Pager_Clock
  imports Pager
begin

text \<open>
  Page table entries and the clock. Every operation of the pager is described by what it does to
  the state without the page tables, a plain function, together with the statement that the page
  table entries show the permissions and frames of the pages again. Here: \<^verbatim>\<open>updatePTEs\<close>, the
  clock loop, which ends at the first page in queue order whose reference bit is clear (or, if
  all are set, at the first page again, with all bits cleared), and eviction.
\<close>

section \<open>States that differ in page table entries only\<close>

definition same_but_tables :: "'f pager \<Rightarrow> 'f pager \<Rightarrow> bool" where
  "same_but_tables s t \<longleftrightarrow> (\<exists>f. t = s\<lparr>process_table := f\<rparr>
     \<and> (\<forall>pid. map_option length (f pid) = map_option length (process_table s pid)))"

lemma same_but_tables_refl [simp]: "same_but_tables s s"
  by (auto simp: same_but_tables_def intro!: exI [of _ "process_table s"])

lemma same_but_tables_trans: "same_but_tables s t \<Longrightarrow> same_but_tables t u \<Longrightarrow> same_but_tables s u"
  by (auto simp: same_but_tables_def)

lemma same_but_tables_fields:
  assumes "same_but_tables s t"
  shows "vpages t = vpages s" "translateVA t = translateVA s" "next_free_VA t = next_free_VA s"
    "filename_block_to_vpage t = filename_block_to_vpage s" "next_vpage t = next_vpage s"
    "next_free_swap t = next_free_swap s" "next_free_PPN t = next_free_PPN s" "clock_queue t = clock_queue s"
    "vm_physmem t = vm_physmem s" "files t = files s" "mem_pages_cap t = mem_pages_cap s" "max_swap_blocks t = max_swap_blocks s"
    "current_pid t = current_pid s" "page_table_base_register t = page_table_base_register s"
    "map_option length (process_table t pid) = map_option length (process_table s pid)"
  using assms by (auto simp: same_but_tables_def)

lemma same_but_tables_live: "same_but_tables s t \<Longrightarrow> live t = live s"
  by (simp add: live_def fun_eq_iff same_but_tables_fields)

text \<open>Changes of the other fields carry over.\<close>

lemma same_but_tables_upd:
  assumes "same_but_tables s t"
  shows "same_but_tables (s\<lparr>vpages := f\<rparr>) (t\<lparr>vpages := f\<rparr>)" "same_but_tables (s\<lparr>clock_queue := q\<rparr>) (t\<lparr>clock_queue := q\<rparr>)"
    "same_but_tables (s\<lparr>filename_block_to_vpage := fb\<rparr>) (t\<lparr>filename_block_to_vpage := fb\<rparr>)"
    "same_but_tables (s\<lparr>files := fs\<rparr>) (t\<lparr>files := fs\<rparr>)" "same_but_tables (s\<lparr>vm_physmem := m\<rparr>) (t\<lparr>vm_physmem := m\<rparr>)"
    "same_but_tables (upd_vpage v g s) (upd_vpage v g t)"
proof -
  obtain f where "t = s\<lparr>process_table := f\<rparr>" "\<forall>pid. map_option length (f pid) = map_option length (process_table s pid)"
    using assms by (auto simp: same_but_tables_def)
  then show "same_but_tables (s\<lparr>vpages := g'\<rparr>) (t\<lparr>vpages := g'\<rparr>)" "same_but_tables (s\<lparr>clock_queue := q\<rparr>) (t\<lparr>clock_queue := q\<rparr>)"
    "same_but_tables (s\<lparr>filename_block_to_vpage := fb\<rparr>) (t\<lparr>filename_block_to_vpage := fb\<rparr>)"
    "same_but_tables (s\<lparr>files := fs\<rparr>) (t\<lparr>files := fs\<rparr>)" "same_but_tables (s\<lparr>vm_physmem := m\<rparr>) (t\<lparr>vm_physmem := m\<rparr>)"
    "same_but_tables (upd_vpage v g s) (upd_vpage v g t)" for g'
    by (auto simp: same_but_tables_def upd_vpage_def intro!: exI [of _ f])
qed

lemma get_pte_None: "get_pte s p = None \<longleftrightarrow> (case map_option length (process_table s (fst p)) of None \<Rightarrow> True | Some n \<Rightarrow> n \<le> snd p)"
  by (auto simp: get_pte_def at_def split: option.splits)

lemma same_but_tables_pte: "same_but_tables s t \<Longrightarrow> get_pte t p = None \<longleftrightarrow> get_pte s p = None"
  unfolding get_pte_None by (simp add: same_but_tables_fields(15))

lemma get_pte_upd [simp]:
  "get_pte (upd_vpage v f s) p = get_pte s p" "get_pte (s\<lparr>clock_queue := q\<rparr>) p = get_pte s p"
  "get_pte (s\<lparr>vpages := vs\<rparr>) p = get_pte s p" "get_pte (s\<lparr>files := fs\<rparr>) p = get_pte s p"
  "get_pte (s\<lparr>filename_block_to_vpage := fb\<rparr>) p = get_pte s p" "get_pte (s\<lparr>vm_physmem := m\<rparr>) p = get_pte s p"
  "get_pte (s\<lparr>translateVA := tr\<rparr>) p = get_pte s p" "get_pte (s\<lparr>next_free_PPN := fp\<rparr>) p = get_pte s p"
  "get_pte (s\<lparr>next_free_swap := sw\<rparr>) p = get_pte s p" "get_pte (s\<lparr>next_vpage := nv\<rparr>) p = get_pte s p"
  "get_pte (s\<lparr>next_free_VA := na\<rparr>) p = get_pte s p" "get_pte (s\<lparr>current_pid := cp\<rparr>) p = get_pte s p"
  "get_pte (s\<lparr>page_table_base_register := pb\<rparr>) p = get_pte s p"
  by (simp_all add: upd_vpage_def get_pte_def)

section \<open>Writing page table entries\<close>

lemma set_pte_spec:
  assumes "get_pte s p = Some e"
  shows "returns (\<lambda>t. get_pte t p = Some (f e) \<and> (\<forall>q. q \<noteq> p \<longrightarrow> get_pte t q = get_pte s q) \<and> same_but_tables s t) (set_pte p f s)"
proof -
  obtain tab where tab: "process_table s (fst p) = Some tab" "snd p < length tab" "tab ! snd p = e"
    using assms by (auto simp: get_pte_def option_simps)
  let ?t = "s\<lparr>process_table := (process_table s)(fst p \<mapsto> tab[snd p := f e])\<rparr>"
  have "set_pte p f s = Some ?t" using tab by (simp add: set_pte_def at_def)
  moreover have "get_pte ?t p = Some (f e)" using tab by (simp add: get_pte_def at_def)
  moreover have "get_pte ?t q = get_pte s q" if "q \<noteq> p" for q
    using that tab by (cases q; cases p) (auto simp: get_pte_def at_def nth_list_update)
  moreover have "same_but_tables s ?t" using tab(1) by (auto simp: same_but_tables_def)
  ultimately show ?thesis by (simp add: returns_def)
qed

lemma set_ptes_spec:
  assumes "\<forall>p \<in> set ps. get_pte s p \<noteq> None" "\<And>e. f (f e) = f e"
  shows "returns (\<lambda>t. same_but_tables s t
      \<and> (\<forall>q. get_pte t q = (if q \<in> set ps then map_option f (get_pte s q) else get_pte s q))) (fold_option (\<lambda>p. set_pte p f) ps s)"
  using assms(1)
proof (induction ps arbitrary: s)
  case Nil
  then show ?case by (simp add: returns_def)
next
  case (Cons p ps)
  then obtain e where e: "get_pte s p = Some e" by auto
  from set_pte_spec [OF e, of f] obtain t where t: "set_pte p f s = Some t" "get_pte t p = Some (f e)"
    "\<And>q. q \<noteq> p \<Longrightarrow> get_pte t q = get_pte s q" "same_but_tables s t" by (rule returnsE) blast
  have "\<forall>q \<in> set ps. get_pte t q \<noteq> None" using Cons.prems same_but_tables_pte [OF t(4)] by simp
  from Cons.IH [OF this] obtain u where u: "fold_option (\<lambda>p. set_pte p f) ps t = Some u" "same_but_tables t u"
    "\<And>q. get_pte u q = (if q \<in> set ps then map_option f (get_pte t q) else get_pte t q)" by (rule returnsE) blast
  have "get_pte u q = (if q \<in> set (p # ps) then map_option f (get_pte s q) else get_pte s q)" for q
    using u(3) [of q] t(2) t(3) [of q] e assms(2) by (cases "q = p") auto
  with t(1) u(1) same_but_tables_trans [OF t(4) u(2)] show ?case by (auto simp: returns_def)
qed

text \<open>An entry shows the permissions and the frame of the page.\<close>

definition pte_shows :: "'f pager \<Rightarrow> nat \<Rightarrow> pte_ptr \<Rightarrow> bool" where
  "pte_shows s v p = (case get_pte s p of None \<Rightarrow> False | Some e \<Rightarrow>
     pte_bits (vpages s v) = Some (read_enable e, write_enable e)
     \<and> (case physicalPage (vpages s v) of None \<Rightarrow> True | Some pp \<Rightarrow> ppage e = PPN pp mod 2 ^ 20))"

lemma pte_shows_cong:
  "get_pte t p = get_pte s p \<Longrightarrow> vpages t v = vpages s v \<Longrightarrow> pte_shows t v p = pte_shows s v p"
  unfolding pte_shows_def by (simp only:)

definition has_entries :: "'f pager \<Rightarrow> nat \<Rightarrow> bool" where
  "has_entries s v \<longleftrightarrow> (\<forall>p \<in> set (affiliated (vpages s v)). get_pte s p \<noteq> None)"

lemma updatePTEs_spec:
  assumes "pte_bits (vpages s v) \<noteq> None" "has_entries s v"
  shows "returns (\<lambda>t. same_but_tables s t
      \<and> (\<forall>p. if p \<in> set (affiliated (vpages s v)) then pte_shows t v p else get_pte t p = get_pte s p)) (updatePTEs v s)"
proof -
  obtain r w where rw: "pte_bits (vpages s v) = Some (r, w)" using assms(1) by auto
  let ?f = "\<lambda>e. e\<lparr>read_enable := r, write_enable := w,
    ppage := (case physicalPage (vpages s v) of None \<Rightarrow> ppage e | Some pp \<Rightarrow> PPN pp mod 2 ^ 20)\<rparr>"
  have "?f (?f e) = ?f e" for e by (simp split: option.splits)
  from set_ptes_spec [OF assms(2) [unfolded has_entries_def] this] obtain t where
    t: "fold_option (\<lambda>p. set_pte p ?f) (affiliated (vpages s v)) s = Some t" "same_but_tables s t"
      "\<And>p. get_pte t p = (if p \<in> set (affiliated (vpages s v)) then map_option ?f (get_pte s p) else get_pte s p)"
    by (rule returnsE) blast
  have "if p \<in> set (affiliated (vpages s v)) then pte_shows t v p else get_pte t p = get_pte s p" for p
    using t(3) [of p] assms(2) rw
    by (auto simp: pte_shows_def has_entries_def same_but_tables_fields [OF t(2)] split: option.splits)
  with t(1,2) rw show ?thesis by (simp add: returns_def updatePTEs_def)
qed

text \<open>The entries of the pages \<open>W\<close> show the pages; no two of the pages \<open>D\<close> share an entry.\<close>

definition shows_all :: "'f pager \<Rightarrow> nat set \<Rightarrow> bool" where
  "shows_all s W \<longleftrightarrow> (\<forall>v \<in> W. \<forall>p \<in> set (affiliated (vpages s v)). pte_shows s v p)"

definition disjoint_pages :: "'f pager \<Rightarrow> nat set \<Rightarrow> bool" where
  "disjoint_pages s W \<longleftrightarrow> (\<forall>v \<in> W. \<forall>w \<in> W. v \<noteq> w \<longrightarrow> set (affiliated (vpages s v)) \<inter> set (affiliated (vpages s w)) = {})"

lemma shows_all_mono: "shows_all s W \<Longrightarrow> V \<subseteq> W \<Longrightarrow> shows_all s V"
  by (auto simp: shows_all_def)

lemma shows_all_cong:
  assumes "\<And>p. get_pte t p = get_pte s p" "\<And>v. v \<in> W \<Longrightarrow> vpages t v = vpages s v"
  shows "shows_all t W = shows_all s W"
  using assms pte_shows_cong [of t _ s] by (simp add: shows_all_def)

lemma shows_all_upd: "shows_all s (W - {v}) \<Longrightarrow> shows_all (upd_vpage v f s) (W - {v})"
  by (subst shows_all_cong [of _ s]) (auto simp: upd_vpage_def)

lemma updatePTEs_shows:
  assumes "pte_bits (vpages s v) \<noteq> None" "has_entries s v" "shows_all s (W - {v})" "disjoint_pages s D" "v \<in> D" "W \<subseteq> D"
  shows "returns (\<lambda>t. same_but_tables s t \<and> shows_all t W) (updatePTEs v s)"
proof -
  from updatePTEs_spec [OF assms(1,2)] obtain t where t: "updatePTEs v s = Some t" "same_but_tables s t"
    "\<And>p. if p \<in> set (affiliated (vpages s v)) then pte_shows t v p else get_pte t p = get_pte s p" by (rule returnsE) blast
  note f = same_but_tables_fields [OF t(2)]
  have "pte_shows t w p" if "w \<in> W" "p \<in> set (affiliated (vpages t w))" for w p
  proof (cases "w = v")
    case True
    with that t(3) [of p] show ?thesis by (simp add: f)
  next
    case False
    with that assms(4-6) have "p \<notin> set (affiliated (vpages s v))" by (auto simp: disjoint_pages_def f)
    then have "get_pte t p = get_pte s p" using t(3) [of p] by simp
    moreover have "pte_shows s w p" using assms(3) that False by (auto simp: shows_all_def f)
    ultimately show ?thesis using pte_shows_cong [of t p s w] f(1) by simp
  qed
  with t(1,2) show ?thesis by (simp add: returns_def shows_all_def)
qed

section \<open>The clock\<close>

definition clocked_in :: "'f pager \<Rightarrow> nat \<Rightarrow> bool" where
  "clocked_in s v = (case physicalPage (vpages s v) of None \<Rightarrow> False | Some pp \<Rightarrow> clocked pp)"

definition unclock :: "virtual_page \<Rightarrow> virtual_page" where
  "unclock vp = vp\<lparr>physicalPage := map_option (\<lambda>pp. pp\<lparr>clocked := False\<rparr>) (physicalPage vp)\<rparr>"

lemma unclock_fields [simp]:
  "affiliated (unclock vp) = affiliated vp" "isSwap (unclock vp) = isSwap vp" "filename (unclock vp) = filename vp"
  "blocks (unclock vp) = blocks vp" "resident (unclock vp) = resident vp"
  by (simp_all add: unclock_def)

text \<open>The reference bits of the pages \<open>vs\<close> are cleared.\<close>

definition unclocked :: "nat list \<Rightarrow> 'f pager \<Rightarrow> 'f pager" where
  "unclocked vs s = s\<lparr>vpages := (\<lambda>v. if v \<in> set vs then unclock (vpages s v) else vpages s v)\<rparr>"

lemma unclocked_Nil [simp]: "unclocked [] s = s"
  by (simp add: unclocked_def)

text \<open>Every page on the queue exists and has a frame, and its page table entries exist.\<close>

definition clock_ready :: "'f pager \<Rightarrow> nat list \<Rightarrow> bool" where
  "clock_ready s q \<longleftrightarrow> distinct q \<and> (\<forall>v \<in> set q. live s v \<and> physicalPage (vpages s v) \<noteq> None \<and> has_entries s v)"

text \<open>
  The pages the clock hand passes over, and the queue in the order in which it then stands: the
  victim is the first page.
\<close>

definition clock_passed :: "'f pager \<Rightarrow> nat list" where
  "clock_passed s = takeWhile (clocked_in s) (clock_queue s)"

definition clock_order :: "'f pager \<Rightarrow> nat list" where
  "clock_order s = dropWhile (clocked_in s) (clock_queue s) @ takeWhile (clocked_in s) (clock_queue s)"

lemma clock_order_set: "set (clock_order s) = set (clock_queue s)"
  unfolding clock_order_def by (metis set_append sup_commute takeWhile_dropWhile_id)

lemma clock_order_nonempty: "clock_queue s \<noteq> [] \<Longrightarrow> clock_order s \<noteq> []"
  using clock_order_set [of s] by auto

lemma clock_order_distinct: "distinct (clock_queue s) \<Longrightarrow> distinct (clock_order s)"
  unfolding clock_order_def by (metis distinct_append inf_commute takeWhile_dropWhile_id)

lemma clear_clock:
  assumes "physicalPage (vpages s v) = Some pp" "has_entries s v" "shows_all s W" "disjoint_pages s D" "v \<in> D" "W \<subseteq> D"
  shows "returns (\<lambda>t. same_but_tables (unclocked [v] s) t \<and> shows_all t W)
    (do { s \<leftarrow> upd_phys v (\<lambda>pp. pp\<lparr>clocked := False\<rparr>) s; if affiliated (vpages s v) \<noteq> [] then updatePTEs v s else Some s })"
proof -
  let ?s = "upd_vpage v (\<lambda>vp. vp\<lparr>physicalPage := Some (pp\<lparr>clocked := False\<rparr>)\<rparr>) s"
  have s': "?s = unclocked [v] s"
  proof -
    have "(vpages s)(v := (vpages s v)\<lparr>physicalPage := Some (pp\<lparr>clocked := False\<rparr>)\<rparr>)
        = (\<lambda>w. if w \<in> set [v] then unclock (vpages s w) else vpages s w)"
      using assms(1) by (simp add: fun_eq_iff unclock_def)
    then show ?thesis by (simp add: upd_vpage_def unclocked_def)
  qed
  have vp: "vpages ?s v = unclock (vpages s v)" unfolding s' by (simp add: unclocked_def)
  have aff: "affiliated (vpages ?s w) = affiliated (vpages s w)" for w unfolding s' by (simp add: unclocked_def)
  have rest: "shows_all ?s (W - {v})" using assms(3) by (intro shows_all_upd) (auto intro: shows_all_mono)
  have "returns (\<lambda>t. same_but_tables ?s t \<and> shows_all t W) (if affiliated (vpages ?s v) \<noteq> [] then updatePTEs v ?s else Some ?s)"
  proof (rule returns_if)
    assume "affiliated (vpages ?s v) \<noteq> []"
    then have "pte_bits (vpages ?s v) \<noteq> None" using assms(1) unfolding vp by (auto simp: unclock_def pte_bits_def)
    moreover have "has_entries ?s v" "disjoint_pages ?s D" using assms(2,4) by (simp_all add: has_entries_def disjoint_pages_def aff)
    ultimately show "returns (\<lambda>t. same_but_tables ?s t \<and> shows_all t W) (updatePTEs v ?s)"
      using updatePTEs_shows rest assms(5,6) by blast
  next
    assume "\<not> affiliated (vpages ?s v) \<noteq> []"
    with rest show "returns (\<lambda>t. same_but_tables ?s t \<and> shows_all t W) (Some ?s)"
      by (intro returns_Some) (auto simp: shows_all_def)
  qed
  with assms(1) show ?thesis unfolding s' [symmetric] by (simp add: upd_phys_def)
qed

text \<open>One turn of the clock loop, and the turns over a run of referenced pages.\<close>

lemma clock_loop_turn:
  assumes "clock_queue s = v # q" "clock_ready s (v # q)" "clocked_in s v" "shows_all s W" "disjoint_pages s D" "v \<in> D" "W \<subseteq> D"
  shows "\<exists>t. clock_loop (Suc n) s = clock_loop n t \<and> shows_all t W
    \<and> same_but_tables ((unclocked [v] s)\<lparr>clock_queue := q @ [v]\<rparr>) t"
proof -
  obtain pp where pp: "physicalPage (vpages s v) = Some pp" "clocked pp"
    using assms(3) by (auto simp: clocked_in_def split: option.splits)
  have "has_entries s v" "live s v" using assms(2) by (auto simp: clock_ready_def)
  from clear_clock [OF pp(1) this(1) assms(4-7)] obtain t where t: "do { s \<leftarrow> upd_phys v (\<lambda>pp. pp\<lparr>clocked := False\<rparr>) s;
      if affiliated (vpages s v) \<noteq> [] then updatePTEs v s else Some s } = Some t"
      "same_but_tables (unclocked [v] s) t" "shows_all t W" by (rule returnsE) blast
  with assms(1) pp \<open>live s v\<close> have "clock_loop (Suc n) s = clock_loop n (t\<lparr>clock_queue := q @ [v]\<rparr>)"
    by (auto simp: option_simps split: Option.bind_splits)
  moreover have "shows_all (t\<lparr>clock_queue := q @ [v]\<rparr>) W" using t(3) by (subst shows_all_cong [of _ t]) auto
  ultimately show ?thesis using same_but_tables_upd(2) [OF t(2)] by blast
qed

lemma clock_ready_unclocked:
  assumes "clock_ready s q" "same_but_tables ((unclocked vs s)\<lparr>clock_queue := q'\<rparr>) t" "set r = set q" "distinct r"
  shows "clock_ready t r"
proof -
  have "has_entries t v" if "has_entries s v" for v
    using that same_but_tables_pte [OF assms(2)] unfolding has_entries_def by (simp add: same_but_tables_fields [OF assms(2)] unclocked_def)
  moreover have "live t v = live s v" for v unfolding same_but_tables_live [OF assms(2)] by (simp add: live_def unclocked_def)
  moreover have "physicalPage (vpages t v) = None \<longleftrightarrow> physicalPage (vpages s v) = None" for v
    by (simp add: same_but_tables_fields [OF assms(2)] unclocked_def unclock_def)
  ultimately show ?thesis using assms(1,3,4) unfolding clock_ready_def by metis
qed

lemma clock_loop_passes:
  "\<lbrakk>clock_queue s = xs @ ys; clock_ready s (xs @ ys); \<forall>v \<in> set xs. clocked_in s v; shows_all s W; disjoint_pages s D; set xs \<subseteq> D; W \<subseteq> D\<rbrakk> \<Longrightarrow>
    \<exists>t. clock_loop (length xs + n) s = clock_loop n t \<and> shows_all t W
      \<and> same_but_tables ((unclocked xs s)\<lparr>clock_queue := ys @ xs\<rparr>) t"
proof (induction xs arbitrary: s ys)
  case Nil
  then have e: "s\<lparr>clock_queue := ys\<rparr> = s" by auto
  have "same_but_tables (s\<lparr>clock_queue := ys\<rparr>) s" unfolding e by simp
  with Nil show ?case by (intro exI [of _ s]) simp
next
  case (Cons v xs)
  obtain t where t: "clock_loop (Suc (length xs + n)) s = clock_loop (length xs + n) t" "shows_all t W"
    "same_but_tables ((unclocked [v] s)\<lparr>clock_queue := xs @ ys @ [v]\<rparr>) t"
    using clock_loop_turn [of s v "xs @ ys" W D "length xs + n"] Cons.prems by auto
  note f = same_but_tables_fields [OF t(3)]
  have dist: "distinct (v # xs @ ys)" using Cons.prems(2) by (simp add: clock_ready_def)
  then have "clock_ready t (xs @ (ys @ [v]))" "\<forall>w \<in> set xs. clocked_in t w"
    using clock_ready_unclocked [OF Cons.prems(2) t(3), of "xs @ (ys @ [v])"] Cons.prems(3)
    by (auto simp: clocked_in_def f unclocked_def)
  moreover have "disjoint_pages t D" using Cons.prems(5) by (simp add: disjoint_pages_def f unclocked_def)
  moreover have "clock_queue t = xs @ (ys @ [v])" by (simp add: f)
  ultimately obtain u where u: "clock_loop (length xs + n) t = clock_loop n u" "shows_all u W"
    "same_but_tables ((unclocked xs t)\<lparr>clock_queue := (ys @ [v]) @ xs\<rparr>) u"
    using Cons.IH [of t "ys @ [v]"] t(2) Cons.prems(6,7) by auto
  have "same_but_tables ((unclocked (v # xs) s)\<lparr>clock_queue := ys @ v # xs\<rparr>) ((unclocked xs t)\<lparr>clock_queue := (ys @ [v]) @ xs\<rparr>)"
  proof -
    have "(\<lambda>w. if w \<in> set xs then unclock (vpages t w) else vpages t w)
        = (\<lambda>w. if w \<in> set (v # xs) then unclock (vpages s w) else vpages s w)"
      using dist by (auto simp: f unclocked_def fun_eq_iff)
    moreover obtain g where "t = (unclocked [v] s)\<lparr>clock_queue := xs @ ys @ [v], process_table := g\<rparr>"
      "\<forall>pid. map_option length (g pid) = map_option length (process_table s pid)"
      using t(3) by (auto simp: same_but_tables_def unclocked_def)
    ultimately show ?thesis by (auto simp: same_but_tables_def unclocked_def intro!: exI [of _ g])
  qed
  with t(1) u same_but_tables_trans show ?case by auto
qed

lemma clock_loop_stops:
  assumes "clock_queue s = v # q" "clock_ready s (v # q)" "\<not> clocked_in s v"
  shows "clock_loop (Suc n) s = Some s"
  using assms by (auto simp: clock_ready_def clocked_in_def)

text \<open>The state of the queue and the reference bits when the loop has ended.\<close>

definition clock_eff :: "'f pager \<Rightarrow> 'f pager" where
  "clock_eff s = (unclocked (clock_passed s) s)\<lparr>clock_queue := clock_order s\<rparr>"

lemma clock_eff_head:
  assumes "distinct (clock_queue s)" "clock_queue s \<noteq> []"
  shows "\<not> clocked_in (clock_eff s) (hd (clock_order s))"
proof (cases "dropWhile (clocked_in s) (clock_queue s)")
  case Nil
  then have o: "clock_order s = clock_passed s" by (simp add: clock_order_def clock_passed_def)
  then have "hd (clock_order s) \<in> set (clock_passed s)" using clock_order_nonempty [OF assms(2)] hd_in_set by metis
  then show ?thesis by (simp add: clock_eff_def unclocked_def clocked_in_def unclock_def option.case_eq_if option.map_sel)
next
  case (Cons v q)
  then have v: "hd (clock_order s) = v" "\<not> clocked_in s v" using hd_dropWhile [of "clocked_in s" "clock_queue s"] by (auto simp: clock_order_def)
  then have "v \<notin> set (clock_passed s)" by (auto simp: clock_passed_def dest: set_takeWhileD)
  with v show ?thesis by (simp add: clock_eff_def unclocked_def clocked_in_def)
qed

lemma clock_loop_spec:
  assumes "clock_ready s (clock_queue s)" "clock_queue s \<noteq> []" "shows_all s W" "disjoint_pages s D" "set (clock_queue s) \<subseteq> D" "W \<subseteq> D"
  shows "returns (\<lambda>t. same_but_tables (clock_eff s) t \<and> shows_all t W) (clock_loop (Suc (length (clock_queue s))) s)"
proof -
  let ?q = "clock_queue s" and ?xs = "clock_passed s" and ?ys = "dropWhile (clocked_in s) (clock_queue s)"
  have q: "?q = ?xs @ ?ys" by (simp add: clock_passed_def)
  then have "length ?xs \<le> length ?q" by (metis le_add1 length_append)
  then obtain m where m: "Suc (length ?q) = length ?xs + Suc m" by (metis add_Suc_right le_Suc_ex)
  have "\<forall>v \<in> set ?xs. clocked_in s v" by (auto simp: clock_passed_def dest: set_takeWhileD)
  moreover have "set ?xs \<subseteq> D" using assms(5) by (auto simp: clock_passed_def dest: set_takeWhileD)
  ultimately obtain t where t: "clock_loop (length ?xs + Suc m) s = clock_loop (Suc m) t" "shows_all t W"
      "same_but_tables ((unclocked ?xs s)\<lparr>clock_queue := ?ys @ ?xs\<rparr>) t"
    using clock_loop_passes [of s ?xs ?ys W D "Suc m"] assms q by metis
  have eff: "same_but_tables (clock_eff s) t" using t(3) by (simp add: clock_eff_def clock_order_def clock_passed_def)
  have dist: "distinct ?q" using assms(1) by (simp add: clock_ready_def)
  have qt: "clock_queue t = clock_order s" by (simp add: same_but_tables_fields [OF eff] clock_eff_def)
  have "clock_ready t (clock_queue t)" unfolding qt
    by (rule clock_ready_unclocked [OF assms(1) t(3) clock_order_set clock_order_distinct [OF dist]])
  moreover have "\<not> clocked_in t (hd (clock_queue t))"
    using clock_eff_head [OF dist assms(2)] by (simp add: qt clocked_in_def same_but_tables_fields [OF eff])
  moreover obtain v q where "clock_queue t = v # q" using qt clock_order_nonempty [OF assms(2)] by (metis list.exhaust)
  ultimately have "clock_loop (Suc m) t = Some t" using clock_loop_stops by (metis list.sel(1))
  then have "clock_loop (Suc (length ?q)) s = Some t" unfolding m t(1) .
  then show ?thesis using eff t(2) by (auto simp: returns_def)
qed

section \<open>Eviction\<close>

text \<open>What a page needs before it can receive a frame: its entries exist and its counts agree.\<close>

definition can_install :: "'f pager \<Rightarrow> nat \<Rightarrow> bool" where
  "can_install s v \<longleftrightarrow> affiliated (vpages s v) \<noteq> [] \<and> has_entries s v
     \<and> (isSwap (vpages s v) \<longrightarrow> length (affiliated (vpages s v)) = length (blocks (vpages s v)))"

lemma pte_bits_counts:
  assumes "affiliated vp \<noteq> []" "isSwap vp \<longrightarrow> length (affiliated vp) = length (blocks vp)" "resident vp \<Longrightarrow> physicalPage vp \<noteq> None"
  shows "pte_bits vp \<noteq> None"
  using assms by (cases "physicalPage vp"; cases "resident vp") (simp_all add: pte_bits_def ex_bool_eq)

text \<open>The file contents after a page has been written back if it was changed.\<close>

definition written_back :: "'f file_ops \<Rightarrow> 'f pager \<Rightarrow> nat \<Rightarrow> 'f" where
  "written_back fo s v = (case physicalPage (vpages s v) of
     None \<Rightarrow> files s
   | Some pp \<Rightarrow> if dirty pp then snd (file_write fo (files s) (backing (vpages s v)) (blocks (vpages s v) ! 0) (vm_physmem s (PPN pp)))
       else files s)"

text \<open>Page \<open>r\<close> takes the frame of page \<open>e\<close> over.\<close>

definition take_over :: "nat \<Rightarrow> nat \<Rightarrow> nat \<Rightarrow> 'f pager \<Rightarrow> 'f pager" where
  "take_over r e ppn s =
     (let s = upd_vpage e (\<lambda>vp. vp\<lparr>resident := False, physicalPage := None\<rparr>)
        (upd_vpage r (\<lambda>vp. vp\<lparr>physicalPage := Some \<lparr>PPN = ppn, clocked = True, dirty = False\<rparr>\<rparr>) s)
      in if \<not> isSwap (vpages s e) \<and> affiliated (vpages s e) = []
         then s\<lparr>filename_block_to_vpage := AList.delete (filename (vpages s e), blocks (vpages s e) ! 0) (filename_block_to_vpage s)\<rparr>
         else s)"

definition evict_eff :: "'f file_ops \<Rightarrow> nat \<Rightarrow> 'f pager \<Rightarrow> 'f pager" where
  "evict_eff fo r s =
     (let e = hd (clock_order s); u = clock_eff s in
      take_over r e (PPN (the (physicalPage (vpages s e))))
        (u\<lparr>clock_queue := tl (clock_order s) @ [r], files := written_back fo s e\<rparr>))"

text \<open>The tail of \<^verbatim>\<open>evict_and_replace\<close>.\<close>

lemma take_over_spec:
  assumes r: "can_install s r" and e: "e \<noteq> r" "blocks (vpages s e) \<noteq> []" "has_entries s e"
    and W: "shows_all s (W - {r})" "disjoint_pages s D" "r \<in> D" "e \<in> D" "W \<subseteq> D" and q: "clock_queue s @ [r] = q"
  shows "returns (\<lambda>t. same_but_tables (take_over r e ppn (s\<lparr>clock_queue := q\<rparr>)) t \<and> shows_all t W) (do {
      s \<leftarrow> updatePTEs r (upd_vpage r (\<lambda>vp. vp\<lparr>physicalPage := Some \<lparr>PPN = ppn, clocked = True, dirty = False\<rparr>\<rparr>) s);
      let s = s\<lparr>clock_queue := clock_queue s @ [r]\<rparr>;
      let s = upd_vpage e (\<lambda>vp. vp\<lparr>resident := False, physicalPage := None\<rparr>) s;
      s \<leftarrow> (if affiliated (vpages s e) \<noteq> [] then updatePTEs e s else Some s);
      if \<not> isSwap (vpages s e) \<and> affiliated (vpages s e) = [] then remove_from_filename_block e s else Some s })"
proof -
  let ?f = "\<lambda>vp. vp\<lparr>physicalPage := Some \<lparr>PPN = ppn, clocked = True, dirty = False\<rparr>\<rparr>" and ?g = "\<lambda>vp. vp\<lparr>resident := False, physicalPage := None\<rparr>"
  let ?s2 = "upd_vpage r ?f s"
  have aff: "affiliated (vpages ?s2 v) = affiliated (vpages s v)" "blocks (vpages ?s2 v) = blocks (vpages s v)"
    "isSwap (vpages ?s2 v) = isSwap (vpages s v)" "filename (vpages ?s2 v) = filename (vpages s v)" for v by (simp_all add: upd_vpage_def)
  have "pte_bits (vpages ?s2 r) \<noteq> None"
    using r by (intro pte_bits_counts) (simp_all add: can_install_def upd_vpage_def)
  moreover have "has_entries ?s2 r" "disjoint_pages ?s2 D" using r W(2) by (simp_all add: can_install_def has_entries_def disjoint_pages_def aff)
  ultimately obtain s3 where s3: "updatePTEs r ?s2 = Some s3" "same_but_tables ?s2 s3" "shows_all s3 W"
    using updatePTEs_shows [of ?s2 r W D] shows_all_upd [OF W(1)] W(3,5) by (auto elim: returnsE)
  note f3 = same_but_tables_fields [OF s3(2)]
  let ?s4 = "upd_vpage e ?g (s3\<lparr>clock_queue := clock_queue s3 @ [r]\<rparr>)" and ?P4 = "upd_vpage e ?g (?s2\<lparr>clock_queue := q\<rparr>)"
  have q3: "clock_queue s3 @ [r] = q" using q by (simp add: f3 upd_vpage_def)
  have same4: "same_but_tables ?P4 ?s4" unfolding q3 by (rule same_but_tables_upd(6) [OF same_but_tables_upd(2) [OF s3(2)]])
  have v4: "affiliated (vpages ?s4 v) = affiliated (vpages s v)" "blocks (vpages ?s4 v) = blocks (vpages s v)"
    "isSwap (vpages ?s4 v) = isSwap (vpages s v)" "filename (vpages ?s4 v) = filename (vpages s v)" for v
    by (simp_all add: upd_vpage_def f3)
  have rest: "shows_all ?s4 (W - {e})"
  proof (rule shows_all_upd)
    show "shows_all (s3\<lparr>clock_queue := clock_queue s3 @ [r]\<rparr>) (W - {e})"
      using shows_all_mono [OF s3(3), of "W - {e}"] by (subst shows_all_cong [of _ s3]) auto
  qed
  have "returns (\<lambda>t. same_but_tables ?P4 t \<and> shows_all t W) (if affiliated (vpages ?s4 e) \<noteq> [] then updatePTEs e ?s4 else Some ?s4)"
  proof (rule returns_if)
    assume a: "affiliated (vpages ?s4 e) \<noteq> []"
    then have "pte_bits (vpages ?s4 e) \<noteq> None" by (simp add: pte_bits_def upd_vpage_def)
    moreover have "has_entries ?s4 e" using e(3) same_but_tables_pte [OF s3(2)] by (simp add: has_entries_def v4)
    moreover have "disjoint_pages ?s4 D" using W(2) by (simp add: disjoint_pages_def v4)
    ultimately show "returns (\<lambda>t. same_but_tables ?P4 t \<and> shows_all t W) (updatePTEs e ?s4)"
      using updatePTEs_shows [of ?s4 e W D] rest W(4,5) same_but_tables_trans [OF same4] by (blast intro: returns_mono)
  next
    assume "\<not> affiliated (vpages ?s4 e) \<noteq> []"
    with rest same4 show "returns (\<lambda>t. same_but_tables ?P4 t \<and> shows_all t W) (Some ?s4)"
      by (intro returns_Some) (auto simp: shows_all_def)
  qed
  then obtain s5 where s5: "(if affiliated (vpages ?s4 e) \<noteq> [] then updatePTEs e ?s4 else Some ?s4) = Some s5"
    "same_but_tables ?P4 s5" "shows_all s5 W" by (rule returnsE) blast
  have v5: "vpages s5 = vpages ?P4" "filename_block_to_vpage s5 = filename_block_to_vpage s"
    by (simp_all add: same_but_tables_fields [OF s5(2)] upd_vpage_def)
  have pe: "affiliated (vpages ?P4 e) = affiliated (vpages s e)" "blocks (vpages ?P4 e) = blocks (vpages s e)"
    "isSwap (vpages ?P4 e) = isSwap (vpages s e)" "filename (vpages ?P4 e) = filename (vpages s e)" by (simp_all add: upd_vpage_def)
  have P: "take_over r e ppn (s\<lparr>clock_queue := q\<rparr>) = (if \<not> isSwap (vpages s e) \<and> affiliated (vpages s e) = []
      then ?P4\<lparr>filename_block_to_vpage := AList.delete (filename (vpages s e), blocks (vpages s e) ! 0) (filename_block_to_vpage s)\<rparr> else ?P4)"
    by (simp add: take_over_def Let_def upd_vpage_def)
  have "returns (\<lambda>t. same_but_tables (take_over r e ppn (s\<lparr>clock_queue := q\<rparr>)) t \<and> shows_all t W)
    (if \<not> isSwap (vpages s5 e) \<and> affiliated (vpages s5 e) = [] then remove_from_filename_block e s5 else Some s5)"
    unfolding P v5(1) pe
  proof (rule returns_if)
    assume c: "\<not> isSwap (vpages s e) \<and> affiliated (vpages s e) = []"
    let ?t = "s5\<lparr>filename_block_to_vpage := AList.delete (filename (vpages s e), blocks (vpages s e) ! 0) (filename_block_to_vpage s)\<rparr>"
    have "remove_from_filename_block e s5 = Some ?t" using e(2) by (simp add: remove_from_filename_block_def at_def v5 pe)
    moreover have "shows_all ?t W" using s5(3) by (subst shows_all_cong [of _ s5]) auto
    ultimately show "returns (\<lambda>t. same_but_tables (if \<not> isSwap (vpages s e) \<and> affiliated (vpages s e) = []
      then ?P4\<lparr>filename_block_to_vpage := AList.delete (filename (vpages s e), blocks (vpages s e) ! 0) (filename_block_to_vpage s)\<rparr> else ?P4) t
      \<and> shows_all t W) (remove_from_filename_block e s5)" using c same_but_tables_upd(3) [OF s5(2)] by (simp add: returns_def)
  qed (use s5(2,3) in \<open>auto simp: returns_def\<close>)
  then show ?thesis unfolding Let_def by (simp only: s3(1) Option.bind.simps s5(1))
qed

lemma evict_and_replace_spec:
  assumes ready: "clock_ready s (clock_queue s)" "clock_queue s \<noteq> []"
    and r: "r \<notin> set (clock_queue s)" "can_install s r" and blk: "\<forall>v \<in> set (clock_queue s). blocks (vpages s v) \<noteq> []"
    and W: "shows_all s (W - {r})" "disjoint_pages s D" "r \<in> D" "set (clock_queue s) \<subseteq> D" "W \<subseteq> D"
  shows "returns (\<lambda>t. same_but_tables (evict_eff fo r s) t \<and> shows_all t W) (evict_and_replace fo r s)"
proof -
  let ?e = "hd (clock_order s)"
  have "W - {r} \<subseteq> D" using W(5) by blast
  from clock_loop_spec [OF ready W(1,2,4) this] obtain u where u: "clock_loop (Suc (length (clock_queue s))) s = Some u"
    "same_but_tables (clock_eff s) u" "shows_all u (W - {r})" by (rule returnsE) blast
  note uf = same_but_tables_fields [OF u(2)]
  have ord: "clock_order s = ?e # tl (clock_order s)" using clock_order_nonempty [OF ready(2)] by simp
  then have e: "?e \<in> set (clock_queue s)" "?e \<noteq> r" using r(1) by (metis clock_order_set list.set_intros(1))+
  obtain pp where pp: "physicalPage (vpages s ?e) = Some pp" using ready(1) e(1) by (auto simp: clock_ready_def)
  have uv: "affiliated (vpages u v) = affiliated (vpages s v)" "blocks (vpages u v) = blocks (vpages s v)"
    "isSwap (vpages u v) = isSwap (vpages s v)" "filename (vpages u v) = filename (vpages s v)" for v
    by (simp_all add: uf clock_eff_def unclocked_def)
  have he: "has_entries u v = has_entries s v" for v
    using same_but_tables_pte [OF u(2)] by (simp add: has_entries_def uv clock_eff_def unclocked_def)
  obtain pu where upp: "physicalPage (vpages u ?e) = Some pu" "PPN pu = PPN pp" "dirty pu = dirty pp" using pp
    by (cases "?e \<in> set (clock_passed s)") (auto simp: uf clock_eff_def unclocked_def unclock_def)
  let ?s1 = "u\<lparr>clock_queue := tl (clock_order s), files := written_back fo s ?e\<rparr>"
  have fu: "files u = files s" "vm_physmem u = vm_physmem s" by (simp_all add: uf clock_eff_def unclocked_def)
  have wb: "(if dirty pp then do { b \<leftarrow> at (blocks (vpages u ?e)) 0;
        Some (u\<lparr>clock_queue := tl (clock_order s), files := snd (file_write fo (files u) (backing (vpages u ?e)) b (vm_physmem u (PPN pp)))\<rparr>) }
      else Some (u\<lparr>clock_queue := tl (clock_order s)\<rparr>)) = Some ?s1"
  proof (cases "dirty pp")
    case True
    with pp blk e(1) show ?thesis by (simp add: written_back_def uv at_def backing_def fu)
  next
    case False
    then have "written_back fo s ?e = files (u\<lparr>clock_queue := tl (clock_order s)\<rparr>)" using pp by (simp add: written_back_def fu)
    with False show ?thesis by simp
  qed
  have "can_install ?s1 r" using r(2) he by (simp add: can_install_def uv has_entries_def)
  moreover have "has_entries ?s1 ?e" "blocks (vpages ?s1 ?e) \<noteq> []"
    using ready(1) e(1) he blk by (auto simp: clock_ready_def uv has_entries_def)
  moreover have "shows_all ?s1 (W - {r})" using u(3) by (subst shows_all_cong [of _ u]) auto
  moreover have "disjoint_pages ?s1 D" using W(2) by (simp add: disjoint_pages_def uv)
  ultimately have tail: "returns (\<lambda>t. same_but_tables (take_over r ?e (PPN pp) (?s1\<lparr>clock_queue := tl (clock_order s) @ [r]\<rparr>)) t \<and> shows_all t W) (do {
      s \<leftarrow> updatePTEs r (upd_vpage r (\<lambda>vp. vp\<lparr>physicalPage := Some \<lparr>PPN = PPN pp, clocked = True, dirty = False\<rparr>\<rparr>) ?s1);
      let s = s\<lparr>clock_queue := clock_queue s @ [r]\<rparr>;
      let s = upd_vpage ?e (\<lambda>vp. vp\<lparr>resident := False, physicalPage := None\<rparr>) s;
      s \<leftarrow> (if affiliated (vpages s ?e) \<noteq> [] then updatePTEs ?e s else Some s);
      if \<not> isSwap (vpages s ?e) \<and> affiliated (vpages s ?e) = [] then remove_from_filename_block ?e s else Some s })"
    using e W(3-5) by (intro take_over_spec) auto
  have eff: "same_but_tables (evict_eff fo r s) (take_over r ?e (PPN pp) (?s1\<lparr>clock_queue := tl (clock_order s) @ [r]\<rparr>))"
  proof -
    obtain g where "u = (clock_eff s)\<lparr>process_table := g\<rparr>" "\<forall>pid. map_option length (g pid) = map_option length (process_table (clock_eff s) pid)"
      using u(2) by (auto simp: same_but_tables_def)
    then show ?thesis using pp
      by (auto simp: same_but_tables_def evict_eff_def take_over_def Let_def upd_vpage_def intro!: exI [of _ g])
  qed
  have at0: "at (clock_queue u) 0 = Some ?e" "tl (clock_queue u) = tl (clock_order s)"
    using clock_order_nonempty [OF ready(2)] by (simp_all add: uf clock_eff_def at_def hd_conv_nth)
  have sel: "vpages (u\<lparr>clock_queue := q\<rparr>) = vpages u" "files (u\<lparr>clock_queue := q\<rparr>) = files u"
    "vm_physmem (u\<lparr>clock_queue := q\<rparr>) = vm_physmem u" for q by simp_all
  from tail show ?thesis unfolding evict_and_replace_def
    by (simp only: Let_def u(1) at0 Option.bind.simps sel upp wb)
      (erule returns_mono, blast intro: same_but_tables_trans [OF eff])
qed

end
