(* ===== verification/Pager_Invariant.thy ===== *)
theory Pager_Invariant
  imports Pager_Clock "HOL-Library.Multiset"
begin

text \<open>
  The invariant of the pager. \<open>core\<close> speaks of the state without the contents of the page tables:
  mappings lie in the arena, the entries a page is affiliated with are those of its mappings,
  frames and swap blocks are each free or used once, file-backed pages are registered under their
  name and block. The whole invariant adds that the page table entries show the pages; it implies
  all assertions of \<^verbatim>\<open>assert_structure_consistency\<close>.
\<close>

section \<open>Addresses\<close>

definition arena_va :: "nat \<Rightarrow> bool" where
  "arena_va va \<longleftrightarrow> VM_ARENA_BASEADDR \<le> va \<and> va < VM_ARENA_MAXADDR \<and> va mod VM_PAGESIZE = 0"

lemma VA_to_PTE_arena:
  assumes "arena_va va"
  shows "VA_to_PTE va pid = (pid, (va - VM_ARENA_BASEADDR) div VM_PAGESIZE)" "snd (VA_to_PTE va pid) < page_table_size"
proof -
  have va: "VM_ARENA_BASEADDR \<le> va" "va < VM_ARENA_MAXADDR" using assms by (simp_all add: arena_va_def)
  then have "(va + 2 ^ 64 - VM_ARENA_BASEADDR) mod 2 ^ 64 = va - VM_ARENA_BASEADDR"
  proof -
    have "va + 2 ^ 64 - VM_ARENA_BASEADDR = (va - VM_ARENA_BASEADDR) + 2 ^ 64" by (rule diff_add_assoc2 [OF va(1)])
    moreover have "va - VM_ARENA_BASEADDR < VM_ARENA_SIZE" using va by (simp add: VM_ARENA_MAXADDR_def)
    moreover have "VM_ARENA_SIZE < 2 ^ 64" by (simp add: VM_ARENA_SIZE_def)
    ultimately show ?thesis by (metis mod_add_self2 mod_less less_trans)
  qed
  then show "VA_to_PTE va pid = (pid, (va - VM_ARENA_BASEADDR) div VM_PAGESIZE)" by (simp add: VA_to_PTE_def)
  moreover have "(va - VM_ARENA_BASEADDR) div VM_PAGESIZE < page_table_size"
  proof -
    have "va - VM_ARENA_BASEADDR < page_table_size * VM_PAGESIZE"
      using va by (simp add: VM_ARENA_MAXADDR_def page_table_size_def VM_ARENA_SIZE_def VM_PAGESIZE_def)
    then show ?thesis by (rule less_mult_imp_div_less)
  qed
  ultimately show "snd (VA_to_PTE va pid) < page_table_size" by simp
qed

lemma VA_to_PTE_inj:
  assumes "arena_va va" "arena_va va'" "VA_to_PTE va pid = VA_to_PTE va' pid'"
  shows "pid = pid' \<and> va = va'"
proof -
  have "(va - VM_ARENA_BASEADDR) div VM_PAGESIZE = (va' - VM_ARENA_BASEADDR) div VM_PAGESIZE" "pid = pid'"
    using assms VA_to_PTE_arena(1) by (metis prod.inject)+
  moreover have "VM_ARENA_BASEADDR mod VM_PAGESIZE = 0" by (simp add: vm_const_defs)
  then have "(x - VM_ARENA_BASEADDR) mod VM_PAGESIZE = 0" if "arena_va x" for x
    using that by (auto simp: arena_va_def dvd_eq_mod_eq_0 [symmetric])
  ultimately have "va - VM_ARENA_BASEADDR = va' - VM_ARENA_BASEADDR" using assms(1,2) by (metis div_mult_mod_eq)
  with assms(1,2) \<open>pid = pid'\<close> show ?thesis unfolding arena_va_def by (metis eq_diff_iff)
qed

section \<open>Mappings\<close>

definition wf_maps :: "'f pager \<Rightarrow> bool" where
  "wf_maps s \<longleftrightarrow> distinct (map fst (translateVA s)) \<and> (\<forall>m \<in> set (map snd (translateVA s)). distinct (map fst m))
     \<and> distinct (map fst (filename_block_to_vpage s))"

lemma lookup_set_va [simp]:
  "lookup_va (set_va pid va v s) pid' va' = (if pid' = pid \<and> va' = va then Some v else lookup_va s pid' va')"
  by (simp add: lookup_va_def mappings_def set_va_def update_conv' split: option.splits)

lemma lookup_touch_va [simp]: "lookup_va (touch_va pid s) pid' va' = lookup_va s pid' va'"
  by (simp add: lookup_va_def mappings_def touch_va_def update_conv' split: option.splits)

lemma mappings_distinct: "wf_maps s \<Longrightarrow> distinct (map fst (mappings s pid))"
  by (auto simp: wf_maps_def mappings_def split: option.splits dest: map_of_SomeD)

lemma set_alist_update: "set (AList.update k v al) \<subseteq> insert (k, v) (set al)"
  by (induction al) auto

lemma wf_maps_set_va:
  assumes "wf_maps s"
  shows "wf_maps (set_va pid va v s)" "wf_maps (touch_va pid s)"
proof -
  have "distinct (map fst m)" if "distinct (map fst m')" "m \<in> set (map snd (AList.update pid m' (translateVA s)))" for m m'
    using that assms set_alist_update [of pid m' "translateVA s"] by (auto simp: wf_maps_def)
  note upd = this
  have d: "distinct (map fst (mappings s pid))" by (rule mappings_distinct [OF assms])
  note all = upd [OF d] upd [OF distinct_update [OF d, of va v]]
  show "wf_maps (set_va pid va v s)" "wf_maps (touch_va pid s)"
    using assms all unfolding wf_maps_def set_va_def touch_va_def
    by (simp_all add: distinct_update del: set_map)
qed

definition mapped :: "'f pager \<Rightarrow> nat \<Rightarrow> bool" where
  "mapped s v \<longleftrightarrow> (\<exists>pid va. lookup_va s pid va = Some v)"

definition registered :: "'f pager \<Rightarrow> nat \<Rightarrow> bool" where
  "registered s v \<longleftrightarrow> (\<exists>k. map_of (filename_block_to_vpage s) k = Some v)"

lemma in_mappings:
  assumes "wf_maps s"
  shows "(\<exists>m. (pid, m) \<in> set (translateVA s) \<and> (va, v) \<in> set m) \<longleftrightarrow> lookup_va s pid va = Some v"
proof -
  have d: "distinct (map fst (translateVA s))" "\<And>pid m. (pid, m) \<in> set (translateVA s) \<Longrightarrow> distinct (map fst m)"
    using assms by (force simp: wf_maps_def)+
  show ?thesis
  proof
    assume "\<exists>m. (pid, m) \<in> set (translateVA s) \<and> (va, v) \<in> set m"
    then obtain m where m: "(pid, m) \<in> set (translateVA s)" "(va, v) \<in> set m" by blast
    then show "lookup_va s pid va = Some v" using d by (simp add: lookup_va_def mappings_def)
  next
    assume "lookup_va s pid va = Some v"
    then show "\<exists>m. (pid, m) \<in> set (translateVA s) \<and> (va, v) \<in> set m"
      by (auto simp: lookup_va_def mappings_def split: option.splits dest!: map_of_SomeD)
  qed
qed

lemma live_iff:
  assumes "wf_maps s"
  shows "live s v \<longleftrightarrow> mapped s v \<or> registered s v"
proof -
  have "v \<in> set (map snd (concat (map snd (translateVA s)))) \<longleftrightarrow> (\<exists>pid va m. (pid, m) \<in> set (translateVA s) \<and> (va, v) \<in> set m)" by force
  moreover have "v \<in> set (map snd (filename_block_to_vpage s)) \<longleftrightarrow> registered s v"
    using assms by (force simp: registered_def wf_maps_def dest: map_of_SomeD)
  ultimately show ?thesis unfolding live_def mapped_def using in_mappings [OF assms] by blast
qed

section \<open>The invariant\<close>

definition in_frame :: "virtual_page \<Rightarrow> bool" where
  "in_frame vp = (case physicalPage vp of None \<Rightarrow> False | Some pp \<Rightarrow> PPN pp \<noteq> 0)"

definition frame :: "'f pager \<Rightarrow> nat \<Rightarrow> nat" where
  "frame s v = PPN (the (physicalPage (vpages s v)))"

definition entries_of :: "'f pager \<Rightarrow> nat \<Rightarrow> pte_ptr set" where
  "entries_of s v = {VA_to_PTE va pid |pid va. lookup_va s pid va = Some v}"

definition arena_ok :: "'f pager \<Rightarrow> bool" where
  "arena_ok s \<longleftrightarrow>
     (\<forall>pid va v. lookup_va s pid va = Some v \<longrightarrow> v < next_vpage s \<and> arena_va va \<and> (\<exists>nva. next_free_VA s pid = Some nva \<and> va < nva))
     \<and> (\<forall>pid nva. next_free_VA s pid = Some nva \<longrightarrow> VM_ARENA_BASEADDR \<le> nva \<and> nva \<le> VM_ARENA_MAXADDR \<and> nva mod VM_PAGESIZE = 0)
     \<and> (\<forall>pid. map_option length (process_table s pid) = map_option (\<lambda>_. page_table_size) (next_free_VA s pid))"

lemma arena_okD:
  assumes "arena_ok s" "lookup_va s pid va = Some v"
  shows "v < next_vpage s" "arena_va va" "\<exists>nva. next_free_VA s pid = Some nva \<and> va < nva"
  using assms unfolding arena_ok_def by blast+

definition page_ok :: "'f pager \<Rightarrow> nat \<Rightarrow> bool" where
  "page_ok s v \<longleftrightarrow> (let vp = vpages s v in
     set (affiliated vp) = entries_of s v \<and> distinct (affiliated vp)
     \<and> blocks vp \<noteq> [] \<and> (if isSwap vp then length (blocks vp) = length (affiliated vp) else length (blocks vp) = 1)
     \<and> (resident vp \<longleftrightarrow> physicalPage vp \<noteq> None)
     \<and> (\<forall>pp. physicalPage vp = Some pp \<and> PPN pp = 0 \<longrightarrow> isSwap vp \<and> length (affiliated vp) = 1 \<and> clocked pp \<and> \<not> dirty pp))"

definition frames_ok :: "'f pager \<Rightarrow> bool" where
  "frames_ok s \<longleftrightarrow> distinct (clock_queue s) \<and> (\<forall>v. v \<in> set (clock_queue s) \<longleftrightarrow> live s v \<and> in_frame (vpages s v))
     \<and> mset (map (frame s) (clock_queue s)) + mset (next_free_PPN s) = mset [1..<mem_pages_cap s]
     \<and> 2 \<le> mem_pages_cap s \<and> mem_pages_cap s \<le> 2 ^ 20"

definition swap_blocks :: "'f pager \<Rightarrow> nat \<Rightarrow> nat set" where
  "swap_blocks s v = (if live s v \<and> isSwap (vpages s v) then set (blocks (vpages s v)) else {})"

definition swap_ok :: "'f pager \<Rightarrow> bool" where
  "swap_ok s \<longleftrightarrow> distinct (next_free_swap s)
     \<and> (\<forall>v. live s v \<and> isSwap (vpages s v) \<longrightarrow> distinct (blocks (vpages s v)))
     \<and> (\<forall>v w. v \<noteq> w \<longrightarrow> swap_blocks s v \<inter> swap_blocks s w = {})
     \<and> (\<forall>v. swap_blocks s v \<inter> set (next_free_swap s) = {})
     \<and> (\<Union>v. swap_blocks s v) \<union> set (next_free_swap s) = {..<max_swap_blocks s}"

text \<open>
  \<open>ok name block\<close>: the block of the file can be read. A page of such a block stays registered,
  and only such a page comes into memory.
\<close>

definition files_ok :: "(string \<Rightarrow> nat \<Rightarrow> bool) \<Rightarrow> 'f pager \<Rightarrow> bool" where
  "files_ok ok s \<longleftrightarrow>
     (\<forall>k v. map_of (filename_block_to_vpage s) k = Some v \<longrightarrow> v < next_vpage s \<and> \<not> isSwap (vpages s v)
        \<and> filename (vpages s v) = fst k \<and> blocks (vpages s v) = [snd k])
     \<and> (\<forall>v. live s v \<and> \<not> isSwap (vpages s v) \<and> ok (filename (vpages s v)) (blocks (vpages s v) ! 0)
          \<longrightarrow> map_of (filename_block_to_vpage s) (filename (vpages s v), blocks (vpages s v) ! 0) = Some v)"

definition resident_ok :: "(string \<Rightarrow> nat \<Rightarrow> bool) \<Rightarrow> 'f pager \<Rightarrow> bool" where
  "resident_ok ok s \<longleftrightarrow> (\<forall>v. live s v \<and> \<not> isSwap (vpages s v) \<and> resident (vpages s v) \<longrightarrow> ok (filename (vpages s v)) (blocks (vpages s v) ! 0))"

text \<open>A page table entry knows at most one page, also among the pages that are no longer used.\<close>

definition affil_ok :: "'f pager \<Rightarrow> bool" where
  "affil_ok s \<longleftrightarrow> (\<forall>v. set (affiliated (vpages s v)) \<subseteq> entries_of s v)"

definition core :: "(string \<Rightarrow> nat \<Rightarrow> bool) \<Rightarrow> 'f pager \<Rightarrow> bool" where
  "core ok s \<longleftrightarrow> wf_maps s \<and> arena_ok s \<and> (\<forall>v. live s v \<longrightarrow> page_ok s v) \<and> frames_ok s \<and> swap_ok s \<and> files_ok ok s \<and> affil_ok s"

definition pager_inv :: "(string \<Rightarrow> nat \<Rightarrow> bool) \<Rightarrow> 'f pager \<Rightarrow> bool" where
  "pager_inv ok s \<longleftrightarrow> core ok s \<and> resident_ok ok s \<and> shows_all s {v. live s v} \<and> page_table_base_register s = current_pid s
     \<and> (\<forall>pid. map_of (translateVA s) pid \<noteq> None \<longrightarrow> next_free_VA s pid \<noteq> None)"

text \<open>The contents of the page tables do not matter to the core.\<close>

lemma core_tables:
  assumes "same_but_tables s t" "core ok s"
  shows "core ok t"
proof -
  note f = same_but_tables_fields [OF assms(1)] same_but_tables_live [OF assms(1)]
  have l: "lookup_va t = lookup_va s" by (simp add: fun_eq_iff lookup_va_def mappings_def f)
  have e: "entries_of t = entries_of s" by (simp add: fun_eq_iff entries_of_def l)
  have fr: "frame t = frame s" by (simp add: fun_eq_iff frame_def f)
  have sb: "swap_blocks t = swap_blocks s" by (simp add: fun_eq_iff swap_blocks_def f)
  have "core ok t = core ok s"
    unfolding core_def wf_maps_def arena_ok_def page_ok_def frames_ok_def swap_ok_def files_ok_def affil_ok_def by (simp only: f l e fr sb)
  with assms(2) show ?thesis by simp
qed

section \<open>Consequences\<close>

lemma core_facts:
  assumes "core ok s"
  shows "wf_maps s" "arena_ok s" "\<And>v. live s v \<Longrightarrow> page_ok s v" "frames_ok s" "swap_ok s" "files_ok ok s"
    "\<And>v. live s v \<longleftrightarrow> mapped s v \<or> registered s v" "affil_ok s"
  using assms live_iff by (auto simp: core_def)

lemma page_okD:
  assumes "core ok s" "live s v"
  shows "set (affiliated (vpages s v)) = entries_of s v" "distinct (affiliated (vpages s v))" "blocks (vpages s v) \<noteq> []"
    "isSwap (vpages s v) \<Longrightarrow> length (blocks (vpages s v)) = length (affiliated (vpages s v))"
    "\<not> isSwap (vpages s v) \<Longrightarrow> length (blocks (vpages s v)) = 1"
    "resident (vpages s v) \<longleftrightarrow> physicalPage (vpages s v) \<noteq> None"
    "\<And>pp. physicalPage (vpages s v) = Some pp \<Longrightarrow> PPN pp = 0 \<Longrightarrow> isSwap (vpages s v) \<and> length (affiliated (vpages s v)) = 1 \<and> clocked pp \<and> \<not> dirty pp"
  using core_facts(3) [OF assms] by (simp_all add: page_ok_def Let_def)

lemma on_clock: "core ok s \<Longrightarrow> v \<in> set (clock_queue s) \<longleftrightarrow> live s v \<and> in_frame (vpages s v)"
  using core_facts(4) unfolding frames_ok_def by blast

lemma core_disjoint: "core ok s \<Longrightarrow> disjoint_pages s {v. live s v}"
  unfolding disjoint_pages_def
proof (intro ballI impI)
  fix v w assume c: "core ok s" and v: "v \<in> {v. live s v}" "w \<in> {v. live s v}" "v \<noteq> w"
  have "entries_of s v \<inter> entries_of s w = {}"
  proof (rule ccontr)
    assume "entries_of s v \<inter> entries_of s w \<noteq> {}"
    then obtain pid va pid' va' where "lookup_va s pid va = Some v" "lookup_va s pid' va' = Some w" "VA_to_PTE va pid = VA_to_PTE va' pid'"
      unfolding entries_of_def by blast
    with VA_to_PTE_inj arena_okD(2) [OF core_facts(2) [OF c]] v(3) show False by (metis option.inject)
  qed
  then show "set (affiliated (vpages s v)) \<inter> set (affiliated (vpages s w)) = {}" using page_okD(1) [OF c] v by simp
qed

lemma mapping_entry:
  assumes "arena_ok s" "lookup_va s pid va = Some v"
  shows "get_pte s (VA_to_PTE va pid) \<noteq> None" "arena_va va"
proof -
  obtain nva where n: "next_free_VA s pid = Some nva" using arena_okD(3) [OF assms] by blast
  show va: "arena_va va" by (rule arena_okD(2) [OF assms])
  have "map_option length (process_table s pid) = map_option (\<lambda>_. page_table_size) (next_free_VA s pid)"
    using assms(1) unfolding arena_ok_def by blast
  with n VA_to_PTE_arena [OF va, of pid] show "get_pte s (VA_to_PTE va pid) \<noteq> None" unfolding get_pte_None by auto
qed

lemma core_entries: "core ok s \<Longrightarrow> live s v \<Longrightarrow> has_entries s v"
  unfolding has_entries_def using page_okD(1) mapping_entry(1) core_facts(2) by (fastforce simp: entries_of_def)

lemma core_clock_ready: "core ok s \<Longrightarrow> clock_ready s (clock_queue s)"
  using core_entries core_facts(4) by (fastforce simp: clock_ready_def frames_ok_def in_frame_def split: option.splits)

lemma affiliated_mapped:
  assumes "core ok s" "live s v"
  shows "affiliated (vpages s v) \<noteq> [] \<longleftrightarrow> mapped s v"
proof -
  have "affiliated (vpages s v) \<noteq> [] \<longleftrightarrow> entries_of s v \<noteq> {}" using page_okD(1) [OF assms] by auto
  then show ?thesis unfolding entries_of_def mapped_def by blast
qed

section \<open>The invariant implies the assertions\<close>

lemma pairs_distinct:
  "distinct (map fst tr) \<Longrightarrow> \<forall>m \<in> set (map snd tr). distinct (map fst m) \<Longrightarrow>
    distinct (map fst (concat (map (\<lambda>(pid, m). map (\<lambda>(va, v). ((pid, va), v)) m) tr)))"
proof (induction tr)
  case (Cons x tr)
  obtain pid m where x: "x = (pid, m)" by (cases x)
  let ?r = "concat (map (\<lambda>(pid, m). map (\<lambda>(va, v). ((pid, va), v)) m) tr)"
  have m: "distinct (map (\<lambda>(va, v). (pid, va)) m)"
    using Cons.prems(2) x by (simp add: distinct_map inj_on_def case_prod_beta)
  have "distinct (map fst ?r)" using Cons by simp
  moreover have "fst (fst y) \<noteq> pid" if "y \<in> set ?r" for y using that Cons.prems(1) x by force
  then have "set (map (\<lambda>(va, v). (pid, va)) m) \<inter> set (map fst ?r) = {}" by fastforce
  moreover have "map fst (map (\<lambda>(va, v). ((pid, va), v)) m) = map (\<lambda>(va, v). (pid, va)) m" by (simp add: comp_def case_prod_beta)
  ultimately show ?case unfolding x list.map prod.case concat.simps map_append distinct_append using m by metis
qed simp

lemma all_mapped_count:
  assumes "core ok s" "live s v"
  shows "count_list (all_mapped s) v = length (affiliated (vpages s v))"
proof -
  note c = core_facts(1,2) [OF assms(1)]
  define pairs where "pairs = concat (map (\<lambda>(pid, m). map (\<lambda>(va, v). ((pid, va), v)) m) (translateVA s))"
  have snd: "map snd pairs = all_mapped s" by (simp add: pairs_def all_mapped_def map_concat comp_def case_prod_beta)
  have mem: "x \<in> set pairs \<longleftrightarrow> lookup_va s (fst (fst x)) (snd (fst x)) = Some (snd x)" for x
    using in_mappings [OF c(1), of "fst (fst x)" "snd (fst x)" "snd x"] by (cases x) (force simp: pairs_def)
  have dist: "distinct (map fst pairs)" using pairs_distinct c(1) unfolding pairs_def wf_maps_def by blast
  let ?f = "\<lambda>x. VA_to_PTE (snd (fst x)) (fst (fst x))" and ?mine = "filter (\<lambda>x. snd x = v) pairs"
  have "inj_on ?f (set ?mine)"
  proof (rule inj_onI)
    fix x y assume xy: "x \<in> set ?mine" "y \<in> set ?mine" "?f x = ?f y"
    then have "arena_va (snd (fst x))" "arena_va (snd (fst y))" using mem arena_okD(2) [OF c(2)] by auto
    from VA_to_PTE_inj [OF this xy(3)] xy(1,2) show "x = y" by (auto simp: prod_eq_iff)
  qed
  moreover have "distinct ?mine" using dist by (simp add: distinct_map)
  moreover have "?f ` set ?mine = entries_of s v"
  proof
    show "?f ` set ?mine \<subseteq> entries_of s v" unfolding entries_of_def by (clarsimp simp only: set_filter mem) blast
    show "entries_of s v \<subseteq> ?f ` set ?mine"
    proof
      fix p assume "p \<in> entries_of s v"
      then obtain pid va where "p = VA_to_PTE va pid" "lookup_va s pid va = Some v" unfolding entries_of_def by blast
      then show "p \<in> ?f ` set ?mine" using mem by (intro image_eqI [of _ _ "((pid, va), v)"]) simp_all
    qed
  qed
  ultimately have "card (entries_of s v) = length ?mine" using card_image [of ?f "set ?mine"] distinct_card [of ?mine] by simp
  then have "length ?mine = length (affiliated (vpages s v))"
    using page_okD(1,2) [OF assms] distinct_card [of "affiliated (vpages s v)"] by simp
  moreover have "count_list (map snd pairs) v = length ?mine"
    by (induction pairs) auto
  ultimately show ?thesis unfolding snd by simp
qed

lemma frames_free:
  assumes "core ok s" "live s v" "in_frame (vpages s v)"
  shows "frame s v \<notin> set (next_free_PPN s)" "frame s v < mem_pages_cap s"
proof -
  have fr: "frames_ok s" by (rule core_facts(4) [OF assms(1)])
  then have m: "mset (map (frame s) (clock_queue s) @ next_free_PPN s) = mset [1..<mem_pages_cap s]" by (simp add: frames_ok_def)
  have "distinct (map (frame s) (clock_queue s) @ next_free_PPN s)" using mset_eq_imp_distinct_iff [OF m] by simp
  moreover have v: "frame s v \<in> set (map (frame s) (clock_queue s))" using fr assms(2,3) by (auto simp: frames_ok_def)
  ultimately show "frame s v \<notin> set (next_free_PPN s)" by auto
  have "frame s v \<in> set [1..<mem_pages_cap s]" using mset_eq_setD [OF m] v by auto
  then show "frame s v < mem_pages_cap s" by simp
qed

lemma free_frames_nonzero: "core ok s \<Longrightarrow> 0 \<notin> set (next_free_PPN s)"
proof -
  assume "core ok s"
  then have "mset (map (frame s) (clock_queue s) @ next_free_PPN s) = mset [1..<mem_pages_cap s]"
    using core_facts(4) by (auto simp: frames_ok_def)
  from mset_eq_setD [OF this] have "set (next_free_PPN s) \<subseteq> {1..<mem_pages_cap s}" by auto
  then show ?thesis by auto
qed

lemma check_mapping_holds:
  assumes "pager_inv ok s" "lookup_va s pid va = Some v"
  shows "check_mapping s pid (va, v)"
proof -
  have c: "core ok s" and sh: "shows_all s {v. live s v}" using assms(1) by (simp_all add: pager_inv_def)
  have lv: "live s v" using core_facts(7) [OF c] assms(2) by (auto simp: mapped_def)
  note p = page_okD [OF c lv] and ar = core_facts(2) [OF c]
  have sh1: "pte_shows s v q" if "q \<in> set (affiliated (vpages s v))" for q using sh lv that by (auto simp: shows_all_def)
  have aff: "affiliated (vpages s v) \<noteq> []" using affiliated_mapped [OF c lv] assms(2) by (auto simp: mapped_def)
  then obtain r w where rw: "pte_bits (vpages s v) = Some (r, w)"
    using pte_bits_counts [of "vpages s v"] p(4,6) by fastforce
  have pte: "\<exists>e. get_pte s q = Some e \<and> read_enable e = r \<and> write_enable e = w
      \<and> (resident (vpages s v) \<longrightarrow> ppage e = PPN (the (physicalPage (vpages s v))) mod 2 ^ 20)" if "q \<in> set (affiliated (vpages s v))" for q
    using sh1 [OF that] rw p(6) by (auto simp: pte_shows_def split: option.splits)
  have "\<not> w" if "isSwap (vpages s v)" "1 < length (affiliated (vpages s v))"
    using rw that by (auto simp: pte_bits_def option_simps split: if_splits option.splits)
  moreover have "b \<notin> set (next_free_swap s)" if "isSwap (vpages s v)" "b \<in> set (blocks (vpages s v))" for b
  proof -
    have "swap_blocks s v \<inter> set (next_free_swap s) = {}" using core_facts(5) [OF c] unfolding swap_ok_def by blast
    with lv that show ?thesis by (auto simp: swap_blocks_def)
  qed
  moreover have "PPN (the (physicalPage (vpages s v))) \<notin> set (next_free_PPN s)" if "resident (vpages s v)"
  proof (cases "in_frame (vpages s v)")
    case True
    with frames_free(1) [OF c lv] show ?thesis by (simp add: frame_def)
  next
    case False
    with that p(6) free_frames_nonzero [OF c] show ?thesis by (auto simp: in_frame_def)
  qed
  moreover have "v \<in> set (clock_queue s)" if "resident (vpages s v)" "PPN (the (physicalPage (vpages s v))) \<noteq> 0"
    using on_clock [OF c, of v] lv that p(6) by (cases "physicalPage (vpages s v)") (simp_all add: in_frame_def)
  moreover have "VA_to_PTE va pid \<in> set (affiliated (vpages s v))" using p(1) assms(2) by (auto simp: entries_of_def)
  moreover have "process_table s pid \<noteq> None"
    using mapping_entry(1) [OF ar assms(2)] VA_to_PTE_arena(1) [OF arena_okD(2) [OF ar assms(2)]] by (cases "process_table s pid") (simp_all add: get_pte_def)
  moreover have "list_all (\<lambda>q. case get_pte s q of None \<Rightarrow> False | Some e \<Rightarrow> \<not> write_enable e) (affiliated (vpages s v))" if "\<not> w"
    using pte that by (fastforce simp: list_all_iff split: option.splits)
  moreover have "list_all (\<lambda>q. case get_pte s q of None \<Rightarrow> False
      | Some e \<Rightarrow> read_enable e = r \<and> write_enable e = w \<and> (resident (vpages s v) \<longrightarrow> ppage e = PPN (the (physicalPage (vpages s v))) mod 2 ^ 20))
      (affiliated (vpages s v))" unfolding list_all_iff using pte by fastforce
  moreover obtain nva where "next_free_VA s pid = Some nva" "va < nva" using arena_okD(3) [OF ar assms(2)] by blast
  ultimately show ?thesis using p(3-6) rw unfolding check_mapping_def Let_def fst_conv snd_conv
    by (cases "isSwap (vpages s v)") (simp_all add: list_all_iff)
qed

lemma consistency_holds:
  assumes "pager_inv ok s"
  shows "assert_structure_consistency s = Some ()"
proof -
  have c: "core ok s" using assms by (simp add: pager_inv_def)
  note fr = core_facts(4) [OF c]
  have "check_mapping s pid m" if "(pid, vas) \<in> set (translateVA s)" "m \<in> set vas" for pid vas m
    using check_mapping_holds [OF assms, of pid "fst m" "snd m"] in_mappings [OF core_facts(1) [OF c], of pid "fst m" "snd m"] that by auto
  then have "list_all (\<lambda>(pid, vas). list_all (check_mapping s pid) vas) (translateVA s)" by (auto simp: list_all_iff)
  moreover have "check_counts s" unfolding check_counts_def list_all_iff
    using all_mapped_count [OF c] by (auto simp: all_mapped_def live_def)
  moreover have "check_clock s"
  proof -
    have "length (map (frame s) (clock_queue s) @ next_free_PPN s) = length [1..<mem_pages_cap s]"
      using fr unfolding frames_ok_def by (metis mset_append mset_eq_length)
    then have "length (clock_queue s) + length (next_free_PPN s) = mem_pages_cap s - 1" by simp
    moreover have "2 \<le> mem_pages_cap s" "mem_pages_cap s \<le> 2 ^ 20" using fr by (simp_all add: frames_ok_def)
    ultimately have cap: "mem_pages_cap s = length (clock_queue s) + length (next_free_PPN s) + 1" and le: "length (clock_queue s) < 2 ^ 20" by linarith+
    have "mem_pages_cap s + 2 * 2 ^ 64 - length (next_free_PPN s) - 1 = length (clock_queue s) + 2 * 2 ^ 64" unfolding cap by simp
    moreover have "length (clock_queue s) < 2 ^ 64" using le by (rule less_trans) simp
    then have "(length (clock_queue s) + 2 * 2 ^ 64) mod 2 ^ 64 = length (clock_queue s)" by (metis mod_less mod_mult_self1)
    ultimately have "(mem_pages_cap s + 2 * 2 ^ 64 - length (next_free_PPN s) - 1) mod 2 ^ 64 = length (clock_queue s)" by (simp only:)
    moreover have "live s v \<and> resident (vpages s v) \<and> in_frame (vpages s v)" if "v \<in> set (clock_queue s)" for v
      using on_clock [OF c] that page_okD(6) [OF c, of v] by (auto simp: in_frame_def split: option.splits)
    ultimately show ?thesis unfolding check_clock_def list_all_iff by (auto simp: in_frame_def)
  qed
  ultimately show ?thesis by (simp add: assert_structure_consistency_def cassert_def)
qed

end
