(* ===== verification/Pager_Frames.thy ===== *)
theory Pager_Frames
  imports Pager_Invariant
begin

text \<open>
  Handing out frames: taking one from the free list or from the page the clock selects, and giving
  one back, keep the core of the invariant.
\<close>

section \<open>Changes that leave mappings, blocks and registrations alone\<close>

definition static :: "'f pager \<Rightarrow> 'f pager \<Rightarrow> bool" where
  "static s t \<longleftrightarrow> translateVA t = translateVA s \<and> next_free_VA t = next_free_VA s
     \<and> filename_block_to_vpage t = filename_block_to_vpage s \<and> next_vpage t = next_vpage s \<and> next_free_swap t = next_free_swap s
     \<and> max_swap_blocks t = max_swap_blocks s
     \<and> (\<forall>pid. map_option length (process_table t pid) = map_option length (process_table s pid))
     \<and> (\<forall>v. affiliated (vpages t v) = affiliated (vpages s v) \<and> isSwap (vpages t v) = isSwap (vpages s v)
          \<and> filename (vpages t v) = filename (vpages s v) \<and> blocks (vpages t v) = blocks (vpages s v))"

lemma static_facts:
  assumes "static s t"
  shows "lookup_va t = lookup_va s" "live t = live s" "entries_of t = entries_of s" "swap_blocks t = swap_blocks s"
    "wf_maps t = wf_maps s" "arena_ok t = arena_ok s" "swap_ok t = swap_ok s"
proof -
  show l: "lookup_va t = lookup_va s" using assms by (simp add: static_def fun_eq_iff lookup_va_def mappings_def)
  show v: "live t = live s" using assms by (simp add: static_def fun_eq_iff live_def)
  show "entries_of t = entries_of s" by (simp add: fun_eq_iff entries_of_def l)
  show sb: "swap_blocks t = swap_blocks s" using assms by (simp add: static_def fun_eq_iff swap_blocks_def v)
  show "wf_maps t = wf_maps s" using assms by (simp add: static_def wf_maps_def)
  show "arena_ok t = arena_ok s" using assms unfolding arena_ok_def l static_def by simp
  show "swap_ok t = swap_ok s" using assms unfolding swap_ok_def sb v static_def by simp
qed

text \<open>What the dynamic fields of a page owe to the invariant.\<close>

definition phys_ok :: "virtual_page \<Rightarrow> bool" where
  "phys_ok vp \<longleftrightarrow> (resident vp \<longleftrightarrow> physicalPage vp \<noteq> None)
     \<and> (\<forall>pp. physicalPage vp = Some pp \<and> PPN pp = 0 \<longrightarrow> isSwap vp \<and> length (affiliated vp) = 1 \<and> clocked pp \<and> \<not> dirty pp)"

lemma core_phys: "core ok s \<Longrightarrow> live s v \<Longrightarrow> phys_ok (vpages s v)"
  using page_okD(6,7) unfolding phys_ok_def by blast

lemma core_dynamic:
  assumes "core ok s" "static s t" "\<And>v. live s v \<Longrightarrow> phys_ok (vpages t v)" "frames_ok t"
  shows "core ok t"
proof -
  note f = static_facts [OF assms(2)]
  have st: "affiliated (vpages t v) = affiliated (vpages s v)" "isSwap (vpages t v) = isSwap (vpages s v)"
    "filename (vpages t v) = filename (vpages s v)" "blocks (vpages t v) = blocks (vpages s v)"
    "filename_block_to_vpage t = filename_block_to_vpage s" "next_vpage t = next_vpage s" for v
    using assms(2) by (simp_all add: static_def)
  have "page_ok t v" if "live s v" for v
    using page_okD(1-5) [OF assms(1) that] assms(3) [OF that] unfolding page_ok_def Let_def f st phys_ok_def by auto
  moreover have "files_ok ok t" using core_facts(6) [OF assms(1)] unfolding files_ok_def f st by blast
  moreover have "affil_ok t" using core_facts(8) [OF assms(1)] unfolding affil_ok_def f st .
  ultimately show ?thesis using core_facts [OF assms(1)] assms(4) unfolding core_def f by blast
qed

section \<open>Clearing reference bits\<close>

lemma core_live_clock: "core ok s \<Longrightarrow> v \<in> set (clock_queue s) \<Longrightarrow> live s v"
  using on_clock by blast

lemma unclock_phys: "phys_ok vp \<Longrightarrow> in_frame vp \<Longrightarrow> phys_ok (unclock vp) \<and> in_frame (unclock vp)"
  by (cases "physicalPage vp") (auto simp: phys_ok_def in_frame_def unclock_def)

lemma clock_eff_fields [simp]:
  "translateVA (clock_eff s) = translateVA s" "next_free_VA (clock_eff s) = next_free_VA s" "process_table (clock_eff s) = process_table s"
  "filename_block_to_vpage (clock_eff s) = filename_block_to_vpage s" "next_vpage (clock_eff s) = next_vpage s"
  "next_free_swap (clock_eff s) = next_free_swap s" "max_swap_blocks (clock_eff s) = max_swap_blocks s"
  "next_free_PPN (clock_eff s) = next_free_PPN s" "mem_pages_cap (clock_eff s) = mem_pages_cap s"
  "vm_physmem (clock_eff s) = vm_physmem s" "files (clock_eff s) = files s" "clock_queue (clock_eff s) = clock_order s"
  "current_pid (clock_eff s) = current_pid s" "page_table_base_register (clock_eff s) = page_table_base_register s"
  "vpages (clock_eff s) v = (if v \<in> set (clock_passed s) then unclock (vpages s v) else vpages s v)"
  by (simp_all add: clock_eff_def unclocked_def)

lemma passed_on_clock: "v \<in> set (clock_passed s) \<Longrightarrow> v \<in> set (clock_queue s)"
  by (auto simp: clock_passed_def dest: set_takeWhileD)

lemma mset_clock_order: "mset (clock_order s) = mset (clock_queue s)"
  unfolding clock_order_def by (metis mset_append union_commute takeWhile_dropWhile_id)

lemma frame_unclock: "physicalPage (vpages s v) \<noteq> None \<Longrightarrow> PPN (the (physicalPage (unclock (vpages s v)))) = frame s v"
  by (auto simp: unclock_def frame_def)

section \<open>Giving a page a frame\<close>

text \<open>The state after \<^verbatim>\<open>give_new_ppn\<close>.\<close>

definition give_eff :: "'f file_ops \<Rightarrow> nat \<Rightarrow> 'f pager \<Rightarrow> 'f pager" where
  "give_eff fo v s = upd_vpage v (\<lambda>vp. vp\<lparr>resident := True\<rparr>)
     (case next_free_PPN s of
        p # rest \<Rightarrow> upd_vpage v (\<lambda>vp. vp\<lparr>physicalPage := Some \<lparr>PPN = p, clocked = True, dirty = False\<rparr>\<rparr>)
          (s\<lparr>next_free_PPN := rest, clock_queue := clock_queue s @ [v]\<rparr>)
      | [] \<Rightarrow> evict_eff fo v s)"

lemma take_over_overwrites: "e \<noteq> r \<Longrightarrow> take_over r e ppn (upd_vpage r (\<lambda>vp. vp\<lparr>physicalPage := pp\<rparr>) s) = take_over r e ppn s"
  by (simp add: take_over_def Let_def upd_vpage_def)

lemma evict_eff_overwrites:
  assumes "v \<notin> set (clock_queue s)" "clock_queue s \<noteq> []"
  shows "evict_eff fo v (upd_vpage v (\<lambda>vp. vp\<lparr>physicalPage := pp\<rparr>) s) = evict_eff fo v s"
proof -
  let ?s = "upd_vpage v (\<lambda>vp. vp\<lparr>physicalPage := pp\<rparr>) s"
  have c: "clocked_in ?s w = clocked_in s w" if "w \<in> set (clock_queue s)" for w
    using that assms by (auto simp: clocked_in_def upd_vpage_def)
  have q: "clock_queue ?s = clock_queue s" by (simp add: upd_vpage_def)
  have tw: "takeWhile (clocked_in ?s) (clock_queue s) = takeWhile (clocked_in s) (clock_queue s)"
    "dropWhile (clocked_in ?s) (clock_queue s) = dropWhile (clocked_in s) (clock_queue s)"
    using c by (auto intro: takeWhile_cong dropWhile_cong)
  have o: "clock_passed ?s = clock_passed s" "clock_order ?s = clock_order s" unfolding clock_passed_def clock_order_def q tw by simp_all
  have e: "hd (clock_order s) \<noteq> v" using assms clock_order_set [of s] clock_order_nonempty [OF assms(2)] by (metis hd_in_set)
  have eff: "clock_eff ?s = upd_vpage v (\<lambda>vp. vp\<lparr>physicalPage := pp\<rparr>) (clock_eff s)"
  proof -
    have "v \<notin> set (clock_passed s)" using assms(1) passed_on_clock by blast
    then have "(\<lambda>w. if w \<in> set (clock_passed s) then unclock (vpages ?s w) else vpages ?s w)
        = (\<lambda>w. if w \<in> set (clock_passed s) then unclock (vpages s w) else vpages s w)(v := (vpages s v)\<lparr>physicalPage := pp\<rparr>)"
      by (auto simp: fun_eq_iff upd_vpage_def)
    with \<open>v \<notin> set (clock_passed s)\<close> show ?thesis unfolding clock_eff_def unclocked_def o by (simp add: upd_vpage_def)
  qed
  have ve: "vpages ?s (hd (clock_order s)) = vpages s (hd (clock_order s))" "files ?s = files s" "vm_physmem ?s = vm_physmem s"
    using e by (simp_all add: upd_vpage_def)
  have wb: "written_back fo ?s (hd (clock_order s)) = written_back fo s (hd (clock_order s))"
    "PPN (the (physicalPage (vpages ?s (hd (clock_order s))))) = PPN (the (physicalPage (vpages s (hd (clock_order s)))))"
    unfolding written_back_def ve by (rule refl)+
  have com: "(upd_vpage v f t)\<lparr>clock_queue := q, files := fl\<rparr> = upd_vpage v f (t\<lparr>clock_queue := q, files := fl\<rparr>)" for f t q fl
    by (simp add: upd_vpage_def)
  show ?thesis unfolding evict_eff_def Let_def o eff wb com by (rule take_over_overwrites [OF e])
qed

lemma give_new_ppn_spec:
  assumes "core ok s" "live s v" "mapped s v" "\<not> in_frame (vpages s v)" "shows_all s (W - {v})" "W \<subseteq> {v. live s v}"
  shows "returns (\<lambda>t. same_but_tables (give_eff fo v s) t \<and> shows_all t (W - {v})) (give_new_ppn fo v s)"
proof -
  let ?D = "{v. live s v}" and ?s = "upd_vpage v (\<lambda>vp. vp\<lparr>physicalPage := Some new_physical_page\<rparr>) s"
  have v: "v \<notin> set (clock_queue s)" using on_clock [OF assms(1)] assms(4) by blast
  have dyn: "affiliated (vpages ?s w) = affiliated (vpages s w)" "blocks (vpages ?s w) = blocks (vpages s w)"
    "isSwap (vpages ?s w) = isSwap (vpages s w)" "w \<noteq> v \<Longrightarrow> vpages ?s w = vpages s w" for w by (simp_all add: upd_vpage_def)
  have q: "clock_queue ?s = clock_queue s" "next_free_PPN ?s = next_free_PPN s" by (simp_all add: upd_vpage_def)
  have sh: "shows_all ?s (W - {v})" by (rule shows_all_upd [OF assms(5)])
  have res: "shows_all (upd_vpage v (\<lambda>vp. vp\<lparr>resident := True\<rparr>) t) (W - {v})" if "shows_all t (W - {v})" for t
    by (rule shows_all_upd [OF that])
  show ?thesis
  proof (cases "next_free_PPN s")
    case (Cons p rest)
    let ?t = "upd_vpage v (\<lambda>vp. vp\<lparr>physicalPage := Some (new_physical_page\<lparr>PPN := p, clocked := True\<rparr>)\<rparr>)
                                (?s\<lparr>next_free_PPN := rest, clock_queue := clock_queue s @ [v]\<rparr>)"
    have t: "upd_vpage v (\<lambda>vp. vp\<lparr>resident := True\<rparr>) ?t = give_eff fo v s"
      using Cons by (simp add: give_eff_def upd_vpage_def new_physical_page_def)
    have "shows_all ?t (W - {v})" using sh by (intro shows_all_upd) (subst shows_all_cong [of _ ?s], auto)
    from res [OF this, unfolded t] Cons t q show ?thesis unfolding give_new_ppn_def Let_def by (simp add: returns_def)
  next
    case Nil
    have "clock_ready ?s (clock_queue ?s)"
      using core_clock_ready [OF assms(1)] v unfolding clock_ready_def q
      by (auto simp: live_def has_entries_def dyn) (auto simp: upd_vpage_def)
    moreover have ne: "clock_queue ?s \<noteq> []"
    proof
      assume "clock_queue ?s = []"
      then have "mset (map (frame s) [] @ []) = mset [1..<mem_pages_cap s]" "2 \<le> mem_pages_cap s"
        using core_facts(4) [OF assms(1)] Nil q unfolding frames_ok_def by simp_all
      then show False using mset_eq_length [of "map (frame s) [] @ []" "[1..<mem_pages_cap s]"] by simp
    qed
    moreover have "can_install ?s v"
      using core_entries [OF assms(1,2)] page_okD(4) [OF assms(1,2)] affiliated_mapped [OF assms(1,2)] assms(3)
      by (auto simp: can_install_def has_entries_def dyn)
    moreover have "\<forall>w \<in> set (clock_queue ?s). blocks (vpages ?s w) \<noteq> []"
      using page_okD(3) [OF assms(1)] core_live_clock [OF assms(1)] by (simp add: q dyn)
    moreover have "disjoint_pages ?s ?D" using core_disjoint [OF assms(1)] by (simp add: disjoint_pages_def dyn)
    moreover have "set (clock_queue ?s) \<subseteq> ?D" using core_live_clock [OF assms(1)] by (auto simp: q)
    ultimately have "returns (\<lambda>t. same_but_tables (evict_eff fo v ?s) t \<and> shows_all t W) (evict_and_replace fo v ?s)"
      using v sh assms(2,6) q by (intro evict_and_replace_spec) auto
    then obtain t where t: "evict_and_replace fo v ?s = Some t" "same_but_tables (evict_eff fo v s) t" "shows_all t W"
      unfolding evict_eff_overwrites [OF v ne [unfolded q]] by (rule returnsE) blast
    have "same_but_tables (give_eff fo v s) (upd_vpage v (\<lambda>vp. vp\<lparr>resident := True\<rparr>) t)"
      using same_but_tables_upd(6) [OF t(2)] Nil by (simp add: give_eff_def)
    moreover have "shows_all (upd_vpage v (\<lambda>vp. vp\<lparr>resident := True\<rparr>) t) (W - {v})" using t(3) by (intro res) (auto intro: shows_all_mono)
    ultimately show ?thesis using Nil t(1) q unfolding give_new_ppn_def Let_def by (simp add: returns_def)
  qed
qed

section \<open>Dropping a registration\<close>

definition unregister :: "string \<times> nat \<Rightarrow> 'f pager \<Rightarrow> 'f pager" where
  "unregister k s = s\<lparr>filename_block_to_vpage := AList.delete k (filename_block_to_vpage s)\<rparr>"

lemma files_okD:
  assumes "files_ok ok s"
  shows "map_of (filename_block_to_vpage s) k = Some v \<Longrightarrow> v < next_vpage s \<and> \<not> isSwap (vpages s v) \<and> filename (vpages s v) = fst k \<and> blocks (vpages s v) = [snd k]"
    "live s v \<Longrightarrow> \<not> isSwap (vpages s v) \<Longrightarrow> ok (filename (vpages s v)) (blocks (vpages s v) ! 0) \<Longrightarrow>
      map_of (filename_block_to_vpage s) (filename (vpages s v), blocks (vpages s v) ! 0) = Some v"
  using assms unfolding files_ok_def by blast+

lemma core_unregister:
  assumes c: "core ok s"
    and v: "\<And>v. map_of (filename_block_to_vpage s) k = Some v \<Longrightarrow> \<not> resident (vpages s v) \<and> (\<not> mapped s v \<or> \<not> ok (fst k) (snd k))"
  shows "core ok (unregister k s)"
proof -
  let ?t = "unregister k s"
  note f = core_facts [OF c]
  have fb: "map_of (filename_block_to_vpage ?t) = (map_of (filename_block_to_vpage s))(k := None)"
    by (simp add: unregister_def delete_conv')
  have same: "vpages ?t = vpages s" "clock_queue ?t = clock_queue s" "next_free_PPN ?t = next_free_PPN s"
    "mem_pages_cap ?t = mem_pages_cap s" "next_free_swap ?t = next_free_swap s" "max_swap_blocks ?t = max_swap_blocks s"
    "next_vpage ?t = next_vpage s" "next_free_VA ?t = next_free_VA s" "process_table ?t = process_table s" by (simp_all add: unregister_def)
  have l: "lookup_va ?t = lookup_va s" by (simp add: fun_eq_iff lookup_va_def mappings_def unregister_def)
  have wf: "wf_maps ?t" using f(1) by (simp add: wf_maps_def unregister_def distinct_delete)
  have lv: "live ?t w \<longleftrightarrow> mapped s w \<or> (\<exists>k'. k' \<noteq> k \<and> map_of (filename_block_to_vpage s) k' = Some w)" for w
    unfolding live_iff [OF wf] mapped_def registered_def l fb by auto
  then have sub: "live ?t w \<Longrightarrow> live s w" for w unfolding f(7) registered_def by blast
  have keep: "live ?t w" if "live s w" "map_of (filename_block_to_vpage s) k \<noteq> Some w" for w
    using that unfolding f(7) registered_def lv by metis
  have e: "entries_of ?t = entries_of s" by (simp add: fun_eq_iff entries_of_def l)
  have "page_ok ?t w" if "live ?t w" for w using f(3) [OF sub [OF that]] by (simp add: page_ok_def same e)
  moreover have "arena_ok ?t" using f(2) unfolding arena_ok_def l same .
  moreover have "frames_ok ?t"
  proof -
    have "w \<in> set (clock_queue s) \<longleftrightarrow> live ?t w \<and> in_frame (vpages s w)" for w
    proof
      assume w: "w \<in> set (clock_queue s)"
      then have lw: "live s w" "in_frame (vpages s w)" using on_clock [OF c] by auto
      then have "resident (vpages s w)" using page_okD(6) [OF c lw(1)] by (auto simp: in_frame_def)
      then show "live ?t w \<and> in_frame (vpages s w)" using keep [OF lw(1)] v lw(2) by blast
    qed (use on_clock [OF c] sub in blast)
    moreover have "frame ?t = frame s" by (simp add: fun_eq_iff frame_def same)
    ultimately show ?thesis using f(4) unfolding frames_ok_def same by simp
  qed
  moreover have "swap_ok ?t"
  proof -
    have "live ?t w = live s w" if "isSwap (vpages s w)" for w
      using keep sub that files_okD(1) [OF f(6)] by blast
    then have "swap_blocks ?t = swap_blocks s" "live ?t w \<and> isSwap (vpages s w) \<longleftrightarrow> live s w \<and> isSwap (vpages s w)" for w
      by (auto simp: fun_eq_iff swap_blocks_def same)
    with f(5) show ?thesis unfolding swap_ok_def same by simp
  qed
  moreover have "files_ok ok ?t"
  proof -
    have "map_of (filename_block_to_vpage ?t) (filename (vpages s w), blocks (vpages s w) ! 0) = Some w"
      if w: "live ?t w" "\<not> isSwap (vpages s w)" "ok (filename (vpages s w)) (blocks (vpages s w) ! 0)" for w
    proof -
      let ?k = "(filename (vpages s w), blocks (vpages s w) ! 0)"
      have r: "map_of (filename_block_to_vpage s) ?k = Some w" by (rule files_okD(2) [OF f(6) sub [OF w(1)] w(2,3)])
      have "?k \<noteq> k"
      proof
        assume "?k = k"
        then have "\<not> mapped s w" using v r w(3) by auto
        then obtain k' where "k' \<noteq> k" "map_of (filename_block_to_vpage s) k' = Some w" using w(1) lv by blast
        with files_okD(1) [OF f(6), of k' w] \<open>?k = k\<close> show False by (auto simp: prod_eq_iff)
      qed
      with r show ?thesis by (simp add: fb)
    qed
    moreover have "v < next_vpage s \<and> \<not> isSwap (vpages s v) \<and> filename (vpages s v) = fst k' \<and> blocks (vpages s v) = [snd k']"
      if "map_of (filename_block_to_vpage ?t) k' = Some v" for k' v
      using that files_okD(1) [OF f(6)] by (auto simp: fb split: if_splits)
    ultimately show ?thesis unfolding files_ok_def same by blast
  qed
  moreover have "affil_ok ?t" using f(8) unfolding affil_ok_def same e .
  ultimately show ?thesis using wf unfolding core_def by blast
qed

section \<open>Evicting keeps the core\<close>

text \<open>The effect of an eviction apart from the registration of the victim.\<close>

definition evict0 :: "'f file_ops \<Rightarrow> nat \<Rightarrow> 'f pager \<Rightarrow> 'f pager" where
  "evict0 fo r s = (let e = hd (clock_order s) in
     upd_vpage e (\<lambda>vp. vp\<lparr>resident := False, physicalPage := None\<rparr>)
       (upd_vpage r (\<lambda>vp. vp\<lparr>physicalPage := Some \<lparr>PPN = frame s e, clocked = True, dirty = False\<rparr>\<rparr>)
         ((clock_eff s)\<lparr>clock_queue := tl (clock_order s) @ [r], files := written_back fo s e\<rparr>)))"

definition give0 :: "'f file_ops \<Rightarrow> nat \<Rightarrow> 'f pager \<Rightarrow> 'f pager" where
  "give0 fo v s = upd_vpage v (\<lambda>vp. vp\<lparr>resident := True\<rparr>)
     (case next_free_PPN s of
        p # rest \<Rightarrow> upd_vpage v (\<lambda>vp. vp\<lparr>physicalPage := Some \<lparr>PPN = p, clocked = True, dirty = False\<rparr>\<rparr>)
          (s\<lparr>next_free_PPN := rest, clock_queue := clock_queue s @ [v]\<rparr>)
      | [] \<Rightarrow> evict0 fo v s)"

text \<open>The file-backed victim that no process maps any more.\<close>

definition forgets :: "'f pager \<Rightarrow> bool" where
  "forgets s \<longleftrightarrow> next_free_PPN s = [] \<and> (let e = vpages s (hd (clock_order s)) in \<not> isSwap e \<and> affiliated e = [])"

lemma static_give0: "static s (give0 fo v s)"
  by (cases "next_free_PPN s") (auto simp: static_def give0_def evict0_def Let_def upd_vpage_def)

lemma give_eff_split:
  "give_eff fo v s = (if forgets s then unregister (let e = vpages s (hd (clock_order s)) in (filename e, blocks e ! 0)) (give0 fo v s)
     else give0 fo v s)"
proof (cases "next_free_PPN s")
  case Nil
  then show ?thesis
    by (auto simp: give_eff_def give0_def forgets_def evict_eff_def evict0_def take_over_def unregister_def Let_def upd_vpage_def frame_def)
qed (simp add: give_eff_def give0_def forgets_def)

lemma set_tl_distinct: "distinct xs \<Longrightarrow> set (tl xs) = set xs - {hd xs}"
  by (cases xs) auto

text \<open>The page that gives up its frame.\<close>

lemma victim:
  assumes "core ok s" "next_free_PPN s = []"
  shows "clock_order s = hd (clock_order s) # tl (clock_order s)" "hd (clock_order s) \<in> set (clock_queue s)"
    "live s (hd (clock_order s))" "in_frame (vpages s (hd (clock_order s)))"
proof -
  have "clock_queue s \<noteq> []"
  proof
    assume "clock_queue s = []"
    then have "mset (map (frame s) [] @ []) = mset [1..<mem_pages_cap s]" "2 \<le> mem_pages_cap s"
      using core_facts(4) [OF assms(1)] assms(2) unfolding frames_ok_def by simp_all
    then show False using mset_eq_length [of "map (frame s) [] @ []" "[1..<mem_pages_cap s]"] by simp
  qed
  then have n: "clock_order s \<noteq> []" by (rule clock_order_nonempty)
  then show "clock_order s = hd (clock_order s) # tl (clock_order s)" by simp
  show e: "hd (clock_order s) \<in> set (clock_queue s)" using n clock_order_set hd_in_set by metis
  show "live s (hd (clock_order s))" "in_frame (vpages s (hd (clock_order s)))" using on_clock [OF assms(1)] e by blast+
qed

definition new_frame :: "'f pager \<Rightarrow> nat" where
  "new_frame s = (case next_free_PPN s of p # _ \<Rightarrow> p | [] \<Rightarrow> frame s (hd (clock_order s)))"

lemma new_frame_nonzero: "core ok s \<Longrightarrow> new_frame s \<noteq> 0"
  using free_frames_nonzero victim(4) by (fastforce simp: new_frame_def frame_def in_frame_def split: list.splits option.splits)

lemma give0_vpages:
  assumes "core ok s" "v \<notin> set (clock_queue s)"
  shows "vpages (give0 fo v s) v = (vpages s v)\<lparr>physicalPage := Some \<lparr>PPN = new_frame s, clocked = True, dirty = False\<rparr>, resident := True\<rparr>"
    "w \<noteq> v \<Longrightarrow> vpages (give0 fo v s) w =
      (if next_free_PPN s \<noteq> [] then vpages s w
       else if w = hd (clock_order s) then (vpages s w)\<lparr>resident := False, physicalPage := None\<rparr>
       else if w \<in> set (clock_passed s) then unclock (vpages s w) else vpages s w)"
proof -
  have "v \<notin> set (clock_passed s)" using assms(2) passed_on_clock by blast
  moreover have "hd (clock_order s) \<noteq> v" if "next_free_PPN s = []" using victim(2) [OF assms(1) that] assms(2) by metis
  ultimately show "vpages (give0 fo v s) v = (vpages s v)\<lparr>physicalPage := Some \<lparr>PPN = new_frame s, clocked = True, dirty = False\<rparr>, resident := True\<rparr>"
    by (cases "next_free_PPN s") (auto simp: give0_def evict0_def upd_vpage_def new_frame_def Let_def)
  show "w \<noteq> v \<Longrightarrow> vpages (give0 fo v s) w =
      (if next_free_PPN s \<noteq> [] then vpages s w
       else if w = hd (clock_order s) then (vpages s w)\<lparr>resident := False, physicalPage := None\<rparr>
       else if w \<in> set (clock_passed s) then unclock (vpages s w) else vpages s w)"
    using \<open>v \<notin> set (clock_passed s)\<close>
    by (cases "next_free_PPN s") (auto simp: give0_def evict0_def upd_vpage_def Let_def unclock_def)
qed

lemma give0_fields:
  "clock_queue (give0 fo v s) = (if next_free_PPN s = [] then tl (clock_order s) else clock_queue s) @ [v]"
  "next_free_PPN (give0 fo v s) = tl (next_free_PPN s)" "mem_pages_cap (give0 fo v s) = mem_pages_cap s"
  "vm_physmem (give0 fo v s) = vm_physmem s" "files (give0 fo v s) = (if next_free_PPN s = [] then written_back fo s (hd (clock_order s)) else files s)"
  "current_pid (give0 fo v s) = current_pid s" "page_table_base_register (give0 fo v s) = page_table_base_register s"
  by (cases "next_free_PPN s"; simp add: give0_def evict0_def Let_def upd_vpage_def)+

lemma frames_give0:
  assumes c: "core ok s" and v: "live s v" "\<not> in_frame (vpages s v)"
  shows "frames_ok (give0 fo v s)"
proof -
  let ?t = "give0 fo v s" and ?Q = "if next_free_PPN s = [] then tl (clock_order s) else clock_queue s"
  have nv: "v \<notin> set (clock_queue s)" using on_clock [OF c] v(2) by blast
  note vp = give0_vpages [OF c nv]
  have fr: "distinct (clock_queue s)" "mset (map (frame s) (clock_queue s)) + mset (next_free_PPN s) = mset [1..<mem_pages_cap s]"
    "2 \<le> mem_pages_cap s" "mem_pages_cap s \<le> 2 ^ 20" using core_facts(4) [OF c] by (simp_all add: frames_ok_def)
  have Q: "distinct ?Q" "set ?Q = {w. live s w \<and> w \<noteq> v \<and> in_frame (vpages ?t w)}"
    "add_mset (new_frame s) (mset (map (frame s) ?Q)) + mset (tl (next_free_PPN s)) = mset [1..<mem_pages_cap s]"
  proof -
    have cl: "in_frame (vpages s w)" "live s w" if "w \<in> set (clock_queue s)" for w using that on_clock [OF c] by blast+
    have un: "in_frame (unclock vp) = in_frame vp" for vp by (auto simp: in_frame_def unclock_def split: option.splits)
    have tl: "set (tl (clock_order s)) = set (clock_queue s) - {hd (clock_order s)}"
      using set_tl_distinct [OF clock_order_distinct [OF fr(1)]] by (simp add: clock_order_set)
    show "distinct ?Q" using fr(1) clock_order_distinct [OF fr(1)] by (simp add: distinct_tl)
    show "set ?Q = {w. live s w \<and> w \<noteq> v \<and> in_frame (vpages ?t w)}"
    proof -
      have "in_frame (vpages ?t w) \<longleftrightarrow> in_frame (vpages s w) \<and> (next_free_PPN s = [] \<longrightarrow> w \<noteq> hd (clock_order s))" if "w \<noteq> v" for w
        unfolding vp(2) [OF that] by (simp add: un) (simp add: in_frame_def)
      then have "{w. live s w \<and> w \<noteq> v \<and> in_frame (vpages ?t w)}
          = {w. w \<in> set (clock_queue s) \<and> w \<noteq> v \<and> (next_free_PPN s = [] \<longrightarrow> w \<noteq> hd (clock_order s))}"
        unfolding on_clock [OF c] by blast
      then show ?thesis using nv tl by auto
    qed
    show "add_mset (new_frame s) (mset (map (frame s) ?Q)) + mset (tl (next_free_PPN s)) = mset [1..<mem_pages_cap s]"
    proof (cases "next_free_PPN s")
      case Nil
      have "mset (map (frame s) (clock_queue s)) = mset (map (frame s) (clock_order s))" by (simp add: mset_clock_order)
      also have "\<dots> = add_mset (new_frame s) (mset (map (frame s) (tl (clock_order s))))"
        by (subst victim(1) [OF c Nil]) (simp add: new_frame_def Nil)
      finally show ?thesis using fr(2) Nil by simp
    qed (use fr(2) in \<open>simp add: new_frame_def\<close>)
  qed
  have fw: "frame ?t w = frame s w" if "w \<in> set ?Q" for w
  proof -
    have "in_frame (vpages s w)" "w \<noteq> v" "next_free_PPN s = [] \<longrightarrow> w \<noteq> hd (clock_order s)"
      using that on_clock [OF c] nv set_tl_distinct [OF clock_order_distinct [OF fr(1)]] by (auto simp: clock_order_set split: if_splits)
    then show ?thesis using vp(2) [of w] by (auto simp: frame_def unclock_def in_frame_def split: option.splits)
  qed
  have "mset (map (frame ?t) ?Q) = mset (map (frame s) ?Q)" using fw by (metis map_cong)
  moreover have "frame ?t v = new_frame s" "in_frame (vpages ?t v)" using new_frame_nonzero [OF c] by (simp_all add: frame_def vp in_frame_def)
  moreover have "live ?t = live s" by (rule static_facts(2) [OF static_give0])
  moreover have "v \<notin> set ?Q" unfolding Q(2) by blast
  ultimately show ?thesis using Q fr(3,4) v(1) unfolding frames_ok_def give0_fields by (auto simp del: mset_map)
qed

lemma phys_ok_given:
  assumes "core ok s" "v \<notin> set (clock_queue s)" "live s w"
  shows "phys_ok (vpages (give0 fo v s) w)"
proof (cases "w = v")
  case True
  then show ?thesis using new_frame_nonzero [OF assms(1)] by (simp add: phys_ok_def give0_vpages(1) [OF assms(1,2)])
next
  case False
  have "phys_ok (unclock (vpages s w))" if "w \<in> set (clock_passed s)"
    using unclock_phys core_phys [OF assms(1,3)] passed_on_clock [OF that] on_clock [OF assms(1)] by blast
  moreover have "phys_ok ((vpages s w)\<lparr>resident := False, physicalPage := None\<rparr>)" by (simp add: phys_ok_def)
  ultimately show ?thesis using core_phys [OF assms(1,3)] unfolding give0_vpages(2) [OF assms(1,2) False] by (cases "next_free_PPN s = []"; cases "w = hd (clock_order s)"; cases "w \<in> set (clock_passed s)") simp_all
qed

lemma core_give0:
  assumes "core ok s" "live s v" "\<not> in_frame (vpages s v)"
  shows "core ok (give0 fo v s)"
proof -
  have "v \<notin> set (clock_queue s)" using on_clock [OF assms(1)] assms(3) by blast
  then show ?thesis using core_dynamic [OF assms(1) static_give0] phys_ok_given [OF assms(1)] frames_give0 [OF assms] by blast
qed

lemma core_give:
  assumes "core ok s" "live s v" "\<not> in_frame (vpages s v)"
  shows "core ok (give_eff fo v s)"
proof (cases "forgets s")
  case True
  let ?e = "hd (clock_order s)" and ?k = "let e = vpages s (hd (clock_order s)) in (filename e, blocks e ! 0)" and ?t = "give0 fo v s"
  have e: "next_free_PPN s = []" "\<not> isSwap (vpages s ?e)" "affiliated (vpages s ?e) = []" using True by (simp_all add: forgets_def Let_def)
  note vic = victim [OF assms(1) e(1)]
  have nv: "v \<notin> set (clock_queue s)" using on_clock [OF assms(1)] assms(3) by blast
  have nm: "\<not> mapped s ?e" using affiliated_mapped [OF assms(1) vic(3)] e(3) by blast
  then have "registered s ?e" using core_facts(7) [OF assms(1)] vic(3) by blast
  then obtain k where k: "map_of (filename_block_to_vpage s) k = Some ?e" by (auto simp: registered_def)
  then have "k = ?k" using files_okD(1) [OF core_facts(6) [OF assms(1)] k] by (simp add: prod_eq_iff Let_def)
  moreover have "filename_block_to_vpage ?t = filename_block_to_vpage s" using static_give0 [of s fo v] by (simp add: static_def)
  ultimately have "w = ?e" if "map_of (filename_block_to_vpage ?t) ?k = Some w" for w using that k by simp
  moreover have "?e \<noteq> v" using vic(2) nv by metis
  then have "\<not> resident (vpages ?t ?e)" using give0_vpages(2) [OF assms(1) nv] e(1) by simp
  moreover have "\<not> mapped ?t ?e" using nm by (simp add: mapped_def static_facts(1) [OF static_give0])
  ultimately have "\<not> resident (vpages ?t w) \<and> (\<not> mapped ?t w \<or> \<not> ok (fst ?k) (snd ?k))" if "map_of (filename_block_to_vpage ?t) ?k = Some w" for w
    using that by blast
  from core_unregister [OF core_give0 [OF assms] this] True show ?thesis unfolding give_eff_split by presburger
qed (simp add: give_eff_split core_give0 [OF assms])

section \<open>Returning a frame\<close>

definition return_eff :: "nat \<Rightarrow> 'f pager \<Rightarrow> 'f pager" where
  "return_eff v s = upd_vpage v (\<lambda>vp. vp\<lparr>resident := False, physicalPage := None\<rparr>)
     (s\<lparr>next_free_PPN := next_free_PPN s @ [frame s v], clock_queue := remove1 v (clock_queue s)\<rparr>)"

lemma return_eff_vpages:
  "vpages (return_eff v s) v = (vpages s v)\<lparr>resident := False, physicalPage := None\<rparr>"
  "w \<noteq> v \<Longrightarrow> vpages (return_eff v s) w = vpages s w"
  by (simp_all add: return_eff_def upd_vpage_def)

lemma static_return: "static s (return_eff v s)"
  by (auto simp: static_def return_eff_def upd_vpage_def)

lemma core_return:
  assumes c: "core ok s" and v: "live s v" "in_frame (vpages s v)"
  shows "core ok (return_eff v s)"
proof (rule core_dynamic [OF c static_return])
  let ?t = "return_eff v s" and ?q = "clock_queue s"
  show "phys_ok (vpages ?t w)" if "live s w" for w
    using core_phys [OF c that] by (cases "w = v") (simp_all add: return_eff_vpages, simp add: phys_ok_def)
  have fr: "distinct ?q" "mset (map (frame s) ?q) + mset (next_free_PPN s) = mset [1..<mem_pages_cap s]"
    "2 \<le> mem_pages_cap s" "mem_pages_cap s \<le> 2 ^ 20" using core_facts(4) [OF c] by (simp_all add: frames_ok_def)
  have vq: "v \<in> set ?q" using on_clock [OF c] v by blast
  have eq: "clock_queue ?t = remove1 v ?q" "next_free_PPN ?t = next_free_PPN s @ [frame s v]" "mem_pages_cap ?t = mem_pages_cap s"
    by (simp_all add: return_eff_def upd_vpage_def)
  have "frame ?t w = frame s w" if "w \<in> set (remove1 v ?q)" for w
    using that fr(1) return_eff_vpages(2) [of w v s] by (auto simp: frame_def)
  then have "mset (map (frame ?t) (remove1 v ?q)) = mset (map (frame s) (remove1 v ?q))" by (metis map_cong)
  moreover have "mset (map (frame s) ?q) = add_mset (frame s v) (mset (map (frame s) (remove1 v ?q)))"
    using vq by (induction ?q arbitrary: s) (auto, metis add_mset_remove_trivial image_mset_add_mset insert_DiffM mset_remove1 set_mset_mset)
  moreover have "w \<in> set (remove1 v ?q) \<longleftrightarrow> live s w \<and> in_frame (vpages ?t w)" for w
    using fr(1) on_clock [OF c, of w] by (cases "w = v") (auto simp: return_eff_vpages in_frame_def)
  ultimately show "frames_ok ?t" using fr unfolding frames_ok_def eq static_facts(2) [OF static_return]
    by (auto simp del: mset_map simp: distinct_remove1)
qed

lemma return_ppn_spec:
  assumes "v \<in> set (clock_queue s)" "physicalPage (vpages s v) \<noteq> None" "affiliated (vpages s v) \<noteq> []" "has_entries s v"
    "shows_all s (W - {v})" "disjoint_pages s D" "v \<in> D" "W \<subseteq> D"
  shows "returns (\<lambda>t. same_but_tables (return_eff v s) t \<and> shows_all t W) (return_ppn_remove_from_clock v s)"
proof -
  have "pte_bits (vpages (return_eff v s) v) \<noteq> None" using assms(3) by (simp add: return_eff_vpages pte_bits_def)
  moreover have "affiliated (vpages (return_eff v s) w) = affiliated (vpages s w)" for w
    by (cases "w = v") (simp_all add: return_eff_vpages)
  moreover have g: "get_pte (return_eff v s) p = get_pte s p" for p by (simp add: return_eff_def)
  moreover have "shows_all (return_eff v s) (W - {v})" using assms(5) by (subst shows_all_cong [of _ s]) (auto simp: g return_eff_vpages)
  ultimately have "returns (\<lambda>t. same_but_tables (return_eff v s) t \<and> shows_all t W) (updatePTEs v (return_eff v s))"
    using assms(4,6-8) by (intro updatePTEs_shows) (auto simp: has_entries_def disjoint_pages_def)
  then show ?thesis using assms(1,2)
    by (auto simp: return_ppn_remove_from_clock_def erase_first_def return_eff_def frame_def)
qed

end
