(* ===== verification/Pager_Faults.thy ===== *)
theory Pager_Faults
  imports Pager_Frames
begin

text \<open>
  Faults that bring a page into memory: \<^verbatim>\<open>load_page\<close> and the part of \<^verbatim>\<open>vm_fault\<close> after the
  copy-on-write branch return, have the effects given here, and keep the invariant.
\<close>

section \<open>The files\<close>

text \<open>Swap blocks can be read, and a block of another file either always or never.\<close>

definition file_laws :: "'f file_ops \<Rightarrow> (string \<Rightarrow> nat \<Rightarrow> bool) \<Rightarrow> bool" where
  "file_laws fo ok \<longleftrightarrow> (\<forall>f b buf. fst (file_read fo f None b buf)) \<and> (\<forall>f name b buf. fst (file_read fo f (Some name) b buf) = ok name b)"

definition readable :: "(string \<Rightarrow> nat \<Rightarrow> bool) \<Rightarrow> virtual_page \<Rightarrow> bool" where
  "readable ok vp \<longleftrightarrow> isSwap vp \<or> ok (filename vp) (blocks vp ! 0)"

lemma file_read_ok: "file_laws fo ok \<Longrightarrow> fst (file_read fo f (backing vp) (blocks vp ! 0) buf) = readable ok vp"
  by (simp add: file_laws_def readable_def backing_def)

section \<open>What the core depends on\<close>

lemma core_cong:
  assumes c: "core ok s" and wf: "wf_maps t" and l: "lookup_va t = lookup_va s"
    and fb: "map_of (filename_block_to_vpage t) = map_of (filename_block_to_vpage s)"
    and e: "vpages t = vpages s" "next_vpage t = next_vpage s" "next_free_VA t = next_free_VA s" "max_swap_blocks t = max_swap_blocks s"
      "clock_queue t = clock_queue s" "mem_pages_cap t = mem_pages_cap s"
    and len: "\<And>pid. map_option length (process_table t pid) = map_option length (process_table s pid)"
    and m: "mset (next_free_swap t) = mset (next_free_swap s)" "mset (next_free_PPN t) = mset (next_free_PPN s)"
  shows "core ok t" "live t = live s"
proof -
  show lv: "live t = live s"
    by (simp add: fun_eq_iff live_iff [OF wf] live_iff [OF core_facts(1) [OF c]] mapped_def registered_def l fb)
  have en: "entries_of t = entries_of s" by (simp add: fun_eq_iff entries_of_def l)
  have fr: "frame t = frame s" by (simp add: fun_eq_iff frame_def e)
  have sb: "swap_blocks t = swap_blocks s" by (simp add: fun_eq_iff swap_blocks_def e lv)
  have sw: "set (next_free_swap t) = set (next_free_swap s)" "distinct (next_free_swap t) = distinct (next_free_swap s)"
    using m(1) by (metis set_mset_mset, metis mset_eq_imp_distinct_iff)
  note f = core_facts [OF c]
  have "page_ok t v" if "live s v" for v using f(3) [OF that] unfolding page_ok_def e en .
  moreover have "arena_ok t" using f(2) unfolding arena_ok_def l e len .
  moreover have "frames_ok t" using f(4) unfolding frames_ok_def lv e fr m(2) .
  moreover have "swap_ok t" using f(5) unfolding swap_ok_def lv e sb sw .
  moreover have "files_ok ok t" using f(6) unfolding files_ok_def lv e fb .
  moreover have "affil_ok t" using f(8) unfolding affil_ok_def e en .
  ultimately show "core ok t" using wf unfolding core_def lv by blast
qed

lemma lookup_upd [simp]:
  "lookup_va (s\<lparr>vm_physmem := m\<rparr>) = lookup_va s" "lookup_va (s\<lparr>files := fs\<rparr>) = lookup_va s" "lookup_va (s\<lparr>current_pid := cp\<rparr>) = lookup_va s"
  "lookup_va (s\<lparr>page_table_base_register := pb\<rparr>) = lookup_va s" "lookup_va (s\<lparr>vpages := vs\<rparr>) = lookup_va s"
  "lookup_va (s\<lparr>next_free_VA := na\<rparr>) = lookup_va s" "lookup_va (s\<lparr>process_table := pt\<rparr>) = lookup_va s"
  "lookup_va (s\<lparr>next_vpage := nv\<rparr>) = lookup_va s" "lookup_va (s\<lparr>next_free_swap := sw\<rparr>) = lookup_va s"
  "lookup_va (s\<lparr>filename_block_to_vpage := fb\<rparr>) = lookup_va s" "lookup_va (upd_vpage v f s) = lookup_va s"
  by (simp_all add: fun_eq_iff lookup_va_def mappings_def upd_vpage_def)

lemma wf_maps_upd [simp]:
  "wf_maps (s\<lparr>vm_physmem := m\<rparr>) = wf_maps s" "wf_maps (s\<lparr>files := fs\<rparr>) = wf_maps s" "wf_maps (s\<lparr>current_pid := cp\<rparr>) = wf_maps s"
  "wf_maps (s\<lparr>page_table_base_register := pb\<rparr>) = wf_maps s" "wf_maps (s\<lparr>vpages := vs\<rparr>) = wf_maps s"
  "wf_maps (s\<lparr>next_free_VA := na\<rparr>) = wf_maps s" "wf_maps (s\<lparr>process_table := pt\<rparr>) = wf_maps s"
  "wf_maps (s\<lparr>next_vpage := nv\<rparr>) = wf_maps s" "wf_maps (s\<lparr>next_free_swap := sw\<rparr>) = wf_maps s" "wf_maps (upd_vpage v f s) = wf_maps s"
  by (simp_all add: wf_maps_def upd_vpage_def)

lemma core_upd:
  assumes "core ok s"
  shows "core ok (s\<lparr>vm_physmem := m\<rparr>)" "core ok (s\<lparr>files := fs\<rparr>)" "core ok (s\<lparr>current_pid := cp\<rparr>)" "core ok (s\<lparr>page_table_base_register := pb\<rparr>)"
  using core_facts(1) [OF assms] by (auto intro!: core_cong(1) [OF assms])

lemma touch_va_fields [simp]:
  "vpages (touch_va pid s) = vpages s" "next_vpage (touch_va pid s) = next_vpage s" "next_free_VA (touch_va pid s) = next_free_VA s"
  "max_swap_blocks (touch_va pid s) = max_swap_blocks s" "clock_queue (touch_va pid s) = clock_queue s" "mem_pages_cap (touch_va pid s) = mem_pages_cap s"
  "process_table (touch_va pid s) = process_table s" "next_free_swap (touch_va pid s) = next_free_swap s" "next_free_PPN (touch_va pid s) = next_free_PPN s"
  "filename_block_to_vpage (touch_va pid s) = filename_block_to_vpage s" "current_pid (touch_va pid s) = current_pid s"
  "page_table_base_register (touch_va pid s) = page_table_base_register s" "vm_physmem (touch_va pid s) = vm_physmem s" "files (touch_va pid s) = files s"
  by (simp_all add: touch_va_def)

lemma core_touch_va:
  assumes "core ok s"
  shows "core ok (touch_va pid s)" "live (touch_va pid s) = live s"
  using core_cong [OF assms wf_maps_set_va(2) [OF core_facts(1) [OF assms]], of pid] by (simp_all add: fun_eq_iff)

lemma live_upd [simp]:
  "live (s\<lparr>vm_physmem := m\<rparr>) = live s" "live (s\<lparr>files := fs\<rparr>) = live s" "live (s\<lparr>current_pid := cp\<rparr>) = live s"
  "live (s\<lparr>page_table_base_register := pb\<rparr>) = live s" "live (s\<lparr>vpages := vs\<rparr>) = live s" "live (s\<lparr>next_free_VA := na\<rparr>) = live s"
  "live (s\<lparr>process_table := pt\<rparr>) = live s" "live (s\<lparr>next_vpage := nv\<rparr>) = live s" "live (s\<lparr>next_free_swap := sw\<rparr>) = live s"
  "live (upd_vpage v f s) = live s"
  by (simp_all add: live_def fun_eq_iff upd_vpage_def)

lemma shows_all_fields [simp]:
  "shows_all (s\<lparr>vm_physmem := m\<rparr>) W = shows_all s W" "shows_all (s\<lparr>files := fs\<rparr>) W = shows_all s W"
  "shows_all (s\<lparr>current_pid := cp\<rparr>) W = shows_all s W" "shows_all (s\<lparr>page_table_base_register := pb\<rparr>) W = shows_all s W"
  "shows_all (s\<lparr>next_free_VA := na\<rparr>) W = shows_all s W" "shows_all (s\<lparr>filename_block_to_vpage := fb\<rparr>) W = shows_all s W"
  "shows_all (touch_va pid s) W = shows_all s W" "shows_all (s\<lparr>translateVA := tr\<rparr>) W = shows_all s W"
  by (rule shows_all_cong; simp add: touch_va_def)+

section \<open>Effects\<close>

lemma give_eff_fields [simp]:
  "vpages (give_eff fo v s) = vpages (give0 fo v s)" "translateVA (give_eff fo v s) = translateVA s" "lookup_va (give_eff fo v s) = lookup_va s"
  "next_free_VA (give_eff fo v s) = next_free_VA s" "vm_physmem (give_eff fo v s) = vm_physmem s"
  "current_pid (give_eff fo v s) = current_pid s" "page_table_base_register (give_eff fo v s) = page_table_base_register s"
  "files (give_eff fo v s) = files (give0 fo v s)" "next_vpage (give_eff fo v s) = next_vpage s" "next_free_swap (give_eff fo v s) = next_free_swap s"
  "clock_queue (give_eff fo v s) = clock_queue (give0 fo v s)" "next_free_PPN (give_eff fo v s) = next_free_PPN (give0 fo v s)"
  "map_option length (process_table (give_eff fo v s) pid) = map_option length (process_table s pid)"
  using static_give0 [of s fo v] unfolding give_eff_split static_def
  by (auto simp: unregister_def give0_fields lookup_va_def mappings_def fun_eq_iff)

lemma unregister_live: "live (unregister k s) w \<Longrightarrow> live s w"
  unfolding unregister_def live_def by (auto simp: AList.delete_eq)

lemma give_eff_live: "live (give_eff fo v s) w \<Longrightarrow> live s w"
  unfolding give_eff_split using unregister_live static_facts(2) [OF static_give0] by (metis (full_types))

text \<open>The state after the page \<open>v\<close> has been read, or zeroed, into its new frame.\<close>

definition load_eff :: "'f file_ops \<Rightarrow> nat \<Rightarrow> 'f pager \<Rightarrow> 'f pager" where
  "load_eff fo v s =
     (let t = give_eff fo v s; p = new_frame s; vp = vpages s v in
      if resident vp then t\<lparr>vm_physmem := (vm_physmem s)(p := zero_page)\<rparr>
      else let (_, buf, f) = file_read fo (files t) (backing vp) (blocks vp ! 0) (vm_physmem s p) in
        t\<lparr>vm_physmem := (vm_physmem s)(p := buf), files := f\<rparr>)"

text \<open>The state after a read that failed.\<close>

definition fail_eff :: "'f file_ops \<Rightarrow> nat \<Rightarrow> 'f pager \<Rightarrow> 'f pager" where
  "fail_eff fo v s = (let t = return_eff v (load_eff fo v s); vp = vpages s v in
     if length (affiliated vp) = 1 then unregister (filename vp, blocks vp ! 0) t else t)"

lemma load_eff_fields [simp]:
  "vpages (load_eff fo v s) = vpages (give0 fo v s)" "translateVA (load_eff fo v s) = translateVA s" "lookup_va (load_eff fo v s) = lookup_va s"
  "next_free_VA (load_eff fo v s) = next_free_VA s" "current_pid (load_eff fo v s) = current_pid s"
  "page_table_base_register (load_eff fo v s) = page_table_base_register s" "live (load_eff fo v s) = live (give_eff fo v s)"
  "clock_queue (load_eff fo v s) = clock_queue (give0 fo v s)"
  by (simp_all add: load_eff_def Let_def case_prod_beta)

lemma core_load: "core ok s \<Longrightarrow> live s v \<Longrightarrow> \<not> in_frame (vpages s v) \<Longrightarrow> core ok (load_eff fo v s)"
  by (simp add: load_eff_def Let_def case_prod_beta core_give core_upd(1,2))

lemma mapped_lookup: "lookup_va t = lookup_va s \<Longrightarrow> mapped t = mapped s"
  by (simp add: mapped_def fun_eq_iff)

lemma core_fail:
  assumes c: "core ok s" "mapped s v" "\<not> in_frame (vpages s v)" and r: "\<not> readable ok (vpages s v)" and ro: "resident_ok ok s"
  shows "core ok (fail_eff fo v s)"
proof -
  let ?l = "load_eff fo v s" and ?vp = "vpages s v"
  have v: "live s v" using core_facts(7) [OF c(1)] c(2) by blast
  have nv: "v \<notin> set (clock_queue s)" using on_clock [OF c(1)] c(3) by blast
  have lv: "live ?l v" using core_facts(7) [OF core_load [OF c(1) v c(3)]] c(2) mapped_lookup [OF load_eff_fields(3)] by metis
  moreover have "in_frame (vpages ?l v)" using new_frame_nonzero [OF c(1)] by (simp add: give0_vpages(1) [OF c(1) nv] in_frame_def)
  ultimately have cr: "core ok (return_eff v ?l)" by (rule core_return [OF core_load [OF c(1) v c(3)]])
  have st: "isSwap (vpages (return_eff v ?l) w) = isSwap (vpages s w)" "filename (vpages (return_eff v ?l) w) = filename (vpages s w)"
    "blocks (vpages (return_eff v ?l) w) = blocks (vpages s w)" for w
    using static_return [of ?l v] static_give0 [of s fo v] by (simp_all add: static_def)
  have res: "resident (vpages (return_eff v ?l) w) \<Longrightarrow> resident (vpages s w)" for w
    by (cases "w = v") (simp_all add: return_eff_vpages give0_vpages(2) [OF c(1) nv] split: if_splits)
  have "\<not> resident (vpages (return_eff v ?l) w) \<and> (\<not> mapped (return_eff v ?l) w \<or> \<not> ok (fst k) (snd k))"
    if "map_of (filename_block_to_vpage (return_eff v ?l)) k = Some w" "k = (filename ?vp, blocks ?vp ! 0)" for w k
  proof -
    have "live (return_eff v ?l) w" unfolding core_facts(7) [OF cr] registered_def using that(1) by blast
    then have "live ?l w" unfolding static_facts(2) [OF static_return] .
    then have "live s w" using give_eff_live by simp
    moreover have "\<not> isSwap (vpages s w)" "filename (vpages s w) = fst k" "blocks (vpages s w) = [snd k]"
      using files_okD(1) [OF core_facts(6) [OF cr] that(1)] by (simp_all add: st)
    ultimately show ?thesis using ro r res [of w] that(2) unfolding resident_ok_def readable_def by force
  qed
  with core_unregister [OF cr] cr show ?thesis unfolding fail_eff_def Let_def by presburger
qed

section \<open>The invariant after an effect\<close>

text \<open>Which process is current, and that every process with mappings is alive.\<close>

definition processes_ok :: "'f pager \<Rightarrow> bool" where
  "processes_ok s \<longleftrightarrow> page_table_base_register s = current_pid s \<and> (\<forall>pid. map_of (translateVA s) pid \<noteq> None \<longrightarrow> next_free_VA s pid \<noteq> None)"

lemma pager_inv_iff: "pager_inv ok s \<longleftrightarrow> core ok s \<and> resident_ok ok s \<and> shows_all s {v. live s v} \<and> processes_ok s"
  by (auto simp: pager_inv_def processes_ok_def)

lemma pager_invI:
  assumes "same_but_tables e t" "core ok e" "resident_ok ok e" "processes_ok e" "shows_all t W" "{v. live e v} \<subseteq> W"
  shows "pager_inv ok t"
proof -
  note f = same_but_tables_fields [OF assms(1)] same_but_tables_live [OF assms(1)]
  have "resident_ok ok t" using assms(3) by (simp add: resident_ok_def f)
  moreover have "processes_ok t" using assms(4) by (simp add: processes_ok_def f)
  moreover have "shows_all t {v. live t v}" using shows_all_mono [OF assms(5,6)] by (simp add: f)
  ultimately show ?thesis using core_tables [OF assms(1,2)] by (simp add: pager_inv_iff)
qed

lemma resident_give0:
  assumes "core ok s" "v \<notin> set (clock_queue s)" "w \<noteq> v" "resident (vpages (give0 fo v s) w)"
  shows "resident (vpages s w)"
  using assms(4) by (simp add: give0_vpages(2) [OF assms(1-3)] split: if_splits)

lemma resident_ok_give:
  assumes "core ok s" "v \<notin> set (clock_queue s)" "resident_ok ok s" "\<And>w. live t w \<Longrightarrow> live s w" "static s (give0 fo v s)"
    "\<And>w. resident (vpages t w) \<Longrightarrow> resident (vpages (give0 fo v s) w)" "readable ok (vpages s v) \<or> \<not> resident (vpages t v)"
    "\<And>w. isSwap (vpages t w) = isSwap (vpages s w)" "\<And>w. filename (vpages t w) = filename (vpages s w)" "\<And>w. blocks (vpages t w) = blocks (vpages s w)"
  shows "resident_ok ok t"
  unfolding resident_ok_def assms(8-10)
proof (intro allI impI)
  fix w assume w: "live t w \<and> \<not> isSwap (vpages s w) \<and> resident (vpages t w)"
  show "ok (filename (vpages s w)) (blocks (vpages s w) ! 0)"
  proof (cases "w = v")
    case True
    with w assms(7) show ?thesis by (auto simp: readable_def)
  next
    case False
    then have "resident (vpages s w)" using resident_give0 [OF assms(1,2)] assms(6) w by blast
    with w assms(3,4) show ?thesis by (simp add: resident_ok_def)
  qed
qed

section \<open>Loading a page\<close>

lemma give_new_ppn_overwrites: "give_new_ppn fo v (upd_vpage v (\<lambda>vp. vp\<lparr>physicalPage := pp\<rparr>) s) = give_new_ppn fo v s"
  by (simp add: give_new_ppn_def upd_vpage_def)

text \<open>The frame is taken and filled; what remains is the handling of a failed read.\<close>

lemma load_page_steps:
  assumes "core ok s" "mapped s v" "\<not> in_frame (vpages s v)" "shows_all s (W - {v})" "W \<subseteq> {v. live s v}" "file_laws fo ok"
  obtains t where "same_but_tables (load_eff fo v s) t" "shows_all t (W - {v})"
    "load_page fo v s = (if resident (vpages s v) \<or> readable ok (vpages s v) then Some (True, t) else do {
       s \<leftarrow> return_ppn_remove_from_clock v
         (if length (affiliated (vpages s v)) = 1 then unregister (filename (vpages s v), blocks (vpages s v) ! 0) t else t);
       assert_structure_consistency s;
       Some (False, s) })"
proof -
  let ?vp = "vpages s v"
  have v: "live s v" using core_facts(7) [OF assms(1)] assms(2) by blast
  have nv: "v \<notin> set (clock_queue s)" using on_clock [OF assms(1)] assms(3) by blast
  obtain t where t: "give_new_ppn fo v s = Some t" "same_but_tables (give_eff fo v s) t" "shows_all t (W - {v})"
    using give_new_ppn_spec [OF assms(1) v assms(2-5), of fo] by (auto elim: returnsE)
  note f = same_but_tables_fields [OF t(2)]
  have vp: "vpages t v = ?vp\<lparr>physicalPage := Some \<lparr>PPN = new_frame s, clocked = True, dirty = False\<rparr>, resident := True\<rparr>"
    by (simp add: f give0_vpages(1) [OF assms(1) nv])
  then have "(vpages t)(v := (vpages t v)\<lparr>resident := True\<rparr>) = vpages t" by (simp add: fun_upd_idem)
  then have res: "upd_vpage v (\<lambda>vp. vp\<lparr>resident := True\<rparr>) (t\<lparr>vm_physmem := m\<rparr>) = t\<lparr>vm_physmem := m\<rparr>"
    "upd_vpage v (\<lambda>vp. vp\<lparr>resident := True\<rparr>) (t\<lparr>vm_physmem := m, files := fl\<rparr>) = t\<lparr>vm_physmem := m, files := fl\<rparr>" for m fl
    by (simp_all add: upd_vpage_def)
  have bl: "blocks ?vp \<noteq> []" "at (blocks ?vp) 0 = Some (blocks ?vp ! 0)" using page_okD(3) [OF assms(1) v] by (simp_all add: at_def)
  have bk: "backing (vpages t v) = backing ?vp" "blocks (vpages t v) = blocks ?vp" by (simp_all add: backing_def vp)
  have r0: "resident (vpages (upd_vpage v (\<lambda>vp. vp\<lparr>physicalPage := pp\<rparr>) s) v) = resident ?vp" for pp by (simp add: upd_vpage_def)
  have pv: "physicalPage (vpages t v) = Some \<lparr>PPN = new_frame s, clocked = True, dirty = False\<rparr>" by (simp add: vp)
  have mem: "vm_physmem t = vm_physmem s" by (simp add: f)
  note step = load_page_def Let_def give_new_ppn_overwrites t(1) r0 Option.bind.simps pv bk bl mem physical_page.simps
  show ?thesis
  proof (cases "resident ?vp")
    case True
    let ?t = "t\<lparr>vm_physmem := (vm_physmem s)(new_frame s := zero_page)\<rparr>"
    have "load_page fo v s = Some (True, ?t)" unfolding step using True by (simp add: res)
    moreover have "same_but_tables (load_eff fo v s) ?t" using same_but_tables_upd(5) [OF t(2)] True by (simp add: load_eff_def Let_def)
    ultimately show ?thesis using t(3) True by (intro that [of ?t]) simp_all
  next
    case False
    let ?r = "file_read fo (files t) (backing ?vp) (blocks ?vp ! 0) (vm_physmem s (new_frame s))"
    let ?t = "t\<lparr>vm_physmem := (vm_physmem s)(new_frame s := fst (snd ?r)), files := snd (snd ?r)\<rparr>"
    let ?u = "if length (affiliated ?vp) = 1 then unregister (filename ?vp, blocks ?vp ! 0) ?t else ?t"
    have u: "(if length (affiliated (vpages ?t v)) = 1 then remove_from_filename_block v ?t else Some ?t) = Some ?u"
      by (simp add: remove_from_filename_block_def vp bl unregister_def)
    have "fst ?r = readable ok ?vp" by (rule file_read_ok [OF assms(6)])
    with u False have "load_page fo v s = (if readable ok ?vp then Some (True, ?t) else do {
        s \<leftarrow> return_ppn_remove_from_clock v ?u; assert_structure_consistency s; Some (False, s) })"
      unfolding step by (simp add: case_prod_beta res)
    moreover have "same_but_tables (load_eff fo v s) ?t"
      using same_but_tables_upd(4) [OF same_but_tables_upd(5) [OF t(2)]] False by (simp add: load_eff_def Let_def case_prod_beta f)
    ultimately show ?thesis using t(3) False by (intro that [of ?t]) simp_all
  qed
qed

text \<open>A page of the core, seen in a state that differs in the tables only.\<close>

lemma core_page_entries:
  assumes "core ok e" "same_but_tables e t" "live e v"
  shows "has_entries t v" "disjoint_pages t {v. live e v}"
proof -
  note f = same_but_tables_fields [OF assms(2)]
  show "has_entries t v" using core_entries [OF assms(1,3)] same_but_tables_pte [OF assms(2)] by (simp add: has_entries_def f)
  show "disjoint_pages t {v. live e v}" using core_disjoint [OF assms(1)] by (simp add: disjoint_pages_def f)
qed

lemma unregister_simps [simp]:
  "vpages (unregister k s) = vpages s" "clock_queue (unregister k s) = clock_queue s" "get_pte (unregister k s) p = get_pte s p"
  "shows_all (unregister k s) W = shows_all s W" "has_entries (unregister k s) v = has_entries s v" "disjoint_pages (unregister k s) D = disjoint_pages s D"
  "translateVA (unregister k s) = translateVA s" "next_free_VA (unregister k s) = next_free_VA s"
  "current_pid (unregister k s) = current_pid s" "page_table_base_register (unregister k s) = page_table_base_register s"
  by (simp_all add: unregister_def has_entries_def disjoint_pages_def)

lemma return_unregister: "return_eff v (unregister k s) = unregister k (return_eff v s)"
  by (simp add: return_eff_def unregister_def upd_vpage_def frame_def)

lemma same_but_tables_effects:
  assumes "same_but_tables s t"
  shows "same_but_tables (return_eff v s) (return_eff v t)" "same_but_tables (unregister k s) (unregister k t)"
proof -
  obtain f where "t = s\<lparr>process_table := f\<rparr>" "\<forall>pid. map_option length (f pid) = map_option length (process_table s pid)"
    using assms by (auto simp: same_but_tables_def)
  then show "same_but_tables (return_eff v s) (return_eff v t)" "same_but_tables (unregister k s) (unregister k t)"
    by (auto simp: same_but_tables_def return_eff_def unregister_def upd_vpage_def frame_def intro!: exI [of _ f])
qed

lemma return_eff_fields [simp]:
  "translateVA (return_eff v s) = translateVA s" "next_free_VA (return_eff v s) = next_free_VA s"
  "current_pid (return_eff v s) = current_pid s" "page_table_base_register (return_eff v s) = page_table_base_register s"
  by (simp_all add: return_eff_def upd_vpage_def)

lemma fail_eff_fields:
  "vpages (fail_eff fo v s) = vpages (return_eff v (load_eff fo v s))" "translateVA (fail_eff fo v s) = translateVA s"
  "next_free_VA (fail_eff fo v s) = next_free_VA s" "current_pid (fail_eff fo v s) = current_pid s"
  "page_table_base_register (fail_eff fo v s) = page_table_base_register s" "live (fail_eff fo v s) w \<Longrightarrow> live s w"
  using unregister_live [of _ "return_eff v (load_eff fo v s)" w] static_facts(2) [OF static_return, of v "load_eff fo v s"] give_eff_live [of fo v s w]
  by (simp_all add: fail_eff_def Let_def split: if_splits)

lemma resident_ok_fail:
  assumes "core ok s" "v \<notin> set (clock_queue s)" "resident_ok ok s"
  shows "resident_ok ok (fail_eff fo v s)"
proof (rule resident_ok_give [OF assms fail_eff_fields(6) static_give0])
  let ?t = "return_eff v (load_eff fo v s)"
  show "isSwap (vpages (fail_eff fo v s) w) = isSwap (vpages s w)" "filename (vpages (fail_eff fo v s) w) = filename (vpages s w)"
    "blocks (vpages (fail_eff fo v s) w) = blocks (vpages s w)" for w
    using static_return [of "load_eff fo v s" v] static_give0 [of s fo v] by (simp_all add: fail_eff_fields(1) static_def)
  show "resident (vpages (fail_eff fo v s) w) \<Longrightarrow> resident (vpages (give0 fo v s) w)" for w
    by (cases "w = v") (simp_all add: fail_eff_fields(1) return_eff_vpages)
qed (simp_all add: fail_eff_fields(1) return_eff_vpages)

lemma load_page_fails:
  assumes inv: "pager_inv ok s" and v: "mapped s v" "\<not> in_frame (vpages s v)" and r: "file_laws fo ok" "\<not> readable ok (vpages s v)"
  shows "returns (\<lambda>(b, t). \<not> b \<and> same_but_tables (fail_eff fo v s) t \<and> pager_inv ok t) (load_page fo v s)"
proof -
  have c: "core ok s" and ro: "resident_ok ok s" and sh: "shows_all s {v. live s v}" and po: "processes_ok s"
    using inv by (simp_all add: pager_inv_iff)
  have lv: "live s v" using core_facts(7) [OF c] v(1) by blast
  have nv: "v \<notin> set (clock_queue s)" using on_clock [OF c] v(2) by blast
  let ?e = "load_eff fo v s" and ?vp = "vpages s v" and ?W = "{w. live s w}" and ?D = "{w. live (load_eff fo v s) w}"
  let ?k = "(filename ?vp, blocks ?vp ! 0)"
  have nres: "\<not> resident ?vp" using ro lv r(2) by (auto simp: resident_ok_def readable_def)
  have "shows_all s (?W - {v})" using sh by (rule shows_all_mono) blast
  then obtain t where t: "same_but_tables ?e t" "shows_all t (?W - {v})"
    "load_page fo v s = do { s \<leftarrow> return_ppn_remove_from_clock v (if length (affiliated ?vp) = 1 then unregister ?k t else t);
       assert_structure_consistency s; Some (False, s) }"
    by (rule load_page_steps [OF c v _ order_refl r(1)]) (use nres r(2) in simp)
  note f = same_but_tables_fields [OF t(1)]
  let ?u = "if length (affiliated ?vp) = 1 then unregister ?k t else t"
  have ce: "core ok ?e" by (rule core_load [OF c lv v(2)])
  have le: "live ?e v" using core_facts(7) [OF ce] v(1) mapped_lookup [OF load_eff_fields(3)] by metis
  note ent = core_page_entries [OF ce t(1) le]
  have "v \<in> set (clock_queue ?u)" "affiliated (vpages ?u v) \<noteq> []" "physicalPage (vpages ?u v) \<noteq> None"
    using affiliated_mapped [OF c lv] v(1) by (simp_all add: f give0_fields give0_vpages(1) [OF c nv])
  moreover have "has_entries ?u v" "disjoint_pages ?u ?D" using ent by simp_all
  moreover have "shows_all ?u (?D - {v})" using t(2) give_eff_live [of fo v s] by (auto intro: shows_all_mono)
  ultimately obtain w where w: "return_ppn_remove_from_clock v ?u = Some w" "same_but_tables (return_eff v ?u) w" "shows_all w ?D"
    using return_ppn_spec [of v ?u ?D ?D] le by (auto elim: returnsE)
  have "return_eff v ?u = (if length (affiliated ?vp) = 1 then unregister ?k (return_eff v t) else return_eff v t)" by (simp add: return_unregister)
  with same_but_tables_effects [OF t(1)] same_but_tables_effects(2) [OF same_but_tables_effects(1) [OF t(1)]]
  have fe: "same_but_tables (fail_eff fo v s) (return_eff v ?u)" by (simp add: fail_eff_def Let_def)
  have "live (fail_eff fo v s) x \<Longrightarrow> live ?e x" for x
    using unregister_live [of _ "return_eff v ?e" x] static_facts(2) [OF static_return, of v ?e] by (auto simp: fail_eff_def Let_def split: if_splits)
  moreover have "processes_ok (fail_eff fo v s)" using po by (simp add: processes_ok_def fail_eff_fields)
  ultimately have "pager_inv ok w"
    by (intro pager_invI [OF same_but_tables_trans [OF fe w(2)] core_fail [OF c v r(2) ro] resident_ok_fail [OF c nv ro] _ w(3)]) auto
  then show ?thesis using t(3) w(1) consistency_holds [of ok w] same_but_tables_trans [OF fe w(2)] by (simp add: returns_def)
qed

section \<open>The end of a fault\<close>

text \<open>The page is marked as referenced, and as changed by a write.\<close>

definition mark :: "bool \<Rightarrow> virtual_page \<Rightarrow> virtual_page" where
  "mark write vp = vp\<lparr>physicalPage := map_option (\<lambda>pp. pp\<lparr>dirty := dirty pp \<or> write, clocked := True\<rparr>) (physicalPage vp)\<rparr>"

lemma mark_fields [simp]:
  "affiliated (mark w vp) = affiliated vp" "isSwap (mark w vp) = isSwap vp" "filename (mark w vp) = filename vp"
  "blocks (mark w vp) = blocks vp" "resident (mark w vp) = resident vp" "in_frame (mark w vp) = in_frame vp"
  by (auto simp: mark_def in_frame_def split: option.splits)

definition fault_eff :: "'f file_ops \<Rightarrow> (string \<Rightarrow> nat \<Rightarrow> bool) \<Rightarrow> nat \<Rightarrow> bool \<Rightarrow> 'f pager \<Rightarrow> int \<times> 'f pager" where
  "fault_eff fo ok v write s =
     (if in_frame (vpages s v) then (0, upd_vpage v (mark write) s)
      else if readable ok (vpages s v) then (0, upd_vpage v (mark write) (load_eff fo v s))
      else (-1, fail_eff fo v s))"

lemma core_mark:
  assumes "core ok s" "live s v" "in_frame (vpages s v)"
  shows "core ok (upd_vpage v (mark write) s)"
proof (rule core_dynamic [OF assms(1)])
  let ?t = "upd_vpage v (mark write) s"
  show "static s ?t" by (auto simp: static_def upd_vpage_def)
  show "phys_ok (vpages ?t w)" if "live s w" for w
    using core_phys [OF assms(1) that] assms(3) by (cases "w = v") (auto simp: upd_vpage_def phys_ok_def mark_def in_frame_def)
  have "frame ?t = frame s" using assms(3) by (auto simp: fun_eq_iff frame_def upd_vpage_def mark_def in_frame_def split: option.splits)
  moreover have "in_frame (vpages ?t w) = in_frame (vpages s w)" for w by (simp add: upd_vpage_def)
  moreover have "clock_queue ?t = clock_queue s" "next_free_PPN ?t = next_free_PPN s" "mem_pages_cap ?t = mem_pages_cap s" by (simp_all add: upd_vpage_def)
  ultimately show "frames_ok ?t" using core_facts(4) [OF assms(1)] unfolding frames_ok_def by simp
qed

text \<open>Showing one more page completes the tables.\<close>

lemma show_page:
  assumes "same_but_tables e t" "core ok e" "resident_ok ok e" "processes_ok e" "mapped e v" "shows_all t ({v. live e v} - {v})"
  shows "returns (\<lambda>u. same_but_tables e u \<and> pager_inv ok u) (updatePTEs v t)"
proof -
  have v: "live e v" using core_facts(7) [OF assms(2)] assms(5) by blast
  have "pte_bits (vpages e v) \<noteq> None"
    using affiliated_mapped [OF assms(2) v] assms(5) page_okD(4,6) [OF assms(2) v] by (intro pte_bits_counts) auto
  then have "pte_bits (vpages t v) \<noteq> None" by (simp add: same_but_tables_fields [OF assms(1)])
  from updatePTEs_shows [OF this core_page_entries(1) [OF assms(2,1) v] assms(6) core_page_entries(2) [OF assms(2,1) v]] v
  have "returns (\<lambda>u. same_but_tables t u \<and> shows_all u {v. live e v}) (updatePTEs v t)" by simp
  then show ?thesis by (rule returns_mono) (use assms in \<open>blast intro: pager_invI same_but_tables_trans\<close>)
qed

lemma mark_shown:
  assumes e: "same_but_tables e t" "core ok e" "resident_ok ok e" "processes_ok e" "mapped e v" "in_frame (vpages e v)"
    and sh: "shows_all t ({v. live e v} - {v})"
  shows "returns (\<lambda>u. same_but_tables (upd_vpage v (mark write) e) u \<and> pager_inv ok u)
    (do { s \<leftarrow> upd_phys v (\<lambda>pp. pp\<lparr>dirty := (dirty pp \<or> write), clocked := True\<rparr>) t; updatePTEs v s })"
proof -
  let ?e = "upd_vpage v (mark write) e" and ?t = "upd_vpage v (mark write) t"
  have v: "live e v" using core_facts(7) [OF e(2)] e(5) by blast
  obtain pp where "physicalPage (vpages t v) = Some pp" using e(6) by (auto simp: in_frame_def same_but_tables_fields [OF e(1)] split: option.splits)
  then have "upd_phys v (\<lambda>pp. pp\<lparr>dirty := (dirty pp \<or> write), clocked := True\<rparr>) t = Some ?t"
    by (simp add: upd_phys_def upd_vpage_def mark_def)
  moreover have "resident_ok ok ?e" using e(3) by (simp add: resident_ok_def) (simp add: upd_vpage_def)
  moreover have "processes_ok ?e" using e(4) by (simp add: processes_ok_def upd_vpage_def)
  moreover have "mapped ?e v" using e(5) mapped_lookup [of ?e e] by simp
  moreover have "shows_all ?t ({v. live ?e v} - {v})" using shows_all_upd [OF sh] by simp
  ultimately show ?thesis using show_page [OF same_but_tables_upd(6) [OF e(1)] core_mark [OF e(2) v e(6)]] by auto
qed

text \<open>A page in memory that is referenced and changed can be written already, so no write to it faults.\<close>

definition written :: "virtual_page \<Rightarrow> bool" where
  "written vp = (case physicalPage vp of None \<Rightarrow> False | Some pp \<Rightarrow> dirty pp \<and> clocked pp)"

lemma resident_ok_load:
  assumes "core ok s" "v \<notin> set (clock_queue s)" "resident_ok ok s" "readable ok (vpages s v)"
  shows "resident_ok ok (load_eff fo v s)"
  by (rule resident_ok_give [OF assms(1-3) _ static_give0])
    (use assms(4) static_give0 [of s fo v] give_eff_live [of fo v s] in \<open>simp_all add: static_def\<close>)

lemma fault_page_in_spec:
  assumes inv: "pager_inv ok s" and v: "mapped s v" and fo: "file_laws fo ok"
    and w: "write \<and> length (blocks (vpages s v)) \<le> 1 \<longrightarrow> \<not> written (vpages s v)"
  shows "returns (\<lambda>(r, t). r = fst (fault_eff fo ok v write s) \<and> same_but_tables (snd (fault_eff fo ok v write s)) t \<and> pager_inv ok t)
    (fault_page_in fo v write s)"
proof -
  have c: "core ok s" and ro: "resident_ok ok s" and sh: "shows_all s {v. live s v}" and po: "processes_ok s"
    using inv by (simp_all add: pager_inv_iff)
  have lv: "live s v" using core_facts(7) [OF c] v by blast
  have sh': "shows_all s ({v. live s v} - {v})" using sh by (rule shows_all_mono) blast
  have needs: "(if \<not> resident (vpages s v) then Some True else map_option (\<lambda>pp. PPN pp = 0) (physicalPage (vpages s v)))
      = Some (\<not> in_frame (vpages s v))"
    using page_okD(6) [OF c lv] by (auto simp: in_frame_def split: option.splits)
  have tail: "returns (\<lambda>(r, t). r = 0 \<and> same_but_tables (upd_vpage v (mark write) e) t \<and> pager_inv ok t) (do {
       pp \<leftarrow> physicalPage (vpages t v);
       cassert (dirty pp \<and> write \<longrightarrow> 1 < length (blocks (vpages t v)) \<or> \<not> clocked pp);
       s \<leftarrow> upd_phys v (\<lambda>pp. pp\<lparr>dirty := (dirty pp \<or> write), clocked := True\<rparr>) t;
       s \<leftarrow> updatePTEs v s;
       assert_structure_consistency s;
       Some (0, s) })"
    if e: "same_but_tables e t" "core ok e" "resident_ok ok e" "processes_ok e" "mapped e v" "in_frame (vpages e v)" "shows_all t ({v. live e v} - {v})"
      and nw: "write \<and> length (blocks (vpages e v)) \<le> 1 \<longrightarrow> \<not> written (vpages e v)" for e t
  proof -
    obtain u where u: "do { s \<leftarrow> upd_phys v (\<lambda>pp. pp\<lparr>dirty := (dirty pp \<or> write), clocked := True\<rparr>) t; updatePTEs v s } = Some u"
      "same_but_tables (upd_vpage v (mark write) e) u" "pager_inv ok u" using mark_shown [OF e] by (auto elim: returnsE)
    obtain pp where pp: "physicalPage (vpages t v) = Some pp" using e(6) by (auto simp: in_frame_def same_but_tables_fields [OF e(1)] split: option.splits)
    have "cassert (dirty pp \<and> write \<longrightarrow> 1 < length (blocks (vpages t v)) \<or> \<not> clocked pp) = Some ()"
      using nw pp by (auto simp: cassert_def written_def same_but_tables_fields [OF e(1)])
    with u(1) pp show ?thesis using u(2,3) consistency_holds [OF u(3)]
      by (auto simp: returns_def split: Option.bind_splits)
  qed
  show ?thesis
  proof (cases "in_frame (vpages s v)")
    case True
    from tail [OF same_but_tables_refl c ro po v True sh' w] True show ?thesis
      unfolding fault_page_in_def needs by (simp add: fault_eff_def)
  next
    case out: False
    have nv: "v \<notin> set (clock_queue s)" using on_clock [OF c] out by blast
    show ?thesis
    proof (cases "readable ok (vpages s v)")
      case True
      obtain t where t: "load_page fo v s = Some (True, t)" "same_but_tables (load_eff fo v s) t" "shows_all t ({v. live s v} - {v})"
        using sh' by (rule load_page_steps [OF c v out _ order_refl fo]) (use True in simp)
      have vp: "vpages (load_eff fo v s) v = (vpages s v)\<lparr>physicalPage := Some \<lparr>PPN = new_frame s, clocked = True, dirty = False\<rparr>, resident := True\<rparr>"
        by (simp add: give0_vpages(1) [OF c nv])
      have "shows_all t ({w. live (load_eff fo v s) w} - {v})" using t(3) give_eff_live [of fo v s] by (auto intro: shows_all_mono)
      moreover have "processes_ok (load_eff fo v s)" using po by (simp add: processes_ok_def)
      moreover have "mapped (load_eff fo v s) v" using v mapped_lookup [OF load_eff_fields(3)] by metis
      moreover have "in_frame (vpages (load_eff fo v s) v)" "\<not> written (vpages (load_eff fo v s) v)"
        using new_frame_nonzero [OF c] unfolding vp by (simp_all add: in_frame_def written_def)
      ultimately show ?thesis
        using tail [OF t(2) core_load [OF c lv out] resident_ok_load [OF c nv ro True]] out True t(1)
        unfolding fault_page_in_def needs by (simp add: fault_eff_def)
    next
      case False
      with load_page_fails [OF inv v out fo False] out show ?thesis
        unfolding fault_page_in_def needs by (auto simp: fault_eff_def returns_def)
    qed
  qed
qed

end
