(* ===== verification/Pager_Mappings.thy ===== *)
theory Pager_Mappings
  imports Pager_Faults
begin

text \<open>
  Adding and removing mappings: a new page at a new address, a further mapping of a page that
  exists, and the end of a mapping keep the core of the invariant.
\<close>

section \<open>Parts of the core\<close>

lemma swap_ok_change:
  assumes s: "swap_ok s" and t: "swap_blocks t = (swap_blocks s)(v := B)" "max_swap_blocks t = max_swap_blocks s"
    and B: "B \<union> set (next_free_swap t) = swap_blocks s v \<union> set (next_free_swap s)" "B \<inter> set (next_free_swap t) = {}" "distinct (next_free_swap t)"
    and d: "live t v \<and> isSwap (vpages t v) \<longrightarrow> distinct (blocks (vpages t v))"
    and o: "\<And>w. w \<noteq> v \<Longrightarrow> live t w \<and> isSwap (vpages t w) \<Longrightarrow> live s w \<and> isSwap (vpages s w) \<and> blocks (vpages t w) = blocks (vpages s w)"
  shows "swap_ok t"
proof -
  let ?F = "set (next_free_swap s)" and ?F' = "set (next_free_swap t)"
  have s': "\<And>v w. v \<noteq> w \<Longrightarrow> swap_blocks s v \<inter> swap_blocks s w = {}" "\<And>v. swap_blocks s v \<inter> ?F = {}"
    "(\<Union>v. swap_blocks s v) \<union> ?F = {..<max_swap_blocks s}" "\<And>v. live s v \<and> isSwap (vpages s v) \<longrightarrow> distinct (blocks (vpages s v))"
    using s unfolding swap_ok_def by blast+
  have out: "swap_blocks s w \<inter> (B \<union> ?F') = {}" if "w \<noteq> v" for w using s'(1) [OF that] s'(2) unfolding B(1) by blast
  have "(\<Union>v. swap_blocks t v) \<union> ?F' = (\<Union>w \<in> - {v}. swap_blocks s w) \<union> (B \<union> ?F')" unfolding t(1) by auto
  also have "\<dots> = (\<Union>w. swap_blocks s w) \<union> ?F" unfolding B(1) by auto
  finally have "(\<Union>v. swap_blocks t v) \<union> ?F' = {..<max_swap_blocks t}" using s'(3) t(2) by simp
  moreover have "swap_blocks t x \<inter> swap_blocks t y = {}" if "x \<noteq> y" for x y
    using that s'(1) [OF that] out [of x] out [of y] unfolding t(1) by auto
  moreover have "swap_blocks t x \<inter> ?F' = {}" for x using out [of x] B(2) unfolding t(1) by auto
  moreover have "distinct (blocks (vpages t w))" if "live t w \<and> isSwap (vpages t w)" for w
    using that d o [of w] s'(4) by (cases "w = v") auto
  ultimately show ?thesis using B(3) unfolding swap_ok_def by blast
qed

lemma frames_ok_change:
  assumes "frames_ok s" "clock_queue t = clock_queue s" "next_free_PPN t = next_free_PPN s" "mem_pages_cap t = mem_pages_cap s"
    "\<And>w. live t w \<and> in_frame (vpages t w) \<longleftrightarrow> live s w \<and> in_frame (vpages s w)" "\<And>w. live s w \<Longrightarrow> frame t w = frame s w"
  shows "frames_ok t"
proof -
  have "map (frame t) (clock_queue s) = map (frame s) (clock_queue s)"
    using assms(1,6) unfolding frames_ok_def by (intro map_cong) auto
  then show ?thesis using assms(1) unfolding frames_ok_def assms(2-5) by (simp only:) simp
qed

lemma arena_ok_change:
  assumes "arena_ok s" "next_free_VA t = next_free_VA s" "\<And>pid. map_option length (process_table t pid) = map_option length (process_table s pid)"
    "next_vpage s \<le> next_vpage t"
    "\<And>p a w. lookup_va t p a = Some w \<Longrightarrow> lookup_va s p a = Some w \<or> w < next_vpage t \<and> arena_va a \<and> (\<exists>nva. next_free_VA s p = Some nva \<and> a < nva)"
  shows "arena_ok t"
proof -
  have "w < next_vpage t \<and> arena_va a \<and> (\<exists>nva. next_free_VA s p = Some nva \<and> a < nva)" if "lookup_va t p a = Some w" for p a w
    using assms(5) [OF that] arena_okD [OF assms(1)] assms(4) less_le_trans by blast
  with assms(1) show ?thesis unfolding arena_ok_def assms(2,3) by blast
qed

lemma core_bounds: "core ok s \<Longrightarrow> live s v \<Longrightarrow> v < next_vpage s"
  using core_facts(7) arena_okD(1) [OF core_facts(2)] files_okD(1) [OF core_facts(6)] unfolding mapped_def registered_def by blast

section \<open>A new page\<close>

text \<open>
  The page \<open>rec\<close> is new, mapped at a fresh address; its block comes from the free swap blocks, or
  it is registered for a block of a file.
\<close>

lemma core_map_new:
  assumes c: "core ok s" and wf: "wf_maps t" and l: "lookup_va t = (\<lambda>p a. if p = pid \<and> a = va then Some (next_vpage s) else lookup_va s p a)"
    and fresh: "lookup_va s pid va = None" "arena_va va" "next_free_VA s pid = Some nva" "va < nva"
    and e: "vpages t = (vpages s)(next_vpage s := rec)" "next_vpage t = Suc (next_vpage s)" "next_free_VA t = next_free_VA s"
      "max_swap_blocks t = max_swap_blocks s" "clock_queue t = clock_queue s" "mem_pages_cap t = mem_pages_cap s" "next_free_PPN t = next_free_PPN s"
      "\<And>pid. map_option length (process_table t pid) = map_option length (process_table s pid)"
    and rc: "affiliated rec = [VA_to_PTE va pid]" "phys_ok rec" "\<not> in_frame rec" "blocks rec = [b]"
    and cases: "isSwap rec \<and> mset (next_free_swap s) = add_mset b (mset (next_free_swap t)) \<and> map_of (filename_block_to_vpage t) = map_of (filename_block_to_vpage s)
      \<or> \<not> isSwap rec \<and> next_free_swap t = next_free_swap s \<and> map_of (filename_block_to_vpage s) (filename rec, b) = None
        \<and> map_of (filename_block_to_vpage t) = (map_of (filename_block_to_vpage s))((filename rec, b) \<mapsto> next_vpage s)"
  shows "core ok t" "live t w \<longleftrightarrow> live s w \<or> w = next_vpage s"
proof -
  let ?v = "next_vpage s"
  note f = core_facts [OF c]
  have nl: "\<not> live s ?v" using core_bounds [OF c] by blast
  have ml: "lookup_va s p a \<noteq> Some ?v" for p a using nl f(7) by (auto simp: mapped_def)
  have mt: "mapped t w \<longleftrightarrow> mapped s w \<or> w = ?v" for w
  proof -
    have "mapped t w" if "lookup_va s p a = Some w" for p a
      using that fresh(1) unfolding mapped_def l by (intro exI [of _ p] exI [of _ a]) auto
    moreover have "mapped t ?v" unfolding mapped_def l by auto
    moreover have "mapped s w \<or> w = ?v" if "mapped t w" using that unfolding mapped_def l by (auto split: if_splits)
    ultimately show ?thesis unfolding mapped_def [of s] by blast
  qed
  have rt: "registered s w \<Longrightarrow> registered t w" "registered t w \<Longrightarrow> registered s w \<or> w = ?v" for w
    using cases unfolding registered_def by (metis fun_upd_other option.distinct(1), metis fun_upd_apply option.inject)
  show lv: "live t w \<longleftrightarrow> live s w \<or> w = ?v" for w unfolding live_iff [OF wf] f(7) mt using rt by blast
  have en: "entries_of t w = (if w = ?v then {VA_to_PTE va pid} else entries_of s w)" for w
    using ml fresh(1) unfolding entries_of_def l by (auto split: if_splits) (metis option.distinct(1))+
  have "page_ok t w" if "live t w" for w
  proof (cases "w = ?v")
    case True
    then show ?thesis using rc by (auto simp: page_ok_def Let_def e en phys_ok_def)
  next
    case False
    then show ?thesis using f(3) [of w] that unfolding lv by (simp add: page_ok_def e en)
  qed
  moreover have "arena_ok t" using fresh by (intro arena_ok_change [OF f(2) e(3,8)]) (auto simp: e(2) l split: if_splits)
  moreover have "frames_ok t"
    using nl rc(3) by (intro frames_ok_change [OF f(4) e(5,7,6)]) (auto simp: lv e(1) frame_def)
  moreover have "swap_ok t"
  proof (rule swap_ok_change [OF f(5) _ e(4), where v = ?v and B = "if isSwap rec then {b} else {}"])
    show "swap_blocks t = (swap_blocks s)(?v := if isSwap rec then {b} else {})"
      using nl by (auto simp: fun_eq_iff swap_blocks_def lv e(1) rc(4))
    have sb: "swap_blocks s ?v = {}" using nl by (simp add: swap_blocks_def)
    have d: "distinct (next_free_swap s)" using f(5) by (simp add: swap_ok_def)
    have m: "isSwap rec \<Longrightarrow> mset (next_free_swap s) = mset (b # next_free_swap t)" "\<not> isSwap rec \<Longrightarrow> next_free_swap t = next_free_swap s"
      using cases by auto
    have sw: "set (next_free_swap s) = insert b (set (next_free_swap t)) \<and> distinct (b # next_free_swap t)" if "isSwap rec"
      using mset_eq_setD [OF m(1) [OF that]] mset_eq_imp_distinct_iff [OF m(1) [OF that]] d by simp
    have "(if isSwap rec then {b} else {}) \<union> set (next_free_swap t) = swap_blocks s ?v \<union> set (next_free_swap s)
        \<and> (if isSwap rec then {b} else {}) \<inter> set (next_free_swap t) = {} \<and> distinct (next_free_swap t)"
    proof (cases "isSwap rec")
      case True
      with sw [OF True] show ?thesis by (simp add: sb)
    next
      case False
      then show ?thesis using d by (simp add: sb m(2))
    qed
    then show "(if isSwap rec then {b} else {}) \<union> set (next_free_swap t) = swap_blocks s ?v \<union> set (next_free_swap s)"
      "(if isSwap rec then {b} else {}) \<inter> set (next_free_swap t) = {}" "distinct (next_free_swap t)" by blast+
  qed (use rc(4) in \<open>auto simp: lv e(1)\<close>)
  moreover have "files_ok ok t"
  proof -
    have "?v \<noteq> w" if "map_of (filename_block_to_vpage s) k = Some w" for k w using files_okD(1) [OF f(6) that] by simp
    then have a: "w < next_vpage t \<and> \<not> isSwap (vpages t w) \<and> filename (vpages t w) = fst k \<and> blocks (vpages t w) = [snd k]"
      if "map_of (filename_block_to_vpage t) k = Some w" for k w
      using that cases files_okD(1) [OF f(6), of k w] rc(4) by (auto simp: e(1,2) split: if_splits)
    have b: "map_of (filename_block_to_vpage t) (filename (vpages t w), blocks (vpages t w) ! 0) = Some w"
      if w: "live t w \<and> \<not> isSwap (vpages t w) \<and> ok (filename (vpages t w)) (blocks (vpages t w) ! 0)" for w
    proof (cases "w = ?v")
      case True
      then show ?thesis using cases w rc(4) by (auto simp: e(1))
    next
      case False
      then have "map_of (filename_block_to_vpage s) (filename (vpages s w), blocks (vpages s w) ! 0) = Some w"
        using w files_okD(2) [OF f(6), of w] by (simp add: lv e(1))
      then show ?thesis using False cases by (auto simp: e(1))
    qed
    from a b show ?thesis unfolding files_ok_def by blast
  qed
  moreover have "affil_ok t" using f(8) rc(1) by (auto simp: affil_ok_def e(1) en)
  ultimately show "core ok t" using wf unfolding core_def by blast
qed

section \<open>One mapping more, or one less\<close>

lemma core_remap:
  assumes c: "core ok s" and wf: "wf_maps t" and v: "live s v"
    and l: "\<And>p a w. w \<noteq> v \<Longrightarrow> lookup_va t p a = Some w \<longleftrightarrow> lookup_va s p a = Some w"
      "\<And>p a. lookup_va t p a = Some v \<Longrightarrow> lookup_va s p a = Some v \<or> arena_va a \<and> (\<exists>nva. next_free_VA s p = Some nva \<and> a < nva)"
    and e: "\<And>w. w \<noteq> v \<Longrightarrow> vpages t w = vpages s w" "next_vpage t = next_vpage s" "next_free_VA t = next_free_VA s"
      "max_swap_blocks t = max_swap_blocks s" "clock_queue t = clock_queue s" "mem_pages_cap t = mem_pages_cap s" "next_free_PPN t = next_free_PPN s"
      "\<And>pid. map_option length (process_table t pid) = map_option length (process_table s pid)"
      "map_of (filename_block_to_vpage t) = map_of (filename_block_to_vpage s)"
    and vp: "isSwap (vpages t v) = isSwap (vpages s v)" "filename (vpages t v) = filename (vpages s v)" "resident (vpages t v) = resident (vpages s v)"
      "physicalPage (vpages t v) = physicalPage (vpages s v)" "\<not> isSwap (vpages s v) \<Longrightarrow> blocks (vpages t v) = blocks (vpages s v)"
    and aff: "set (affiliated (vpages t v)) = entries_of t v" "distinct (affiliated (vpages t v))"
    and sw: "isSwap (vpages s v) \<Longrightarrow> length (blocks (vpages t v)) = length (affiliated (vpages t v))"
      "isSwap (vpages s v) \<Longrightarrow> mset (blocks (vpages t v)) + mset (next_free_swap t) = mset (blocks (vpages s v)) + mset (next_free_swap s)"
      "\<not> isSwap (vpages s v) \<Longrightarrow> next_free_swap t = next_free_swap s"
    and null: "\<And>pp. live t v \<Longrightarrow> physicalPage (vpages s v) = Some pp \<Longrightarrow> PPN pp = 0 \<Longrightarrow> length (affiliated (vpages t v)) = 1"
    and dead: "\<not> live t v \<Longrightarrow> \<not> in_frame (vpages s v)"
  shows "core ok t \<and> (\<forall>w. w \<noteq> v \<longrightarrow> live t w = live s w)"
proof -
  note f = core_facts [OF c]
  have mt: "mapped t w = mapped s w" if "w \<noteq> v" for w using l(1) [OF that] by (simp add: mapped_def)
  have rt: "registered t w = registered s w" for w by (simp add: registered_def e(9))
  have lv: "live t w = live s w" if "w \<noteq> v" for w unfolding live_iff [OF wf] f(7) using mt [OF that] rt by simp
  then have sub: "live t w \<Longrightarrow> live s w" for w using v by metis
  have en: "entries_of t w = entries_of s w" if "w \<noteq> v" for w using l(1) [OF that] by (simp add: entries_of_def)
  have unm: "affiliated (vpages t v) = []" if "\<not> mapped t v"
  proof -
    have "entries_of t v = {}" using that unfolding entries_of_def mapped_def by blast
    with aff(1) show ?thesis by simp
  qed
  have ma: "affiliated (vpages t v) \<noteq> []" if "mapped t v"
  proof -
    have "entries_of t v \<noteq> {}" using that unfolding entries_of_def mapped_def by blast
    with aff(1) show ?thesis by auto
  qed
  have swm: "mapped t v" if "isSwap (vpages s v)" "live t v"
    using that live_iff [OF wf, of v] rt files_okD(1) [OF f(6)] unfolding registered_def by blast
  have "page_ok t w" if "live t w" for w
  proof (cases "w = v")
    case True
    have "blocks (vpages t v) \<noteq> []"
      using page_okD(3) [OF c v] vp(5) sw(1) swm ma that unfolding True by (cases "isSwap (vpages s v)") fastforce+
    moreover have "length (blocks (vpages t v)) = 1" if "\<not> isSwap (vpages s v)" using page_okD(5) [OF c v that] vp(5) [OF that] by simp
    ultimately show ?thesis using page_okD(6,7) [OF c v] null that aff sw(1) unfolding page_ok_def Let_def True vp(1,3,4) by auto
  qed (use f(3) [of w] that lv in \<open>simp add: page_ok_def e en\<close>)
  moreover have "arena_ok t"
  proof (rule arena_ok_change [OF f(2) e(3,8)])
    show "lookup_va s p a = Some w \<or> w < next_vpage t \<and> arena_va a \<and> (\<exists>nva. next_free_VA s p = Some nva \<and> a < nva)"
      if "lookup_va t p a = Some w" for p a w
      using that l(1) [of w p a] l(2) [of p a] core_bounds [OF c v] e(2) by (cases "w = v") auto
  qed (simp add: e(2))
  moreover have "frames_ok t"
  proof (rule frames_ok_change [OF f(4) e(5,7,6)])
    show "live t w \<and> in_frame (vpages t w) \<longleftrightarrow> live s w \<and> in_frame (vpages s w)" for w
      using v dead lv [of w] e(1) [of w] by (cases "w = v") (auto simp: in_frame_def vp(4))
    show "frame t w = frame s w" for w using e(1) [of w] by (cases "w = v") (auto simp: frame_def vp(4))
  qed
  moreover have "swap_ok t"
  proof -
    let ?B = "if isSwap (vpages s v) then set (blocks (vpages t v)) else {}"
    have "isSwap (vpages s v) \<Longrightarrow> \<not> live t v \<Longrightarrow> blocks (vpages t v) = []"
      using sw(1) unm live_iff [OF wf, of v] by simp
    then have sb: "swap_blocks t = (swap_blocks s)(v := ?B)" by (auto simp: fun_eq_iff swap_blocks_def lv e(1) vp(1))
    have ds: "distinct (blocks (vpages s v) @ next_free_swap s)" if "isSwap (vpages s v)"
    proof -
      have "swap_blocks s v \<inter> set (next_free_swap s) = {}" "distinct (next_free_swap s)" "distinct (blocks (vpages s v))"
        using f(5) that v unfolding swap_ok_def by blast+
      with that v show ?thesis by (simp add: swap_blocks_def)
    qed
    have "?B \<union> set (next_free_swap t) = swap_blocks s v \<union> set (next_free_swap s) \<and> ?B \<inter> set (next_free_swap t) = {}
        \<and> distinct (next_free_swap t) \<and> (isSwap (vpages s v) \<longrightarrow> distinct (blocks (vpages t v)))"
    proof (cases "isSwap (vpages s v)")
      case True
      then have m: "mset (blocks (vpages t v) @ next_free_swap t) = mset (blocks (vpages s v) @ next_free_swap s)" using sw(2) by simp
      then have "distinct (blocks (vpages t v) @ next_free_swap t)" using ds [OF True] mset_eq_imp_distinct_iff by blast
      with mset_eq_setD [OF m] True v show ?thesis by (simp add: swap_blocks_def)
    next
      case False
      with sw(3) f(5) show ?thesis by (simp add: swap_ok_def swap_blocks_def)
    qed
    then show ?thesis by (intro swap_ok_change [OF f(5) sb e(4)]) (auto simp: lv e(1) vp(1))
  qed
  moreover have "files_ok ok t"
  proof -
    have "isSwap (vpages t w) = isSwap (vpages s w) \<and> filename (vpages t w) = filename (vpages s w)
        \<and> (\<not> isSwap (vpages s w) \<longrightarrow> blocks (vpages t w) = blocks (vpages s w))" for w
      using vp(1,2,5) e(1) by (cases "w = v") auto
    then show ?thesis using f(6) sub unfolding files_ok_def e(2,9) by metis
  qed
  moreover have "set (affiliated (vpages t w)) \<subseteq> entries_of t w" for w
    using f(8) aff(1) e(1) [of w] en [of w] by (cases "w = v") (auto simp: affil_ok_def)
  then have "affil_ok t" by (simp add: affil_ok_def)
  ultimately show ?thesis using wf lv unfolding core_def by blast
qed

section \<open>Operations on mappings\<close>

lemma entry_of_mapping:
  assumes "core ok s" "arena_va va"
  shows "VA_to_PTE va pid \<in> entries_of s v \<longleftrightarrow> lookup_va s pid va = Some v"
proof
  assume "VA_to_PTE va pid \<in> entries_of s v"
  then obtain pid' va' where m: "VA_to_PTE va pid = VA_to_PTE va' pid'" "lookup_va s pid' va' = Some v" unfolding entries_of_def by blast
  with VA_to_PTE_inj [OF assms(2) arena_okD(2) [OF core_facts(2) [OF assms(1)] m(2)] m(1)] show "lookup_va s pid va = Some v" by simp
qed (auto simp: entries_of_def)

lemma set_va_fields [simp]:
  "vpages (set_va pid va v s) = vpages s" "next_vpage (set_va pid va v s) = next_vpage s" "next_free_VA (set_va pid va v s) = next_free_VA s"
  "max_swap_blocks (set_va pid va v s) = max_swap_blocks s" "clock_queue (set_va pid va v s) = clock_queue s"
  "mem_pages_cap (set_va pid va v s) = mem_pages_cap s" "process_table (set_va pid va v s) = process_table s"
  "next_free_swap (set_va pid va v s) = next_free_swap s" "next_free_PPN (set_va pid va v s) = next_free_PPN s"
  "filename_block_to_vpage (set_va pid va v s) = filename_block_to_vpage s" "current_pid (set_va pid va v s) = current_pid s"
  "page_table_base_register (set_va pid va v s) = page_table_base_register s" "vm_physmem (set_va pid va v s) = vm_physmem s"
  "files (set_va pid va v s) = files s" "get_pte (set_va pid va v s) p = get_pte s p"
  by (simp_all add: set_va_def)

text \<open>A fresh address of a process.\<close>

definition fresh_va :: "'f pager \<Rightarrow> nat \<Rightarrow> nat \<Rightarrow> bool" where
  "fresh_va s pid va \<longleftrightarrow> lookup_va s pid va = None \<and> arena_va va \<and> (case next_free_VA s pid of None \<Rightarrow> False | Some nva \<Rightarrow> va < nva)"

text \<open>A new page of zeros.\<close>

definition null_page :: "nat \<Rightarrow> nat \<Rightarrow> nat \<Rightarrow> virtual_page" where
  "null_page b va pid = new_virtual_page\<lparr>blocks := [b], resident := True, physicalPage := Some \<lparr>PPN = 0, clocked = True, dirty = False\<rparr>,
     isSwap := True, affiliated := [VA_to_PTE va pid]\<rparr>"

definition swap_eff :: "nat \<Rightarrow> nat \<Rightarrow> 'f pager \<Rightarrow> 'f pager" where
  "swap_eff va pid s = (set_va pid va (next_vpage s) s)\<lparr>next_vpage := Suc (next_vpage s), next_free_swap := tl (next_free_swap s),
     vpages := (vpages s)(next_vpage s := null_page (hd (next_free_swap s)) va pid)\<rparr>"

lemma core_swap_eff:
  assumes c: "core ok s" and fr: "fresh_va s pid va" "next_free_swap s \<noteq> []"
  shows "core ok (swap_eff va pid s)" "live (swap_eff va pid s) w \<longleftrightarrow> live s w \<or> w = next_vpage s"
proof -
  let ?b = "hd (next_free_swap s)"
  obtain nva where n: "lookup_va s pid va = None" "arena_va va" "next_free_VA s pid = Some nva" "va < nva"
    using fr(1) by (auto simp: fresh_va_def split: option.splits)
  have wf: "wf_maps (swap_eff va pid s)" using wf_maps_set_va(1) [OF core_facts(1) [OF c]] by (simp add: swap_eff_def)
  have "mset (next_free_swap s) = add_mset ?b (mset (tl (next_free_swap s)))" using fr(2) by (cases "next_free_swap s") simp_all
  then have *: "core ok (swap_eff va pid s) \<and> (live (swap_eff va pid s) w \<longleftrightarrow> live s w \<or> w = next_vpage s)" for w
    using core_map_new [OF c wf _ n, of "null_page ?b va pid" ?b]
    by (auto simp: swap_eff_def null_page_def new_virtual_page_def phys_ok_def in_frame_def fun_eq_iff)
  show "core ok (swap_eff va pid s)" "live (swap_eff va pid s) w \<longleftrightarrow> live s w \<or> w = next_vpage s" using * by blast+
qed

text \<open>A new page of a file.\<close>

definition file_page :: "string \<Rightarrow> nat \<Rightarrow> nat \<Rightarrow> nat \<Rightarrow> virtual_page" where
  "file_page name b va pid = new_virtual_page\<lparr>resident := False, filename := name, isSwap := False, blocks := [b], affiliated := [VA_to_PTE va pid]\<rparr>"

definition file_eff :: "nat \<Rightarrow> nat \<Rightarrow> string \<Rightarrow> nat \<Rightarrow> 'f pager \<Rightarrow> 'f pager" where
  "file_eff va pid name b s = (set_va pid va (next_vpage s) s)\<lparr>next_vpage := Suc (next_vpage s),
     filename_block_to_vpage := AList.update (name, b) (next_vpage s) (filename_block_to_vpage s),
     vpages := (vpages s)(next_vpage s := file_page name b va pid)\<rparr>"

lemma core_file_eff:
  assumes c: "core ok s" and fr: "fresh_va s pid va" "map_of (filename_block_to_vpage s) (name, b) = None"
  shows "core ok (file_eff va pid name b s)" "live (file_eff va pid name b s) w \<longleftrightarrow> live s w \<or> w = next_vpage s"
proof -
  obtain nva where n: "lookup_va s pid va = None" "arena_va va" "next_free_VA s pid = Some nva" "va < nva"
    using fr(1) by (auto simp: fresh_va_def split: option.splits)
  have wf: "wf_maps (file_eff va pid name b s)"
    using wf_maps_set_va(1) [OF core_facts(1) [OF c], of pid va "next_vpage s"] core_facts(1) [OF c]
    by (simp add: file_eff_def wf_maps_def distinct_update)
  have *: "core ok (file_eff va pid name b s) \<and> (live (file_eff va pid name b s) w \<longleftrightarrow> live s w \<or> w = next_vpage s)" for w
    using core_map_new [OF c wf _ n, of "file_page name b va pid" b] fr(2)
    by (auto simp: file_eff_def file_page_def new_virtual_page_def phys_ok_def in_frame_def fun_eq_iff update_conv')
  show "core ok (file_eff va pid name b s)" "live (file_eff va pid name b s) w \<longleftrightarrow> live s w \<or> w = next_vpage s" using * by blast+
qed

text \<open>A further mapping of a page.\<close>

definition alias_page :: "nat \<Rightarrow> nat \<Rightarrow> nat list \<Rightarrow> virtual_page \<Rightarrow> virtual_page" where
  "alias_page va pid free vp = vp\<lparr>blocks := (if isSwap vp then blocks vp @ [hd free] else blocks vp), affiliated := affiliated vp @ [VA_to_PTE va pid]\<rparr>"

definition alias_eff :: "nat \<Rightarrow> nat \<Rightarrow> nat \<Rightarrow> 'f pager \<Rightarrow> 'f pager" where
  "alias_eff va pid v s = upd_vpage v (alias_page va pid (next_free_swap s))
     ((set_va pid va v s)\<lparr>next_free_swap := (if isSwap (vpages s v) then tl (next_free_swap s) else next_free_swap s)\<rparr>)"

lemma core_alias_eff:
  assumes c: "core ok s" and fr: "fresh_va s pid va" "isSwap (vpages s v) \<longrightarrow> next_free_swap s \<noteq> []"
    and v: "live s v" "\<And>pp. physicalPage (vpages s v) = Some pp \<Longrightarrow> PPN pp \<noteq> 0"
  shows "core ok (alias_eff va pid v s)" "live (alias_eff va pid v s) = live s"
proof -
  let ?t = "alias_eff va pid v s" and ?p = "VA_to_PTE va pid"
  obtain nva where n: "lookup_va s pid va = None" "arena_va va" "next_free_VA s pid = Some nva" "va < nva"
    using fr(1) by (auto simp: fresh_va_def split: option.splits)
  note p = page_okD [OF c v(1)]
  have wf: "wf_maps ?t" using wf_maps_set_va(1) [OF core_facts(1) [OF c]] by (simp add: alias_eff_def)
  have l: "lookup_va ?t p a = (if p = pid \<and> a = va then Some v else lookup_va s p a)" for p a by (simp add: alias_eff_def)
  have vp: "vpages ?t v = alias_page va pid (next_free_swap s) (vpages s v)" "w \<noteq> v \<Longrightarrow> vpages ?t w = vpages s w" for w
    by (simp_all add: alias_eff_def upd_vpage_def)
  have en: "entries_of ?t v = insert ?p (entries_of s v)" using n(1) unfolding entries_of_def l by (auto split: if_splits)
  have new: "?p \<notin> entries_of s v" using entry_of_mapping [OF c n(2)] n(1) by simp
  have mt: "mapped ?t v" unfolding mapped_def l by auto
  then have lt: "live ?t v" using live_iff [OF wf] by blast
  have m: "mset (blocks (vpages ?t v)) + mset (next_free_swap ?t) = mset (blocks (vpages s v)) + mset (next_free_swap s)" if "isSwap (vpages s v)"
    using that fr(2) by (cases "next_free_swap s") (simp_all add: alias_eff_def upd_vpage_def alias_page_def)
  have "core ok ?t \<and> (\<forall>w. w \<noteq> v \<longrightarrow> live ?t w = live s w)"
  proof (rule core_remap [OF c wf v(1)])
    show "w \<noteq> v \<Longrightarrow> lookup_va ?t p a = Some w \<longleftrightarrow> lookup_va s p a = Some w" for p a w using n(1) by (auto simp: l)
    show "lookup_va ?t p a = Some v \<Longrightarrow> lookup_va s p a = Some v \<or> arena_va a \<and> (\<exists>nva. next_free_VA s p = Some nva \<and> a < nva)" for p a
      using n(2-4) by (auto simp: l split: if_splits)
    show "set (affiliated (vpages ?t v)) = entries_of ?t v" "distinct (affiliated (vpages ?t v))"
      using p(1,2) new by (auto simp: vp(1) alias_page_def en)
    show "isSwap (vpages s v) \<Longrightarrow> length (blocks (vpages ?t v)) = length (affiliated (vpages ?t v))"
      using p(4) by (simp add: vp(1) alias_page_def)
    show "physicalPage (vpages s v) = Some pp \<Longrightarrow> PPN pp = 0 \<Longrightarrow> length (affiliated (vpages ?t v)) = 1" for pp using v(2) by blast
    show "\<not> live ?t v \<Longrightarrow> \<not> in_frame (vpages s v)" using lt by blast
  qed (use m in \<open>simp_all add: vp alias_page_def\<close>, simp_all add: alias_eff_def upd_vpage_def)
  then show "core ok ?t" "live ?t = live s" using lt v(1) by (auto simp: fun_eq_iff)
qed

text \<open>The end of a mapping: the page loses the entry and, in swap space, one of its blocks.\<close>

definition drop_page :: "nat \<Rightarrow> nat \<Rightarrow> virtual_page \<Rightarrow> virtual_page" where
  "drop_page va pid vp = vp\<lparr>blocks := (if isSwap vp then butlast (blocks vp) else blocks vp), affiliated := remove1 (VA_to_PTE va pid) (affiliated vp)\<rparr>"

lemma core_drop:
  assumes c: "core ok s" and wf: "wf_maps t" and m: "lookup_va s pid va = Some v"
    and l: "lookup_va t = (\<lambda>p a. if p = pid \<and> a = va then None else lookup_va s p a)"
    and e: "vpages t = (vpages s)(v := drop_page va pid (vpages s v))" "next_vpage t = next_vpage s" "next_free_VA t = next_free_VA s"
      "max_swap_blocks t = max_swap_blocks s" "clock_queue t = clock_queue s" "mem_pages_cap t = mem_pages_cap s" "next_free_PPN t = next_free_PPN s"
      "\<And>pid. map_option length (process_table t pid) = map_option length (process_table s pid)"
      "map_of (filename_block_to_vpage t) = map_of (filename_block_to_vpage s)"
    and sw: "mset (next_free_swap t) = mset (next_free_swap s) + (if isSwap (vpages s v) then {#last (blocks (vpages s v))#} else {#})"
      "\<not> isSwap (vpages s v) \<Longrightarrow> next_free_swap t = next_free_swap s"
    and dead: "\<not> live t v \<Longrightarrow> \<not> in_frame (vpages s v)"
  shows "core ok t \<and> (\<forall>w. w \<noteq> v \<longrightarrow> live t w = live s w)"
proof -
  let ?p = "VA_to_PTE va pid"
  have v: "live s v" using core_facts(7) [OF c] m by (auto simp: mapped_def)
  note p = page_okD [OF c v]
  have va: "arena_va va" by (rule arena_okD(2) [OF core_facts(2) [OF c] m])
  have vp: "vpages t v = drop_page va pid (vpages s v)" "w \<noteq> v \<Longrightarrow> vpages t w = vpages s w" for w by (simp_all add: e(1))
  have pin: "?p \<in> set (affiliated (vpages s v))" using p(1) entry_of_mapping [OF c va] m by simp
  have en: "entries_of t v = entries_of s v - {?p}"
  proof -
    have lk: "lookup_va t q a = Some v \<longleftrightarrow> lookup_va s q a = Some v \<and> VA_to_PTE a q \<noteq> ?p" for q a
      using VA_to_PTE_inj [OF arena_okD(2) [OF core_facts(2) [OF c]] va, of q a v q pid] by (auto simp: l)
    have "{VA_to_PTE a q |q a. lookup_va s q a = Some v \<and> VA_to_PTE a q \<noteq> z} = entries_of s v - {z}" for z unfolding entries_of_def by blast
    then show ?thesis unfolding entries_of_def [of t] lk .
  qed
  have len: "length (affiliated (vpages t v)) = length (affiliated (vpages s v)) - 1" using pin by (simp add: vp(1) drop_page_def length_remove1)
  have aff: "set (affiliated (vpages t v)) = entries_of t v" using p(1,2) by (simp add: vp(1) drop_page_def en)
  have unm: "affiliated (vpages t v) \<noteq> []" if "live t v" "isSwap (vpages s v)"
  proof -
    have "mapped t v" using that live_iff [OF wf, of v] files_okD(1) [OF core_facts(6) [OF c]] unfolding registered_def e(9) by blast
    then have "entries_of t v \<noteq> {}" unfolding mapped_def entries_of_def by blast
    with aff show ?thesis by auto
  qed
  show ?thesis
  proof (rule core_remap [OF c wf v _ _ vp(2) e(2-9)])
    show "w \<noteq> v \<Longrightarrow> lookup_va t p a = Some w \<longleftrightarrow> lookup_va s p a = Some w" for p a w using m by (auto simp: l)
    show "lookup_va t p a = Some v \<Longrightarrow> lookup_va s p a = Some v \<or> arena_va a \<and> (\<exists>nva. next_free_VA s p = Some nva \<and> a < nva)" for p a
      by (auto simp: l split: if_splits)
    show "set (affiliated (vpages t v)) = entries_of t v" by (rule aff)
    show "distinct (affiliated (vpages t v))" using p(2) by (simp add: vp(1) drop_page_def distinct_remove1)
    show "isSwap (vpages s v) \<Longrightarrow> length (blocks (vpages t v)) = length (affiliated (vpages t v))"
      using p(4) len by (simp add: vp(1) drop_page_def)
    show "isSwap (vpages s v) \<Longrightarrow> mset (blocks (vpages t v)) + mset (next_free_swap t) = mset (blocks (vpages s v)) + mset (next_free_swap s)"
    proof -
      assume "isSwap (vpages s v)"
      moreover have "mset (blocks (vpages s v)) = add_mset (last (blocks (vpages s v))) (mset (butlast (blocks (vpages s v))))"
        using p(3) by (metis append_butlast_last_id mset.simps(2) mset_append mset.simps(1) union_mset_add_mset_right add.right_neutral)
      ultimately show ?thesis using sw(1) by (simp add: vp(1) drop_page_def)
    qed
    show "length (affiliated (vpages t v)) = 1" if "live t v" "physicalPage (vpages s v) = Some pp" "PPN pp = 0" for pp
      using p(7) [OF that(2,3)] unm [OF that(1)] len by simp
  qed (use sw(2) dead in \<open>simp_all add: vp(1) drop_page_def\<close>)
qed

end
