(* ===== verification/Pager_Operations.thy ===== *)
theory Pager_Operations
  imports Pager_Mappings
begin

text \<open>
  The operations that read or extend an address space keep the invariant and do not abort:
  faults without copying, the translation of a file name and \<^verbatim>\<open>vm_map\<close>.
\<close>

section \<open>What a fault keeps\<close>

definition kept :: "'f pager \<Rightarrow> 'f pager \<Rightarrow> bool" where
  "kept s t \<longleftrightarrow> lookup_va t = lookup_va s \<and> next_free_VA t = next_free_VA s \<and> current_pid t = current_pid s
     \<and> (\<forall>v. affiliated (vpages t v) = affiliated (vpages s v) \<and> isSwap (vpages t v) = isSwap (vpages s v)
          \<and> filename (vpages t v) = filename (vpages s v) \<and> blocks (vpages t v) = blocks (vpages s v))"

lemma kept_refl [simp]: "kept s s"
  by (simp add: kept_def)

lemma kept_trans: "kept s t \<Longrightarrow> kept t u \<Longrightarrow> kept s u"
  by (simp add: kept_def)

lemma kept_tables: "kept s e \<Longrightarrow> same_but_tables e t \<Longrightarrow> kept s t"
  by (simp add: kept_def same_but_tables_fields lookup_va_def mappings_def fun_eq_iff)

lemma kept_touch [simp]: "kept s (touch_va pid s)"
  by (simp add: kept_def fun_eq_iff)

lemma kept_static: "static s t \<Longrightarrow> current_pid t = current_pid s \<Longrightarrow> kept s t"
  using static_facts(1) by (auto simp: kept_def static_def)

lemma kept_fault: "kept s (snd (fault_eff fo ok v write s))"
proof -
  have g: "kept s (give0 fo v s)" by (rule kept_static [OF static_give0 give0_fields(6)])
  have l: "kept s (load_eff fo v s)" using g by (simp add: kept_def)
  have r: "kept s (return_eff v (load_eff fo v s))" using kept_static [OF static_return, of v "load_eff fo v s"] by (intro kept_trans [OF l]) simp
  have f: "kept s (fail_eff fo v s)"
  proof -
    have "lookup_va (fail_eff fo v s) = lookup_va s" by (simp add: fun_eq_iff lookup_va_def mappings_def fail_eff_fields)
    with r show ?thesis by (simp add: kept_def fail_eff_fields)
  qed
  have m: "kept s (upd_vpage v (mark write) e)" if "kept s e" for e using that by (simp add: kept_def) (simp add: upd_vpage_def)
  show ?thesis using m [of s] m [OF l] f by (simp add: fault_eff_def)
qed

section \<open>Read faults\<close>

definition alive :: "'f pager \<Rightarrow> bool" where
  "alive s \<longleftrightarrow> next_free_VA s (current_pid s) \<noteq> None"

lemma kept_alive: "kept s t \<Longrightarrow> alive t = alive s"
  by (simp add: kept_def alive_def)

lemma inv_touch:
  assumes "pager_inv ok s" "alive s"
  shows "pager_inv ok (touch_va (current_pid s) s)"
proof -
  have c: "core ok s" using assms(1) by (simp add: pager_inv_iff)
  note t = core_touch_va [OF c, of "current_pid s"]
  have "resident_ok ok (touch_va (current_pid s) s)" "shows_all (touch_va (current_pid s) s) {v. live (touch_va (current_pid s) s) v}"
    using assms(1) by (simp_all add: pager_inv_iff resident_ok_def t(2))
  moreover have "processes_ok (touch_va (current_pid s) s)"
    using assms by (auto simp: pager_inv_iff processes_ok_def alive_def touch_va_def update_conv' split: if_splits)
  ultimately show ?thesis using t(1) by (simp add: pager_inv_iff)
qed

lemma fault_in_frame:
  assumes "core ok s" "fst (fault_eff fo ok v write s) = 0"
  shows "in_frame (vpages (snd (fault_eff fo ok v write s)) v)"
proof (cases "in_frame (vpages s v)")
  case True
  then show ?thesis by (simp add: fault_eff_def) (simp add: upd_vpage_def)
next
  case False
  then have "v \<notin> set (clock_queue s)" using on_clock [OF assms(1)] by blast
  then have "in_frame (vpages (load_eff fo v s) v)" using give0_vpages(1) [OF assms(1)] new_frame_nonzero [OF assms(1)] by (simp add: in_frame_def)
  then show ?thesis using assms(2) False by (simp add: fault_eff_def upd_vpage_def split: if_splits)
qed

lemma vm_fault_read_spec:
  assumes inv: "pager_inv ok s" and a: "alive s" and fo: "file_laws fo ok" and v: "lookup_va s (current_pid s) (page_base addr) = Some v"
  shows "returns (\<lambda>(r, t). pager_inv ok t \<and> kept s t \<and> (r = 0 \<and> in_frame (vpages t v) \<or> r = -1)) (vm_fault_read fo addr s)"
proof -
  let ?s = "touch_va (current_pid s) s"
  have i: "pager_inv ok ?s" by (rule inv_touch [OF inv a])
  have m: "mapped ?s v" using v by (auto simp: mapped_def)
  have c: "core ok ?s" using i by (simp add: pager_inv_iff)
  have "returns (\<lambda>(r, t). pager_inv ok t \<and> kept s t \<and> (r = 0 \<and> in_frame (vpages t v) \<or> r = -1)) (fault_page_in fo v False ?s)"
  proof (rule returns_mono [OF fault_page_in_spec [OF i m fo]], simp, clarsimp)
    fix t assume t: "same_but_tables (snd (fault_eff fo ok v False ?s)) t"
    have "fst (fault_eff fo ok v False ?s) = 0 \<or> fst (fault_eff fo ok v False ?s) = -1" by (simp add: fault_eff_def)
    moreover have "in_frame (vpages t v)" if "fst (fault_eff fo ok v False ?s) = 0"
      using fault_in_frame [OF c that] by (simp add: same_but_tables_fields [OF t])
    moreover have "kept s t" using kept_tables [OF kept_trans [OF kept_touch kept_fault] t] .
    ultimately show "kept s t \<and> (fst (fault_eff fo ok v False ?s) = 0 \<and> in_frame (vpages t v) \<or> fst (fault_eff fo ok v False ?s) = -1)" by blast
  qed
  then show ?thesis using v by (simp add: vm_fault_read_def Let_def)
qed

section \<open>The name of a file\<close>

lemma first_pte_spec:
  assumes "pager_inv ok s" "mapped s v"
  obtains e where "first_pte s v = Some e" "read_enable e \<Longrightarrow> resident (vpages s v) \<and> physicalPage (vpages s v) \<noteq> None"
proof -
  have c: "core ok s" and sh: "shows_all s {v. live s v}" using assms(1) by (simp_all add: pager_inv_iff)
  have lv: "live s v" using core_facts(7) [OF c] assms(2) by blast
  have aff: "affiliated (vpages s v) \<noteq> []" using affiliated_mapped [OF c lv] assms(2) by blast
  then have "pte_shows s v (affiliated (vpages s v) ! 0)" using sh lv by (auto simp: shows_all_def)
  then obtain e where e: "get_pte s (affiliated (vpages s v) ! 0) = Some e" "pte_bits (vpages s v) = Some (read_enable e, write_enable e)"
    by (auto simp: pte_shows_def split: option.splits)
  have "resident (vpages s v)" if "read_enable e" using e(2) that by (auto simp: pte_bits_def option_simps split: if_splits)
  then show ?thesis using that [of e] e(1) aff page_okD(6) [OF c lv] by (simp add: first_pte_def at_def)
qed

lemma frame_of_spec:
  assumes inv: "pager_inv ok s" and a: "alive s" and fo: "file_laws fo ok"
  shows "returns (\<lambda>(fr, t). pager_inv ok t \<and> kept s t \<and> (fr \<noteq> None \<longrightarrow> lookup_va s (current_pid s) (page_base va) \<noteq> None)) (frame_of fo va s)"
proof -
  let ?s = "touch_va (current_pid s) s"
  have i: "pager_inv ok ?s" "alive ?s" using inv_touch [OF inv a] a by (simp_all add: alive_def)
  show ?thesis
  proof (cases "lookup_va s (current_pid s) (page_base va)")
    case None
    then show ?thesis using i by (simp add: frame_of_def Let_def returns_def)
  next
    case (Some v)
    then have v: "lookup_va ?s (current_pid ?s) (page_base va) = Some v" by simp
    then have "mapped ?s v" by (auto simp: mapped_def)
    from first_pte_spec [OF i(1) this] obtain e where e: "first_pte ?s v = Some e" "read_enable e \<Longrightarrow> physicalPage (vpages ?s v) \<noteq> None" by metis
    have "returns (\<lambda>(r, t). pager_inv ok t \<and> kept s t \<and> (r = 0 \<and> physicalPage (vpages t v) \<noteq> None \<or> r = -1))
      (if \<not> read_enable e then vm_fault_read fo va ?s else Some (0, ?s))"
    proof (rule returns_if)
      show "returns (\<lambda>(r, t). pager_inv ok t \<and> kept s t \<and> (r = 0 \<and> physicalPage (vpages t v) \<noteq> None \<or> r = -1)) (vm_fault_read fo va ?s)"
        by (rule returns_mono [OF vm_fault_read_spec [OF i fo v]]) (auto simp: in_frame_def intro: kept_trans [OF kept_touch] split: option.splits)
    next
      assume "\<not> \<not> read_enable e"
      then show "returns (\<lambda>(r, t). pager_inv ok t \<and> kept s t \<and> (r = 0 \<and> physicalPage (vpages t v) \<noteq> None \<or> r = -1)) (Some (0, ?s))"
        using e(2) i(1) by (simp add: returns_def)
    qed
    then obtain r t where t: "(if \<not> read_enable e then vm_fault_read fo va ?s else Some (0, ?s)) = Some (r, t)" "pager_inv ok t" "kept s t"
      "r = 0 \<and> physicalPage (vpages t v) \<noteq> None \<or> r = -1" by (auto elim: returnsE)
    have "lookup_va t (current_pid t) (page_base va) = Some v" using t(3) Some by (simp add: kept_def)
    with t Some e(1) show ?thesis by (auto simp: frame_of_def Let_def returns_def)
  qed
qed

lemma page_base_bounds: "page_base va \<le> va" "va < page_base va + VM_PAGESIZE"
proof -
  have "va mod VM_PAGESIZE < VM_PAGESIZE" by (simp add: VM_PAGESIZE_def)
  moreover have "page_base va + va mod VM_PAGESIZE = va" unfolding page_base_def by (simp add: mod_less_eq_dividend)
  ultimately show "page_base va \<le> va" "va < page_base va + VM_PAGESIZE" by linarith+
qed

text \<open>A mapped page lies below the end of the arena as a whole.\<close>

lemma arena_page_end: "arena_va va \<Longrightarrow> va + VM_PAGESIZE \<le> VM_ARENA_MAXADDR"
proof -
  assume a: "arena_va va"
  then have "VM_PAGESIZE dvd va" by (auto simp: arena_va_def)
  moreover have "VM_PAGESIZE dvd VM_ARENA_MAXADDR" by (simp add: vm_const_defs)
  ultimately obtain k m where k: "va = VM_PAGESIZE * k" "VM_ARENA_MAXADDR = VM_PAGESIZE * m" by (auto elim!: dvdE)
  with a have "VM_PAGESIZE * k < VM_PAGESIZE * m" by (auto simp: arena_va_def)
  then have "k < m" by simp
  then have "VM_PAGESIZE * Suc k \<le> VM_PAGESIZE * m" by (intro mult_le_mono2) simp
  with k show ?thesis by (simp only: mult_Suc_right add.commute)
qed

text \<open>
  The copying loop ends: it moves through mapped pages, and these lie in the arena.
\<close>

lemma copy_filename_spec:
  assumes "pager_inv ok s" "alive s" "file_laws fo ok" "va < VM_ARENA_MAXADDR" "blk0 + VM_PAGESIZE \<le> VM_ARENA_MAXADDR"
  shows "returns (\<lambda>(r, t). pager_inv ok t \<and> kept s t) (copy_filename fo blk0 va fr running s)"
  using assms
proof (induction "VM_ARENA_MAXADDR - va" arbitrary: va fr running s rule: less_induct)
  case less
  let ?c = "vm_physmem s fr (va mod VM_PAGESIZE)"
  consider (nul) "?c = NUL" | (crossing) "?c \<noteq> NUL" "blk0 + VM_PAGESIZE \<le> Suc va" | (inside) "?c \<noteq> NUL" "\<not> blk0 + VM_PAGESIZE \<le> Suc va" by blast
  then show ?case
  proof cases
    case nul
    then show ?thesis using less.prems(1) by (subst copy_filename.simps) (simp add: Let_def returns_def)
  next
    case inside
    then have "Suc va < VM_ARENA_MAXADDR" using less.prems(5) by simp
    moreover from this have "VM_ARENA_MAXADDR - Suc va < VM_ARENA_MAXADDR - va" by simp
    ultimately have "returns (\<lambda>(r, t). pager_inv ok t \<and> kept s t) (copy_filename fo blk0 (Suc va) fr (running @ [?c]) s)"
      using less.hyps less.prems(1-3,5) by blast
    then show ?thesis using inside by (subst copy_filename.simps) (simp add: Let_def)
  next
    case crossing
    obtain g t where t: "frame_of fo (Suc va) s = Some (g, t)" "pager_inv ok t" "kept s t" "g \<noteq> None \<longrightarrow> lookup_va s (current_pid s) (page_base (Suc va)) \<noteq> None"
      using frame_of_spec [OF less.prems(1-3), of "Suc va"] unfolding returns_def by blast
    show ?thesis
    proof (cases g)
      case None
      then show ?thesis using crossing t by (subst copy_filename.simps) (simp add: Let_def returns_def)
    next
      case (Some g')
      then obtain v where "lookup_va s (current_pid s) (page_base (Suc va)) = Some v" using t(4) by blast
      then have "arena_va (page_base (Suc va))" using less.prems(1) arena_okD(2) [OF core_facts(2)] by (auto simp: pager_inv_iff)
      then have "Suc va < VM_ARENA_MAXADDR" using page_base_bounds(2) [of "Suc va"] arena_page_end by fastforce
      moreover from this have "VM_ARENA_MAXADDR - Suc va < VM_ARENA_MAXADDR - va" by simp
      moreover have "alive t" using kept_alive [OF t(3)] less.prems(2) by simp
      ultimately have "returns (\<lambda>(r, u). pager_inv ok u \<and> kept t u) (copy_filename fo blk0 (Suc va) g' (running @ [?c]) t)"
        using less.hyps less.prems(3,5) t(2) by blast
      then have "returns (\<lambda>(r, u). pager_inv ok u \<and> kept s u) (copy_filename fo blk0 (Suc va) g' (running @ [?c]) t)"
        by (rule returns_mono) (use kept_trans [OF t(3)] in auto)
      then show ?thesis using crossing t(1) Some by (subst copy_filename.simps) (simp add: Let_def)
    qed
  qed
qed

lemma translate_spec:
  assumes "pager_inv ok s" "alive s" "file_laws fo ok"
  shows "returns (\<lambda>(r, t). pager_inv ok t \<and> kept s t) (translate_from_other_addr_space fo va s)"
proof -
  obtain fr t where t: "frame_of fo va s = Some (fr, t)" "pager_inv ok t" "kept s t" "fr \<noteq> None \<longrightarrow> lookup_va s (current_pid s) (page_base va) \<noteq> None"
    using frame_of_spec [OF assms, of va] unfolding returns_def by blast
  show ?thesis
  proof (cases fr)
    case None
    with t show ?thesis by (simp add: translate_from_other_addr_space_def returns_def)
  next
    case (Some fr')
    then obtain v where "lookup_va s (current_pid s) (page_base va) = Some v" using t(4) by blast
    then have "arena_va (page_base va)" using assms(1) arena_okD(2) [OF core_facts(2)] by (auto simp: pager_inv_iff)
    from arena_page_end [OF this] page_base_bounds(2) [of va]
    have "returns (\<lambda>(r, u). pager_inv ok u \<and> kept t u) (copy_filename fo (page_base va) va fr' [] t)"
      using t(2) assms(2,3) kept_alive [OF t(3)] by (intro copy_filename_spec) simp_all
    then have "returns (\<lambda>(r, u). pager_inv ok u \<and> kept s u) (copy_filename fo (page_base va) va fr' [] t)"
      by (rule returns_mono) (use kept_trans [OF t(3)] in auto)
    then show ?thesis using t(1) Some by (simp add: translate_from_other_addr_space_def)
  qed
qed

section \<open>New mappings\<close>

text \<open>
  The tables are completed while \<open>next_free_VA\<close> still has its old value; the invariant holds once
  it has the value \<open>n\<close>.
\<close>

lemma same_but_tables_upd2:
  assumes "same_but_tables s t"
  shows "same_but_tables (s\<lparr>next_free_VA := n\<rparr>) (t\<lparr>next_free_VA := n\<rparr>)" "same_but_tables (s\<lparr>translateVA := tr\<rparr>) (t\<lparr>translateVA := tr\<rparr>)"
    "same_but_tables (s\<lparr>current_pid := cp\<rparr>) (t\<lparr>current_pid := cp\<rparr>)"
    "same_but_tables (s\<lparr>page_table_base_register := pb\<rparr>) (t\<lparr>page_table_base_register := pb\<rparr>)"
    "same_but_tables (s\<lparr>next_free_swap := sw\<rparr>) (t\<lparr>next_free_swap := sw\<rparr>)" "same_but_tables (s\<lparr>next_vpage := nv\<rparr>) (t\<lparr>next_vpage := nv\<rparr>)"
proof -
  obtain f where "t = s\<lparr>process_table := f\<rparr>" "\<forall>pid. map_option length (f pid) = map_option length (process_table s pid)"
    using assms by (auto simp: same_but_tables_def)
  then show "same_but_tables (s\<lparr>next_free_VA := n\<rparr>) (t\<lparr>next_free_VA := n\<rparr>)" "same_but_tables (s\<lparr>translateVA := tr\<rparr>) (t\<lparr>translateVA := tr\<rparr>)"
    "same_but_tables (s\<lparr>current_pid := cp\<rparr>) (t\<lparr>current_pid := cp\<rparr>)"
    "same_but_tables (s\<lparr>page_table_base_register := pb\<rparr>) (t\<lparr>page_table_base_register := pb\<rparr>)"
    "same_but_tables (s\<lparr>next_free_swap := sw\<rparr>) (t\<lparr>next_free_swap := sw\<rparr>)" "same_but_tables (s\<lparr>next_vpage := nv\<rparr>) (t\<lparr>next_vpage := nv\<rparr>)"
    by (auto simp: same_but_tables_def intro!: exI [of _ f])
qed

lemma show_new:
  assumes "same_but_tables e t" "core ok (e\<lparr>next_free_VA := n\<rparr>)" "mapped e v" "shows_all t ({v. live e v} - {v})"
  shows "returns (\<lambda>u. same_but_tables e u \<and> shows_all u {v. live e v}) (updatePTEs v t)"
proof -
  let ?e = "e\<lparr>next_free_VA := n\<rparr>" and ?t = "t\<lparr>next_free_VA := n\<rparr>"
  note f = same_but_tables_fields [OF assms(1)]
  have same: "same_but_tables ?e ?t" by (rule same_but_tables_upd2(1) [OF assms(1)])
  have m: "mapped ?e v" using assms(3) mapped_lookup [of ?e e] by simp
  have v: "live ?e v" using core_facts(7) [OF assms(2)] m by blast
  have bits: "pte_bits (vpages t v) \<noteq> None"
    using affiliated_mapped [OF assms(2) v] m page_okD(4,6) [OF assms(2) v] unfolding f(1) by (intro pte_bits_counts) auto
  have "has_entries t v" "disjoint_pages t {v. live e v}"
    using core_page_entries [OF assms(2) same v] by (simp_all add: has_entries_def disjoint_pages_def)
  from updatePTEs_shows [OF bits this(1) assms(4) this(2)] v
  have "returns (\<lambda>u. same_but_tables t u \<and> shows_all u {v. live e v}) (updatePTEs v t)" by simp
  then show ?thesis by (rule returns_mono) (use same_but_tables_trans [OF assms(1)] in blast)
qed

lemma shows_all_new:
  assumes "shows_all s {v. live s v}" "\<And>p. get_pte t p = get_pte s p" "\<And>w. w \<noteq> v \<Longrightarrow> vpages t w = vpages s w" "\<And>w. live t w \<Longrightarrow> live s w \<or> w = v"
  shows "shows_all t ({v. live t v} - {v})"
  using shows_all_mono [OF assms(1), of "{v. live t v} - {v}"] assms(2-4) by (subst shows_all_cong [of t s]) auto

lemma mapped_set_va [simp]: "mapped (set_va pid va v s) v"
  by (auto simp: mapped_def)

lemma mapped_upd [simp]:
  "mapped (s\<lparr>next_vpage := nv\<rparr>) = mapped s" "mapped (s\<lparr>next_free_swap := sw\<rparr>) = mapped s" "mapped (s\<lparr>vpages := vs\<rparr>) = mapped s"
  "mapped (s\<lparr>filename_block_to_vpage := fb\<rparr>) = mapped s" "mapped (upd_vpage v f s) = mapped s"
  by (rule mapped_lookup; simp)+

lemma make_swap_spec:
  assumes c: "core ok (s\<lparr>next_free_VA := n\<rparr>)" and fr: "fresh_va (s\<lparr>next_free_VA := n\<rparr>) pid va" "next_free_swap s \<noteq> []"
    and sh: "shows_all s {v. live s v}"
  shows "returns (\<lambda>(r, t). r = Some (next_vpage s) \<and> same_but_tables (swap_eff va pid s) t \<and> shows_all t {v. live (swap_eff va pid s) v})
    (make_swap_to_nullpage va pid s)"
proof -
  let ?e = "swap_eff va pid s"
  have e: "?e\<lparr>next_free_VA := n\<rparr> = swap_eff va pid (s\<lparr>next_free_VA := n\<rparr>)" by (simp add: swap_eff_def set_va_def mappings_def)
  note ce = core_swap_eff [OF c fr(1), unfolded e [symmetric]]
  have "n pid \<noteq> None" using fr(1) by (auto simp: fresh_va_def split: option.splits)
  moreover have "map_option length (process_table s pid) = map_option (\<lambda>_. page_table_size) (n pid)"
    using core_facts(2) [OF c] unfolding arena_ok_def by simp
  ultimately have "process_table s pid \<noteq> None" by (cases "process_table s pid") auto
  moreover have lv: "live ?e w \<longleftrightarrow> live s w \<or> w = next_vpage s" for w using ce(2) [of w] fr(2) by simp
  moreover have "shows_all ?e ({v. live ?e v} - {next_vpage s})"
    using lv by (intro shows_all_new [OF sh]) (auto simp: swap_eff_def)
  moreover have "mapped ?e (next_vpage s)" by (simp add: swap_eff_def)
  ultimately have "returns (\<lambda>t. same_but_tables ?e t \<and> shows_all t {v. live ?e v}) (updatePTEs (next_vpage s) ?e)"
    using show_new [OF same_but_tables_refl ce(1)] fr(2) by simp
  then show ?thesis using fr(2) \<open>process_table s pid \<noteq> None\<close>
    by (cases "next_free_swap s") (auto simp: make_swap_to_nullpage_def Let_def swap_eff_def null_page_def returns_def cassert_def)
qed

definition map_file_eff :: "nat \<Rightarrow> string \<Rightarrow> nat \<Rightarrow> 'f pager \<Rightarrow> 'f pager" where
  "map_file_eff va name b s = (case map_of (filename_block_to_vpage s) (name, b) of
     Some v \<Rightarrow> alias_eff va (current_pid s) v s | None \<Rightarrow> file_eff va (current_pid s) name b s)"

lemma map_file_page_spec:
  assumes c: "core ok (s\<lparr>next_free_VA := n\<rparr>)" and fr: "fresh_va (s\<lparr>next_free_VA := n\<rparr>) (current_pid s) va"
    and sh: "shows_all s {v. live s v}" and cp: "page_table_base_register s = current_pid s"
    and e: "e = map_file_eff va name b s"
  shows "core ok (e\<lparr>next_free_VA := n\<rparr>)" "returns (\<lambda>t. same_but_tables e t \<and> shows_all t {v. live e v}) (map_file_page va name b s)"
proof -
  let ?p = "current_pid s" and ?n = "next_vpage s"
  have "core ok (e\<lparr>next_free_VA := n\<rparr>) \<and> returns (\<lambda>t. same_but_tables e t \<and> shows_all t {v. live e v}) (map_file_page va name b s)"
  proof (cases "map_of (filename_block_to_vpage s) (name, b)")
    case None
    have en: "(file_eff va ?p name b s)\<lparr>next_free_VA := n\<rparr> = file_eff va ?p name b (s\<lparr>next_free_VA := n\<rparr>)"
      by (simp add: file_eff_def set_va_def mappings_def)
    have e: "e = file_eff va ?p name b s" using None by (simp add: e map_file_eff_def)
    have ce: "core ok (e\<lparr>next_free_VA := n\<rparr>)" "live e w \<longleftrightarrow> live s w \<or> w = ?n" for w
      using core_file_eff [OF c fr, of name b] None unfolding e en [symmetric] by simp_all
    have "shows_all e ({v. live e v} - {?n})" using ce(2) by (intro shows_all_new [OF sh]) (auto simp: e file_eff_def)
    moreover have "mapped e ?n" by (simp add: e file_eff_def)
    ultimately have "returns (\<lambda>t. same_but_tables e t \<and> shows_all t {v. live e v}) (updatePTEs ?n e)"
      using show_new [OF same_but_tables_refl ce(1)] by simp
    moreover have "map_file_page va name b s = updatePTEs ?n e" using None cp by (simp add: map_file_page_def e file_eff_def file_page_def Let_def)
    ultimately show ?thesis using ce(1) by simp
  next
    case (Some v)
    have en: "(alias_eff va ?p v s)\<lparr>next_free_VA := n\<rparr> = alias_eff va ?p v (s\<lparr>next_free_VA := n\<rparr>)"
      by (simp add: alias_eff_def set_va_def mappings_def upd_vpage_def)
    have e: "e = alias_eff va ?p v s" using Some by (simp add: e map_file_eff_def)
    have v: "\<not> isSwap (vpages s v)" using files_okD(1) [OF core_facts(6) [OF c]] Some by simp
    have lv: "live (s\<lparr>next_free_VA := n\<rparr>) v" unfolding core_facts(7) [OF c] registered_def using Some by auto
    then have "PPN pp \<noteq> 0" if "physicalPage (vpages s v) = Some pp" for pp using page_okD(7) [OF c lv, of pp] that v by auto
    then have ce: "core ok (e\<lparr>next_free_VA := n\<rparr>)" "live e = live s"
      using core_alias_eff [OF c fr, of v] v lv unfolding e en [symmetric] by simp_all
    have "shows_all e ({v. live e v} - {v})" using ce(2) by (intro shows_all_new [OF sh]) (auto simp: e alias_eff_def upd_vpage_def)
    moreover have "mapped e v" by (simp add: e alias_eff_def)
    ultimately have "returns (\<lambda>t. same_but_tables e t \<and> shows_all t {v. live e v}) (updatePTEs v e)"
      using show_new [OF same_but_tables_refl ce(1)] by simp
    moreover have "map_file_page va name b s = updatePTEs v e"
      using Some cp v by (simp add: map_file_page_def e alias_eff_def alias_page_def upd_vpage_def set_va_def)
    ultimately show ?thesis using ce(1) by simp
  qed
  then show "core ok (e\<lparr>next_free_VA := n\<rparr>)" "returns (\<lambda>t. same_but_tables e t \<and> shows_all t {v. live e v}) (map_file_page va name b s)" by simp_all
qed

section \<open>\<^verbatim>\<open>vm_map\<close>\<close>

text \<open>The address after a fresh one.\<close>

definition bump :: "'f pager \<Rightarrow> nat \<Rightarrow> nat option" where
  "bump s = (next_free_VA s)(current_pid s \<mapsto> get_next_free_VA s (current_pid s) + VM_PAGESIZE)"

lemma core_bump:
  assumes c: "core ok s" and va: "next_free_VA s (current_pid s) = Some va" "va < VM_ARENA_MAXADDR"
  shows "core ok (s\<lparr>next_free_VA := bump s\<rparr>)" "fresh_va (s\<lparr>next_free_VA := bump s\<rparr>) (current_pid s) va"
proof -
  let ?p = "current_pid s" and ?t = "s\<lparr>next_free_VA := bump s\<rparr>"
  have b: "bump s ?p = Some (va + VM_PAGESIZE)" "pid \<noteq> ?p \<Longrightarrow> bump s pid = next_free_VA s pid" for pid
    using va(1) by (simp_all add: bump_def get_next_free_VA_def)
  have n: "VM_ARENA_BASEADDR \<le> nva \<and> nva \<le> VM_ARENA_MAXADDR \<and> nva mod VM_PAGESIZE = 0" if "next_free_VA s pid = Some nva" for pid nva
    using core_facts(2) [OF c] that unfolding arena_ok_def by blast
  then have av: "arena_va va" using va by (auto simp: arena_va_def)
  have none: "map_option (\<lambda>_. page_table_size) (bump s pid) = map_option (\<lambda>_. page_table_size) (next_free_VA s pid)" for pid
    using b va(1) by (cases "pid = ?p") simp_all
  have len: "map_option length (process_table s pid) = map_option (\<lambda>_. page_table_size) (bump s pid)" for pid
    unfolding none using core_facts(2) [OF c] unfolding arena_ok_def by blast
  have up: "\<exists>n'. bump s pid = Some n' \<and> a < n'" if "next_free_VA s pid = Some nva" "a < nva" for pid a nva
    using that b va(1) by (cases "pid = ?p") auto
  have "VM_ARENA_BASEADDR \<le> nva \<and> nva \<le> VM_ARENA_MAXADDR \<and> nva mod VM_PAGESIZE = 0" if "bump s pid = Some nva" for pid nva
  proof (cases "pid = ?p")
    case True
    then have "nva = va + VM_PAGESIZE" using that b(1) by simp
    with n [OF va(1)] arena_page_end [OF av] show ?thesis by simp
  qed (use that n b(2) in auto)
  with len have ar: "arena_ok ?t"
    using arena_okD [OF core_facts(2) [OF c]] up unfolding arena_ok_def by simp metis
  note f = core_facts [OF c]
  have "entries_of ?t = entries_of s" "frame ?t = frame s" "swap_blocks ?t = swap_blocks s"
    by (simp_all add: fun_eq_iff entries_of_def frame_def swap_blocks_def)
  with f ar show "core ok ?t" unfolding core_def page_ok_def frames_ok_def swap_ok_def files_ok_def affil_ok_def by simp
  have "lookup_va s ?p va = None"
  proof (cases "lookup_va s ?p va")
    case (Some v)
    then show ?thesis using arena_okD(3) [OF f(2) Some] va(1) by simp
  qed
  then show "fresh_va ?t ?p va" using av b(1) by (simp add: fresh_va_def VM_PAGESIZE_def)
qed

text \<open>What remains to be shown of a new mapping.\<close>

lemma finish_map:
  assumes t: "same_but_tables e t" "shows_all t {v. live e v}" and c: "core ok (e\<lparr>next_free_VA := n\<rparr>)"
    and ro: "resident_ok ok e" and po: "processes_ok e" "\<And>pid. next_free_VA e pid \<noteq> None \<Longrightarrow> n pid \<noteq> None"
  shows "pager_inv ok (t\<lparr>next_free_VA := n\<rparr>)"
  using po by (intro pager_invI [OF same_but_tables_upd2(1) [OF t(1)] c _ _ _ order_refl])
    (use t(2) ro in \<open>auto simp: resident_ok_def processes_ok_def\<close>)

lemma processes_ok_set_va: "processes_ok s \<Longrightarrow> next_free_VA s pid \<noteq> None \<Longrightarrow> processes_ok (set_va pid va v s)"
  by (auto simp: processes_ok_def set_va_def update_conv' split: if_splits)

lemma effect_rest:
  assumes "resident_ok ok s" "processes_ok s" "next_free_VA s pid \<noteq> None"
  shows "(\<And>w. live (swap_eff va pid s) w \<longleftrightarrow> live s w \<or> w = next_vpage s) \<Longrightarrow> resident_ok ok (swap_eff va pid s)" "processes_ok (swap_eff va pid s)"
    "(\<And>w. live (file_eff va pid name b s) w \<longleftrightarrow> live s w \<or> w = next_vpage s) \<Longrightarrow> resident_ok ok (file_eff va pid name b s)"
    "processes_ok (file_eff va pid name b s)"
    "live (alias_eff va pid v s) = live s \<Longrightarrow> resident_ok ok (alias_eff va pid v s)" "processes_ok (alias_eff va pid v s)"
  using assms processes_ok_set_va [OF assms(2,3)]
  by (simp_all add: resident_ok_def)
    (auto simp: swap_eff_def null_page_def file_eff_def file_page_def new_virtual_page_def alias_eff_def alias_page_def upd_vpage_def processes_ok_def)

text \<open>The new page is the only change of the mappings, at the next address of the arena.\<close>

definition extended :: "'f pager \<Rightarrow> nat \<Rightarrow> 'f pager \<Rightarrow> bool" where
  "extended s va t \<longleftrightarrow> next_free_VA s (current_pid s) = Some va \<and> va < VM_ARENA_MAXADDR \<and> current_pid t = current_pid s
     \<and> next_free_VA t = (next_free_VA s)(current_pid s \<mapsto> va + VM_PAGESIZE)
     \<and> (\<exists>v. lookup_va t = (lookup_va s)(current_pid s := (lookup_va s (current_pid s))(va \<mapsto> v)))"

lemma effect_lookup:
  "lookup_va (swap_eff va pid s) = (lookup_va s)(pid := (lookup_va s pid)(va \<mapsto> next_vpage s))"
  "lookup_va (file_eff va pid name b s) = (lookup_va s)(pid := (lookup_va s pid)(va \<mapsto> next_vpage s))"
  "lookup_va (alias_eff va pid v s) = (lookup_va s)(pid := (lookup_va s pid)(va \<mapsto> v))"
  by (auto simp: fun_eq_iff swap_eff_def file_eff_def alias_eff_def)

lemma effect_fields:
  "current_pid (swap_eff va pid s) = current_pid s" "next_free_VA (swap_eff va pid s) = next_free_VA s"
  "current_pid (file_eff va pid name b s) = current_pid s" "next_free_VA (file_eff va pid name b s) = next_free_VA s"
  "current_pid (alias_eff va pid v s) = current_pid s" "next_free_VA (alias_eff va pid v s) = next_free_VA s"
  by (simp_all add: swap_eff_def file_eff_def alias_eff_def upd_vpage_def)

lemma same_but_tables_lookup: "same_but_tables s t \<Longrightarrow> lookup_va t = lookup_va s"
  by (simp add: fun_eq_iff lookup_va_def mappings_def same_but_tables_fields)

lemma finish_spec:
  assumes s: "pager_inv ok s" "next_free_VA s (current_pid s) = Some va" "va < VM_ARENA_MAXADDR"
    and t: "same_but_tables e t" "shows_all t {v. live e v}" and c: "core ok (e\<lparr>next_free_VA := bump s\<rparr>)"
    and ro: "resident_ok ok e" "processes_ok e"
    and e: "current_pid e = current_pid s" "next_free_VA e = next_free_VA s"
      "lookup_va e = (lookup_va s)(current_pid s := (lookup_va s (current_pid s))(va \<mapsto> v))"
  shows "returns (\<lambda>(r, u). r = Some va \<and> pager_inv ok u \<and> extended s va u) (do {
     let s = t\<lparr>next_free_VA := (next_free_VA t)(current_pid t \<mapsto> get_next_free_VA t (current_pid t) + VM_PAGESIZE)\<rparr>;
     assert_structure_consistency s;
     Some (Some va, s) })"
proof -
  note f = same_but_tables_fields [OF t(1)]
  have n: "(next_free_VA t)(current_pid t \<mapsto> get_next_free_VA t (current_pid t) + VM_PAGESIZE) = bump s"
    by (simp add: bump_def get_next_free_VA_def f e)
  have "bump s pid \<noteq> None" if "next_free_VA e pid \<noteq> None" for pid using that by (simp add: bump_def e)
  from finish_map [OF t c ro this] have inv: "pager_inv ok (t\<lparr>next_free_VA := bump s\<rparr>)" by blast
  moreover have "extended s va (t\<lparr>next_free_VA := bump s\<rparr>)"
    using s(2,3) e same_but_tables_lookup [OF t(1)] by (auto simp: extended_def f bump_def get_next_free_VA_def)
  ultimately show ?thesis using consistency_holds [OF inv] unfolding n by (simp add: returns_def)
qed

lemma extended_kept: "kept s t \<Longrightarrow> extended t va u \<Longrightarrow> extended s va u"
  by (simp add: kept_def extended_def)

lemma map_swap_spec:
  assumes inv: "pager_inv ok s" and va: "next_free_VA s (current_pid s) = Some va" "va < VM_ARENA_MAXADDR"
  shows "returns (\<lambda>(r, t). pager_inv ok t \<and> (case r of None \<Rightarrow> t = s \<and> next_free_swap s = [] | Some a \<Rightarrow> extended s a t)) (do {
     (v, s) \<leftarrow> make_swap_to_nullpage va (current_pid s) s;
     case v of None \<Rightarrow> Some (None, s) | Some _ \<Rightarrow> do {
       let s = s\<lparr>next_free_VA := (next_free_VA s)(current_pid s \<mapsto> get_next_free_VA s (current_pid s) + VM_PAGESIZE)\<rparr>;
       assert_structure_consistency s;
       Some (Some va, s) } })"
proof (cases "next_free_swap s = []")
  case True
  then show ?thesis using inv consistency_holds [OF inv] by (simp add: make_swap_to_nullpage_def returns_def)
next
  case False
  have i: "core ok s" "resident_ok ok s" "shows_all s {v. live s v}" "processes_ok s" using inv by (simp_all add: pager_inv_iff)
  note b = core_bump [OF i(1) va]
  let ?e = "swap_eff va (current_pid s) s"
  obtain t where t: "make_swap_to_nullpage va (current_pid s) s = Some (Some (next_vpage s), t)" "same_but_tables ?e t" "shows_all t {v. live ?e v}"
    using make_swap_spec [OF b False i(3)] by (auto elim!: returnsE)
  have en: "?e\<lparr>next_free_VA := bump s\<rparr> = swap_eff va (current_pid s) (s\<lparr>next_free_VA := bump s\<rparr>)" by (simp add: swap_eff_def set_va_def mappings_def)
  have c: "core ok (?e\<lparr>next_free_VA := bump s\<rparr>)" "live ?e w \<longleftrightarrow> live s w \<or> w = next_vpage s" for w
    using core_swap_eff [OF b] False unfolding en [symmetric] by simp_all
  have rest: "resident_ok ok ?e" "processes_ok ?e" using effect_rest(1,2) [OF i(2,4)] va(1) c(2) by simp_all
  from finish_spec [OF inv va t(2,3) c(1) rest effect_fields(1,2) effect_lookup(1)] show ?thesis
    by (simp add: t(1)) (auto elim!: returns_mono)
qed

lemma map_named_spec:
  assumes inv: "pager_inv ok s" and va: "next_free_VA s (current_pid s) = Some va" "va < VM_ARENA_MAXADDR"
  shows "returns (\<lambda>(r, t). r = Some va \<and> pager_inv ok t \<and> extended s va t) (do {
     s \<leftarrow> map_file_page va name b s;
     let s = s\<lparr>next_free_VA := (next_free_VA s)(current_pid s \<mapsto> get_next_free_VA s (current_pid s) + VM_PAGESIZE)\<rparr>;
     assert_structure_consistency s;
     Some (Some va, s) })"
proof -
  have i: "core ok s" "resident_ok ok s" "shows_all s {v. live s v}" "processes_ok s" using inv by (simp_all add: pager_inv_iff)
  note cb = core_bump [OF i(1) va]
  let ?e = "map_file_eff va name b s" and ?p = "current_pid s"
  have cp: "page_table_base_register s = current_pid s" using i(4) by (simp add: processes_ok_def)
  note m = map_file_page_spec [OF cb i(3) cp refl, of name b]
  obtain t where t: "map_file_page va name b s = Some t" "same_but_tables ?e t" "shows_all t {v. live ?e v}" using m(2) by (auto elim: returnsE)
  have rest: "resident_ok ok ?e \<and> processes_ok ?e \<and> current_pid ?e = current_pid s \<and> next_free_VA ?e = next_free_VA s
      \<and> (\<exists>v. lookup_va ?e = (lookup_va s)(?p := (lookup_va s ?p)(va \<mapsto> v)))"
  proof (cases "map_of (filename_block_to_vpage s) (name, b)")
    case None
    have en: "(file_eff va ?p name b s)\<lparr>next_free_VA := bump s\<rparr> = file_eff va ?p name b (s\<lparr>next_free_VA := bump s\<rparr>)"
      by (simp add: file_eff_def set_va_def mappings_def)
    have "live (file_eff va ?p name b s) w \<longleftrightarrow> live s w \<or> w = next_vpage s" for w
      using core_file_eff(2) [OF cb, of name b w] None unfolding en [symmetric] by simp
    with None show ?thesis using effect_rest(3,4) [OF i(2,4)] va(1)
      by (intro conjI exI [of _ "next_vpage s"]) (simp_all add: map_file_eff_def effect_fields effect_lookup)
  next
    case (Some v)
    have "live ?e = live s"
    proof -
      have "wf_maps ?e" using core_facts(1) [OF m(1)] by simp
      moreover have "registered ?e = registered s" "mapped ?e w \<longleftrightarrow> mapped s w \<or> w = v" for w
        using Some core_facts(1) [OF i(1)] cb(2)
        by (simp_all add: map_file_eff_def registered_def mapped_def effect_lookup fun_eq_iff)
          (auto simp: alias_eff_def upd_vpage_def fresh_va_def split: if_splits, (metis option.distinct(1))+)
      moreover have "registered s v" using Some by (auto simp: registered_def)
      ultimately show ?thesis unfolding fun_eq_iff by (auto simp: live_iff core_facts(1) [OF i(1)])
    qed
    with Some show ?thesis using effect_rest(5,6) [OF i(2,4)] va(1)
      by (intro conjI exI [of _ v]) (simp_all add: map_file_eff_def effect_fields effect_lookup)
  qed
  then obtain v where "lookup_va ?e = (lookup_va s)(?p := (lookup_va s ?p)(va \<mapsto> v))" by blast
  from finish_spec [OF inv va t(2,3) m(1) _ _ _ _ this] rest t(1) show ?thesis by simp
qed

lemma vm_map_spec:
  assumes inv: "pager_inv ok s" and a: "alive s" and fo: "file_laws fo ok"
  shows "returns (\<lambda>(r, t). pager_inv ok t \<and> (case r of None \<Rightarrow> kept s t | Some va \<Rightarrow> extended s va t)) (vm_map fo name_ptr block s)"
proof -
  obtain va where va: "next_free_VA s (current_pid s) = Some va" using a by (auto simp: alive_def)
  have g: "get_next_free_VA s (current_pid s) = va" using va by (simp add: get_next_free_VA_def)
  show ?thesis
  proof (cases "VM_ARENA_MAXADDR \<le> va")
    case True
    then show ?thesis using inv consistency_holds [OF inv] by (simp add: vm_map_def g Let_def returns_def)
  next
    case False
    then have lt: "va < VM_ARENA_MAXADDR" by simp
    show ?thesis
    proof (cases name_ptr)
      case None
      from map_swap_spec [OF inv va lt] show ?thesis unfolding vm_map_def g Let_def using None False
        by (simp add: case_prod_beta) (erule returns_mono, auto split: option.splits)
    next
      case (Some ptr)
      obtain nm t where t: "translate_from_other_addr_space fo ptr s = Some (nm, t)" "pager_inv ok t" "kept s t"
        using translate_spec [OF inv a fo, of ptr] unfolding returns_def by blast
      have vt: "next_free_VA t (current_pid t) = Some va" using t(3) va by (simp add: kept_def)
      show ?thesis
      proof (cases nm)
        case None
        with t Some False show ?thesis unfolding vm_map_def g Let_def by (simp add: returns_def)
      next
        case name: (Some nm')
        from map_named_spec [OF t(2) vt lt, of nm' block] show ?thesis unfolding vm_map_def g Let_def using t Some name False
          by (simp add: case_prod_beta) (erule returns_mono, auto intro: extended_kept)
      qed
    qed
  qed
qed

end
