(* ===== verification/Pager_Copy.thy ===== *)
theory Pager_Copy
  imports Pager_Operations
begin

text \<open>
  Copy-on-write and \<^verbatim>\<open>vm_fault\<close> as a whole: a fault keeps the invariant, does not abort, and a
  fault that succeeds leaves an entry that permits the access.
\<close>

section \<open>Showing pages one at a time\<close>

lemma show_in:
  assumes "same_but_tables e t" "core ok e" "mapped e v" "shows_all t (W - {v})" "W \<subseteq> {v. live e v}"
  shows "returns (\<lambda>u. same_but_tables e u \<and> shows_all u W) (updatePTEs v t)"
proof -
  have v: "live e v" using core_facts(7) [OF assms(2)] assms(3) by blast
  have "pte_bits (vpages t v) \<noteq> None"
    using affiliated_mapped [OF assms(2) v] assms(3) page_okD(4,6) [OF assms(2) v] unfolding same_but_tables_fields(1) [OF assms(1)]
    by (intro pte_bits_counts) auto
  from updatePTEs_shows [OF this core_page_entries(1) [OF assms(2,1) v] assms(4) core_page_entries(2) [OF assms(2,1) v]] v assms(5)
  have "returns (\<lambda>u. same_but_tables t u \<and> shows_all u W) (updatePTEs v t)" by simp
  then show ?thesis by (rule returns_mono) (use same_but_tables_trans [OF assms(1)] in blast)
qed

section \<open>The separated page\<close>

text \<open>The mapping of address \<open>va\<close> moves from the shared page \<open>v\<close> to a new page with one of its blocks.\<close>

definition split_page :: "nat \<Rightarrow> nat \<Rightarrow> nat \<Rightarrow> 'f pager \<Rightarrow> 'f pager" where
  "split_page va pid v s = (set_va pid va (next_vpage s) s)\<lparr>next_vpage := Suc (next_vpage s),
     vpages := (vpages s)(next_vpage s := new_virtual_page\<lparr>affiliated := [VA_to_PTE va pid], blocks := [last (blocks (vpages s v))], isSwap := True\<rparr>,
       v := drop_page va pid (vpages s v))\<rparr>"

lemma other_mapping:
  assumes c: "core ok s" and m: "lookup_va s pid va = Some v" and l: "1 < length (affiliated (vpages s v))"
  obtains p a where "lookup_va s p a = Some v" "\<not> (p = pid \<and> a = va)"
proof -
  have v: "live s v" using core_facts(7) [OF c] m by (auto simp: mapped_def)
  have "\<exists>q \<in> set (affiliated (vpages s v)). q \<noteq> VA_to_PTE va pid"
  proof (rule ccontr)
    assume "\<not> (\<exists>q \<in> set (affiliated (vpages s v)). q \<noteq> VA_to_PTE va pid)"
    then have "set (affiliated (vpages s v)) \<subseteq> {VA_to_PTE va pid}" by blast
    then have "card (set (affiliated (vpages s v))) \<le> 1" using card_mono [of "{VA_to_PTE va pid}"] by simp
    with distinct_card [OF page_okD(2) [OF c v]] l show False by simp
  qed
  then obtain q where "q \<in> entries_of s v" "q \<noteq> VA_to_PTE va pid" using page_okD(1) [OF c v] by blast
  then show ?thesis using that unfolding entries_of_def by blast
qed

lemma core_split:
  assumes c: "core ok s" and m: "lookup_va s pid va = Some v" and sw: "isSwap (vpages s v)" "1 < length (blocks (vpages s v))"
  shows "core ok (split_page va pid v s)" "live (split_page va pid v s) w \<longleftrightarrow> live s w \<or> w = next_vpage s"
proof -
  have v: "live s v" using core_facts(7) [OF c] m by (auto simp: mapped_def)
  let ?vp = "vpages s v" and ?b = "last (blocks (vpages s v))" and ?t = "split_page va pid v s"
  let ?g = "s\<lparr>translateVA := AList.update pid (AList.delete va (mappings s pid)) (translateVA s), vpages := (vpages s)(v := drop_page va pid ?vp),
    next_free_swap := ?b # next_free_swap s\<rparr>"
  have nv: "v \<noteq> next_vpage s" using core_bounds [OF c v] by simp
  have l: "lookup_va ?g = (\<lambda>p a. if p = pid \<and> a = va then None else lookup_va s p a)"
    by (auto simp: fun_eq_iff lookup_va_def mappings_def update_conv' delete_conv' split: option.splits)
  have wf: "wf_maps ?g"
    using core_facts(1) [OF c] mappings_distinct [OF core_facts(1) [OF c], of pid] set_alist_update [of pid "AList.delete va (mappings s pid)" "translateVA s"]
    by (force simp: wf_maps_def distinct_update distinct_delete)
  obtain p a where o: "lookup_va s p a = Some v" "\<not> (p = pid \<and> a = va)"
    using other_mapping [OF c m] sw(2) page_okD(4) [OF c v sw(1)] by auto
  then have "lookup_va ?g p a = Some v" unfolding l by auto
  then have lv: "live ?g v" unfolding live_iff [OF wf] mapped_def by blast
  have "core ok ?g \<and> (\<forall>w. w \<noteq> v \<longrightarrow> live ?g w = live s w)"
    by (rule core_drop [OF c wf m l]) (use sw(1) lv in simp_all)
  then have g: "core ok ?g" "live ?g w \<longleftrightarrow> live s w" for w using lv v by auto
  obtain nva where n: "next_free_VA s pid = Some nva" "va < nva" "arena_va va" using arena_okD [OF core_facts(2) [OF c] m] by blast
  have wft: "wf_maps ?t" using wf_maps_set_va(1) [OF core_facts(1) [OF c]] by (simp add: split_page_def)
  have lt: "lookup_va ?t = (\<lambda>p a. if p = pid \<and> a = va then Some (next_vpage ?g) else lookup_va ?g p a)"
    unfolding l by (auto simp: fun_eq_iff split_page_def)
  have none: "lookup_va ?g pid va = None" unfolding l by simp
  have nvg: "next_free_VA ?g pid = Some nva" using n(1) by simp
  let ?r = "new_virtual_page\<lparr>affiliated := [VA_to_PTE va pid], blocks := [?b], isSwap := True\<rparr>"
  have *: "core ok ?t \<and> (live ?t w \<longleftrightarrow> live ?g w \<or> w = next_vpage ?g)" for w
    using core_map_new [OF g(1) wft lt none n(3) nvg n(2), of ?r ?b] nv
    by (auto simp: split_page_def new_virtual_page_def phys_ok_def in_frame_def fun_upd_twist)
  show "core ok ?t" "live ?t w \<longleftrightarrow> live s w \<or> w = next_vpage s" using * g(2) by simp_all
qed

section \<open>Copying\<close>

text \<open>The new page has its frame.\<close>

definition copy_frame :: "'f file_ops \<Rightarrow> nat \<Rightarrow> nat \<Rightarrow> 'f pager \<Rightarrow> 'f pager" where
  "copy_frame fo va v s = give_eff fo (next_vpage s) (split_page va (current_pid s) v s)"

definition copy_mem :: "'f file_ops \<Rightarrow> nat \<Rightarrow> nat \<Rightarrow> 'f pager \<Rightarrow> nat \<Rightarrow> page" where
  "copy_mem fo va v s = (let t = copy_frame fo va v s in
     if resident (vpages t v) then (vm_physmem s)(frame t (next_vpage s) := vm_physmem s (frame t v)) else vm_physmem s)"

definition copy_eff :: "'f file_ops \<Rightarrow> nat \<Rightarrow> nat \<Rightarrow> 'f pager \<Rightarrow> 'f pager" where
  "copy_eff fo va v s = upd_vpage (next_vpage s) (mark True) ((copy_frame fo va v s)\<lparr>vm_physmem := copy_mem fo va v s\<rparr>)"

lemma split_fields:
  "vm_physmem (split_page va pid v s) = vm_physmem s" "current_pid (split_page va pid v s) = current_pid s"
  "next_free_VA (split_page va pid v s) = next_free_VA s" "clock_queue (split_page va pid v s) = clock_queue s"
  "page_table_base_register (split_page va pid v s) = page_table_base_register s" "files (split_page va pid v s) = files s"
  "lookup_va (split_page va pid v s) = (lookup_va s)(pid := (lookup_va s pid)(va \<mapsto> next_vpage s))" "get_pte (split_page va pid v s) p = get_pte s p"
  by (auto simp: split_page_def fun_eq_iff)

text \<open>Facts about the state after the frame has been handed out.\<close>

lemma copy_frame_facts:
  assumes inv: "pager_inv ok s" and a: "alive s" and m: "lookup_va s (current_pid s) va = Some v"
    and sw: "isSwap (vpages s v)" "1 < length (blocks (vpages s v))"
  shows "core ok (copy_frame fo va v s)" "resident_ok ok (copy_frame fo va v s)" "processes_ok (copy_frame fo va v s)"
    "mapped (copy_frame fo va v s) v" "mapped (copy_frame fo va v s) (next_vpage s)" "v \<noteq> next_vpage s" "next_vpage s \<notin> set (clock_queue s)"
    "core ok (split_page va (current_pid s) v s)" "\<And>w. live (copy_frame fo va v s) w \<Longrightarrow> live s w \<or> w = next_vpage s"
    "vpages (copy_frame fo va v s) (next_vpage s) = \<lparr>affiliated = [VA_to_PTE va (current_pid s)], isSwap = True, filename = [],
       blocks = [last (blocks (vpages s v))], physicalPage = Some \<lparr>PPN = new_frame (split_page va (current_pid s) v s), clocked = True, dirty = False\<rparr>, resident = True\<rparr>"
proof -
  have c: "core ok s" and ro: "resident_ok ok s" and po: "processes_ok s" using inv by (simp_all add: pager_inv_iff)
  let ?p = "current_pid s" and ?n = "next_vpage s"
  let ?u = "split_page va ?p v s" and ?t = "copy_frame fo va v s"
  have v: "live s v" using core_facts(7) [OF c] m by (auto simp: mapped_def)
  show nv: "v \<noteq> ?n" using core_bounds [OF c v] by simp
  note sp = core_split [OF c m sw]
  show cu: "core ok ?u" by (rule sp(1))
  have lu: "live ?u ?n" "live ?u v" using sp(2) v by blast+
  have un: "vpages ?u ?n = new_virtual_page\<lparr>affiliated := [VA_to_PTE va ?p], blocks := [last (blocks (vpages s v))], isSwap := True\<rparr>"
    using nv by (simp add: split_page_def)
  then have nf: "\<not> in_frame (vpages ?u ?n)" by (simp add: in_frame_def new_virtual_page_def)
  show nq: "?n \<notin> set (clock_queue s)" using core_bounds [OF c] core_live_clock [OF c] by blast
  then have nq': "?n \<notin> set (clock_queue ?u)" by (simp add: split_fields)
  show ct: "core ok ?t" unfolding copy_frame_def by (rule core_give [OF cu lu(1) nf])
  have "lookup_va ?t = lookup_va ?u" by (simp add: copy_frame_def)
  then have mp: "mapped ?t = mapped ?u" by (rule mapped_lookup)
  show "mapped ?t ?n" unfolding mp mapped_def split_fields by (rule exI [of _ ?p], rule exI [of _ va]) simp
  obtain p b where "lookup_va s p b = Some v" "\<not> (p = ?p \<and> b = va)" using other_mapping [OF c m] sw page_okD(4) [OF c v sw(1)] by auto
  then show "mapped ?t v" unfolding mp mapped_def split_fields by (intro exI [of _ p] exI [of _ b]) auto
  show lt: "live ?t w \<Longrightarrow> live s w \<or> w = ?n" for w using give_eff_live sp(2) unfolding copy_frame_def by blast
  show "vpages ?t ?n = \<lparr>affiliated = [VA_to_PTE va ?p], isSwap = True, filename = [],
       blocks = [last (blocks (vpages s v))], physicalPage = Some \<lparr>PPN = new_frame ?u, clocked = True, dirty = False\<rparr>, resident = True\<rparr>"
    by (simp add: copy_frame_def give0_vpages(1) [OF cu nq'] un new_virtual_page_def)
  have "resident_ok ok ?u" unfolding resident_ok_def sp(2)
    using ro sw(1) nv unfolding resident_ok_def by (auto simp: split_page_def new_virtual_page_def drop_page_def)
  then show "resident_ok ok ?t"
    by (rule resident_ok_give [OF cu nq' _ _ static_give0])
      (use static_give0 [of ?u fo ?n] give_eff_live [of fo ?n ?u] un in \<open>simp_all add: copy_frame_def static_def readable_def\<close>)
  have "processes_ok ?u" using processes_ok_set_va [OF po, of ?p] a unfolding alive_def by (simp add: split_page_def processes_ok_def)
  then show "processes_ok ?t" by (simp add: copy_frame_def processes_ok_def)
qed

lemma copy_on_write_spec:
  assumes inv: "pager_inv ok s" and a: "alive s" and m: "lookup_va s (current_pid s) va = Some v"
    and sw: "isSwap (vpages s v)" "1 < length (blocks (vpages s v))"
  shows "returns (\<lambda>t. same_but_tables (copy_eff fo va v s) t \<and> pager_inv ok t) (copy_on_write fo va v s)"
proof -
  let ?p = "current_pid s" and ?n = "next_vpage s" and ?q = "VA_to_PTE va (current_pid s)"
  let ?u = "split_page va ?p v s" and ?e = "copy_frame fo va v s" and ?f = "copy_eff fo va v s"
  note cf = copy_frame_facts(1-5) [OF inv a m sw, of fo] copy_frame_facts(6-8) [OF inv a m sw] copy_frame_facts(9,10) [OF inv a m sw, of fo]
  have c: "core ok s" and sh: "shows_all s {v. live s v}" and po: "processes_ok s" using inv by (simp_all add: pager_inv_iff)
  have v: "live s v" using core_facts(7) [OF c] m by (auto simp: mapped_def)
  have ptb: "page_table_base_register s = ?p" using po by (simp add: processes_ok_def)
  have aff: "erase_first ?q (affiliated (vpages s v)) = Some (remove1 ?q (affiliated (vpages s v)))"
    using page_okD(1) [OF c v] entry_of_mapping [OF c arena_okD(2) [OF core_facts(2) [OF c] m]] m by (simp add: erase_first_def)
  have u: "upd_vpage v (\<lambda>vp. vp\<lparr>affiliated := remove1 ?q (affiliated (vpages s v)), blocks := butlast (blocks vp)\<rparr>)
      ((set_va ?p va ?n s)\<lparr>next_vpage := Suc ?n, vpages := (vpages s)(?n := new_virtual_page\<lparr>affiliated := [?q], blocks := [last (blocks (vpages s v))], isSwap := True\<rparr>)\<rparr>) = ?u"
  proof -
    have com: "vp\<lparr>affiliated := x, blocks := y\<rparr> = vp\<lparr>blocks := y, affiliated := x\<rparr>" for vp :: virtual_page and x y by (cases vp) simp
    show ?thesis using cf(6) sw(1) by (simp add: split_page_def drop_page_def upd_vpage_def) (simp only: com)
  qed
  have lu: "live ?u ?n" "mapped ?u ?n" "\<not> in_frame (vpages ?u ?n)"
    using core_split(2) [OF c m sw] cf(5,6) mapped_lookup [of ?e ?u] by (simp_all add: copy_frame_def) (simp add: split_page_def in_frame_def new_virtual_page_def)
  have "shows_all s ({w. live ?u w} - {v} - {?n})" using sh by (rule shows_all_mono) (use core_split(2) [OF c m sw] in blast)
  moreover have "shows_all ?u ({w. live ?u w} - {v} - {?n}) = shows_all s ({w. live ?u w} - {v} - {?n})"
    by (rule shows_all_cong) (auto simp: split_fields, auto simp: split_page_def)
  ultimately have "shows_all ?u ({w. live ?u w} - {v} - {?n})" by blast
  from give_new_ppn_spec [OF cf(8) lu this, of fo] obtain t where t: "give_new_ppn fo ?n ?u = Some t" "same_but_tables ?e t"
    "shows_all t ({w. live ?u w} - {v} - {?n})" unfolding copy_frame_def by (auto elim: returnsE)
  note f = same_but_tables_fields [OF t(2)]
  let ?t = "t\<lparr>vm_physmem := copy_mem fo va v s\<rparr>"
  have mem: "vm_physmem t = vm_physmem s" by (simp add: f copy_frame_def split_fields)
  have fn: "physicalPage (vpages t ?n) = Some \<lparr>PPN = frame ?e ?n, clocked = True, dirty = False\<rparr>" by (simp add: f cf(10) frame_def)
  have lve: "live ?e v" using core_facts(7) [OF cf(1)] cf(4) by blast
  have copy: "(if resident (vpages t v) then do { pv \<leftarrow> physicalPage (vpages t v);
      Some (t\<lparr>vm_physmem := (vm_physmem t)(frame ?e ?n := vm_physmem t (PPN pv))\<rparr>) } else Some t) = Some ?t"
    using page_okD(6) [OF cf(1) lve] mem by (auto simp: f copy_mem_def Let_def frame_def)
  have up: "upd_phys ?n (\<lambda>pp. pp\<lparr>dirty := True, clocked := True\<rparr>) ?t = Some (upd_vpage ?n (mark True) ?t)"
    using fn by (simp add: upd_phys_def upd_vpage_def mark_def)
  have fe: "same_but_tables ?f (upd_vpage ?n (mark True) ?t)"
    unfolding copy_eff_def by (intro same_but_tables_upd(6) same_but_tables_upd(5) t(2))
  have cfe: "core ok ?f" unfolding copy_eff_def
    using cf(1) core_facts(7) [OF cf(1)] cf(5,10) new_frame_nonzero [OF cf(8)] by (intro core_mark core_upd(1)) (simp_all add: in_frame_def)
  have lf: "live ?f = live ?e" "lookup_va ?f = lookup_va ?e" by (simp_all add: copy_eff_def)
  have mf: "mapped ?f v" "mapped ?f ?n" using cf(4,5) mapped_lookup [OF lf(2)] by simp_all
  have ef: "{w. live ?f w} \<subseteq> {w. live ?u w}" using lf(1) give_eff_live [of fo ?n ?u] by (auto simp: copy_frame_def)
  have "shows_all (upd_vpage ?n (mark True) ?t) ({w. live ?u w} - {v} - {?n})" using t(3) by (intro shows_all_upd) simp
  then have "shows_all (upd_vpage ?n (mark True) ?t) (({w. live ?f w} - {?n}) - {v})" using ef by (rule_tac shows_all_mono) auto
  from show_in [OF fe cfe mf(1) this] obtain x where x: "updatePTEs v (upd_vpage ?n (mark True) ?t) = Some x" "same_but_tables ?f x"
    "shows_all x ({w. live ?f w} - {?n})" by (auto elim!: returnsE)
  from show_in [OF x(2) cfe mf(2) x(3) order_refl] obtain y where y: "updatePTEs ?n x = Some y" "same_but_tables ?f y" "shows_all y {w. live ?f w}"
    by (auto elim!: returnsE)
  have "resident_ok ok ?f" using cf(2) cf(10) unfolding resident_ok_def lf by (auto simp: copy_eff_def upd_vpage_def)
  moreover have "processes_ok ?f" using cf(3) by (simp add: processes_ok_def copy_eff_def upd_vpage_def)
  ultimately have inv': "pager_inv ok y" by (intro pager_invI [OF y(2) cfe _ _ y(3) order_refl])
  have ca: "cassert (blocks (vpages s v) \<noteq> []) = Some ()" using sw(2) by (auto simp: cassert_def)
  have "copy_on_write fo va v s = Some y"
    unfolding copy_on_write_def ptb Let_def by (simp only: aff ca u t(1) fn physical_page.simps copy up x(1) y(1) consistency_holds [OF inv'] Option.bind.simps)
  then show ?thesis using y(2) inv' by (simp add: returns_def)
qed

section \<open>\<^verbatim>\<open>vm_fault\<close>\<close>

text \<open>The page table entry of an address permits an access; a fault is raised by an access it does not permit.\<close>

definition permits :: "'f pager \<Rightarrow> nat \<Rightarrow> bool \<Rightarrow> bool" where
  "permits s va write = (case get_pte s (VA_to_PTE va (page_table_base_register s)) of
     None \<Rightarrow> False | Some e \<Rightarrow> read_enable e \<and> (write \<longrightarrow> write_enable e))"

definition genuine :: "'f pager \<Rightarrow> nat \<Rightarrow> bool \<Rightarrow> bool" where
  "genuine s va write \<longleftrightarrow> (lookup_va s (current_pid s) va = None \<or> \<not> permits s va write)"

lemma permits_iff:
  assumes inv: "pager_inv ok s" and m: "lookup_va s (current_pid s) va = Some v"
  shows "permits s va write \<longleftrightarrow> (case pte_bits (vpages s v) of None \<Rightarrow> False | Some (r, w) \<Rightarrow> r \<and> (write \<longrightarrow> w))"
proof -
  have c: "core ok s" and sh: "shows_all s {v. live s v}" and po: "processes_ok s" using inv by (simp_all add: pager_inv_iff)
  have v: "live s v" using core_facts(7) [OF c] m by (auto simp: mapped_def)
  have "VA_to_PTE va (current_pid s) \<in> set (affiliated (vpages s v))"
    using page_okD(1) [OF c v] entry_of_mapping [OF c arena_okD(2) [OF core_facts(2) [OF c] m]] m by simp
  then have "pte_shows s v (VA_to_PTE va (current_pid s))" using sh v by (auto simp: shows_all_def)
  then show ?thesis using po by (auto simp: permits_def pte_shows_def processes_ok_def split: option.splits)
qed

lemma fault_bits:
  assumes c: "core ok s" and v: "mapped s v" and z: "fst (fault_eff fo ok v write s) = 0" and w: "write \<Longrightarrow> length (blocks (vpages s v)) \<le> 1"
  shows "case pte_bits (vpages (snd (fault_eff fo ok v write s)) v) of None \<Rightarrow> False | Some (r, w) \<Rightarrow> r \<and> (write \<longrightarrow> w)"
proof -
  have lv: "live s v" using core_facts(7) [OF c] v by blast
  note p = page_okD [OF c lv]
  let ?y = "vpages (if in_frame (vpages s v) then s else load_eff fo v s) v"
  have x: "vpages (snd (fault_eff fo ok v write s)) v = mark write ?y"
    using z by (auto simp: fault_eff_def upd_vpage_def split: if_splits)
  have "v \<notin> set (clock_queue s)" if "\<not> in_frame (vpages s v)" using on_clock [OF c] that by blast
  from give0_vpages(1) [OF c this, of fo]
  have y: "affiliated ?y = affiliated (vpages s v)" "isSwap ?y = isSwap (vpages s v)" "blocks ?y = blocks (vpages s v)" "resident ?y"
    "physicalPage ?y \<noteq> None" using p(6) by (auto simp: in_frame_def split: option.splits)
  have a: "affiliated (vpages s v) \<noteq> []" using affiliated_mapped [OF c lv] v by blast
  have "length (affiliated (vpages s v)) = Suc 0" if "write" "isSwap (vpages s v)" using w [OF that(1)] p(4) [OF that(2)] a
    by (cases "affiliated (vpages s v)") auto
  then show ?thesis unfolding x using y a p(4) by (auto simp: pte_bits_def mark_def cassert_def)
qed

text \<open>What a fault does to the address space, by the answer.\<close>

definition fault_result :: "'f pager \<Rightarrow> nat \<Rightarrow> bool \<Rightarrow> int \<Rightarrow> 'f pager \<Rightarrow> bool" where
  "fault_result s va write r t \<longleftrightarrow> current_pid t = current_pid s \<and> next_free_VA t = next_free_VA s
     \<and> (\<forall>pid a. (pid, a) \<noteq> (current_pid s, va) \<longrightarrow> lookup_va t pid a = lookup_va s pid a)
     \<and> (if r = 0 then lookup_va s (current_pid s) va \<noteq> None \<and> lookup_va t (current_pid s) va \<noteq> None \<and> permits t va write
        else r = -1 \<and> lookup_va t (current_pid s) va = lookup_va s (current_pid s) va)"

lemma kept_result:
  assumes "kept s t" "r = 0 \<Longrightarrow> lookup_va s (current_pid s) va \<noteq> None \<and> permits t va write" "r = 0 \<or> r = -1"
  shows "fault_result s va write r t"
  using assms by (auto simp: kept_def fault_result_def)

text \<open>A write that faults on a page of one mapping finds it not yet written.\<close>

lemma unwritten:
  assumes inv: "pager_inv ok s" and m: "lookup_va s (current_pid s) va = Some v" and b: "length (blocks (vpages s v)) \<le> 1" and p: "\<not> permits s va True"
  shows "\<not> written (vpages s v)"
proof
  assume wr: "written (vpages s v)"
  have c: "core ok s" using inv by (simp add: pager_inv_iff)
  have mv: "mapped s v" using m by (auto simp: mapped_def)
  have lv: "live s v" using core_facts(7) [OF c] mv by blast
  have a: "affiliated (vpages s v) \<noteq> []" using affiliated_mapped [OF c lv] mv by blast
  have "length (affiliated (vpages s v)) = Suc 0" if "isSwap (vpages s v)"
    using b page_okD(4) [OF c lv that] a by (cases "affiliated (vpages s v)") auto
  with wr a page_okD(4,6) [OF c lv] have "pte_bits (vpages s v) = Some (True, True)"
    by (auto simp: written_def pte_bits_def cassert_def split: option.splits)
  with permits_iff [OF inv m, of True] p show False by simp
qed

lemma fault_in_result:
  assumes inv: "pager_inv ok s" and m: "lookup_va s (current_pid s) va = Some v" and fo: "file_laws fo ok"
    and w: "write \<Longrightarrow> length (blocks (vpages s v)) \<le> 1" "write \<Longrightarrow> \<not> permits s va write"
  shows "returns (\<lambda>(r, t). pager_inv ok t \<and> fault_result s va write r t) (fault_page_in fo v write s)"
proof -
  have c: "core ok s" using inv by (simp add: pager_inv_iff)
  have mv: "mapped s v" using m by (auto simp: mapped_def)
  have lv: "live s v" using core_facts(7) [OF c] mv by blast
  have "\<not> written (vpages s v)" if "write" "length (blocks (vpages s v)) \<le> 1"
    using unwritten [OF inv m that(2)] w(2) that(1) by simp
  then have spec: "returns (\<lambda>(r, t). r = fst (fault_eff fo ok v write s) \<and> same_but_tables (snd (fault_eff fo ok v write s)) t \<and> pager_inv ok t)
      (fault_page_in fo v write s)" by (intro fault_page_in_spec [OF inv mv fo]) blast
  have "pager_inv ok t \<and> fault_result s va write (fst (fault_eff fo ok v write s)) t"
    if t: "same_but_tables (snd (fault_eff fo ok v write s)) t" "pager_inv ok t" for t
  proof -
    have k: "kept s t" by (rule kept_tables [OF kept_fault t(1)])
    have mt: "lookup_va t (current_pid t) va = Some v" using k m by (simp add: kept_def)
    have "permits t va write" if "fst (fault_eff fo ok v write s) = 0"
      using fault_bits [OF c mv that w(1)] permits_iff [OF t(2) mt] by (simp add: same_but_tables_fields [OF t(1)])
    moreover have "fst (fault_eff fo ok v write s) = 0 \<or> fst (fault_eff fo ok v write s) = -1" by (simp add: fault_eff_def)
    ultimately show "pager_inv ok t \<and> fault_result s va write (fst (fault_eff fo ok v write s)) t"
      using t(2) m kept_result [OF k] by simp
  qed
  then show ?thesis by (intro returns_mono [OF spec]) auto
qed

lemma copy_result:
  assumes inv: "pager_inv ok s" and a: "alive s" and m: "lookup_va s (current_pid s) va = Some v"
    and sw: "isSwap (vpages s v)" "1 < length (blocks (vpages s v))"
  shows "returns (\<lambda>t. pager_inv ok t \<and> fault_result s va True 0 t) (copy_on_write fo va v s)"
proof (rule returns_mono [OF copy_on_write_spec [OF assms]], elim conjE)
  fix t assume t: "same_but_tables (copy_eff fo va v s) t" "pager_inv ok t"
  let ?n = "next_vpage s" and ?p = "current_pid s"
  have l: "lookup_va t = (lookup_va s)(?p := (lookup_va s ?p)(va \<mapsto> ?n))"
    using same_but_tables_lookup [OF t(1)] by (simp add: copy_eff_def copy_frame_def split_fields)
  have cp: "current_pid t = ?p" "next_free_VA t = next_free_VA s"
    by (simp_all add: same_but_tables_fields [OF t(1)] copy_eff_def copy_frame_def split_fields upd_vpage_def)
  have "vpages t ?n = mark True (vpages (copy_frame fo va v s) ?n)"
    by (simp add: same_but_tables_fields [OF t(1)] copy_eff_def upd_vpage_def)
  then have "pte_bits (vpages t ?n) = Some (True, True)" by (simp add: copy_frame_facts(10) [OF assms] mark_def pte_bits_def cassert_def)
  moreover have "lookup_va t (current_pid t) va = Some ?n" by (simp add: l cp)
  ultimately have "permits t va True" using permits_iff [OF t(2)] by simp
  with t(2) m l cp show "pager_inv ok t \<and> fault_result s va True 0 t" by (auto simp: fault_result_def)
qed

lemma fault_result_kept: "kept s t \<Longrightarrow> fault_result t va write r u \<Longrightarrow> fault_result s va write r u"
  by (auto simp: kept_def fault_result_def split: if_splits)

lemma permits_touch [simp]: "permits (touch_va pid s) va write = permits s va write"
  by (simp add: permits_def get_pte_def)

lemma vm_fault_spec:
  assumes inv: "pager_inv ok s" and a: "alive s" and fo: "file_laws fo ok" and g: "genuine s (page_base addr) write"
  shows "returns (\<lambda>(r, t). pager_inv ok t \<and> fault_result s (page_base addr) write r t) (vm_fault fo addr write s)"
proof -
  let ?s = "touch_va (current_pid s) s" and ?va = "page_base addr"
  have i: "pager_inv ok ?s" "alive ?s" using inv_touch [OF inv a] a by (simp_all add: alive_def)
  have c: "core ok ?s" using i(1) by (simp add: pager_inv_iff)
  show ?thesis
  proof (cases "lookup_va s (current_pid s) ?va")
    case None
    have "fault_result s ?va write (-1) ?s" by (rule kept_result) simp_all
    with None i(1) consistency_holds [OF i(1)] show ?thesis by (simp add: vm_fault_def Let_def returns_def)
  next
    case (Some v)
    then have m: "lookup_va ?s (current_pid ?s) ?va = Some v" by simp
    then have mv: "mapped ?s v" by (auto simp: mapped_def)
    have lv: "live ?s v" using core_facts(7) [OF c] mv by blast
    have np: "\<not> permits ?s ?va write" using g Some by (simp add: genuine_def)
    show ?thesis
    proof (cases "write \<and> 1 < length (blocks (vpages ?s v))")
      case False
      then have "returns (\<lambda>(r, t). pager_inv ok t \<and> fault_result ?s ?va write r t) (fault_page_in fo v write ?s)"
        using np by (intro fault_in_result [OF i(1) m fo]) auto
      then have "returns (\<lambda>(r, t). pager_inv ok t \<and> fault_result s ?va write r t) (fault_page_in fo v write ?s)"
        by (rule returns_mono) (auto intro: fault_result_kept [OF kept_touch])
      with Some False show ?thesis unfolding vm_fault_def Let_def by auto
    next
      case True
      have sw: "isSwap (vpages ?s v)" using page_okD(5) [OF c lv] True by auto
      obtain e where e: "first_pte ?s v = Some e" using first_pte_spec [OF i(1) mv] by metis
      have "returns (\<lambda>(r, t). pager_inv ok t \<and> kept s t \<and> (r = 0 \<or> r = -1)) (if \<not> read_enable e then vm_fault_read fo addr ?s else Some (0, ?s))"
      proof (rule returns_if)
        show "returns (\<lambda>(r, t). pager_inv ok t \<and> kept s t \<and> (r = 0 \<or> r = -1)) (vm_fault_read fo addr ?s)"
          by (rule returns_mono [OF vm_fault_read_spec [OF i fo m]]) (auto intro: kept_trans [OF kept_touch])
      qed (use i(1) in \<open>simp add: returns_def\<close>)
      then obtain r t where t: "(if \<not> read_enable e then vm_fault_read fo addr ?s else Some (0, ?s)) = Some (r, t)" "pager_inv ok t" "kept s t" "r = 0 \<or> r = -1"
        unfolding returns_def by blast
      have mt: "lookup_va t (current_pid t) ?va = Some v" "isSwap (vpages t v)" "1 < length (blocks (vpages t v))" "alive t"
        using t(3) Some sw True kept_alive [OF t(3)] a by (simp_all add: kept_def)
      have run: "vm_fault fo addr write s = (if r = -1 then Some (-1, t) else do { s \<leftarrow> copy_on_write fo ?va v t; Some (0, s) })"
        using Some True e t(1) by (simp add: vm_fault_def Let_def)
      show ?thesis
      proof (cases "r = -1")
        case True
        then show ?thesis using run t(2) kept_result [OF t(3), of "-1" ?va "write"] by (simp add: returns_def)
      next
        case False
        obtain u where u: "copy_on_write fo ?va v t = Some u" "pager_inv ok u" "fault_result t ?va True 0 u"
          using copy_result [OF t(2) mt(4,1-3), of fo] by (auto elim: returnsE)
        moreover have "write" using True by blast
        ultimately show ?thesis using run False fault_result_kept [OF t(3)] by (simp add: returns_def)
      qed
    qed
  qed
qed

text \<open>When the answer is 0: the address is mapped and the page is in swap space or its block can be read.\<close>

lemma in_frame_readable:
  assumes "pager_inv ok s" "live s v" "in_frame (vpages s v)"
  shows "readable ok (vpages s v)"
  using assms page_okD(6) [of ok s v] unfolding pager_inv_iff resident_ok_def readable_def by (auto simp: in_frame_def split: option.splits)

lemma fault_page_in_answer:
  assumes inv: "pager_inv ok s" and v: "mapped s v" and fo: "file_laws fo ok" and w: "write \<and> length (blocks (vpages s v)) \<le> 1 \<longrightarrow> \<not> written (vpages s v)"
    and t: "fault_page_in fo v write s = Some (r, t)"
  shows "r = (if readable ok (vpages s v) then 0 else -1)"
proof -
  have "live s v" using inv core_facts(7) v by (auto simp: pager_inv_iff)
  from returnsD [OF fault_page_in_spec [OF inv v fo w] t] in_frame_readable [OF inv this] show ?thesis by (auto simp: fault_eff_def)
qed

lemma vm_fault_answer:
  assumes inv: "pager_inv ok s" and a: "alive s" and fo: "file_laws fo ok" and np: "\<not> permits s (page_base addr) write"
    and t: "vm_fault fo addr write s = Some (r, t)"
  shows "r = (case lookup_va s (current_pid s) (page_base addr) of None \<Rightarrow> -1 | Some v \<Rightarrow> if readable ok (vpages s v) then 0 else -1)"
proof -
  let ?s = "touch_va (current_pid s) s" and ?va = "page_base addr"
  have i: "pager_inv ok ?s" "alive ?s" using inv_touch [OF inv a] a by (simp_all add: alive_def)
  have c: "core ok ?s" using i(1) by (simp add: pager_inv_iff)
  show ?thesis
  proof (cases "lookup_va s (current_pid s) ?va")
    case None
    with t show ?thesis by (auto simp: vm_fault_def Let_def bind_eq_Some_conv)
  next
    case (Some v)
    then have m: "lookup_va ?s (current_pid ?s) ?va = Some v" by simp
    then have mv: "mapped ?s v" by (auto simp: mapped_def)
    have lv: "live ?s v" using core_facts(7) [OF c] mv by blast
    show ?thesis
    proof (cases "write \<and> 1 < length (blocks (vpages ?s v))")
      case False
      then have "fault_page_in fo v write ?s = Some (r, t)" using t Some by (auto simp: vm_fault_def Let_def)
      moreover have "write \<and> length (blocks (vpages ?s v)) \<le> 1 \<longrightarrow> \<not> written (vpages ?s v)" using unwritten [OF i(1) m] np by auto
      ultimately show ?thesis using fault_page_in_answer [OF i(1) mv fo] Some by simp
    next
      case True
      then have rd: "readable ok (vpages ?s v)" using page_okD(5) [OF c lv] by (auto simp: readable_def)
      obtain e where e: "first_pte ?s v = Some e" using first_pte_spec [OF i(1) mv] by metis
      have "r' = 0" if f: "vm_fault_read fo addr ?s = Some (r', u)" for r' u
      proof -
        have j: "pager_inv ok (touch_va (current_pid ?s) ?s)" by (rule inv_touch [OF i])
        have "fault_page_in fo v False (touch_va (current_pid ?s) ?s) = Some (r', u)" using f m by (simp add: vm_fault_read_def Let_def)
        moreover have "mapped (touch_va (current_pid ?s) ?s) v" using mv by (simp add: mapped_def)
        ultimately show ?thesis using fault_page_in_answer [OF j _ fo, of v False r' u] rd by simp
      qed
      then have "r = 0" using t Some True e by (auto simp: vm_fault_def Let_def bind_eq_Some_conv split: if_splits)
      with Some rd show ?thesis by simp
    qed
  qed
qed

end
