(* ===== verification/Pager_Processes.thy ===== *)
theory Pager_Processes
  imports Pager_Copy
begin

text \<open>
  Processes: \<^verbatim>\<open>vm_create\<close>, \<^verbatim>\<open>vm_switch\<close> and \<^verbatim>\<open>vm_destroy\<close> keep the invariant and do not abort, a child
  has the address space of its parent and exit leaves the other address spaces alone.
\<close>

section \<open>Page tables come and go\<close>

lemma core_space:
  assumes c: "core ok s" and a: "arena_ok (s\<lparr>process_table := pt, next_free_VA := n\<rparr>)"
  shows "core ok (s\<lparr>process_table := pt, next_free_VA := n\<rparr>)"
proof -
  let ?t = "s\<lparr>process_table := pt, next_free_VA := n\<rparr>"
  have "entries_of ?t = entries_of s" "frame ?t = frame s" "swap_blocks ?t = swap_blocks s"
    by (simp_all add: fun_eq_iff entries_of_def frame_def swap_blocks_def)
  with core_facts [OF c] a show ?thesis unfolding core_def page_ok_def frames_ok_def swap_ok_def files_ok_def affil_ok_def by simp
qed

lemma shows_all_space:
  assumes c: "core ok s" and sh: "shows_all s {v. live s v}" and pt: "\<And>pid va v. lookup_va s pid va = Some v \<Longrightarrow> pt pid = process_table s pid"
  shows "shows_all (s\<lparr>process_table := pt, next_free_VA := n\<rparr>) {v. live s v}"
  unfolding shows_all_def
proof (intro ballI)
  let ?t = "s\<lparr>process_table := pt, next_free_VA := n\<rparr>"
  fix v p assume v: "v \<in> {v. live s v}" "p \<in> set (affiliated (vpages ?t v))"
  then have "p \<in> entries_of s v" using page_okD(1) [OF c, of v] by simp
  then obtain pid va where m: "lookup_va s pid va = Some v" "p = VA_to_PTE va pid" unfolding entries_of_def by blast
  then have "fst p = pid" by (simp add: VA_to_PTE_def)
  then have "get_pte ?t p = get_pte s p" using pt [OF m(1)] by (simp add: get_pte_def)
  moreover have "pte_shows s v p" using sh v by (auto simp: shows_all_def)
  ultimately show "pte_shows ?t v p" using pte_shows_cong [of ?t p s v] by simp
qed

text \<open>A new process: its table is empty and nothing is mapped.\<close>

lemma new_process:
  assumes inv: "pager_inv ok s" and f: "process_table s child = None"
    and n: "VM_ARENA_BASEADDR \<le> n" "n \<le> VM_ARENA_MAXADDR" "n mod VM_PAGESIZE = 0"
  shows "pager_inv ok (s\<lparr>process_table := (process_table s)(child \<mapsto> new_page_table), next_free_VA := (next_free_VA s)(child \<mapsto> n)\<rparr>)"
    "next_free_VA s child = None" "lookup_va s child a = None" "map_of (translateVA s) child = None"
proof -
  let ?t = "s\<lparr>process_table := (process_table s)(child \<mapsto> new_page_table), next_free_VA := (next_free_VA s)(child \<mapsto> n)\<rparr>"
  have c: "core ok s" and ro: "resident_ok ok s" and sh: "shows_all s {v. live s v}" and po: "processes_ok s" using inv by (simp_all add: pager_inv_iff)
  have ar: "arena_ok s" by (rule core_facts(2) [OF c])
  have "map_option length (process_table s child) = map_option (\<lambda>_. page_table_size) (next_free_VA s child)" using ar unfolding arena_ok_def by blast
  then show nf: "next_free_VA s child = None" using f by simp
  then show "map_of (translateVA s) child = None" using po by (auto simp: processes_ok_def)
  have nl: "lookup_va s child a = None" for a
  proof (cases "lookup_va s child a")
    case (Some v)
    then show ?thesis using arena_okD(3) [OF ar Some] nf by simp
  qed
  then show "lookup_va s child a = None" .
  have "arena_ok ?t" unfolding arena_ok_def
  proof (intro conjI allI impI)
    fix pid va v assume "lookup_va ?t pid va = Some v"
    then have l: "lookup_va s pid va = Some v" by simp
    moreover have "pid \<noteq> child" using l nl by auto
    ultimately show "v < next_vpage ?t" "arena_va va" "\<exists>nva. next_free_VA ?t pid = Some nva \<and> va < nva" using arena_okD [OF ar l] by auto
  next
    fix pid nva assume "next_free_VA ?t pid = Some nva"
    then have "VM_ARENA_BASEADDR \<le> nva \<and> nva \<le> VM_ARENA_MAXADDR \<and> nva mod VM_PAGESIZE = 0"
      using n ar unfolding arena_ok_def by (cases "pid = child") auto
    then show "VM_ARENA_BASEADDR \<le> nva" "nva \<le> VM_ARENA_MAXADDR" "nva mod VM_PAGESIZE = 0" by blast+
  next
    fix pid show "map_option length (process_table ?t pid) = map_option (\<lambda>_. page_table_size) (next_free_VA ?t pid)"
      using ar unfolding arena_ok_def by (cases "pid = child") (simp_all add: new_page_table_def)
  qed
  then have "core ok ?t" by (rule core_space [OF c])
  moreover have "shows_all ?t {v. live s v}" using nl by (intro shows_all_space [OF c sh]) auto
  moreover have "resident_ok ok ?t" using ro by (simp add: resident_ok_def)
  moreover have "processes_ok ?t" using po by (simp add: processes_ok_def)
  ultimately show "pager_inv ok ?t" by (simp add: pager_inv_iff)
qed

text \<open>A process without mappings goes.\<close>

lemma end_process:
  assumes inv: "pager_inv ok s" and nl: "\<And>a. lookup_va s pid a = None" and po': "page_table_base_register t = current_pid t"
    and t: "t = s\<lparr>translateVA := AList.delete pid (translateVA s), process_table := (process_table s)(pid := None), next_free_VA := (next_free_VA s)(pid := None)\<rparr>"
  shows "pager_inv ok t"
proof -
  have c: "core ok s" and ro: "resident_ok ok s" and sh: "shows_all s {v. live s v}" and po: "processes_ok s" using inv by (simp_all add: pager_inv_iff)
  let ?d = "s\<lparr>translateVA := AList.delete pid (translateVA s)\<rparr>"
  have ld: "lookup_va ?d = lookup_va s" using nl
    by (auto simp: fun_eq_iff lookup_va_def mappings_def delete_conv' split: option.splits)
  have "wf_maps ?d" using core_facts(1) [OF c] by (auto simp: wf_maps_def AList.delete_eq distinct_map_filter)
  from core_cong [OF c this ld] have cd: "core ok ?d" "live ?d = live s" by simp_all
  have td: "t = ?d\<lparr>process_table := (process_table s)(pid := None), next_free_VA := (next_free_VA s)(pid := None)\<rparr>" unfolding t by simp
  have ar: "arena_ok ?d" by (rule core_facts(2) [OF cd(1)])
  have nl': "lookup_va ?d pid a = None" for a using nl ld by simp
  have "arena_ok t" unfolding arena_ok_def
  proof (intro conjI allI impI)
    fix p va v assume "lookup_va t p va = Some v"
    then have l: "lookup_va ?d p va = Some v" unfolding td by simp
    moreover have "p \<noteq> pid" using l nl' by auto
    ultimately show "v < next_vpage t" "arena_va va" "\<exists>nva. next_free_VA t p = Some nva \<and> va < nva" using arena_okD [OF ar l] unfolding td by auto
  next
    fix p nva assume "next_free_VA t p = Some nva"
    then have "VM_ARENA_BASEADDR \<le> nva \<and> nva \<le> VM_ARENA_MAXADDR \<and> nva mod VM_PAGESIZE = 0"
      using ar unfolding arena_ok_def td by (auto split: if_splits)
    then show "VM_ARENA_BASEADDR \<le> nva" "nva \<le> VM_ARENA_MAXADDR" "nva mod VM_PAGESIZE = 0" by blast+
  next
    fix p show "map_option length (process_table t p) = map_option (\<lambda>_. page_table_size) (next_free_VA t p)"
      using ar unfolding arena_ok_def td by (cases "p = pid") simp_all
  qed
  then have "core ok t" unfolding td by (rule core_space [OF cd(1)])
  moreover have "shows_all t {v. live ?d v}" unfolding td
  proof (rule shows_all_space [OF cd(1)])
    show "shows_all ?d {v. live ?d v}" using sh cd(2) by simp
    show "lookup_va ?d p va = Some v \<Longrightarrow> ((process_table s)(pid := None)) p = process_table ?d p" for p va v using nl' by auto
  qed
  moreover have "live t = live s" using cd(2) unfolding td by simp
  moreover have "resident_ok ok t" using ro \<open>live t = live s\<close> by (simp add: resident_ok_def) (simp add: t)
  moreover have "processes_ok t" using po po' by (auto simp: processes_ok_def t delete_conv' split: if_splits)
  ultimately show ?thesis using cd(2) by (simp add: pager_inv_iff)
qed

lemma vm_switch_spec:
  assumes "pager_inv ok s" "process_table s pid \<noteq> None"
  shows "returns (\<lambda>t. t = s\<lparr>current_pid := pid, page_table_base_register := pid\<rparr> \<and> pager_inv ok t) (vm_switch pid s)"
proof -
  let ?t = "s\<lparr>current_pid := pid, page_table_base_register := pid\<rparr>"
  have "pager_inv ok ?t" using assms(1) by (auto simp: pager_inv_iff core_upd(3,4) resident_ok_def processes_ok_def)
  then show ?thesis using assms(2) consistency_holds [of ok ?t] by (simp add: vm_switch_def returns_def cassert_def Let_def)
qed

section \<open>\<^verbatim>\<open>vm_create\<close>\<close>

definition is_null :: "virtual_page \<Rightarrow> bool" where
  "is_null vp = (case physicalPage vp of None \<Rightarrow> False | Some pp \<Rightarrow> resident vp \<and> PPN pp = 0)"

text \<open>The mapping the child gets: a null page of its own, or a share of the page.\<close>

definition share_eff :: "nat \<Rightarrow> nat \<Rightarrow> nat \<Rightarrow> 'f pager \<Rightarrow> 'f pager" where
  "share_eff child va v s = (if is_null (vpages s v) then swap_eff va child s else alias_eff va child v s)"

lemma share_page_spec:
  assumes inv: "pager_inv ok s" and v: "live s v" and fr: "fresh_va s child va" and sw: "isSwap (vpages s v) \<Longrightarrow> next_free_swap s \<noteq> []"
  shows "returns (\<lambda>t. same_but_tables (share_eff child va v s) t \<and> pager_inv ok t) (share_page child (va, v) s)"
proof -
  let ?e = "share_eff child va v s" and ?vp = "vpages s v"
  have c: "core ok s" and ro: "resident_ok ok s" and sh: "shows_all s {v. live s v}" and po: "processes_ok s" using inv by (simp_all add: pager_inv_iff)
  have al: "next_free_VA s child \<noteq> None" using fr by (auto simp: fresh_va_def split: option.splits)
  have id: "s\<lparr>next_free_VA := next_free_VA s\<rparr> = s" by simp
  have null: "(if resident ?vp then map_option (\<lambda>pp. PPN pp = 0) (physicalPage ?vp) else Some False) = Some (is_null ?vp)"
    using page_okD(6) [OF c v] by (auto simp: is_null_def split: option.splits)
  show ?thesis
  proof (cases "is_null ?vp")
    case True
    then have "isSwap ?vp" using page_okD(7) [OF c v] by (auto simp: is_null_def split: option.splits)
    then have ne: "next_free_swap s \<noteq> []" by (rule sw)
    obtain t where t: "make_swap_to_nullpage va child s = Some (Some (next_vpage s), t)" "same_but_tables (swap_eff va child s) t"
      "shows_all t {w. live (swap_eff va child s) w}"
      using make_swap_spec [where n = "next_free_VA s" and s = s, unfolded id, OF c fr ne sh] unfolding returns_def by blast
    note ce = core_swap_eff [OF c fr ne]
    have "pager_inv ok t" using effect_rest(1,2) [OF ro po al] ce by (intro pager_invI [OF t(2) _ _ _ t(3) order_refl]) simp_all
    with t True show ?thesis by (simp add: share_page_def null share_eff_def Let_def returns_def)
  next
    case False
    have nz: "PPN pp \<noteq> 0" if "physicalPage ?vp = Some pp" for pp using that False page_okD(6) [OF c v] by (auto simp: is_null_def)
    let ?a = "alias_eff va child v s"
    have ce: "core ok ?a" "live ?a = live s" using core_alias_eff [OF c fr _ v nz] sw by blast+
    have "shows_all ?a ({v. live ?a v} - {v})" using ce(2) by (intro shows_all_new [OF sh]) (auto simp: alias_eff_def upd_vpage_def)
    from show_in [OF same_but_tables_refl ce(1) _ this order_refl]
    obtain t where t: "updatePTEs v ?a = Some t" "same_but_tables ?a t" "shows_all t {w. live ?a w}"
      by (auto simp: alias_eff_def elim!: returnsE)
    have "pager_inv ok t" using effect_rest(5,6) [OF ro po al] ce by (intro pager_invI [OF t(2) _ _ _ t(3) order_refl]) simp_all
    moreover have "share_page child (va, v) s = updatePTEs v ?a"
    proof (cases "isSwap ?vp")
      case True
      then have "at (next_free_swap s) 0 = Some (hd (next_free_swap s))" using sw by (simp add: at_def hd_conv_nth)
      then show ?thesis using False True by (simp add: share_page_def null Let_def alias_eff_def alias_page_def upd_vpage_def)
    next
      case nswap: False
      then show ?thesis using False by (simp add: share_page_def null Let_def alias_eff_def alias_page_def upd_vpage_def set_va_def)
    qed
    ultimately show ?thesis using t False by (simp add: share_eff_def returns_def)
  qed
qed

text \<open>The loop over the mappings of the parent.\<close>

lemma share_eff_lookup: "\<exists>w. lookup_va (share_eff child va v s) = (lookup_va s)(child := (lookup_va s child)(va \<mapsto> w)) \<and> (is_null (vpages s v) \<or> w = v)"
  unfolding share_eff_def by (cases "is_null (vpages s v)") (auto simp: effect_lookup)

lemma share_eff_fields:
  "next_free_VA (share_eff child va v s) = next_free_VA s" "current_pid (share_eff child va v s) = current_pid s"
  "process_table (share_eff child va v s) = process_table s"
  by (simp_all add: share_eff_def effect_fields) (simp_all add: swap_eff_def alias_eff_def upd_vpage_def)

lemma share_eff_swap:
  assumes "core ok s" "live s w"
  shows "isSwap (vpages (share_eff child va v s) w) = isSwap (vpages s w)" "is_null (vpages (share_eff child va v s) w) = is_null (vpages s w)"
    "length (next_free_swap (share_eff child va v s)) = length (next_free_swap s) - (if isSwap (vpages s v) \<or> is_null (vpages s v) then 1 else 0)"
proof -
  have n: "is_null (alias_page va child free vp) = is_null vp" "isSwap (alias_page va child free vp) = isSwap vp" for free vp
    by (auto simp: is_null_def alias_page_def split: option.splits)
  show "isSwap (vpages (share_eff child va v s) w) = isSwap (vpages s w)" "is_null (vpages (share_eff child va v s) w) = is_null (vpages s w)"
    "length (next_free_swap (share_eff child va v s)) = length (next_free_swap s) - (if isSwap (vpages s v) \<or> is_null (vpages s v) then 1 else 0)"
    using core_bounds [OF assms] by (auto simp: share_eff_def swap_eff_def alias_eff_def upd_vpage_def n)
qed

text \<open>The states the loop passes through.\<close>

primrec share_chain :: "(string \<Rightarrow> nat \<Rightarrow> bool) \<Rightarrow> nat \<Rightarrow> nat \<Rightarrow> (nat \<times> nat) list \<Rightarrow> 'f pager \<Rightarrow> 'f pager \<Rightarrow> bool" where
  "share_chain ok parent child [] s t \<longleftrightarrow> t = s"
| "share_chain ok parent child (m # l) s t \<longleftrightarrow> (\<exists>u. lookup_va s parent (fst m) = Some (snd m)
     \<and> same_but_tables (share_eff child (fst m) (snd m) s) u \<and> pager_inv ok u \<and> share_chain ok parent child l u t)"

lemma share_loop:
  assumes "pager_inv ok s" "distinct (map fst l)" "parent \<noteq> child" "next_free_VA s child = next_free_VA s parent"
    "\<And>va v. (va, v) \<in> set l \<Longrightarrow> lookup_va s parent va = Some v \<and> lookup_va s child va = None"
    "length (filter (\<lambda>m. isSwap (vpages s (snd m))) l) \<le> length (next_free_swap s)"
  shows "returns (\<lambda>t. pager_inv ok t \<and> next_free_VA t = next_free_VA s \<and> current_pid t = current_pid s
      \<and> (\<forall>pid. pid \<noteq> child \<longrightarrow> lookup_va t pid = lookup_va s pid)
      \<and> (\<forall>a. case map_of l a of None \<Rightarrow> lookup_va t child a = lookup_va s child a
          | Some v \<Rightarrow> (\<exists>w. lookup_va t child a = Some w \<and> (is_null (vpages s v) \<or> w = v)))
      \<and> share_chain ok parent child l s t)
    (fold_option (share_page child) l s)"
  using assms
proof (induction l arbitrary: s)
  case Nil
  then show ?case by (simp add: returns_def)
next
  case (Cons m l)
  obtain va v where m: "m = (va, v)" by (cases m)
  let ?e = "share_eff child va v s"
  have c: "core ok s" using Cons.prems(1) by (simp add: pager_inv_iff)
  have lk: "lookup_va s parent va = Some v" "lookup_va s child va = None" using Cons.prems(5) [of va v] m by simp_all
  have lv: "live s x" if "lookup_va s p a = Some x" for p a x using core_facts(7) [OF c] that by (auto simp: mapped_def)
  have fr: "fresh_va s child va" using arena_okD [OF core_facts(2) [OF c] lk(1)] lk(2) Cons.prems(4) by (auto simp: fresh_va_def)
  have sw: "next_free_swap s \<noteq> []" if "isSwap (vpages s v)" using that Cons.prems(6) m by auto
  obtain t where t: "share_page child (va, v) s = Some t" "same_but_tables ?e t" "pager_inv ok t"
    using share_page_spec [OF Cons.prems(1) lv [OF lk(1)] fr sw] by (auto elim: returnsE)
  note f = same_but_tables_fields [OF t(2)]
  obtain w where w: "lookup_va t = (lookup_va s)(child := (lookup_va s child)(va \<mapsto> w))" "is_null (vpages s v) \<or> w = v"
    using share_eff_lookup [of child va v s] same_but_tables_lookup [OF t(2)] by metis
  have vl: "va \<notin> fst ` set l" using Cons.prems(2) m by simp
  have inl: "lookup_va s parent a = Some x \<and> lookup_va s child a = None \<and> a \<noteq> va" if "(a, x) \<in> set l" for a x
    using Cons.prems(5) [of a x] that vl by force
  then have swl: "isSwap (vpages t x) = isSwap (vpages s x)" "is_null (vpages t x) = is_null (vpages s x)" if "(a, x) \<in> set l" for a x
    using share_eff_swap [OF c lv] that by (metis f(1))+
  have "length (filter (\<lambda>m. isSwap (vpages t (snd m))) l) = length (filter (\<lambda>m. isSwap (vpages s (snd m))) l)"
    using swl(1) by (intro arg_cong [of _ _ length] filter_cong) auto
  moreover have "is_null (vpages s v) \<Longrightarrow> isSwap (vpages s v)" using page_okD(7) [OF c lv [OF lk(1)]] by (auto simp: is_null_def split: option.splits)
  then have "length (next_free_swap t) = length (next_free_swap s) - (if isSwap (vpages s v) then 1 else 0)"
    using share_eff_swap(3) [OF c lv [OF lk(1)]] by (auto simp: f)
  ultimately have cnt: "length (filter (\<lambda>m. isSwap (vpages t (snd m))) l) \<le> length (next_free_swap t)" using Cons.prems(6) m by auto
  have "next_free_VA t child = next_free_VA t parent" "distinct (map fst l)" using Cons.prems(2,4) by (simp_all add: f share_eff_fields)
  then have ih: "returns (\<lambda>u. pager_inv ok u \<and> next_free_VA u = next_free_VA t \<and> current_pid u = current_pid t
      \<and> (\<forall>pid. pid \<noteq> child \<longrightarrow> lookup_va u pid = lookup_va t pid)
      \<and> (\<forall>a. case map_of l a of None \<Rightarrow> lookup_va u child a = lookup_va t child a
          | Some v \<Rightarrow> (\<exists>w. lookup_va u child a = Some w \<and> (is_null (vpages t v) \<or> w = v)))
      \<and> share_chain ok parent child l t u) (fold_option (share_page child) l t)"
    using inl w(1) Cons.prems(3) by (intro Cons.IH [OF t(3) _ Cons.prems(3) _ _ cnt]) auto
  have "map_of l va = None" using vl by (simp add: map_of_eq_None_iff)
  moreover have "map_of l a = Some x \<Longrightarrow> is_null (vpages t x) = is_null (vpages s x)" for a x using swl(2) map_of_SomeD by metis
  moreover have "share_chain ok parent child ((va, v) # l) s u" if "share_chain ok parent child l t u" for u using that t(2,3) lk(1) by auto
  ultimately show ?case unfolding m using t(1) w
    by (simp add: f share_eff_fields del: share_chain.simps) (rule returns_mono [OF ih], auto simp: f share_eff_fields simp del: share_chain.simps split: option.splits if_splits)
qed

text \<open>The order in which a hash map is traversed: each element once.\<close>

definition traversal :: "('a list \<Rightarrow> 'a list) \<Rightarrow> bool" where
  "traversal ord \<longleftrightarrow> (\<forall>xs. mset (ord xs) = mset xs)"

lemma traversal_facts:
  assumes "traversal ord" "distinct (map fst xs)"
  shows "set (ord xs) = set xs" "distinct (map fst (ord xs))" "map_of (ord xs) = map_of xs" "length (filter P (ord xs)) = length (filter P xs)"
proof -
  have m: "mset (ord xs) = mset xs" using assms(1) by (simp add: traversal_def)
  show st: "set (ord xs) = set xs" by (rule mset_eq_setD [OF m])
  have "mset (map fst (ord xs)) = mset (map fst xs)" by (simp add: m)
  then show d: "distinct (map fst (ord xs))" using mset_eq_imp_distinct_iff assms(2) by blast
  show "map_of (ord xs) = map_of xs" using map_of_inject_set [OF d assms(2)] st by blast
  show "length (filter P (ord xs)) = length (filter P xs)" using m by (metis mset_filter size_mset)
qed

text \<open>The address space of a new process.\<close>

definition created :: "'f pager \<Rightarrow> nat \<Rightarrow> nat \<Rightarrow> 'f pager \<Rightarrow> bool" where
  "created s parent child t \<longleftrightarrow>
     (\<forall>pid. pid \<noteq> child \<longrightarrow> lookup_va t pid = lookup_va s pid)
     \<and> (\<forall>a. case lookup_va s parent a of None \<Rightarrow> lookup_va t child a = None
         | Some v \<Rightarrow> (\<exists>w. lookup_va t child a = Some w \<and> (is_null (vpages s v) \<or> w = v)))
     \<and> next_free_VA t = (next_free_VA s)(child \<mapsto> if map_of (translateVA s) parent = None then VM_ARENA_BASEADDR else get_next_free_VA s parent)"

lemma created_current: "created s parent child (t\<lparr>current_pid := p, page_table_base_register := p\<rparr>) = created s parent child t"
  unfolding created_def lookup_upd by simp

lemma process_alive:
  assumes "pager_inv ok s"
  shows "process_table s pid = None \<longleftrightarrow> next_free_VA s pid = None"
proof -
  have "map_option length (process_table s pid) = map_option (\<lambda>_. page_table_size) (next_free_VA s pid)"
    using assms core_facts(2) unfolding pager_inv_iff arena_ok_def by blast
  then show ?thesis by (cases "process_table s pid"; cases "next_free_VA s pid") simp_all
qed

lemma inv_current:
  assumes "pager_inv ok s"
  shows "pager_inv ok (s\<lparr>current_pid := pid, page_table_base_register := pid\<rparr>)"
  using assms by (auto simp: pager_inv_iff core_upd(3,4) resident_ok_def processes_ok_def)

lemma create_loop:
  fixes s :: "'f pager"
  assumes inv: "pager_inv ok s" and f: "process_table s child = None" and ord: "traversal ord"
    and k: "map_of (translateVA s) parent = Some m" and n: "next_free_VA s parent = Some n"
    and sw: "length (filter (\<lambda>m. isSwap (vpages s (snd m))) (mappings s parent)) \<le> length (next_free_swap s)"
    and u: "u = s\<lparr>process_table := (process_table s)(child \<mapsto> new_page_table), next_free_VA := (next_free_VA s)(child \<mapsto> n)\<rparr>"
  obtains t where "fold_option (share_page child) (ord (mappings s parent)) u = Some t" "pager_inv ok t" "created s parent child t"
    "current_pid t = current_pid s" "share_chain ok parent child (ord (mappings s parent)) u t"
proof -
  let ?l = "ord (mappings s parent)"
  have wf: "wf_maps s" using inv core_facts(1) by (auto simp: pager_inv_iff)
  have base: "VM_ARENA_BASEADDR \<le> n" "n \<le> VM_ARENA_MAXADDR" "n mod VM_PAGESIZE = 0"
    using inv core_facts(2) n unfolding pager_inv_iff arena_ok_def by blast+
  note nc = new_process(2-4) [OF inv f base]
  have pc: "parent \<noteq> child" using nc(3) k by auto
  have inv1: "pager_inv ok u" unfolding u by (rule new_process(1) [OF inv f base])
  note tf = traversal_facts [OF ord mappings_distinct [OF wf, of parent]]
  have g: "get_next_free_VA s parent = n" using n by (simp add: get_next_free_VA_def)
  have same: "vpages u = vpages s" "lookup_va u = lookup_va s" "current_pid u = current_pid s" "next_free_swap u = next_free_swap s"
    "next_free_VA u = (next_free_VA s)(child \<mapsto> n)" by (simp_all add: u)
  have "lookup_va s parent va = Some v \<and> lookup_va s child va = None" if "(va, v) \<in> set ?l" for va v
    using that nc(2) tf(1) mappings_distinct [OF wf, of parent] by (simp add: lookup_va_def)
  moreover have "length (filter (\<lambda>m. isSwap (vpages s (snd m))) ?l) \<le> length (next_free_swap s)" using sw tf(4) by simp
  ultimately obtain t where t: "fold_option (share_page child) ?l u = Some t" "pager_inv ok t" "next_free_VA t = next_free_VA u"
      "current_pid t = current_pid s" "\<And>pid. pid \<noteq> child \<Longrightarrow> lookup_va t pid = lookup_va s pid"
      "\<And>a. case map_of ?l a of None \<Rightarrow> lookup_va t child a = lookup_va s child a
        | Some v \<Rightarrow> (\<exists>w. lookup_va t child a = Some w \<and> (is_null (vpages s v) \<or> w = v))"
      "share_chain ok parent child ?l u t"
    using share_loop [OF inv1 tf(2) pc, unfolded same] n pc same(3,5) unfolding returns_def by simp blast
  have "case lookup_va s parent a of None \<Rightarrow> lookup_va t child a = None
      | Some v \<Rightarrow> (\<exists>w. lookup_va t child a = Some w \<and> (is_null (vpages s v) \<or> w = v))" for a
    using t(6) [of a] nc(2) [of a] unfolding tf(3) lookup_va_def [of s parent] by (cases "map_of (mappings s parent) a") simp_all
  then have "created s parent child t" using t(3,5) k g same(5) unfolding created_def by simp
  with that t show thesis by blast
qed

lemma vm_create_spec:
  assumes inv: "pager_inv ok s" and f: "process_table s child = None" and ord: "traversal ord"
  shows "returns (\<lambda>(r, t). pager_inv ok t \<and> (r = 0 \<and> created s parent child t \<and> current_pid t = (if process_table s parent = None \<and> parent \<noteq> child then child else current_pid s)
      \<or> r = -1 \<and> t = s \<and> length (next_free_swap s) < length (filter (\<lambda>m. isSwap (vpages s (snd m))) (mappings s parent))))
    (vm_create ord parent child s)"
proof -
  have base: "VM_ARENA_BASEADDR \<le> VM_ARENA_BASEADDR" "VM_ARENA_BASEADDR \<le> VM_ARENA_MAXADDR" "VM_ARENA_BASEADDR mod VM_PAGESIZE = 0"
    by (simp_all add: vm_const_defs)
  let ?s = "\<lambda>n. s\<lparr>process_table := (process_table s)(child \<mapsto> new_page_table), next_free_VA := (next_free_VA s)(child \<mapsto> n)\<rparr>"
  note nc = new_process(2-4) [OF inv f base]
  have id: "(?s n)\<lparr>process_table := (process_table s)(child := None), next_free_VA := (next_free_VA s)(child := None)\<rparr> = s" for n
    using f nc(1) by (simp add: fun_upd_idem)
  let ?P = "\<lambda>(r, t). pager_inv ok t \<and> (r = 0 \<and> created s parent child t \<and> current_pid t = (if process_table s parent = None \<and> parent \<noteq> child then child else current_pid s)
      \<or> r = -1 \<and> t = s \<and> length (next_free_swap s) < length (filter (\<lambda>m. isSwap (vpages s (snd m))) (mappings s parent)))"
  have finish: "returns ?P (do {
      let s = (if process_table t parent = None then t\<lparr>current_pid := child, page_table_base_register := child\<rparr> else t);
      assert_structure_consistency s; Some (0, s) })"
    if t: "pager_inv ok t" "created s parent child t" "current_pid t = current_pid s" for t
  proof -
    let ?t = "if process_table t parent = None then t\<lparr>current_pid := child, page_table_base_register := child\<rparr> else t"
    have "process_table t parent = None \<longleftrightarrow> process_table s parent = None \<and> parent \<noteq> child"
      using t(2) unfolding process_alive [OF t(1)] process_alive [OF inv] by (auto simp: created_def)
    then have "current_pid ?t = (if process_table s parent = None \<and> parent \<noteq> child then child else current_pid s)" using t(3) by simp
    moreover have "pager_inv ok ?t" using t(1) inv_current [OF t(1), of child] by simp
    moreover have "created s parent child ?t" using t(2) by (simp add: created_current)
    ultimately show ?thesis using consistency_holds [of ok ?t] unfolding Let_def by (simp add: returns_def del: if_split_asm)
  qed
  show ?thesis
  proof (cases "map_of (translateVA s) parent")
    case None
    then have "lookup_va s parent = Map.empty" by (simp add: fun_eq_iff lookup_va_def mappings_def)
    then have "created s parent child (?s VM_ARENA_BASEADDR)"
      using nc(2) None by (simp add: created_def)
    from finish [OF new_process(1) [OF inv f base] this] show ?thesis unfolding vm_create_def Let_def using None f by simp
  next
    case (Some m)
    then have pc: "parent \<noteq> child" using nc(3) by auto
    obtain n where n: "next_free_VA s parent = Some n" using inv Some by (auto simp: pager_inv_iff processes_ok_def)
    let ?cnt = "length (filter (\<lambda>m. isSwap (vpages s (snd m))) (mappings s parent))"
    show ?thesis
    proof (cases "length (next_free_swap s) < ?cnt")
      case True
      then have "vm_create ord parent child s = Some (-1, s)"
        using Some f id by (simp add: vm_create_def Let_def mappings_def)
      with True inv show ?thesis by (simp add: returns_def)
    next
      case False
      then have "?cnt \<le> length (next_free_swap s)" by simp
      from create_loop [OF inv f ord Some n this refl] obtain t where t: "fold_option (share_page child) (ord (mappings s parent)) (?s n) = Some t"
        "pager_inv ok t" "created s parent child t" "current_pid t = current_pid s" by blast
      from finish [OF t(2-4)] show ?thesis
        using Some False f t(1) pc n by (simp add: vm_create_def Let_def mappings_def get_next_free_VA_def)
    qed
  qed
qed

end
