(* ===== verification/Pager_Exit.thy ===== *)
theory Pager_Exit
  imports Pager_Processes
begin

text \<open>
  \<^verbatim>\<open>vm_destroy\<close>: the mappings of the current process end one after the other while the table that
  lists them stays as it is. The invariant therefore speaks of the state in which the process has
  only the mappings that are still to come.
\<close>

section \<open>The remaining mappings\<close>

definition remaining :: "(nat \<times> nat) list \<Rightarrow> 'f pager \<Rightarrow> 'f pager" where
  "remaining l s = s\<lparr>translateVA := AList.update (current_pid s) l (translateVA s)\<rparr>"

lemma remaining_fields [simp]:
  "vpages (remaining l s) = vpages s" "next_vpage (remaining l s) = next_vpage s" "next_free_VA (remaining l s) = next_free_VA s"
  "max_swap_blocks (remaining l s) = max_swap_blocks s" "clock_queue (remaining l s) = clock_queue s" "mem_pages_cap (remaining l s) = mem_pages_cap s"
  "process_table (remaining l s) = process_table s" "next_free_swap (remaining l s) = next_free_swap s" "next_free_PPN (remaining l s) = next_free_PPN s"
  "filename_block_to_vpage (remaining l s) = filename_block_to_vpage s" "current_pid (remaining l s) = current_pid s"
  "page_table_base_register (remaining l s) = page_table_base_register s" "vm_physmem (remaining l s) = vm_physmem s"
  "files (remaining l s) = files s" "get_pte (remaining l s) p = get_pte s p" "shows_all (remaining l s) W = shows_all s W"
  "has_entries (remaining l s) v = has_entries s v" "disjoint_pages (remaining l s) D = disjoint_pages s D"
  by (simp_all add: remaining_def has_entries_def disjoint_pages_def)

lemma lookup_remaining: "lookup_va (remaining l s) p a = (if p = current_pid s then map_of l a else lookup_va s p a)"
  by (simp add: remaining_def lookup_va_def mappings_def update_conv')

lemma wf_remaining:
  assumes "wf_maps (remaining l s)"
  shows "distinct (map fst l)" "distinct (map fst l') \<Longrightarrow> wf_maps (remaining l' s)"
proof -
  let ?p = "current_pid s"
  have "map_of (translateVA (remaining l s)) ?p = Some l" by (simp add: remaining_def update_conv')
  then show d: "distinct (map fst l)" using assms map_of_SomeD unfolding wf_maps_def by fastforce
  have k: "distinct (map fst (translateVA (remaining l s)))" "\<forall>m \<in> set (map snd (translateVA (remaining l s))). distinct (map fst m)"
    using assms by (simp_all add: wf_maps_def)
  have "translateVA (remaining l' s) = AList.update ?p l' (translateVA (remaining l s))" by (simp add: remaining_def)
  with k assms set_alist_update [of ?p l' "translateVA (remaining l s)"] show "wf_maps (remaining l' s)" if "distinct (map fst l')"
    using that by (force simp: wf_maps_def distinct_update)
qed

section \<open>The end of one mapping\<close>

text \<open>The frame of a page in swap space goes back when its last mapping ends.\<close>

definition gives_back :: "virtual_page \<Rightarrow> bool" where
  "gives_back vp \<longleftrightarrow> in_frame vp \<and> isSwap vp \<and> length (blocks vp) = 1"

definition destroy_eff :: "nat \<Rightarrow> nat \<Rightarrow> 'f pager \<Rightarrow> 'f pager" where
  "destroy_eff va v s = upd_vpage v (drop_page va (current_pid s))
     ((if gives_back (vpages s v) then return_eff v s else s)
        \<lparr>next_free_swap := next_free_swap s @ (if isSwap (vpages s v) then [last (blocks (vpages s v))] else [])\<rparr>)"

lemma destroy_eff_fields [simp]:
  "filename_block_to_vpage (destroy_eff va v s) = filename_block_to_vpage s" "current_pid (destroy_eff va v s) = current_pid s"
  "translateVA (destroy_eff va v s) = translateVA s" "next_free_VA (destroy_eff va v s) = next_free_VA s" "next_vpage (destroy_eff va v s) = next_vpage s"
  "max_swap_blocks (destroy_eff va v s) = max_swap_blocks s" "mem_pages_cap (destroy_eff va v s) = mem_pages_cap s"
  "process_table (destroy_eff va v s) = process_table s" "page_table_base_register (destroy_eff va v s) = page_table_base_register s"
  "clock_queue (destroy_eff va v s) = (if gives_back (vpages s v) then remove1 v (clock_queue s) else clock_queue s)"
  "next_free_PPN (destroy_eff va v s) = (if gives_back (vpages s v) then next_free_PPN s @ [frame s v] else next_free_PPN s)"
  "next_free_swap (destroy_eff va v s) = next_free_swap s @ (if isSwap (vpages s v) then [last (blocks (vpages s v))] else [])"
  by (cases "gives_back (vpages s v)"; simp add: destroy_eff_def upd_vpage_def return_eff_def)+

lemma return_eff_more [simp]:
  "filename_block_to_vpage (return_eff v s) = filename_block_to_vpage s" "next_vpage (return_eff v s) = next_vpage s"
  "max_swap_blocks (return_eff v s) = max_swap_blocks s" "mem_pages_cap (return_eff v s) = mem_pages_cap s"
  "process_table (return_eff v s) = process_table s" "clock_queue (return_eff v s) = remove1 v (clock_queue s)"
  "next_free_PPN (return_eff v s) = next_free_PPN s @ [frame s v]" "next_free_swap (return_eff v s) = next_free_swap s"
  by (simp_all add: return_eff_def upd_vpage_def)

lemma remaining_destroy:
  assumes inv: "pager_inv ok (remaining ((va, v) # l) s)"
  shows "core ok (remaining l (destroy_eff va v s))" "\<And>w. live (remaining l (destroy_eff va v s)) w \<Longrightarrow> live (remaining ((va, v) # l) s) w"
    "\<not> isSwap (vpages s v) \<or> mapped (remaining l (destroy_eff va v s)) v \<or> \<not> live (remaining l (destroy_eff va v s)) v"
proof -
  let ?g = "remaining ((va, v) # l) s" and ?e = "destroy_eff va v s" and ?p = "current_pid s" and ?vp = "vpages s v"
  let ?g1 = "if gives_back ?vp then return_eff v ?g else ?g" and ?t = "remaining l (destroy_eff va v s)"
  have c: "core ok ?g" and ro: "resident_ok ok ?g" using inv by (simp_all add: pager_inv_iff)
  have m: "lookup_va ?g ?p va = Some v" by (simp add: lookup_remaining)
  have v: "live ?g v" using core_facts(7) [OF c] m by (auto simp: mapped_def)
  note d = wf_remaining [OF core_facts(1) [OF c]]
  have c1: "core ok ?g1" using c core_return [OF c v] by (simp add: gives_back_def)
  have st: "static ?g ?g1" using static_return [of ?g v] by (simp add: static_def)
  have p1: "vpages ?g1 w = (if w = v \<and> gives_back ?vp then ?vp\<lparr>resident := False, physicalPage := None\<rparr> else vpages s w)" for w
    by (cases "w = v") (simp_all add: return_eff_vpages)
  have m1: "lookup_va ?g1 ?p va = Some v" using m static_facts(1) [OF st] by simp
  have "map_of l va = None" using d(1) by (simp add: map_of_eq_None_iff)
  have "lookup_va ?e = lookup_va s" by (simp add: fun_eq_iff lookup_va_def mappings_def)
  then have lt: "lookup_va ?t = (\<lambda>q a. if q = ?p \<and> a = va then None else lookup_va ?g1 q a)"
    using \<open>map_of l va = None\<close> unfolding static_facts(1) [OF st] by (auto simp: fun_eq_iff lookup_remaining)
  have wt: "wf_maps ?t" using d(2) [of l] d(1) by (simp add: wf_maps_def remaining_def)
  show sm: "\<not> isSwap ?vp \<or> mapped ?t v \<or> \<not> live ?t v"
  proof -
    have "registered ?t v \<Longrightarrow> registered ?g v" by (simp add: registered_def)
    then have "\<not> isSwap ?vp" if "registered ?t v" using files_okD(1) [OF core_facts(6) [OF c]] that unfolding registered_def by auto
    then show ?thesis using live_iff [OF wt] by blast
  qed
  have dead: "\<not> in_frame (vpages ?g1 v)" if "\<not> live ?t v"
  proof
    assume i: "in_frame (vpages ?g1 v)"
    then have ng: "\<not> gives_back ?vp" "in_frame ?vp" by (auto simp: p1 in_frame_def split: if_splits)
    have unm: "\<not> mapped ?t v" "\<not> registered ?t v" using that live_iff [OF wt] by blast+
    show False
    proof (cases "isSwap ?vp")
      case True
      then have "1 < length (affiliated (vpages ?g v))" using ng page_okD(3,4) [OF c v] by (auto simp: gives_back_def) (metis One_nat_def Suc_lessI length_0_conv neq0_conv)
      then obtain q a where "lookup_va ?g q a = Some v" "\<not> (q = ?p \<and> a = va)" using other_mapping [OF c m] by auto
      then have "lookup_va ?t q a = Some v" unfolding lt static_facts(1) [OF st] by auto
      with unm(1) show False by (auto simp: mapped_def)
    next
      case False
      have "resident ?vp" using ng(2) page_okD(6) [OF c v] by (auto simp: in_frame_def)
      then have "map_of (filename_block_to_vpage s) (filename ?vp, blocks ?vp ! 0) = Some v"
        using files_okD(2) [OF core_facts(6) [OF c] v] ro v False unfolding resident_ok_def by auto
      then show False using unm(2) by (auto simp: registered_def)
    qed
  qed
  have dp: "vpages ?t = (vpages ?g1)(v := drop_page va ?p (vpages ?g1 v))"
    by (auto simp: fun_eq_iff destroy_eff_def upd_vpage_def p1 return_eff_vpages)
  have "core ok ?t \<and> (\<forall>w. w \<noteq> v \<longrightarrow> live ?t w = live ?g1 w)"
  proof (rule core_drop [OF c1 wt m1 lt dp])
    show "mset (next_free_swap ?t) = mset (next_free_swap ?g1) + (if isSwap (vpages ?g1 v) then {#last (blocks (vpages ?g1 v))#} else {#})"
      by (simp add: p1)
    show "\<not> isSwap (vpages ?g1 v) \<Longrightarrow> next_free_swap ?t = next_free_swap ?g1" by (simp add: p1 split: if_splits)
  qed (use dead in \<open>simp_all add: frame_def\<close>)
  then show "core ok ?t" "live ?t w \<Longrightarrow> live ?g w" for w using v static_facts(2) [OF st] by (blast, cases "w = v") auto
qed

lemma shows_all_empty: "shows_all s (W - {v}) \<Longrightarrow> affiliated (vpages s v) = [] \<Longrightarrow> shows_all s W"
  by (auto simp: shows_all_def)

text \<open>The state between the return of the swap block and of the frame.\<close>

definition swap_back :: "nat \<Rightarrow> 'f pager \<Rightarrow> 'f pager" where
  "swap_back v s = (if isSwap (vpages s v) then upd_vpage v (\<lambda>vp. vp\<lparr>blocks := butlast (blocks vp)\<rparr>)
     (s\<lparr>next_free_swap := next_free_swap s @ [last (blocks (vpages s v))]\<rparr>) else s)"

lemma swap_back_facts:
  "affiliated (vpages (swap_back v s) w) = affiliated (vpages s w)" "physicalPage (vpages (swap_back v s) w) = physicalPage (vpages s w)"
  "resident (vpages (swap_back v s) w) = resident (vpages s w)" "w \<noteq> v \<Longrightarrow> vpages (swap_back v s) w = vpages s w"
  "blocks (vpages (swap_back v s) v) = (if isSwap (vpages s v) then butlast (blocks (vpages s v)) else blocks (vpages s v))"
  "clock_queue (swap_back v s) = clock_queue s" "get_pte (swap_back v s) p = get_pte s p"
  "page_table_base_register (swap_back v s) = page_table_base_register s" "frame (swap_back v s) = frame s"
  by (auto simp: swap_back_def upd_vpage_def get_pte_def frame_def)

lemma swap_back_eff:
  "upd_vpage v (\<lambda>vp. vp\<lparr>affiliated := remove1 (VA_to_PTE va (current_pid s)) (affiliated (vpages s v))\<rparr>)
     (if gives_back (vpages s v) then return_eff v (swap_back v s) else swap_back v s) = destroy_eff va v s"
proof -
  have com: "vp\<lparr>blocks := x, resident := r, physicalPage := pp, affiliated := y\<rparr> = vp\<lparr>resident := r, physicalPage := pp, blocks := x, affiliated := y\<rparr>"
    for vp :: virtual_page and x y r pp by (cases vp) simp
  have "gives_back (vpages s v) \<Longrightarrow> isSwap (vpages s v)" by (simp add: gives_back_def)
  then show ?thesis
    by (cases "isSwap (vpages s v)"; cases "gives_back (vpages s v)")
      (simp_all add: swap_back_def destroy_eff_def drop_page_def return_eff_def upd_vpage_def frame_def com)
qed

lemma destroy_mapping_spec:
  assumes inv: "pager_inv ok (remaining ((va, v) # l) s)"
  shows "returns (\<lambda>t. same_but_tables (destroy_eff va v s) t \<and> pager_inv ok (remaining l t)) (destroy_mapping (va, v) s)"
proof -
  let ?g = "remaining ((va, v) # l) s" and ?e = "destroy_eff va v s" and ?p = "current_pid s" and ?vp = "vpages s v" and ?b = "swap_back v s"
  have c: "core ok ?g" and ro: "resident_ok ok ?g" and sh: "shows_all s {w. live ?g w}" and po: "processes_ok ?g" using inv by (simp_all add: pager_inv_iff)
  have m: "lookup_va ?g ?p va = Some v" by (simp add: lookup_remaining)
  have v: "live ?g v" using core_facts(7) [OF c] m by (auto simp: mapped_def)
  note rd = remaining_destroy [OF inv]
  have pin: "VA_to_PTE va ?p \<in> set (affiliated ?vp)"
    using page_okD(1) [OF c v] entry_of_mapping [OF c arena_okD(2) [OF core_facts(2) [OF c] m]] m by simp
  have ptb: "page_table_base_register s = ?p" using po by (simp add: processes_ok_def)
  have bl: "blocks ?vp \<noteq> []" using page_okD(3) [OF c v] by simp
  have one: "(if isSwap ?vp then do { cassert (blocks ?vp \<noteq> []); Some (upd_vpage v (\<lambda>vp. vp\<lparr>blocks := butlast (blocks vp)\<rparr>)
      (s\<lparr>next_free_swap := next_free_swap s @ [last (blocks ?vp)]\<rparr>)) } else Some s) = Some ?b"
    using bl by (simp add: swap_back_def cassert_def)
  have two: "(if resident (vpages ?b v) then map_option (\<lambda>pp. PPN pp \<noteq> 0) (physicalPage (vpages ?b v)) else Some False) = Some (in_frame ?vp)"
    using page_okD(6) [OF c v] by (auto simp: swap_back_facts in_frame_def split: option.splits)
  have three: "in_frame ?vp \<and> blocks (vpages ?b v) = [] \<longleftrightarrow> gives_back ?vp"
    using bl by (cases "blocks ?vp") (auto simp: swap_back_facts gives_back_def)
  have ent: "has_entries ?b v" "disjoint_pages ?b {w. live ?g w}"
    using core_entries [OF c v] core_disjoint [OF c] by (simp_all add: has_entries_def disjoint_pages_def swap_back_facts)
  have shb: "shows_all ?b ({w. live ?g w} - {v})" using shows_all_mono [OF sh, of "{w. live ?g w} - {v}"]
    by (subst shows_all_cong [of _ s]) (auto simp: swap_back_facts)
  obtain u where u: "(if in_frame ?vp \<and> blocks (vpages ?b v) = [] then return_ppn_remove_from_clock v ?b else Some ?b) = Some u"
    "same_but_tables (if gives_back ?vp then return_eff v ?b else ?b) u" "shows_all u ({w. live ?g w} - {v})"
  proof (cases "gives_back ?vp")
    case True
    then have "v \<in> set (clock_queue ?b)" "physicalPage (vpages ?b v) \<noteq> None" "affiliated (vpages ?b v) \<noteq> []"
      using on_clock [OF c, of v] v pin by (auto simp: gives_back_def in_frame_def swap_back_facts split: option.splits)
    from return_ppn_spec [OF this ent(1) shb ent(2)] v obtain u where "return_ppn_remove_from_clock v ?b = Some u"
      "same_but_tables (return_eff v ?b) u" "shows_all u {w. live ?g w}" by (auto elim: returnsE)
    then show ?thesis using True three that by (simp add: shows_all_mono [of u "{w. live ?g w}"])
  next
    case False
    then show ?thesis using shb that [of ?b, unfolded three] by simp
  qed
  let ?aff = "remove1 (VA_to_PTE va ?p) (affiliated ?vp)" and ?u = "upd_vpage v (\<lambda>vp. vp\<lparr>affiliated := remove1 (VA_to_PTE va (current_pid s)) (affiliated (vpages s v))\<rparr>) u"
  have au: "affiliated (vpages u v) = affiliated ?vp" "page_table_base_register u = ?p"
    using ptb by (simp_all add: same_but_tables_fields [OF u(2)] swap_back_facts return_eff_vpages)
  have four: "erase_first (VA_to_PTE va (page_table_base_register u)) (affiliated (vpages u v)) = Some ?aff"
    using pin by (simp add: au erase_first_def)
  have se: "same_but_tables ?e ?u" using same_but_tables_upd(6) [OF u(2)] unfolding swap_back_eff [of v va s, symmetric] .
  note f = same_but_tables_fields [OF se]
  have shu: "shows_all ?u ({w. live (remaining l ?e) w} - {v})"
    using shows_all_upd [OF u(3)] rd(2) by (rule_tac shows_all_mono) auto
  have "returns (\<lambda>t. same_but_tables ?e t \<and> shows_all t {w. live (remaining l ?e) w}) (if ?aff \<noteq> [] then updatePTEs v ?u else Some ?u)"
  proof (rule returns_if)
    assume a: "?aff \<noteq> []"
    have "\<exists>q. q \<in> set (affiliated (vpages s v)) \<and> q \<noteq> VA_to_PTE va ?p" using a page_okD(2) [OF c v] by (cases ?aff) (auto, metis list.set_intros(1) notin_set_remove1 set_remove1_eq Diff_iff singletonI)
    then obtain q pid a where q: "lookup_va ?g pid a = Some v" "VA_to_PTE a pid \<noteq> VA_to_PTE va ?p" using page_okD(1) [OF c v] unfolding entries_of_def by auto
    have "lookup_va ?e = lookup_va s" by (simp add: fun_eq_iff lookup_va_def mappings_def)
    then have "lookup_va (remaining l ?e) pid a = Some v" using q by (auto simp: lookup_remaining split: if_splits)
    then have mt: "mapped (remaining l ?e) v" by (auto simp: mapped_def)
    then have lt: "live (remaining l ?e) v" using core_facts(7) [OF rd(1)] by blast
    have "pte_bits (vpages ?e v) \<noteq> None"
      using affiliated_mapped [OF rd(1) lt] mt page_okD(4,6) [OF rd(1) lt] by (intro pte_bits_counts) auto
    moreover have "has_entries ?u v" "disjoint_pages ?u {w. live (remaining l ?e) w}"
      using core_entries [OF rd(1) lt] core_disjoint [OF rd(1)] same_but_tables_pte [OF se] by (simp_all add: has_entries_def disjoint_pages_def f)
    ultimately have "returns (\<lambda>t. same_but_tables ?u t \<and> shows_all t {w. live (remaining l ?e) w}) (updatePTEs v ?u)"
      using shu lt by (intro updatePTEs_shows) (auto simp: f)
    then show "returns (\<lambda>t. same_but_tables ?e t \<and> shows_all t {w. live (remaining l ?e) w}) (updatePTEs v ?u)"
      by (rule returns_mono) (use same_but_tables_trans [OF se] in blast)
  next
    assume "\<not> ?aff \<noteq> []"
    then show "returns (\<lambda>t. same_but_tables ?e t \<and> shows_all t {w. live (remaining l ?e) w}) (Some ?u)"
      using shows_all_empty [OF shu] se by (simp add: returns_def) (simp add: upd_vpage_def)
  qed
  then obtain t where t: "(if ?aff \<noteq> [] then updatePTEs v ?u else Some ?u) = Some t" "same_but_tables ?e t" "shows_all t {w. live (remaining l ?e) w}"
    by (rule returnsE) blast
  have "same_but_tables (remaining l ?e) (remaining l t)"
    using same_but_tables_upd2(2) [OF t(2)] by (simp add: remaining_def same_but_tables_fields [OF t(2)])
  moreover have "resident_ok ok (remaining l ?e)" unfolding resident_ok_def
  proof (intro allI impI)
    fix w assume w: "live (remaining l ?e) w \<and> \<not> isSwap (vpages (remaining l ?e) w) \<and> resident (vpages (remaining l ?e) w)"
    have "filename (vpages ?e w) = filename (vpages s w) \<and> isSwap (vpages ?e w) = isSwap (vpages s w) \<and> (resident (vpages ?e w) \<longrightarrow> resident (vpages s w))
      \<and> (\<not> isSwap (vpages s w) \<longrightarrow> blocks (vpages ?e w) = blocks (vpages s w))"
      by (cases "w = v") (auto simp: destroy_eff_def upd_vpage_def drop_page_def return_eff_vpages)
    with w ro rd(2) [of w] show "ok (filename (vpages (remaining l ?e) w)) (blocks (vpages (remaining l ?e) w) ! 0)" by (simp add: resident_ok_def)
  qed
  moreover have "processes_ok (remaining l ?e)" using po by (auto simp: processes_ok_def remaining_def update_conv' split: if_splits)
  ultimately have "pager_inv ok (remaining l t)" using t(3) by (intro pager_invI [OF _ rd(1) _ _ _ order_refl]) simp_all
  moreover have "destroy_mapping (va, v) s = Some t"
    unfolding destroy_mapping_def Let_def fst_conv snd_conv by (simp only: one two u(1) four t(1) Option.bind.simps)
  ultimately show ?thesis using t(2) by (simp add: returns_def)
qed

section \<open>\<^verbatim>\<open>vm_destroy\<close>\<close>

lemma destroy_loop:
  "pager_inv ok (remaining l s) \<Longrightarrow> returns (\<lambda>t. pager_inv ok (remaining [] t) \<and> translateVA t = translateVA s \<and> next_free_VA t = next_free_VA s
     \<and> current_pid t = current_pid s) (fold_option destroy_mapping l s)"
proof (induction l arbitrary: s)
  case (Cons m l)
  obtain va v where m: "m = (va, v)" by (cases m)
  obtain t where t: "destroy_mapping (va, v) s = Some t" "same_but_tables (destroy_eff va v s) t" "pager_inv ok (remaining l t)"
    using destroy_mapping_spec Cons.prems unfolding m by (blast elim: returnsE)
  show ?case unfolding m using t(1)
    by (simp add: same_but_tables_fields [OF t(2)]) (rule returns_mono [OF Cons.IH [OF t(3)]], simp add: same_but_tables_fields [OF t(2)])
qed (simp add: returns_def)

lemma remaining_start:
  assumes inv: "pager_inv ok s" and a: "alive s" and ord: "traversal ord"
  shows "pager_inv ok (remaining (ord (mappings s (current_pid s))) (touch_va (current_pid s) s))"
proof -
  let ?p = "current_pid s" and ?l = "ord (mappings s (current_pid s))"
  let ?t = "touch_va ?p s" and ?g = "remaining ?l (touch_va ?p s)"
  have i: "pager_inv ok ?t" by (rule inv_touch [OF inv a])
  then have c: "core ok ?t" by (simp add: pager_inv_iff)
  have cs: "core ok s" using inv by (simp add: pager_inv_iff)
  have d: "distinct (map fst ?l)" "map_of ?l = map_of (mappings s ?p)" using traversal_facts(2,3) [OF ord mappings_distinct [OF core_facts(1) [OF cs]]] by blast+
  have l: "lookup_va ?g = lookup_va ?t" by (auto simp: fun_eq_iff lookup_remaining d(2)) (simp add: lookup_va_def)
  have "remaining (mappings s ?p) ?t = ?t"
    by (simp add: remaining_def touch_va_def)
  then have "wf_maps (remaining (mappings s ?p) ?t)" using core_facts(1) [OF c] by simp
  then have wf: "wf_maps ?g" using wf_remaining(2) d(1) by blast
  note cc = core_cong [OF c wf l]
  have "core ok ?g" "live ?g = live ?t" using cc by simp_all
  moreover have "processes_ok ?g" using i by (auto simp: pager_inv_iff processes_ok_def remaining_def touch_va_def update_conv' split: if_splits)
  ultimately show ?thesis using i by (simp add: pager_inv_iff resident_ok_def)
qed

lemma vm_destroy_spec:
  assumes inv: "pager_inv ok s" and a: "alive s" and ord: "traversal ord"
  shows "returns (\<lambda>t. pager_inv ok t \<and> current_pid t = current_pid s \<and> next_free_VA t = (next_free_VA s)(current_pid s := None)
      \<and> lookup_va t = (lookup_va s)(current_pid s := Map.empty)) (vm_destroy ord s)"
proof -
  let ?p = "current_pid s" and ?t = "touch_va (current_pid s) s"
  from destroy_loop [OF remaining_start [OF assms]] obtain u where u: "fold_option destroy_mapping (ord (mappings s ?p)) ?t = Some u"
    "pager_inv ok (remaining [] u)" "translateVA u = translateVA ?t" "next_free_VA u = next_free_VA s" "current_pid u = ?p"
    by (rule returnsE) auto
  let ?f = "u\<lparr>translateVA := AList.delete ?p (translateVA u), process_table := (process_table u)(?p := None), next_free_VA := (next_free_VA u)(?p := None)\<rparr>"
  have f: "?f = (remaining [] u)\<lparr>translateVA := AList.delete ?p (translateVA (remaining [] u)),
      process_table := (process_table (remaining [] u))(?p := None), next_free_VA := (next_free_VA (remaining [] u))(?p := None)\<rparr>"
    by (simp add: remaining_def u(5) AList.delete_update_same)
  have pt: "page_table_base_register ?f = current_pid ?f" using u(2) by (simp add: pager_inv_iff processes_ok_def)
  have i: "pager_inv ok ?f" by (rule end_process [OF u(2) _ pt f]) (simp add: lookup_remaining u(5))
  have "lookup_va ?f = (lookup_va s)(?p := Map.empty)"
    by (auto simp: fun_eq_iff lookup_va_def mappings_def u(3) touch_va_def update_conv' delete_conv' split: option.splits)
  then show ?thesis using i u(1,4,5) consistency_holds [OF i] by (simp add: vm_destroy_def Let_def returns_def)
qed

end
