(* ===== verification/Pager_Tables.thy ===== *)
theory Pager_Tables
  imports Pager_Exit
begin

text \<open>
  Page table entries of addresses that are not mapped are switched off: no operation enables an
  entry outside the mappings.
\<close>

section \<open>A set of entries\<close>

definition tables_in :: "pte_ptr set \<Rightarrow> 'f pager \<Rightarrow> bool" where
  "tables_in M s \<longleftrightarrow> (\<forall>v. set (affiliated (vpages s v)) \<subseteq> M) \<and> (\<forall>p e. get_pte s p = Some e \<longrightarrow> p \<notin> M \<longrightarrow> \<not> read_enable e)"

lemma tables_in_frame [simp]:
  "tables_in M (s\<lparr>clock_queue := q\<rparr>) = tables_in M s" "tables_in M (s\<lparr>next_free_PPN := fp\<rparr>) = tables_in M s"
  "tables_in M (s\<lparr>next_free_swap := sw\<rparr>) = tables_in M s" "tables_in M (s\<lparr>vm_physmem := m\<rparr>) = tables_in M s"
  "tables_in M (s\<lparr>files := fs\<rparr>) = tables_in M s" "tables_in M (s\<lparr>filename_block_to_vpage := fb\<rparr>) = tables_in M s"
  "tables_in M (s\<lparr>next_vpage := nv\<rparr>) = tables_in M s" "tables_in M (s\<lparr>translateVA := tr\<rparr>) = tables_in M s"
  "tables_in M (s\<lparr>next_free_VA := na\<rparr>) = tables_in M s" "tables_in M (s\<lparr>current_pid := cp\<rparr>) = tables_in M s"
  "tables_in M (s\<lparr>page_table_base_register := pb\<rparr>) = tables_in M s"
  "tables_in M (set_va pid va v s) = tables_in M s" "tables_in M (touch_va pid s) = tables_in M s"
  by (simp_all add: tables_in_def get_pte_def set_va_def touch_va_def)

lemma tables_in_vpages:
  "tables_in M s \<Longrightarrow> tables_in M u \<Longrightarrow> set (affiliated vp) \<subseteq> M \<Longrightarrow> tables_in M (s\<lparr>vpages := (vpages u)(v := vp)\<rparr>)"
  by (simp add: tables_in_def get_pte_def)

lemma tables_in_upd_vpage:
  "tables_in M s \<Longrightarrow> set (affiliated (f (vpages s v))) \<subseteq> M \<Longrightarrow> tables_in M (upd_vpage v f s)"
  by (simp add: tables_in_vpages upd_vpage_def)

lemma tables_inD: "tables_in M s \<Longrightarrow> p \<in> set (affiliated (vpages s v)) \<Longrightarrow> p \<in> M"
  by (auto simp: tables_in_def)

lemma affiliated_in: "tables_in M s \<Longrightarrow> set (affiliated (vpages s v)) \<subseteq> M"
  by (simp add: tables_in_def)

lemma tables_in_set_pte:
  assumes "tables_in M s" "p \<in> M" "set_pte p f s = Some t"
  shows "tables_in M t" "vpages t = vpages s"
proof -
  obtain e where e: "get_pte s p = Some e" using assms(3) by (auto simp: set_pte_def get_pte_def split: Option.bind_splits)
  from returnsD [OF set_pte_spec [OF e] assms(3)]
  have "\<forall>q. q \<noteq> p \<longrightarrow> get_pte t q = get_pte s q" "same_but_tables s t" by auto
  then show "tables_in M t" "vpages t = vpages s" using assms(1,2) same_but_tables_fields [of s t] unfolding tables_in_def by metis+
qed

lemma tables_in_set_ptes:
  assumes "tables_in M s" "set ps \<subseteq> M" "fold_option (\<lambda>p. set_pte p f) ps s = Some t"
  shows "tables_in M t"
  using assms by (induction ps arbitrary: s) (auto split: Option.bind_splits dest: tables_in_set_pte(1))

lemma yieldsI: "(\<And>x. m = Some x \<Longrightarrow> P x) \<Longrightarrow> yields P m"
  by (simp add: yields_def)

lemma tab_updatePTEs: "tables_in M s \<Longrightarrow> yields (tables_in M) (updatePTEs v s)"
  unfolding updatePTEs_def by (intro yields_intros) (blast intro: yieldsI tables_in_set_ptes [OF _ affiliated_in])

text \<open>The rules of the postcondition calculus for this predicate.\<close>

lemma tab_step: "yields (tables_in M) m \<Longrightarrow> (\<And>t. tables_in M t \<Longrightarrow> yields P (f t)) \<Longrightarrow> yields P (m \<bind> f)"
  by (auto simp: yields_def bind_eq_Some_conv)

lemma tab_step2: "yields (\<lambda>(r, t). tables_in M t) m \<Longrightarrow> (\<And>r t. tables_in M t \<Longrightarrow> yields P (f (r, t))) \<Longrightarrow> yields P (m \<bind> f)"
  by (auto simp: yields_def bind_eq_Some_conv)

lemmas tab_upd = tables_in_upd_vpage tables_in_vpages affiliated_in

lemma tab_upd_phys: "tables_in M s \<Longrightarrow> yields (tables_in M) (upd_phys v f s)"
  unfolding upd_phys_def by (intro yields_intros yields_Some) (simp add: tab_upd)

lemma set_erase_first: "erase_first x xs = Some ys \<Longrightarrow> set ys \<subseteq> set xs"
  using set_remove1_subset [of x xs] by (simp add: erase_first_def split: if_splits)

section \<open>Frames\<close>

lemma tab_forget: "tables_in M s \<Longrightarrow> yields (tables_in M) (remove_from_filename_block v s)"
  unfolding remove_from_filename_block_def by (intro yields_intros yields_Some) simp

lemma tab_clock: "tables_in M s \<Longrightarrow> yields (tables_in M) (clock_loop n s)"
proof (induction n arbitrary: s)
  case (Suc n)
  show ?case unfolding clock_loop.simps
    by (rule Suc.IH Suc.prems tab_upd_phys tab_updatePTEs tab_step [where M = M] yields_intros yields_Some | simp)+
qed (simp add: yields_None)

lemma tab_evict: "tables_in M s \<Longrightarrow> yields (tables_in M) (evict_and_replace fo r s)"
  unfolding evict_and_replace_def
  by (rule tab_clock tab_forget tab_updatePTEs tab_step [where M = M] yields_intros yields_Some | simp add: tab_upd)+

lemma tab_give: "tables_in M s \<Longrightarrow> yields (tables_in M) (give_new_ppn fo v s)"
  unfolding give_new_ppn_def
  by (rule tab_evict tab_step [where M = M] yields_intros yields_Some | simp add: tab_upd)+

lemma tab_return: "tables_in M s \<Longrightarrow> yields (tables_in M) (return_ppn_remove_from_clock v s)"
  unfolding return_ppn_remove_from_clock_def
  by (rule tab_updatePTEs yields_intros | simp add: tab_upd)+

section \<open>Faults\<close>

lemma tab_load: "tables_in M s \<Longrightarrow> yields (\<lambda>(r, t). tables_in M t) (load_page fo v s)"
  unfolding load_page_def
  by (rule tab_give tab_forget tab_return tab_step [where M = M] yields_intros yields_Some | simp add: tab_upd)+

lemma tab_fault_page_in: "tables_in M s \<Longrightarrow> yields (\<lambda>(r, t). tables_in M t) (fault_page_in fo v w s)"
  unfolding fault_page_in_def
  by (rule tab_load tab_upd_phys tab_updatePTEs tab_step [where M = M] tab_step2 [where M = M] yields_intros yields_Some | simp)+

lemma tab_vm_fault_read: "tables_in M s \<Longrightarrow> yields (\<lambda>(r, t). tables_in M t) (vm_fault_read fo addr s)"
  unfolding vm_fault_read_def
  by (rule tab_fault_page_in yields_intros yields_Some | simp)+

lemma tab_copy_on_write:
  assumes "tables_in M s"
  shows "yields (tables_in M) (copy_on_write fo va v s)"
proof -
  have sub: "set aff \<subseteq> M \<and> VA_to_PTE va (page_table_base_register s) \<in> M"
    if "erase_first (VA_to_PTE va (page_table_base_register s)) (affiliated (vpages s v)) = Some aff" for aff
    using that set_erase_first [OF that] tables_inD [OF assms, of _ v] by (auto simp: erase_first_def split: if_splits)
  show ?thesis unfolding copy_on_write_def
    by (rule tab_give tab_updatePTEs tab_upd_phys tab_step [where M = M] yields_intros yields_Some assms | simp add: tab_upd sub assms)+
qed

lemma tab_vm_fault: "tables_in M s \<Longrightarrow> yields (\<lambda>(r, t). tables_in M t) (vm_fault fo addr w s)"
  unfolding vm_fault_def
  by (rule tab_vm_fault_read tab_fault_page_in tab_copy_on_write tab_step [where M = M] tab_step2 [where M = M] yields_intros yields_Some | simp)+

section \<open>Mapping\<close>

lemma tab_frame_of: "tables_in M s \<Longrightarrow> yields (\<lambda>(r, t). tables_in M t) (frame_of fo va s)"
  unfolding frame_of_def
  by (rule tab_vm_fault_read tab_step2 [where M = M] yields_intros yields_Some | simp)+

lemma tab_copy_filename: "tables_in M s \<Longrightarrow> yields (\<lambda>(r, t). tables_in M t) (copy_filename fo blk0 va fr run s)"
proof (rule yieldsI)
  fix x
  assume "copy_filename fo blk0 va fr run s = Some x" "tables_in M s"
  then show "case x of (r, t) \<Rightarrow> tables_in M t"
  proof (induction rule: copy_filename.raw_induct [rotated, consumes 1])
    case (1 copy fo blk0 va fr run s x)
    have IH: "tables_in M s \<Longrightarrow> yields (\<lambda>(r, t). tables_in M t) (copy fo blk0 va fr run s)" for fo blk0 va fr run s
      by (rule yieldsI) (rule 1(1))
    show ?case using 1(2)
      by (elim yieldsD [rotated]) (rule IH tab_frame_of 1(3) tab_step2 [where M = M] yields_intros yields_Some | simp add: 1(3))+
  qed
qed

lemma tab_translate: "tables_in M s \<Longrightarrow> yields (\<lambda>(r, t). tables_in M t) (translate_from_other_addr_space fo va s)"
  unfolding translate_from_other_addr_space_def
  by (rule tab_frame_of tab_copy_filename tab_step2 [where M = M] yields_intros yields_Some | simp)+

lemma tab_map_file_page:
  "tables_in M s \<Longrightarrow> VA_to_PTE va (page_table_base_register s) \<in> M \<Longrightarrow> yields (tables_in M) (map_file_page va name b s)"
  unfolding map_file_page_def
  by (rule tab_updatePTEs yields_intros | simp add: tab_upd)+

lemma tab_make_swap:
  "tables_in M s \<Longrightarrow> VA_to_PTE va pid \<in> M \<Longrightarrow> yields (\<lambda>(r, t). tables_in M t) (make_swap_to_nullpage va pid s)"
  unfolding make_swap_to_nullpage_def
  by (rule tab_updatePTEs tab_step [where M = M] yields_intros yields_Some | simp add: tab_upd)+

lemma tab_vm_map:
  assumes inv: "pager_inv ok s" and a: "alive s" and fo: "file_laws fo ok" and M: "tables_in M s"
    "VA_to_PTE (get_next_free_VA s (current_pid s)) (current_pid s) \<in> M"
  shows "yields (\<lambda>(r, t). tables_in M t) (vm_map fo name_ptr block s)"
proof -
  have ptbr: "page_table_base_register t = current_pid s" if "translate_from_other_addr_space fo ptr s = Some (r, t)" for ptr r t
  proof -
    from returnsD [OF translate_spec [OF inv a fo] that] have "pager_inv ok t" "kept s t" by auto
    then show ?thesis by (simp add: pager_inv_iff processes_ok_def kept_def)
  qed
  have named: "yields (\<lambda>(r, t). tables_in M t) (do { (nm, s) \<leftarrow> translate_from_other_addr_space fo ptr s; f nm s })"
    if "\<And>nm t. tables_in M t \<Longrightarrow> page_table_base_register t = current_pid s \<Longrightarrow> yields (\<lambda>(r, t). tables_in M t) (f nm t)" for ptr f
    using that ptbr tab_translate [OF M(1)] by (fastforce simp: yields_def bind_eq_Some_conv)
  show ?thesis unfolding vm_map_def
    by (rule named tab_map_file_page tab_make_swap tab_step [where M = M] tab_step2 [where M = M] yields_intros yields_Some M | simp add: M)+
qed

lemma make_swap_None: "make_swap_to_nullpage va pid s = Some (None, t) \<Longrightarrow> t = s"
  by (auto simp: make_swap_to_nullpage_def Let_def bind_eq_Some_conv split: list.splits)

lemma tab_vm_map_None:
  assumes M: "tables_in M s"
  shows "yields (\<lambda>(r, t). r = None \<longrightarrow> tables_in M t) (vm_map fo name_ptr block s)"
proof -
  have swap: "yields (\<lambda>(r, t). r = None \<longrightarrow> tables_in M t) (do { (v, s) \<leftarrow> make_swap_to_nullpage va pid s; f v s })"
    if "yields (\<lambda>(r, t). r = None \<longrightarrow> tables_in M t) (f None s)" "\<And>v t. yields (\<lambda>(r, t). r = None \<longrightarrow> tables_in M t) (f (Some v) t)" for va pid f
  proof (intro yields_intros)
    fix x v t
    assume "make_swap_to_nullpage va pid s = Some x" "x = (v, t)"
    then show "yields (\<lambda>(r, t). r = None \<longrightarrow> tables_in M t) (f v t)" using that make_swap_None [of va pid s t] by (cases v) auto
  qed
  show ?thesis unfolding vm_map_def
    by (rule swap tab_translate tab_step2 [where M = M] yields_intros yields_Some M | simp add: M)+
qed

section \<open>Processes\<close>

lemma tab_share_page:
  "tables_in M s \<Longrightarrow> VA_to_PTE (fst m) child \<in> M \<Longrightarrow> yields (tables_in M) (share_page child m s)"
  unfolding share_page_def
  by (rule tab_make_swap tab_updatePTEs tab_step [where M = M] tab_step2 [where M = M] yields_intros yields_Some | simp add: tab_upd)+

lemma tab_fold:
  assumes "tables_in M s" "\<And>x s. x \<in> set xs \<Longrightarrow> tables_in M s \<Longrightarrow> yields (tables_in M) (f x s)"
  shows "yields (tables_in M) (fold_option f xs s)"
  using assms by (induction xs arbitrary: s) (auto intro!: yields_Some tab_step [where M = M])

lemma new_table_off: "process_table s child = None \<Longrightarrow> tables_in M s \<Longrightarrow> tables_in M (s\<lparr>process_table := (process_table s)(child \<mapsto> new_page_table)\<rparr>)"
  by (auto simp: tables_in_def get_pte_def at_Some_iff new_page_table_def split: if_splits Option.bind_splits)

lemma tab_vm_create:
  assumes "tables_in M s" "process_table s child = None" "\<And>m. m \<in> set (ord (mappings s parent)) \<Longrightarrow> VA_to_PTE (fst m) child \<in> M"
  shows "yields (\<lambda>(r, t). tables_in M t) (vm_create ord parent child s)"
proof -
  have gone: "(process_table s)(child := None) = process_table s" using assms(2) by (simp add: fun_eq_iff)
  have m: "mappings (s\<lparr>process_table := pt, next_free_VA := n\<rparr>) pid = mappings s pid" for pt n pid by (simp add: mappings_def)
  show ?thesis unfolding vm_create_def
    by (rule tab_fold tab_share_page tab_step [where M = M] yields_intros yields_Some | simp add: assms new_table_off gone m)+
qed

section \<open>Exit\<close>

lemma tab_destroy_mapping:
  assumes "tables_in M s"
  shows "yields (tables_in M) (destroy_mapping m s)"
proof -
  have sub: "tables_in M t \<Longrightarrow> erase_first p (affiliated (vpages t v)) = Some aff \<Longrightarrow> tables_in M (upd_vpage v (\<lambda>vp. vp\<lparr>affiliated := aff\<rparr>) t)" for t p v aff
    using set_erase_first affiliated_in by (fastforce intro!: tables_in_upd_vpage)
  show ?thesis unfolding destroy_mapping_def
    by (rule tab_return tab_updatePTEs tab_step [where M = M] yields_intros yields_Some sub assms | assumption | simp add: tab_upd sub assms)+
qed

lemma tab_vm_destroy:
  assumes M: "tables_in M s" and t: "vm_destroy ord s = Some t"
  shows "\<And>p e. get_pte t p = Some e \<Longrightarrow> fst p = current_pid t \<or> p \<notin> M \<Longrightarrow> \<not> read_enable e"
proof -
  let ?fin = "\<lambda>s. s\<lparr>translateVA := AList.delete (current_pid s) (translateVA s), process_table := (process_table s)(current_pid s := None),
    next_free_VA := (next_free_VA s)(current_pid s := None)\<rparr>"
  obtain u where u: "fold_option destroy_mapping (ord (mappings s (current_pid s))) (touch_va (current_pid s) s) = Some u" "t = ?fin u"
    using t by (auto simp: vm_destroy_def Let_def bind_eq_Some_conv)
  have "tables_in M u" by (rule yieldsD [OF tab_fold u(1)]) (simp_all add: M tab_destroy_mapping)
  then have "\<not> read_enable e" if "get_pte t p = Some e" "fst p = current_pid t \<or> p \<notin> M" for p e
    using that u(2) by (auto simp: tables_in_def get_pte_def bind_eq_Some_conv split: if_splits)
  then show "\<And>p e. get_pte t p = Some e \<Longrightarrow> fst p = current_pid t \<or> p \<notin> M \<Longrightarrow> \<not> read_enable e" .
qed

section \<open>Only mapped addresses are enabled\<close>

definition mapped_entries :: "'f pager \<Rightarrow> pte_ptr set" where
  "mapped_entries s = {VA_to_PTE va pid |pid va. lookup_va s pid va \<noteq> None}"

definition tidy :: "'f pager \<Rightarrow> bool" where
  "tidy s \<longleftrightarrow> (\<forall>p e. get_pte s p = Some e \<longrightarrow> p \<notin> mapped_entries s \<longrightarrow> \<not> read_enable e)"

lemma mapped_entriesI: "lookup_va s pid va \<noteq> None \<Longrightarrow> VA_to_PTE va pid \<in> mapped_entries s"
  by (auto simp: mapped_entries_def)

lemma mapped_entries_mono:
  "(\<And>pid va. lookup_va s pid va \<noteq> None \<Longrightarrow> lookup_va t pid va \<noteq> None) \<Longrightarrow> mapped_entries s \<subseteq> mapped_entries t"
  unfolding mapped_entries_def by blast

lemma tidy_tables:
  assumes "pager_inv ok s" "tidy s" "mapped_entries s \<subseteq> M"
  shows "tables_in M s"
proof -
  have "entries_of s v \<subseteq> mapped_entries s" for v unfolding entries_of_def mapped_entries_def by blast
  moreover have "affil_ok s" using assms(1) core_facts(8) by (auto simp: pager_inv_iff)
  ultimately show ?thesis using assms(2,3) unfolding tables_in_def affil_ok_def tidy_def by blast
qed

lemma tables_tidy: "tables_in (mapped_entries s) s \<Longrightarrow> tidy s"
  by (simp add: tables_in_def tidy_def)

lemma tidy_fault:
  assumes s: "pager_inv ok s" "tidy s" and t: "vm_fault fo addr write s = Some (r, t)" "fault_result s (page_base addr) write r t"
  shows "tidy t"
proof -
  have "lookup_va t pid va \<noteq> None" if "lookup_va s pid va \<noteq> None" for pid va
    using t(2) that unfolding fault_result_def by (metis (full_types) prod.inject)
  then have "mapped_entries s \<subseteq> mapped_entries t" by (rule mapped_entries_mono)
  from yieldsD [OF tab_vm_fault [OF tidy_tables [OF s this]] t(1)] show ?thesis by (simp add: tables_tidy)
qed

lemma tidy_map:
  assumes s: "pager_inv ok s" "tidy s" "alive s" and fo: "file_laws fo ok" and t: "vm_map fo name_ptr block s = Some (r, t)"
  shows "tidy t"
proof -
  from returnsD [OF vm_map_spec [OF s(1,3) fo] t] have e: "case r of None \<Rightarrow> kept s t | Some va \<Rightarrow> extended s va t" by simp
  show ?thesis
  proof (cases r)
    case None
    with e have "mapped_entries s \<subseteq> mapped_entries t" by (simp add: kept_def mapped_entries_mono)
    from yieldsD [OF tab_vm_map_None [OF tidy_tables [OF s(1,2) this]] t] None show ?thesis by (simp add: tables_tidy)
  next
    case (Some va)
    with e have x: "next_free_VA s (current_pid s) = Some va" "\<exists>v. lookup_va t = (lookup_va s)(current_pid s := (lookup_va s (current_pid s))(va \<mapsto> v))"
      by (simp_all add: extended_def)
    then have "lookup_va t pid a \<noteq> None" if "lookup_va s pid a \<noteq> None" for pid a using that by auto
    then have m: "mapped_entries s \<subseteq> mapped_entries t" by (rule mapped_entries_mono)
    have "VA_to_PTE (get_next_free_VA s (current_pid s)) (current_pid s) \<in> mapped_entries t"
      using x by (intro mapped_entriesI) (auto simp: get_next_free_VA_def)
    from yieldsD [OF tab_vm_map [OF s(1,3) fo tidy_tables [OF s(1,2) m] this] t] show ?thesis by (simp add: tables_tidy)
  qed
qed

lemma tidy_create:
  assumes s: "pager_inv ok s" "tidy s" and f: "process_table s child = None" and ord: "traversal ord"
    and t: "vm_create ord parent child s = Some (r, t)"
  shows "tidy t"
proof (cases "r = 0")
  case True
  with returnsD [OF vm_create_spec [OF s(1) f ord] t] have c: "created s parent child t" by simp
  have wf: "wf_maps s" using s(1) core_facts(1) by (auto simp: pager_inv_iff)
  have "lookup_va s child a = None" for a
  proof (cases "lookup_va s child a")
    case (Some v)
    with s(1) arena_okD(3) [OF core_facts(2) Some] process_alive [OF s(1), of child] f show ?thesis by (auto simp: pager_inv_iff)
  qed
  then have "lookup_va t pid va \<noteq> None" if "lookup_va s pid va \<noteq> None" for pid va
    using c that unfolding created_def by (cases "pid = child") simp_all
  then have m: "mapped_entries s \<subseteq> mapped_entries t" by (rule mapped_entries_mono)
  have "VA_to_PTE (fst q) child \<in> mapped_entries t" if "q \<in> set (ord (mappings s parent))" for q
  proof -
    have "lookup_va s parent (fst q) = Some (snd q)"
      using that traversal_facts(1) [OF ord mappings_distinct [OF wf]] mappings_distinct [OF wf, of parent]
      by (simp add: lookup_va_def)
    moreover have "case lookup_va s parent (fst q) of None \<Rightarrow> lookup_va t child (fst q) = None
        | Some v \<Rightarrow> (\<exists>w. lookup_va t child (fst q) = Some w \<and> (is_null (vpages s v) \<or> w = v))"
      using c unfolding created_def by blast
    ultimately show ?thesis by (intro mapped_entriesI) auto
  qed
  from yieldsD [OF tab_vm_create [OF tidy_tables [OF s m] f this] t] show ?thesis by (simp add: tables_tidy)
next
  case False
  with returnsD [OF vm_create_spec [OF s(1) f ord] t] s(2) show ?thesis by simp
qed

lemma tidy_destroy:
  assumes s: "pager_inv ok s" "tidy s" "alive s" and ord: "traversal ord" and t: "vm_destroy ord s = Some t"
  shows "tidy t"
proof -
  from returnsD [OF vm_destroy_spec [OF s(1,3) ord] t]
  have l: "lookup_va t = (lookup_va s)(current_pid s := Map.empty)" "current_pid t = current_pid s" by simp_all
  have "p \<in> mapped_entries t" if m: "p \<in> mapped_entries s" "fst p \<noteq> current_pid t" for p
  proof -
    obtain pid va where p: "p = VA_to_PTE va pid" "lookup_va s pid va \<noteq> None" using m(1) unfolding mapped_entries_def by blast
    then have "pid \<noteq> current_pid s" using m(2) l(2) by (simp add: VA_to_PTE_def)
    with p(2) show ?thesis unfolding p(1) by (intro mapped_entriesI) (simp add: l(1))
  qed
  then show ?thesis using tab_vm_destroy [OF tidy_tables [OF s(1,2) order_refl] t] unfolding tidy_def by blast
qed

lemma tidy_switch: "tidy s \<Longrightarrow> vm_switch pid s = Some t \<Longrightarrow> tidy t"
  unfolding vm_switch_def tidy_def mapped_entries_def get_pte_def Let_def bind_eq_Some_conv by auto metis

lemma enabled_mapped:
  assumes inv: "pager_inv ok s" and t: "tidy s" and e: "get_pte s (VA_to_PTE va pid) = Some e" "read_enable e" and va: "arena_va va"
  obtains v where "lookup_va s pid va = Some v"
proof -
  have "VA_to_PTE va pid \<in> mapped_entries s" using t e unfolding tidy_def by blast
  then obtain p a where a: "VA_to_PTE va pid = VA_to_PTE a p" "lookup_va s p a \<noteq> None" unfolding mapped_entries_def by blast
  then have "arena_va a" using arena_okD(2) [OF core_facts(2)] inv by (auto simp: pager_inv_iff)
  from VA_to_PTE_inj [OF va this a(1)] a(2) that show thesis by auto
qed

end
