(* ===== verification/Pager_Runs.thy ===== *)
theory Pager_Runs
  imports Pager_Tables
begin

text \<open>
  Runs of the pager: the calls of the kernel and the stores of the running process, from start-up
  on. Every state of a run satisfies the invariant, and no call aborts.
\<close>

section \<open>Start-up\<close>

text \<open>The global variables before \<^verbatim>\<open>vm_init\<close>.\<close>

definition pristine :: "'f pager \<Rightarrow> bool" where
  "pristine s \<longleftrightarrow> process_table s = (\<lambda>_. None) \<and> translateVA s = [] \<and> next_free_VA s = (\<lambda>_. None) \<and> filename_block_to_vpage s = []
     \<and> next_free_swap s = [] \<and> next_free_PPN s = [] \<and> clock_queue s = [] \<and> (\<forall>v. affiliated (vpages s v) = []) \<and> page_table_base_register s = current_pid s"

lemma vm_init_inv:
  assumes "pristine s" "2 \<le> memory_pages" "memory_pages \<le> 2 ^ 20"
  shows "pager_inv ok (vm_init memory_pages swap s)"
proof -
  let ?t = "vm_init memory_pages swap s"
  have l: "lookup_va ?t p a = None" for p a using assms(1) by (simp add: lookup_va_def mappings_def vm_init_def pristine_def)
  have nl: "\<not> live ?t v" for v using assms(1) by (simp add: live_def vm_init_def pristine_def)
  have "wf_maps ?t" "arena_ok ?t" using assms(1) l by (simp_all add: wf_maps_def arena_ok_def vm_init_def pristine_def)
  moreover have "frames_ok ?t" using assms nl by (simp add: frames_ok_def vm_init_def pristine_def)
  moreover have "swap_ok ?t"
  proof -
    have "swap_blocks ?t = (\<lambda>_. {})" using nl by (simp add: swap_blocks_def fun_eq_iff)
    then show ?thesis using assms(1) nl by (auto simp: swap_ok_def vm_init_def pristine_def)
  qed
  moreover have "files_ok ok ?t" using assms(1) nl by (simp add: files_ok_def vm_init_def pristine_def)
  moreover have "affil_ok ?t" using assms(1) by (simp add: affil_ok_def vm_init_def pristine_def)
  ultimately have "core ok ?t" using nl by (simp add: core_def)
  moreover have "processes_ok ?t" using assms(1) by (simp add: processes_ok_def vm_init_def pristine_def)
  ultimately show ?thesis using nl by (simp add: pager_inv_iff resident_ok_def shows_all_def)
qed

definition booted :: "'f pager \<Rightarrow> bool" where
  "booted s \<longleftrightarrow> (\<exists>memory_pages swap s0. pristine s0 \<and> 2 \<le> memory_pages \<and> memory_pages \<le> 2 ^ 20 \<and> s = vm_init memory_pages swap s0)"

section \<open>Steps\<close>

text \<open>
  The memory management unit: the frame that process \<open>pid\<close> reaches at the page \<open>va\<close>, and the bytes
  the running process loads and stores there.
\<close>

definition reaches :: "'f pager \<Rightarrow> nat \<Rightarrow> nat \<Rightarrow> bool \<Rightarrow> nat option" where
  "reaches s pid va write = (case get_pte s (VA_to_PTE va pid) of
     None \<Rightarrow> None | Some e \<Rightarrow> if read_enable e \<and> (write \<longrightarrow> write_enable e) then Some (ppage e) else None)"

definition load_byte :: "nat \<Rightarrow> 'f pager \<Rightarrow> char option" where
  "load_byte addr s = map_option (\<lambda>f. vm_physmem s f (addr mod VM_PAGESIZE)) (reaches s (page_table_base_register s) (page_base addr) False)"

definition store :: "nat \<Rightarrow> char \<Rightarrow> 'f pager \<Rightarrow> 'f pager option" where
  "store addr c s = map_option (\<lambda>f. s\<lparr>vm_physmem := (vm_physmem s)(f := (vm_physmem s f)(addr mod VM_PAGESIZE := c))\<rparr>)
     (reaches s (page_table_base_register s) (page_base addr) True)"

lemma permits_reaches: "permits s va w \<longleftrightarrow> reaches s (page_table_base_register s) va w \<noteq> None"
  by (auto simp: permits_def reaches_def split: option.splits)

definition running :: "'f pager \<Rightarrow> bool" where
  "running s \<longleftrightarrow> process_table s (current_pid s) \<noteq> None"

text \<open>
  What the kernel and the hardware promise: a child is new, a process that is switched to exists,
  the running process exists when it traps, a fault is raised by an access its page table entry
  does not permit, and a store only happens where the entry permits it.
\<close>

datatype call =
    Create_Call nat nat int
  | Switch_Call nat
  | Map_Call "nat option" nat "nat option"
  | Fault_Call nat bool int
  | Destroy_Call
  | Store_Call nat char

inductive pager_step :: "'f file_ops \<Rightarrow> call \<Rightarrow> 'f pager \<Rightarrow> 'f pager \<Rightarrow> bool" for fo where
  Create: "\<lbrakk>traversal ord; process_table s child = None; vm_create ord parent child s = Some (r, t)\<rbrakk> \<Longrightarrow> pager_step fo (Create_Call parent child r) s t"
| Switch: "\<lbrakk>process_table s pid \<noteq> None; vm_switch pid s = Some t\<rbrakk> \<Longrightarrow> pager_step fo (Switch_Call pid) s t"
| Map: "\<lbrakk>running s; vm_map fo name_ptr block s = Some (a, t)\<rbrakk> \<Longrightarrow> pager_step fo (Map_Call name_ptr block a) s t"
| Fault: "\<lbrakk>running s; \<not> permits s (page_base addr) write; vm_fault fo addr write s = Some (r, t)\<rbrakk> \<Longrightarrow> pager_step fo (Fault_Call addr write r) s t"
| Destroy: "\<lbrakk>traversal ord; running s; vm_destroy ord s = Some t\<rbrakk> \<Longrightarrow> pager_step fo Destroy_Call s t"
| Store: "\<lbrakk>running s; arena_va (page_base addr); store addr c s = Some t\<rbrakk> \<Longrightarrow> pager_step fo (Store_Call addr c) s t"

lemma running_alive: "pager_inv ok s \<Longrightarrow> running s \<longleftrightarrow> alive s"
  using process_alive [of ok s "current_pid s"] by (simp add: running_def alive_def)

lemma inv_mem: "pager_inv ok s \<Longrightarrow> pager_inv ok (s\<lparr>vm_physmem := m\<rparr>)"
  by (simp add: pager_inv_iff core_upd(1) resident_ok_def processes_ok_def)

lemma store_inv: "pager_inv ok s \<Longrightarrow> store addr c s = Some t \<Longrightarrow> pager_inv ok t"
  by (auto simp: store_def inv_mem)

lemma tidy_mem: "tidy s \<Longrightarrow> tidy (s\<lparr>vm_physmem := m\<rparr>)"
  by (simp add: tidy_def mapped_entries_def get_pte_def)

lemma store_tidy: "tidy s \<Longrightarrow> store addr c s = Some t \<Longrightarrow> tidy t"
  by (auto simp: store_def tidy_mem)

text \<open>What an enabled entry says about the page behind it.\<close>

lemma reaches_page:
  assumes inv: "pager_inv ok s" and t: "tidy s" and va: "arena_va va" and r: "reaches s pid va w = Some f"
  obtains v pp where "lookup_va s pid va = Some v" "live s v" "physicalPage (vpages s v) = Some pp" "f = PPN pp" "clocked pp" "f < mem_pages_cap s"
    "w \<Longrightarrow> f \<noteq> 0 \<and> dirty pp \<and> (isSwap (vpages s v) \<longrightarrow> length (affiliated (vpages s v)) = 1)"
proof -
  obtain e where e: "get_pte s (VA_to_PTE va pid) = Some e" "read_enable e" "w \<Longrightarrow> write_enable e" "f = ppage e"
    using r by (auto simp: reaches_def split: option.splits if_splits)
  obtain v where v: "lookup_va s pid va = Some v" using enabled_mapped [OF inv t e(1,2) va] .
  have c: "core ok s" and sh: "shows_all s {v. live s v}" using inv by (simp_all add: pager_inv_iff)
  have lv: "live s v" unfolding core_facts(7) [OF c] mapped_def using v by blast
  have "VA_to_PTE va pid \<in> set (affiliated (vpages s v))"
    using page_okD(1) [OF c lv] entry_of_mapping [OF c va] v by simp
  then have "pte_shows s v (VA_to_PTE va pid)" using sh lv by (auto simp: shows_all_def)
  then have bits: "pte_bits (vpages s v) = Some (True, write_enable e)" "\<And>pp. physicalPage (vpages s v) = Some pp \<Longrightarrow> f = PPN pp mod 2 ^ 20"
    using e by (auto simp: pte_shows_def)
  then obtain pp where pp: "physicalPage (vpages s v) = Some pp" "clocked pp"
    "write_enable e \<Longrightarrow> dirty pp \<and> (isSwap (vpages s v) \<longrightarrow> length (affiliated (vpages s v)) = 1)"
    by (auto simp: pte_bits_def bind_eq_Some_conv split: if_splits)
  have cap: "0 < mem_pages_cap s" "mem_pages_cap s \<le> 2 ^ 20" using core_facts(4) [OF c] by (simp_all add: frames_ok_def)
  have lt: "PPN pp < mem_pages_cap s"
    using frames_free(2) [OF c lv] cap(1) pp(1) by (cases "PPN pp = 0") (auto simp: in_frame_def frame_def)
  then have f: "f = PPN pp" using bits(2) [OF pp(1)] cap(2) by simp
  have "PPN pp \<noteq> 0" if "dirty pp" using page_okD(7) [OF c lv pp(1)] that by blast
  with that [OF v lv pp(1) f pp(2)] lt f pp(3) e(3) show thesis by blast
qed

lemma genuine_fault: "\<not> permits s va w \<Longrightarrow> genuine s va w"
  by (simp add: genuine_def)

definition run_ok :: "(string \<Rightarrow> nat \<Rightarrow> bool) \<Rightarrow> 'f pager \<Rightarrow> bool" where
  "run_ok ok s \<longleftrightarrow> pager_inv ok s \<and> tidy s"

lemma run_okD: "run_ok ok s \<Longrightarrow> pager_inv ok s" "run_ok ok s \<Longrightarrow> tidy s"
  by (simp_all add: run_ok_def)

lemma pager_step_inv:
  assumes fo: "file_laws fo ok" and inv: "pager_inv ok s" "tidy s" and st: "pager_step fo call s t"
  shows "run_ok ok t"
  using st
proof cases
  case (Create ord child parent r)
  from returnsD [OF vm_create_spec [OF inv(1) Create(3,2)] Create(4)] tidy_create [OF inv Create(3,2,4)] show ?thesis by (simp add: run_ok_def)
next
  case (Switch pid)
  from returnsD [OF vm_switch_spec [OF inv(1) Switch(2)] Switch(3)] tidy_switch [OF inv(2) Switch(3)] show ?thesis unfolding run_ok_def by blast
next
  case (Map name_ptr block a)
  then have a: "alive s" using running_alive [OF inv(1)] by simp
  from returnsD [OF vm_map_spec [OF inv(1) a fo] Map(3)] tidy_map [OF inv a fo Map(3)] show ?thesis by (simp add: run_ok_def)
next
  case (Fault addr "write" r)
  then have "alive s" using running_alive [OF inv(1)] by simp
  from returnsD [OF vm_fault_spec [OF inv(1) this fo genuine_fault [OF Fault(3)]] Fault(4)] tidy_fault [OF inv Fault(4)] show ?thesis by (simp add: run_ok_def)
next
  case (Destroy ord)
  then have a: "alive s" using running_alive [OF inv(1)] by simp
  from returnsD [OF vm_destroy_spec [OF inv(1) a Destroy(2)] Destroy(4)] tidy_destroy [OF inv a Destroy(2,4)] show ?thesis by (simp add: run_ok_def)
next
  case (Store addr c)
  with store_inv [OF inv(1)] store_tidy [OF inv(2)] show ?thesis by (simp add: run_ok_def)
qed

lemma booted_ok: "booted s \<Longrightarrow> run_ok ok s"
  by (auto simp: booted_def run_ok_def vm_init_inv) (simp add: tidy_def vm_init_def pristine_def get_pte_def)

interpretation pager: labelled_system booted "\<lambda>c s t. file_laws fo ok \<and> pager_step fo c s t" "run_ok ok" for fo ok
  by unfold_locales (auto simp: booted_ok intro: pager_step_inv dest: run_okD)

lemma run_inv:
  assumes "file_laws fo ok" "booted s" "run_of (pager_step fo) s cs t"
  shows "pager_inv ok t" "tidy t"
  using pager.inv_run_initial [of s fo ok cs t] assms by (simp_all add: run_ok_def)

end
