(* ===== verification/Pager_Memory.thy ===== *)
theory Pager_Memory
  imports Pager_Runs
begin

text \<open>
  What the pager's memory means. The contents of a page are in its frame or, when it has none, in
  its block of the swap space or of its file; a page in memory that is not dirty agrees with its block.
  The lemmas show that eviction, loading and copying move contents and do not change them.
\<close>

section \<open>Contents\<close>

text \<open>
  \<open>ct f n b\<close> are the bytes of block \<open>b\<close> of file \<open>n\<close> (\<open>None\<close> is the swap file). Reading returns
  them and does not change any; writing a block that can be read replaces its bytes.
\<close>

type_synonym 'f contents = "'f \<Rightarrow> string option \<Rightarrow> nat \<Rightarrow> page"

definition content_laws :: "'f file_ops \<Rightarrow> (string \<Rightarrow> nat \<Rightarrow> bool) \<Rightarrow> 'f contents \<Rightarrow> bool" where
  "content_laws fo ok ct \<longleftrightarrow>
     (\<forall>f n b buf. case file_read fo f n b buf of (r, buf', f') \<Rightarrow> ct f' = ct f \<and> (r \<longrightarrow> buf' = ct f n b))
     \<and> (\<forall>f b p. ct (snd (file_write fo f None b p)) = (ct f)(None := (ct f None)(b := p)))
     \<and> (\<forall>f name b p. ok name b \<longrightarrow> ct (snd (file_write fo f (Some name) b p)) = (ct f)(Some name := (ct f (Some name))(b := p)))"

definition stored :: "'f contents \<Rightarrow> 'f pager \<Rightarrow> nat \<Rightarrow> page" where
  "stored ct s v = ct (files s) (backing (vpages s v)) (blocks (vpages s v) ! 0)"

definition content :: "'f contents \<Rightarrow> 'f pager \<Rightarrow> nat \<Rightarrow> page" where
  "content ct s v = (case physicalPage (vpages s v) of Some pp \<Rightarrow> vm_physmem s (PPN pp) | None \<Rightarrow> stored ct s v)"

definition clean_ok :: "'f contents \<Rightarrow> 'f pager \<Rightarrow> nat \<Rightarrow> bool" where
  "clean_ok ct s v \<longleftrightarrow> (\<forall>pp. physicalPage (vpages s v) = Some pp \<and> PPN pp \<noteq> 0 \<and> \<not> dirty pp \<longrightarrow> vm_physmem s (PPN pp) = stored ct s v)"

definition mem_ok :: "'f contents \<Rightarrow> 'f pager \<Rightarrow> bool" where
  "mem_ok ct s \<longleftrightarrow> vm_physmem s 0 = zero_page \<and> (\<forall>v. live s v \<longrightarrow> clean_ok ct s v)"

lemma backing_upd [simp]:
  "backing (vp\<lparr>physicalPage := pp\<rparr>) = backing vp" "backing (vp\<lparr>resident := r\<rparr>) = backing vp"
  "backing (vp\<lparr>affiliated := a\<rparr>) = backing vp" "backing (vp\<lparr>blocks := bs\<rparr>) = backing vp"
  by (simp_all add: backing_def)

lemma read_contents:
  assumes "content_laws fo ok ct" "file_read fo f n b buf = (r, buf', f')"
  shows "ct f' = ct f \<and> (r \<longrightarrow> buf' = ct f n b)"
proof -
  have "case file_read fo f n b buf of (r, buf', f') \<Rightarrow> ct f' = ct f \<and> (r \<longrightarrow> buf' = ct f n b)"
    using assms(1) by (simp add: content_laws_def)
  with assms(2) show ?thesis by simp
qed

lemma write_contents:
  assumes "content_laws fo ok ct" "readable ok vp"
  shows "ct (snd (file_write fo f (backing vp) (blocks vp ! 0) p)) n b = (if n = backing vp \<and> b = blocks vp ! 0 then p else ct f n b)"
  using assms by (auto simp: content_laws_def readable_def backing_def)

section \<open>Different pages have different blocks and frames\<close>

lemma keys_distinct:
  assumes c: "core ok s" and v: "live s v" "live s w" "v \<noteq> w" and r: "readable ok (vpages s v)"
  shows "\<not> (backing (vpages s w) = backing (vpages s v) \<and> blocks (vpages s w) ! 0 = blocks (vpages s v) ! 0)"
proof
  assume k: "backing (vpages s w) = backing (vpages s v) \<and> blocks (vpages s w) ! 0 = blocks (vpages s v) ! 0"
  then have sw: "isSwap (vpages s w) = isSwap (vpages s v)" by (auto simp: backing_def split: if_splits)
  show False
  proof (cases "isSwap (vpages s v)")
    case True
    have "blocks (vpages s x) ! 0 \<in> swap_blocks s x" if "live s x" "isSwap (vpages s x)" for x
      using that page_okD(3) [OF c that(1)] by (simp add: swap_blocks_def)
    then have "swap_blocks s v \<inter> swap_blocks s w \<noteq> {}" using v True sw k by (metis disjoint_iff)
    then show False using core_facts(5) [OF c] v(3) unfolding swap_ok_def by blast
  next
    case False
    with k sw have "filename (vpages s w) = filename (vpages s v)" by (simp add: backing_def)
    with files_okD(2) [OF core_facts(6) [OF c]] v r k False sw show False by (metis option.inject readable_def)
  qed
qed

lemma frames_distinct:
  assumes c: "core ok s" and v: "live s v" "live s w" "v \<noteq> w" "in_frame (vpages s v)" "in_frame (vpages s w)"
  shows "frame s v \<noteq> frame s w"
proof -
  have fr: "frames_ok s" by (rule core_facts(4) [OF c])
  then have m: "mset (map (frame s) (clock_queue s) @ next_free_PPN s) = mset [1..<mem_pages_cap s]" by (simp add: frames_ok_def)
  have "distinct (map (frame s) (clock_queue s))" using mset_eq_imp_distinct_iff [OF m] by simp
  moreover have "v \<in> set (clock_queue s)" "w \<in> set (clock_queue s)" using on_clock [OF c] v by blast+
  ultimately show ?thesis using v(3) by (auto simp: distinct_map inj_on_def)
qed

section \<open>Eviction\<close>

lemma resident_readable:
  assumes "core ok s" "resident_ok ok s" "live s v" "in_frame (vpages s v)"
  shows "readable ok (vpages s v)"
  using assms page_okD(6) [OF assms(1,3)] unfolding resident_ok_def readable_def by (auto simp: in_frame_def split: option.splits)

lemma written_contents:
  assumes c: "core ok s" and ro: "resident_ok ok s" and l: "content_laws fo ok ct" and m: "mem_ok ct s" and e: "live s e" "in_frame (vpages s e)"
  shows "ct (written_back fo s e) n b
    = (if n = backing (vpages s e) \<and> b = blocks (vpages s e) ! 0 then content ct s e else ct (files s) n b)"
proof -
  obtain pp where pp: "physicalPage (vpages s e) = Some pp" "PPN pp \<noteq> 0" using e(2) by (auto simp: in_frame_def split: option.splits)
  have "clean_ok ct s e" using m e(1) by (simp add: mem_ok_def)
  then show ?thesis
    using pp write_contents [OF l resident_readable [OF c ro e]] by (auto simp: written_back_def content_def clean_ok_def stored_def)
qed

lemma give_static:
  "isSwap (vpages (give0 fo v s) w) = isSwap (vpages s w)" "filename (vpages (give0 fo v s) w) = filename (vpages s w)"
  "blocks (vpages (give0 fo v s) w) = blocks (vpages s w)" "backing (vpages (give0 fo v s) w) = backing (vpages s w)"
  "affiliated (vpages (give0 fo v s) w) = affiliated (vpages s w)"
  using static_give0 [of s fo v] by (simp_all add: static_def backing_def)

lemma give_contents:
  assumes c: "core ok s" and ro: "resident_ok ok s" and l: "content_laws fo ok ct" and m: "mem_ok ct s"
    and v: "live s v" "\<not> in_frame (vpages s v)" and w: "live s w"
  shows "w \<noteq> v \<Longrightarrow> content ct (give_eff fo v s) w = content ct s w" "w \<noteq> v \<Longrightarrow> clean_ok ct (give_eff fo v s) w"
    "ct (files (give_eff fo v s)) (backing (vpages s v)) (blocks (vpages s v) ! 0) = stored ct s v"
proof -
  let ?t = "give_eff fo v s" and ?e = "hd (clock_order s)"
  have nv: "v \<notin> set (clock_queue s)" using on_clock [OF c] v(2) by blast
  have f: "ct (files (give0 fo v s)) n b = (if next_free_PPN s = [] \<and> n = backing (vpages s ?e) \<and> b = blocks (vpages s ?e) ! 0
      then content ct s ?e else ct (files s) n b)" for n b
    using written_contents [OF c ro l m] victim(3,4) [OF c] by (simp add: give0_fields)
  have other: "ct (files ?t) (backing (vpages s x)) (blocks (vpages s x) ! 0) = stored ct s x" if "live s x" "next_free_PPN s = [] \<Longrightarrow> x \<noteq> ?e" for x
  proof -
    have "\<not> (backing (vpages s x) = backing (vpages s ?e) \<and> blocks (vpages s x) ! 0 = blocks (vpages s ?e) ! 0)" if n: "next_free_PPN s = []"
      using keys_distinct [OF c victim(3) [OF c n] \<open>live s x\<close>] \<open>next_free_PPN s = [] \<Longrightarrow> x \<noteq> ?e\<close> n
        resident_readable [OF c ro victim(3,4) [OF c n]] by metis
    then show ?thesis by (auto simp: f stored_def)
  qed
  have "v \<noteq> ?e" if "next_free_PPN s = []" using victim(4) [OF c that] v(2) by metis
  with other v(1) show "ct (files ?t) (backing (vpages s v)) (blocks (vpages s v) ! 0) = stored ct s v" by blast
  assume wv: "w \<noteq> v"
  note g = give0_vpages(2) [OF c nv wv, of fo]
  have "content ct ?t w = content ct s w \<and> clean_ok ct ?t w"
  proof (cases "next_free_PPN s = [] \<and> w = ?e")
    case True
    then have "content ct ?t w = stored ct ?t w" "clean_ok ct ?t w" using g by (simp_all add: content_def clean_ok_def)
    moreover have "stored ct ?t w = content ct s w" using True f by (simp add: stored_def give_static)
    ultimately show ?thesis by simp
  next
    case False
    have "clean_ok ct s w" using m w by (simp add: mem_ok_def)
    moreover have "stored ct ?t w = stored ct s w" using other [OF w] False by (auto simp: stored_def give_static)
    ultimately show ?thesis using False g by (auto simp: content_def clean_ok_def unclock_def split: option.splits if_splits)
  qed
  then show "content ct ?t w = content ct s w" "clean_ok ct ?t w" by blast+
qed

section \<open>Loading\<close>

lemma new_frame_free:
  assumes c: "core ok s" and v: "live s v" "\<not> in_frame (vpages s v)" and w: "live s w" "w \<noteq> v" "physicalPage (vpages (give0 fo v s) w) = Some pp"
  shows "PPN pp \<noteq> new_frame s"
proof (cases "PPN pp = 0")
  case False
  have nv: "v \<notin> set (clock_queue s)" using on_clock [OF c] v(2) by blast
  have l: "live (give0 fo v s) = live s" by (rule static_facts(2) [OF static_give0])
  have "in_frame (vpages (give0 fo v s) v)" "frame (give0 fo v s) v = new_frame s"
    using give0_vpages(1) [OF c nv, of fo] new_frame_nonzero [OF c] by (simp_all add: in_frame_def frame_def)
  moreover have "in_frame (vpages (give0 fo v s) w)" "frame (give0 fo v s) w = PPN pp" using w(3) False by (simp_all add: in_frame_def frame_def)
  ultimately show ?thesis using frames_distinct [OF core_give0 [OF c v, of fo], of v w] v(1) w(1,2) unfolding l by metis
qed (use new_frame_nonzero [OF c] in simp)

lemma load_files: "content_laws fo ok ct \<Longrightarrow> ct (files (load_eff fo v s)) = ct (files (give_eff fo v s))"
  by (auto simp: load_eff_def Let_def dest: read_contents split: prod.splits)

lemma load_memory:
  "q \<noteq> new_frame s \<Longrightarrow> vm_physmem (load_eff fo v s) q = vm_physmem s q"
  by (simp add: load_eff_def Let_def split: prod.splits)

lemma load_new_frame:
  assumes "content_laws fo ok ct" "file_laws fo ok" "readable ok (vpages s v)"
  shows "vm_physmem (load_eff fo v s) (new_frame s)
    = (if resident (vpages s v) then zero_page else ct (files (give_eff fo v s)) (backing (vpages s v)) (blocks (vpages s v) ! 0))"
proof -
  let ?r = "file_read fo (files (give_eff fo v s)) (backing (vpages s v)) (blocks (vpages s v) ! 0) (vm_physmem s (new_frame s))"
  have "fst ?r" using file_read_ok [OF assms(2)] assms(3) by simp
  then show ?thesis using read_contents [OF assms(1), of "files (give_eff fo v s)"] by (cases ?r) (auto simp: load_eff_def Let_def)
qed

lemma load_contents:
  assumes c: "core ok s" and ro: "resident_ok ok s" and l: "content_laws fo ok ct" and m: "mem_ok ct s"
    and v: "live s v" "\<not> in_frame (vpages s v)" and w: "live s w"
  shows "w \<noteq> v \<Longrightarrow> content ct (load_eff fo v s) w = content ct s w \<and> clean_ok ct (load_eff fo v s) w"
    "file_laws fo ok \<Longrightarrow> readable ok (vpages s v) \<Longrightarrow> content ct (load_eff fo v s) v = content ct s v"
    "file_laws fo ok \<Longrightarrow> readable ok (vpages s v) \<Longrightarrow> \<not> resident (vpages s v) \<Longrightarrow> clean_ok ct (load_eff fo v s) v"
    "vm_physmem (load_eff fo v s) 0 = zero_page"
proof -
  let ?g = "give_eff fo v s" and ?t = "load_eff fo v s"
  have nv: "v \<notin> set (clock_queue s)" using on_clock [OF c] v(2) by blast
  note gv = give0_vpages(1) [OF c nv, of fo]
  have z: "vm_physmem s 0 = zero_page" using m by (simp add: mem_ok_def)
  show "vm_physmem ?t 0 = zero_page" using load_memory [of 0 s fo v] new_frame_nonzero [OF c] z by simp
  have st: "stored ct ?t x = stored ct ?g x" for x by (simp add: stored_def load_files [OF l])
  show "content ct ?t w = content ct s w \<and> clean_ok ct ?t w" if "w \<noteq> v"
  proof -
    have "vm_physmem ?t (PPN pp) = vm_physmem ?g (PPN pp)" if "physicalPage (vpages (give0 fo v s) w) = Some pp" for pp
      using load_memory new_frame_free [OF c v w \<open>w \<noteq> v\<close> that] by simp
    then have "content ct ?t w = content ct ?g w" "clean_ok ct ?t w = clean_ok ct ?g w" by (auto simp: content_def clean_ok_def st split: option.splits)
    with give_contents [OF c ro l m v w] that show ?thesis by simp
  qed
  assume fl: "file_laws fo ok" and r: "readable ok (vpages s v)"
  note nf = load_new_frame [OF l fl r]
  note key = give_contents(3) [OF c ro l m v w]
  have old: "content ct s v = (if resident (vpages s v) then zero_page else stored ct s v)"
    using page_okD(6) [OF c v(1)] v(2) z by (auto simp: content_def in_frame_def split: option.splits)
  show "content ct ?t v = content ct s v" using nf key old by (simp add: content_def gv)
  show "clean_ok ct ?t v" if "\<not> resident (vpages s v)" using nf key that st [of v] by (simp add: clean_ok_def gv stored_def)
qed

section \<open>The memory that processes see\<close>

text \<open>A page of an address space has bytes of its own or shows a block of a file.\<close>

datatype cell = Private page | Shared string nat

record ideal =
  spaces :: "nat \<Rightarrow> nat \<Rightarrow> cell option"
  shared :: "string \<Rightarrow> nat \<Rightarrow> page"
  runner :: nat

definition cell_of :: "'f contents \<Rightarrow> 'f pager \<Rightarrow> nat \<Rightarrow> cell" where
  "cell_of ct s v = (if isSwap (vpages s v) then Private (content ct s v) else Shared (filename (vpages s v)) (blocks (vpages s v) ! 0))"

text \<open>A block of a file is what its page holds, as long as there is one.\<close>

definition file_view :: "'f contents \<Rightarrow> 'f pager \<Rightarrow> string \<Rightarrow> nat \<Rightarrow> page" where
  "file_view ct s name b = (case map_of (filename_block_to_vpage s) (name, b) of
     Some v \<Rightarrow> content ct s v | None \<Rightarrow> ct (files s) (Some name) b)"

definition view :: "'f contents \<Rightarrow> 'f pager \<Rightarrow> ideal" where
  "view ct s = \<lparr>spaces = (\<lambda>pid va. map_option (cell_of ct s) (lookup_va s pid va)), shared = file_view ct s, runner = current_pid s\<rparr>"

definition file_step :: "'f contents \<Rightarrow> 'f pager \<Rightarrow> 'f pager \<Rightarrow> bool" where
  "file_step ct s t \<longleftrightarrow>
     (\<forall>name b. map_of (filename_block_to_vpage s) (name, b) = None \<longrightarrow> ct (files t) (Some name) b = ct (files s) (Some name) b)
     \<and> (\<forall>k v. map_of (filename_block_to_vpage s) k = Some v \<longrightarrow> map_of (filename_block_to_vpage t) k \<noteq> Some v
          \<longrightarrow> map_of (filename_block_to_vpage t) k = None \<and> physicalPage (vpages t v) = None)
     \<and> (\<forall>k. map_of (filename_block_to_vpage s) k = None \<longrightarrow> map_of (filename_block_to_vpage t) k = None)"

definition same_pages :: "'f pager \<Rightarrow> 'f pager \<Rightarrow> bool" where
  "same_pages s t \<longleftrightarrow> (\<forall>w. live s w \<longrightarrow> isSwap (vpages t w) = isSwap (vpages s w) \<and> filename (vpages t w) = filename (vpages s w)
     \<and> blocks (vpages t w) ! 0 = blocks (vpages s w) ! 0)"

lemma file_view_same:
  assumes c: "core ok s" and st: "file_step ct s t" and p: "same_pages s t"
    and ct: "\<And>w. live s w \<Longrightarrow> \<not> isSwap (vpages s w) \<Longrightarrow> content ct t w = content ct s w"
  shows "file_view ct t = file_view ct s"
proof (rule ext, rule ext)
  fix name b
  show "file_view ct t name b = file_view ct s name b"
  proof (cases "map_of (filename_block_to_vpage s) (name, b)")
    case None
    then show ?thesis using st by (simp add: file_view_def file_step_def)
  next
    case (Some v)
    have lv: "live s v" using core_facts(7) [OF c] Some by (auto simp: registered_def)
    from files_okD(1) [OF core_facts(6) [OF c] Some] p lv
    have k: "backing (vpages t v) = Some name" "blocks (vpages t v) ! 0 = b" and ns: "\<not> isSwap (vpages s v)"
      by (simp_all add: same_pages_def backing_def)
    show ?thesis
    proof (cases "map_of (filename_block_to_vpage t) (name, b) = Some v")
      case True
      then show ?thesis using Some ct [OF lv ns] by (simp add: file_view_def)
    next
      case False
      with st Some have "map_of (filename_block_to_vpage t) (name, b) = None" "physicalPage (vpages t v) = None" unfolding file_step_def by blast+
      then show ?thesis using Some ct [OF lv ns] k by (simp add: file_view_def content_def stored_def)
    qed
  qed
qed

lemma view_same:
  assumes c: "core ok s" and st: "file_step ct s t" "same_pages s t" and ct: "\<And>w. live s w \<Longrightarrow> content ct t w = content ct s w"
    and l: "lookup_va t = lookup_va s" "current_pid t = current_pid s"
  shows "view ct t = view ct s"
proof -
  have "cell_of ct t w = cell_of ct s w" if "live s w" for w using st(2) ct [OF that] that by (simp add: cell_of_def same_pages_def)
  then have "map_option (cell_of ct t) (lookup_va s pid va) = map_option (cell_of ct s) (lookup_va s pid va)" for pid va
    using core_facts(7) [OF c] by (cases "lookup_va s pid va") (auto simp: mapped_def)
  with file_view_same [OF c st ct] show ?thesis by (simp add: view_def l)
qed

section \<open>Faults do not change the view\<close>

lemma give_file_step:
  assumes c: "core ok s" and ro: "resident_ok ok s" and l: "content_laws fo ok ct" and m: "mem_ok ct s" and v: "live s v" "\<not> in_frame (vpages s v)"
  shows "file_step ct s (give_eff fo v s)"
proof -
  let ?t = "give_eff fo v s" and ?e = "hd (clock_order s)"
  let ?k = "(filename (vpages s ?e), blocks (vpages s ?e) ! 0)"
  have nv: "v \<notin> set (clock_queue s)" using on_clock [OF c] v(2) by blast
  have reg: "map_of (filename_block_to_vpage s) ?k = Some ?e" if "next_free_PPN s = []" "\<not> isSwap (vpages s ?e)"
    using files_okD(2) [OF core_facts(6) [OF c] victim(3) [OF c that(1)] that(2)] resident_readable [OF c ro victim(3,4) [OF c that(1)]] that(2)
    by (simp add: readable_def)
  have "ct (files ?t) (Some name) b = ct (files s) (Some name) b" if "map_of (filename_block_to_vpage s) (name, b) = None" for name b
    using written_contents [OF c ro l m victim(3,4) [OF c]] reg that by (auto simp: give0_fields backing_def)
  moreover have fb: "map_of (filename_block_to_vpage ?t) = (if forgets s then (map_of (filename_block_to_vpage s))(?k := None) else map_of (filename_block_to_vpage s))"
    using static_give0 [of s fo v] by (simp add: give_eff_split static_def unregister_def delete_conv' Let_def)
  moreover have "physicalPage (vpages ?t ?e) = None" if "forgets s"
  proof -
    have n: "next_free_PPN s = []" using that by (simp add: forgets_def)
    then have "?e \<noteq> v" using victim(2) [OF c] nv by metis
    with n show ?thesis by (simp add: give0_vpages(2) [OF c nv])
  qed
  ultimately show ?thesis using reg by (auto simp: file_step_def forgets_def Let_def)
qed

lemma give_same_pages: "same_pages s (give_eff fo v s)"
  by (simp add: same_pages_def give_static)

lemma load_reg: "filename_block_to_vpage (load_eff fo v s) = filename_block_to_vpage (give_eff fo v s)"
  by (simp add: load_eff_def Let_def split: prod.splits)

lemma load_view:
  assumes c: "core ok s" and ro: "resident_ok ok s" and l: "content_laws fo ok ct" "file_laws fo ok" and m: "mem_ok ct s"
    and v: "live s v" "\<not> in_frame (vpages s v)" "readable ok (vpages s v)"
  shows "view ct (load_eff fo v s) = view ct s"
proof (rule view_same [OF c])
  show "file_step ct s (load_eff fo v s)"
    using give_file_step [OF c ro l(1) m v(1,2)] by (simp add: file_step_def load_reg load_files [OF l(1)])
  show "same_pages s (load_eff fo v s)" by (simp add: same_pages_def give_static)
  show "content ct (load_eff fo v s) w = content ct s w" if "live s w" for w
    using load_contents(1,2) [OF c ro l(1) m v(1,2) that] l(2) v(3) by (cases "w = v") auto
qed simp_all

lemma mark_content [simp]:
  "content ct (upd_vpage v (mark w) s) x = content ct s x" "file_view ct (upd_vpage v (mark w) s) = file_view ct s"
  "view ct (upd_vpage v (mark w) s) = view ct s"
proof -
  have vp: "isSwap (vpages (upd_vpage v (mark w) s) x) = isSwap (vpages s x)" "filename (vpages (upd_vpage v (mark w) s) x) = filename (vpages s x)"
    "blocks (vpages (upd_vpage v (mark w) s) x) = blocks (vpages s x)" for x by (simp_all add: upd_vpage_def mark_def)
  have fl: "files (upd_vpage v (mark w) s) = files s" "filename_block_to_vpage (upd_vpage v (mark w) s) = filename_block_to_vpage s"
    "current_pid (upd_vpage v (mark w) s) = current_pid s" by (simp_all add: upd_vpage_def)
  show ct: "content ct (upd_vpage v (mark w) s) x = content ct s x" for x
    by (auto simp: content_def stored_def backing_def upd_vpage_def mark_def split: option.splits)
  show f: "file_view ct (upd_vpage v (mark w) s) = file_view ct s"
    by (rule ext, rule ext) (simp add: file_view_def fl ct split: option.splits)
  have "cell_of ct (upd_vpage v (mark w) s) = cell_of ct s" by (simp add: fun_eq_iff cell_of_def vp ct)
  then show "view ct (upd_vpage v (mark w) s) = view ct s" by (simp add: view_def f fl)
qed

lemma mark_clean: "w \<or> clean_ok ct s v \<Longrightarrow> clean_ok ct (upd_vpage v (mark w) s) v" "x \<noteq> v \<Longrightarrow> clean_ok ct (upd_vpage v (mark w) s) x = clean_ok ct s x"
  by (auto simp: clean_ok_def stored_def backing_def upd_vpage_def mark_def)

lemma fail_view:
  assumes c: "core ok s" and ro: "resident_ok ok s" and l: "content_laws fo ok ct" and m: "mem_ok ct s"
    and v: "live s v" "\<not> readable ok (vpages s v)"
  shows "view ct (fail_eff fo v s) = view ct s \<and> mem_ok ct (fail_eff fo v s)"
proof -
  let ?l = "load_eff fo v s" and ?t = "fail_eff fo v s"
  have nf: "\<not> in_frame (vpages s v)" using resident_readable [OF c ro v(1)] v(2) by blast
  note vp = fail_eff_fields(1) [of fo v s] return_eff_vpages [where v = v and s = ?l]
  have nr: "physicalPage (vpages s x) = None" if "live s x" "\<not> readable ok (vpages s x)" for x
    using ro that page_okD(6) [OF c that(1)] unfolding resident_ok_def readable_def by blast
  have nv: "v \<notin> set (clock_queue s)" using on_clock [OF c] nf by blast
  have mem: "vm_physmem ?t = vm_physmem ?l" "files ?t = files ?l" "filename_block_to_vpage ?t =
      (if length (affiliated (vpages s v)) = 1 then AList.delete (filename (vpages s v), blocks (vpages s v) ! 0) else (\<lambda>x. x)) (filename_block_to_vpage ?l)"
    by (simp_all add: fail_eff_def Let_def return_eff_def unregister_def upd_vpage_def)
  have cf: "ct (files ?t) = ct (files (give_eff fo v s))" by (simp add: mem load_files [OF l])
  have pages: "isSwap (vpages ?t x) = isSwap (vpages s x)" "filename (vpages ?t x) = filename (vpages s x)" "blocks (vpages ?t x) = blocks (vpages s x)" for x
    by (cases "x = v"; simp add: vp give_static)+
  have other: "content ct ?t x = content ct s x \<and> clean_ok ct ?t x" if "live s x" "x \<noteq> v" for x
  proof -
    have "content ct ?t x = content ct ?l x" "clean_ok ct ?t x = clean_ok ct ?l x"
      using that(2) by (simp_all add: content_def clean_ok_def stored_def mem vp split: option.splits)
    with load_contents(1) [OF c ro l m v(1) nf that] show ?thesis by simp
  qed
  have self: "content ct ?t v = content ct s v \<and> clean_ok ct ?t v"
    using give_contents(3) [OF c ro l m v(1) nf v(1)] nr [OF v]
    by (simp add: content_def clean_ok_def vp stored_def cf give_static)
  have gone: "physicalPage (vpages ?t x) = None" if "live s x" "\<not> readable ok (vpages s x)" for x
  proof (cases "x = v")
    case False
    then show ?thesis using nr [OF that] by (simp add: vp give0_vpages(2) [OF c nv] unclock_def)
  qed (simp add: vp)
  have step: "file_step ct s ?t"
  proof -
    let ?k = "(filename (vpages s v), blocks (vpages s v) ! 0)"
    note g = give_file_step [OF c ro l m v(1) nf]
    have d: "map_of (filename_block_to_vpage ?t) k = map_of (filename_block_to_vpage (give_eff fo v s)) k \<or> k = ?k \<and> map_of (filename_block_to_vpage ?t) k = None" for k
      by (simp add: mem load_reg delete_conv')
    have lost: "physicalPage (vpages ?t x) = None" if r: "map_of (filename_block_to_vpage s) k = Some x" "map_of (filename_block_to_vpage ?t) k \<noteq> Some x" for k x
    proof -
      have lx: "live s x" unfolding core_facts(7) [OF c] registered_def using r(1) by blast
      show ?thesis
      proof (cases "k = ?k")
        case True
        with files_okD(1) [OF core_facts(6) [OF c] r(1)] v(2) have "\<not> readable ok (vpages s x)" by (simp add: readable_def)
        with gone lx show ?thesis by blast
      next
        case False
        with d r g have n: "physicalPage (vpages (give_eff fo v s) x) = None" unfolding file_step_def by metis
        then show ?thesis by (cases "x = v") (simp_all add: vp)
      qed
    qed
    show ?thesis using g d lost unfolding file_step_def cf by (metis (no_types, lifting))
  qed
  have "view ct ?t = view ct s"
  proof (rule view_same [OF c step])
    show "content ct ?t w = content ct s w" if "live s w" for w using other self that by blast
  qed (simp_all add: same_pages_def pages fail_eff_fields(2,4) lookup_va_def mappings_def fun_eq_iff)
  moreover have "mem_ok ct ?t"
    using load_contents(4) [OF c ro l m v(1) nf v(1)] other self fail_eff_fields(6) unfolding mem_ok_def mem by metis
  ultimately show ?thesis by blast
qed

lemma fault_view:
  assumes inv: "pager_inv ok s" and l: "content_laws fo ok ct" "file_laws fo ok" and m: "mem_ok ct s" and v: "mapped s v"
    and w: "write \<or> \<not> is_null (vpages s v)"
  shows "view ct (snd (fault_eff fo ok v write s)) = view ct s \<and> mem_ok ct (snd (fault_eff fo ok v write s))"
proof -
  have c: "core ok s" and ro: "resident_ok ok s" using inv by (simp_all add: pager_inv_iff)
  have lv: "live s v" using core_facts(7) [OF c] v by blast
  consider (here) "in_frame (vpages s v)" | (load) "\<not> in_frame (vpages s v)" "readable ok (vpages s v)" | (fail) "\<not> in_frame (vpages s v)" "\<not> readable ok (vpages s v)"
    by blast
  then show ?thesis
  proof cases
    case here
    have "clean_ok ct (upd_vpage v (mark write) s) x" if "live s x" for x
      using m that mark_clean [where v = v and s = s and ct = ct] by (cases "x = v") (auto simp: mem_ok_def)
    then show ?thesis using here m by (simp add: fault_eff_def mem_ok_def) (simp add: upd_vpage_def)
  next
    case load
    let ?l = "load_eff fo v s"
    have "write \<or> clean_ok ct ?l v"
      using load_contents(3) [OF c ro l(1) m lv load(1) lv l(2) load(2)] w page_okD(6) [OF c lv] load(1)
      by (auto simp: is_null_def in_frame_def split: option.splits)
    then have "clean_ok ct (upd_vpage v (mark write) ?l) x" if "live s x" for x
      using mark_clean [where v = v and s = ?l and ct = ct] load_contents(1) [OF c ro l(1) m lv load(1) that] by (cases "x = v") auto
    then have "mem_ok ct (upd_vpage v (mark write) ?l)"
      using load_contents(4) [OF c ro l(1) m lv load(1) lv] give_eff_live [of fo v s] by (simp add: mem_ok_def) (simp add: upd_vpage_def)
    then show ?thesis using load load_view [OF c ro l m lv load] by (simp add: fault_eff_def)
  next
    case fail
    then show ?thesis using fail_view [OF c ro l(1) m lv fail(2)] by (simp add: fault_eff_def)
  qed
qed

section \<open>Fields that do not matter\<close>

lemma mem_upd [simp]:
  "content ct (s\<lparr>process_table := pt\<rparr>) = content ct s" "content ct (s\<lparr>next_free_VA := na\<rparr>) = content ct s"
  "content ct (s\<lparr>current_pid := cp\<rparr>) = content ct s" "content ct (s\<lparr>page_table_base_register := pb\<rparr>) = content ct s"
  "content ct (s\<lparr>translateVA := tr\<rparr>) = content ct s" "content ct (s\<lparr>next_free_swap := sw\<rparr>) = content ct s"
  "clean_ok ct (s\<lparr>process_table := pt\<rparr>) = clean_ok ct s" "clean_ok ct (s\<lparr>next_free_VA := na\<rparr>) = clean_ok ct s"
  "clean_ok ct (s\<lparr>current_pid := cp\<rparr>) = clean_ok ct s" "clean_ok ct (s\<lparr>page_table_base_register := pb\<rparr>) = clean_ok ct s"
  "clean_ok ct (s\<lparr>translateVA := tr\<rparr>) = clean_ok ct s" "clean_ok ct (s\<lparr>next_free_swap := sw\<rparr>) = clean_ok ct s"
  by (simp_all add: fun_eq_iff content_def clean_ok_def stored_def split: option.splits)

lemma view_upd [simp]:
  "view ct (s\<lparr>process_table := pt\<rparr>) = view ct s" "view ct (s\<lparr>next_free_VA := na\<rparr>) = view ct s"
  "view ct (s\<lparr>current_pid := cp\<rparr>) = (view ct s)\<lparr>runner := cp\<rparr>" "view ct (s\<lparr>page_table_base_register := pb\<rparr>) = view ct s"
  "mem_ok ct (s\<lparr>process_table := pt\<rparr>) = mem_ok ct s" "mem_ok ct (s\<lparr>next_free_VA := na\<rparr>) = mem_ok ct s"
  "mem_ok ct (s\<lparr>current_pid := cp\<rparr>) = mem_ok ct s" "mem_ok ct (s\<lparr>page_table_base_register := pb\<rparr>) = mem_ok ct s"
proof -
  have cl: "cell_of ct (s\<lparr>process_table := pt\<rparr>) = cell_of ct s" "cell_of ct (s\<lparr>next_free_VA := na\<rparr>) = cell_of ct s"
    "cell_of ct (s\<lparr>current_pid := cp\<rparr>) = cell_of ct s" "cell_of ct (s\<lparr>page_table_base_register := pb\<rparr>) = cell_of ct s"
    by (simp_all add: fun_eq_iff cell_of_def)
  have fv: "file_view ct (s\<lparr>process_table := pt\<rparr>) = file_view ct s" "file_view ct (s\<lparr>next_free_VA := na\<rparr>) = file_view ct s"
    "file_view ct (s\<lparr>current_pid := cp\<rparr>) = file_view ct s" "file_view ct (s\<lparr>page_table_base_register := pb\<rparr>) = file_view ct s"
    by (rule ext, rule ext, simp add: file_view_def split: option.splits)+
  show "view ct (s\<lparr>process_table := pt\<rparr>) = view ct s" "view ct (s\<lparr>next_free_VA := na\<rparr>) = view ct s"
    "view ct (s\<lparr>current_pid := cp\<rparr>) = (view ct s)\<lparr>runner := cp\<rparr>" "view ct (s\<lparr>page_table_base_register := pb\<rparr>) = view ct s"
    by (simp_all add: view_def cl fv)
qed (simp_all add: mem_ok_def)

lemma view_tables: "same_but_tables s t \<Longrightarrow> view ct t = view ct s \<and> mem_ok ct t = mem_ok ct s"
  by (auto simp: same_but_tables_def)

lemma view_touch:
  assumes c: "core ok s"
  shows "view ct (touch_va pid s) = view ct s" "mem_ok ct (touch_va pid s) = mem_ok ct s"
proof -
  have e: "content ct (touch_va pid s) = content ct s" "clean_ok ct (touch_va pid s) = clean_ok ct s" by (simp_all add: touch_va_def)
  show "mem_ok ct (touch_va pid s) = mem_ok ct s" by (simp add: mem_ok_def e core_touch_va(2) [OF c])
  show "view ct (touch_va pid s) = view ct s"
    by (rule view_same [OF c]) (simp_all add: file_step_def same_pages_def e fun_eq_iff)
qed
end
