(* ===== verification/Pager_Ideal.thy ===== *)
theory Pager_Ideal
  imports Pager_Memory
begin

text \<open>
  The pager against an ideal memory. Faults change nothing that a process can see; mapping, process
  creation and exit do to the address spaces what the specification of the ideal memory says.
\<close>

section \<open>Read faults\<close>

lemma null_first_pte:
  assumes inv: "pager_inv ok s" and v: "mapped s v" and n: "is_null (vpages s v)" and e: "first_pte s v = Some e"
  shows "read_enable e"
proof -
  have c: "core ok s" and sh: "shows_all s {v. live s v}" using inv by (simp_all add: pager_inv_iff)
  have lv: "live s v" using core_facts(7) [OF c] v by blast
  have aff: "affiliated (vpages s v) \<noteq> []" using affiliated_mapped [OF c lv] v by blast
  then have "pte_shows s v (affiliated (vpages s v) ! 0)" using sh lv by (auto simp: shows_all_def)
  moreover have "get_pte s (affiliated (vpages s v) ! 0) = Some e" using e aff by (simp add: first_pte_def at_def)
  moreover obtain pp where "physicalPage (vpages s v) = Some pp" "PPN pp = 0" "resident (vpages s v)" using n by (auto simp: is_null_def split: option.splits)
  moreover from this have "isSwap (vpages s v)" "clocked pp" using page_okD(7) [OF c lv] by blast+
  ultimately show ?thesis using page_okD(4) [OF c lv] aff by (auto simp: pte_shows_def pte_bits_def cassert_def)
qed

text \<open>Reading through the pager: the state may change, what processes see does not.\<close>

definition quiet :: "(string \<Rightarrow> nat \<Rightarrow> bool) \<Rightarrow> 'f contents \<Rightarrow> 'f pager \<Rightarrow> 'f pager \<Rightarrow> bool" where
  "quiet ok ct s t \<longleftrightarrow> pager_inv ok t \<and> kept s t \<and> mem_ok ct t \<and> view ct t = view ct s"

lemma quiet_trans: "quiet ok ct s t \<Longrightarrow> quiet ok ct t u \<Longrightarrow> quiet ok ct s u"
  unfolding quiet_def using kept_trans by metis

lemma quiet_touch: "pager_inv ok s \<Longrightarrow> alive s \<Longrightarrow> mem_ok ct s \<Longrightarrow> quiet ok ct s (touch_va (current_pid s) s)"
  using view_touch [of ok s ct "current_pid s"] by (simp add: quiet_def inv_touch) (simp add: pager_inv_iff)

lemma fault_page_in_quiet:
  assumes inv: "pager_inv ok s" and l: "content_laws fo ok ct" "file_laws fo ok" and m: "mem_ok ct s" and v: "mapped s v"
    and w: "write \<and> length (blocks (vpages s v)) \<le> 1 \<longrightarrow> \<not> written (vpages s v)" "write \<or> \<not> is_null (vpages s v)"
    and t: "fault_page_in fo v write s = Some (r, t)"
  shows "quiet ok ct s t"
proof -
  from returnsD [OF fault_page_in_spec [OF inv v l(2) w(1)] t]
  have s: "same_but_tables (snd (fault_eff fo ok v write s)) t" "pager_inv ok t" by simp_all
  with fault_view [OF inv l m v w(2)] view_tables [OF s(1), of ct] kept_tables [OF kept_fault s(1)] show ?thesis by (simp add: quiet_def)
qed

lemma vm_fault_read_quiet:
  assumes inv: "pager_inv ok s" and a: "alive s" and l: "content_laws fo ok ct" "file_laws fo ok" and m: "mem_ok ct s"
    and v: "lookup_va s (current_pid s) (page_base addr) = Some v" "\<not> is_null (vpages s v)"
    and t: "vm_fault_read fo addr s = Some (r, t)"
  shows "quiet ok ct s t"
proof -
  let ?s = "touch_va (current_pid s) s"
  have q: "quiet ok ct s ?s" by (rule quiet_touch [OF inv a m])
  have "fault_page_in fo v False ?s = Some (r, t)" using t v(1) by (simp add: vm_fault_read_def Let_def)
  moreover have "mapped ?s v" using v(1) by (auto simp: mapped_def)
  ultimately have "quiet ok ct ?s t" using q v(2) by (intro fault_page_in_quiet [OF _ l]) (simp_all add: quiet_def)
  with q show ?thesis by (rule quiet_trans)
qed

section \<open>Copy on write\<close>

lemma split_contents:
  assumes c: "core ok s" and m: "mem_ok ct s" and v: "live s v" "1 < length (blocks (vpages s v))" and w: "live s w"
  shows "content ct (split_page va pid v s) w = content ct s w" "clean_ok ct (split_page va pid v s) w"
proof -
  have n: "w \<noteq> next_vpage s" using core_bounds [OF c w] by simp
  have vp: "vpages (split_page va pid v s) w = (if w = v then drop_page va pid (vpages s v) else vpages s w)" using n by (simp add: split_page_def)
  have b: "butlast bs ! 0 = bs ! 0" if "1 < length bs" for bs :: "nat list" using that by (simp add: nth_butlast)
  have st: "stored ct (split_page va pid v s) w = stored ct s w" using b [OF v(2)] by (simp add: stored_def vp split_fields drop_page_def)
  have pp: "physicalPage (vpages (split_page va pid v s) w) = physicalPage (vpages s w)" by (simp add: vp drop_page_def)
  show "content ct (split_page va pid v s) w = content ct s w" by (simp add: content_def pp st split_fields split: option.splits)
  have "clean_ok ct s w" using m w by (simp add: mem_ok_def)
  then show "clean_ok ct (split_page va pid v s) w" by (simp add: clean_ok_def pp st split_fields)
qed

lemma copy_view:
  assumes inv: "pager_inv ok s" and a: "alive s" and l: "content_laws fo ok ct" and m: "mem_ok ct s"
    and v: "lookup_va s (current_pid s) va = Some v" "isSwap (vpages s v)" "1 < length (blocks (vpages s v))" "in_frame (vpages s v)"
  shows "view ct (copy_eff fo va v s) = view ct s \<and> mem_ok ct (copy_eff fo va v s)"
proof -
  let ?p = "current_pid s" and ?n = "next_vpage s"
  let ?u = "split_page va ?p v s" and ?g = "copy_frame fo va v s" and ?t = "copy_eff fo va v s"
  have c: "core ok s" and ro: "resident_ok ok s" using inv by (simp_all add: pager_inv_iff)
  have lv: "live s v" using core_facts(7) [OF c] v(1) by (auto simp: mapped_def)
  note sp = core_split [OF c v(1-3)]
  note cf = copy_frame_facts [OF inv a v(1-3)]
  have un: "physicalPage (vpages ?u ?n) = None" "isSwap (vpages ?u ?n)" using cf(6) by (simp_all add: split_page_def new_virtual_page_def)
  note sc = split_contents [OF c m lv v(3), where va = va and pid = ?p]
  have mu: "mem_ok ct ?u" using m sp(2) sc(2) un(1) by (auto simp: mem_ok_def split_fields clean_ok_def [of _ _ ?n])
  have rou: "resident_ok ok ?u" unfolding resident_ok_def sp(2)
    using ro v(2) cf(6) unfolding resident_ok_def by (auto simp: split_page_def new_virtual_page_def drop_page_def)
  have ln: "live ?u ?n" "\<not> in_frame (vpages ?u ?n)" using sp(2) un(1) by (simp_all add: in_frame_def)
  have g: "?g = give_eff fo ?n ?u" by (rule copy_frame_def)
  have gc: "content ct ?g w = content ct s w \<and> clean_ok ct ?g w" if "live s w" for w
    using give_contents(1,2) [OF sp(1) rou l mu ln, of w] sp(2) that sc(1) [OF that] core_bounds [OF c that] by (auto simp: g)
  have fn: "physicalPage (vpages ?g ?n) = Some \<lparr>PPN = new_frame ?u, clocked = True, dirty = False\<rparr>" by (simp add: cf(10))
  have mem: "copy_mem fo va v s q = vm_physmem s q" if "q \<noteq> new_frame ?u" for q
    using that fn by (simp add: copy_mem_def Let_def frame_def)
  have nq: "?n \<notin> set (clock_queue ?u)" using cf(7) by (simp add: split_fields)
  have new: "copy_mem fo va v s (new_frame ?u) = content ct s v"
  proof (cases "resident (vpages ?g v)")
    case True
    have "vm_physmem ?g = vm_physmem s" by (simp add: g split_fields)
    moreover have "live ?g v" unfolding core_facts(7) [OF cf(1)] using cf(4) by blast
    then have "physicalPage (vpages ?g v) \<noteq> None" using True page_okD(6) [OF cf(1)] by blast
    ultimately have "content ct ?g v = vm_physmem s (frame ?g v)" by (auto simp: content_def frame_def)
    then show ?thesis using True fn gc [OF lv] by (simp add: copy_mem_def Let_def frame_def)
  next
    case False
    have uv: "in_frame (vpages ?u v)" "frame ?u v = frame s v" using v(4) cf(6) by (simp_all add: split_page_def drop_page_def in_frame_def frame_def)
    then have "resident (vpages ?u v)" using page_okD(6) [OF sp(1)] sp(2) lv by (auto simp: in_frame_def split: option.splits)
    with False have "next_free_PPN ?u = [] \<and> v = hd (clock_order ?u)"
      using give0_vpages(2) [OF sp(1) nq cf(6)] by (auto simp: g unclock_def split: if_splits)
    then have "new_frame ?u = frame s v" using uv(2) by (simp add: new_frame_def)
    then show ?thesis using False v(4) by (auto simp: copy_mem_def Let_def content_def frame_def in_frame_def split: option.splits)
  qed
  have vp: "vpages ?t w = (if w = ?n then mark True (vpages ?g ?n) else vpages ?g w)" for w by (simp add: copy_eff_def upd_vpage_def)
  have fl: "files ?t = files ?g" "vm_physmem ?t = copy_mem fo va v s" "filename_block_to_vpage ?t = filename_block_to_vpage ?g" "current_pid ?t = ?p"
    "lookup_va ?t = (lookup_va s)(?p := (lookup_va s ?p)(va \<mapsto> ?n))"
    by (simp_all add: copy_eff_def upd_vpage_def g split_fields)
  have tc: "content ct ?t w = content ct s w \<and> clean_ok ct ?t w" if "live s w" for w
  proof -
    have wn: "w \<noteq> ?n" using core_bounds [OF c that] by simp
    have "copy_mem fo va v s (PPN pp) = vm_physmem ?g (PPN pp)" if "physicalPage (vpages ?g w) = Some pp" for pp
      using new_frame_free [OF sp(1) ln _ wn, of fo pp] mem sp(2) \<open>live s w\<close> that by (simp add: g split_fields)
    then have "content ct ?t w = content ct ?g w" "clean_ok ct ?t w = clean_ok ct ?g w"
      using wn by (auto simp: content_def clean_ok_def stored_def vp fl split: option.splits)
    with gc [OF that] show ?thesis by simp
  qed
  have tn: "content ct ?t ?n = content ct s v" "clean_ok ct ?t ?n" "isSwap (vpages ?t ?n)"
    using new by (simp_all add: content_def clean_ok_def vp cf(10) mark_def fl)
  have sp': "same_pages ?u ?t" using cf(6) by (simp add: same_pages_def vp mark_def g give_static)
  have "file_step ct ?u ?t" using give_file_step [OF sp(1) rou l mu ln] unfolding file_step_def fl g [symmetric] by (auto simp: vp mark_def)
  then have "file_view ct ?t = file_view ct ?u"
    by (rule file_view_same [OF sp(1) _ sp']) (use sp(2) tc sc(1) un(2) in auto)
  moreover have su: "same_pages s ?u"
    using core_bounds [OF c] v(2,3) by (auto simp: same_pages_def split_page_def drop_page_def nth_butlast)
  then have "file_view ct ?u = file_view ct s"
    using sc(1) by (intro file_view_same [OF c]) (auto simp: file_step_def split_page_def)
  moreover have "map_option (cell_of ct ?t) (lookup_va ?t p x) = map_option (cell_of ct s) (lookup_va s p x)" for p x
  proof (cases "p = ?p \<and> x = va")
    case True
    then show ?thesis using v(1,2) tn(1,3) by (simp add: fl cell_of_def)
  next
    case False
    have "cell_of ct ?t w = cell_of ct s w" if "live s w" for w
      using tc [OF that] su sp' sp(2) that by (simp add: cell_of_def same_pages_def)
    then show ?thesis using False core_facts(7) [OF c] by (cases "lookup_va s p x") (auto simp: fl mapped_def)
  qed
  ultimately have "view ct ?t = view ct s" by (simp add: view_def fl(4) fun_eq_iff)
  moreover have "live s w \<or> w = ?n" if "live ?t w" for w using cf(9) that by (simp add: copy_eff_def)
  then have "mem_ok ct ?t"
    using m tn(2) tc mem [of 0] new_frame_nonzero [OF sp(1)] by (auto simp: mem_ok_def fl)
  ultimately show ?thesis by blast
qed

section \<open>Faults\<close>

lemma null_permits:
  assumes inv: "pager_inv ok s" and m: "lookup_va s (current_pid s) va = Some v" and n: "is_null (vpages s v)"
  shows "permits s va False"
proof -
  have c: "core ok s" using inv by (simp add: pager_inv_iff)
  have mv: "mapped s v" using m by (auto simp: mapped_def)
  have lv: "live s v" using core_facts(7) [OF c] mv by blast
  have "affiliated (vpages s v) \<noteq> []" using affiliated_mapped [OF c lv] mv by blast
  with n page_okD(4,7) [OF c lv] have "pte_bits (vpages s v) = Some (True, False)"
    by (auto simp: is_null_def pte_bits_def cassert_def split: option.splits)
  with permits_iff [OF inv m, of False] show ?thesis by simp
qed

lemma vm_fault_view:
  assumes inv: "pager_inv ok s" and a: "alive s" and l: "content_laws fo ok ct" "file_laws fo ok" and m: "mem_ok ct s"
    and np: "\<not> permits s (page_base addr) write" and t: "vm_fault fo addr write s = Some (r, t)"
  shows "view ct t = view ct s \<and> mem_ok ct t"
proof -
  let ?s = "touch_va (current_pid s) s" and ?va = "page_base addr"
  have q: "quiet ok ct s ?s" by (rule quiet_touch [OF inv a m])
  then have i: "pager_inv ok ?s" "alive ?s" "mem_ok ct ?s" "view ct ?s = view ct s" using a by (simp_all add: quiet_def alive_def)
  have c: "core ok ?s" using i(1) by (simp add: pager_inv_iff)
  show ?thesis
  proof (cases "lookup_va s (current_pid s) ?va")
    case None
    with t have "t = ?s" by (auto simp: vm_fault_def Let_def bind_eq_Some_conv)
    with i show ?thesis by simp
  next
    case (Some v)
    then have lk: "lookup_va ?s (current_pid ?s) ?va = Some v" by simp
    then have mv: "mapped ?s v" by (auto simp: mapped_def)
    have lv: "live ?s v" using core_facts(7) [OF c] mv by blast
    show ?thesis
    proof (cases "write \<and> 1 < length (blocks (vpages ?s v))")
      case False
      then have "fault_page_in fo v write ?s = Some (r, t)" using t Some by (auto simp: vm_fault_def Let_def)
      moreover have "write \<or> \<not> is_null (vpages ?s v)" using null_permits [OF i(1) lk] np by (cases "write") auto
      moreover have "write \<and> length (blocks (vpages ?s v)) \<le> 1 \<longrightarrow> \<not> written (vpages ?s v)" using unwritten [OF i(1) lk] np by auto
      ultimately have "quiet ok ct ?s t" by (intro fault_page_in_quiet [OF i(1) l i(3) mv])
      with i(4) show ?thesis by (simp add: quiet_def)
    next
      case True
      have sw: "isSwap (vpages ?s v)" using page_okD(5) [OF c lv] True by auto
      then have nn: "\<not> is_null (vpages ?s v)" using page_okD(4,7) [OF c lv] True by (auto simp: is_null_def split: option.splits)
      obtain e where e: "first_pte ?s v = Some e" "read_enable e \<Longrightarrow> resident (vpages ?s v) \<and> physicalPage (vpages ?s v) \<noteq> None"
        using first_pte_spec [OF i(1) mv] by metis
      obtain r' u where u: "(if \<not> read_enable e then vm_fault_read fo addr ?s else Some (0, ?s)) = Some (r', u)"
        "if r' = -1 then t = u else copy_on_write fo ?va v u = Some t"
        using t Some True e(1) by (auto simp: vm_fault_def Let_def bind_eq_Some_conv split: if_splits)
      have qu: "quiet ok ct ?s u \<and> (r' \<noteq> -1 \<longrightarrow> in_frame (vpages u v))"
      proof (cases "read_enable e")
        case True
        then have "in_frame (vpages ?s v)" using e(2) nn by (auto simp: is_null_def in_frame_def)
        with True u(1) i show ?thesis by (simp add: quiet_def)
      next
        case False
        then have f: "vm_fault_read fo addr ?s = Some (r', u)" using u(1) by simp
        from returnsD [OF vm_fault_read_spec [OF i(1,2) l(2) lk] f] vm_fault_read_quiet [OF i(1,2) l i(3) lk nn f] show ?thesis by auto
      qed
      show ?thesis
      proof (cases "r' = -1")
        case True
        with u(2) qu i(4) show ?thesis by (simp add: quiet_def)
      next
        case False
        then have cw: "copy_on_write fo ?va v u = Some t" "in_frame (vpages u v)" using u(2) qu by simp_all
        have k: "kept ?s u" "pager_inv ok u" "mem_ok ct u" "view ct u = view ct ?s" using qu by (simp_all add: quiet_def)
        have mu: "lookup_va u (current_pid u) ?va = Some v" "isSwap (vpages u v)" "1 < length (blocks (vpages u v))" "alive u"
          using k(1) Some sw True kept_alive [OF k(1)] i(2) by (simp_all add: kept_def)
        from returnsD [OF copy_on_write_spec [OF k(2) mu(4,1-3)] cw(1)] have "same_but_tables (copy_eff fo ?va v u) t" by simp
        with copy_view [OF k(2) mu(4) l(1) k(3) mu(1-3) cw(2)] view_tables [of _ t ct] k(4) i(4) show ?thesis by metis
      qed
    qed
  qed
qed

section \<open>Bytes\<close>

text \<open>The byte a process finds at an address, and the string that starts there.\<close>

definition ideal_byte :: "ideal \<Rightarrow> nat \<Rightarrow> nat \<Rightarrow> char option" where
  "ideal_byte a pid addr = (case spaces a pid (page_base addr) of
     None \<Rightarrow> None
   | Some (Private p) \<Rightarrow> Some (p (addr mod VM_PAGESIZE))
   | Some (Shared name b) \<Rightarrow> Some (shared a name b (addr mod VM_PAGESIZE)))"

primrec ideal_string :: "ideal \<Rightarrow> nat \<Rightarrow> nat \<Rightarrow> string \<Rightarrow> bool" where
  "ideal_string a pid addr [] \<longleftrightarrow> ideal_byte a pid addr = Some NUL"
| "ideal_string a pid addr (c # cs) \<longleftrightarrow> ideal_byte a pid addr = Some c \<and> c \<noteq> NUL \<and> ideal_string a pid (Suc addr) cs"

lemma file_page_view:
  assumes inv: "pager_inv ok s" and v: "live s v" "\<not> isSwap (vpages s v)"
  shows "file_view ct s (filename (vpages s v)) (blocks (vpages s v) ! 0) = content ct s v"
proof -
  have c: "core ok s" and ro: "resident_ok ok s" using inv by (simp_all add: pager_inv_iff)
  let ?n = "filename (vpages s v)" and ?b = "blocks (vpages s v) ! 0"
  have st: "content ct s w = ct (files s) (Some ?n) ?b" if "live s w" "\<not> isSwap (vpages s w)" "filename (vpages s w) = ?n" "blocks (vpages s w) ! 0 = ?b" "\<not> ok ?n ?b" for w
    using that ro page_okD(6) [OF c that(1)] unfolding resident_ok_def by (auto simp: content_def stored_def backing_def)
  show ?thesis
  proof (cases "ok ?n ?b")
    case True
    then show ?thesis using files_okD(2) [OF core_facts(6) [OF c] v] by (simp add: file_view_def)
  next
    case False
    show ?thesis
    proof (cases "map_of (filename_block_to_vpage s) (?n, ?b)")
      case None
      then show ?thesis using st [OF v _ _ False] by (simp add: file_view_def)
    next
      case (Some w)
      have "live s w" unfolding core_facts(7) [OF c] registered_def using Some by blast
      with files_okD(1) [OF core_facts(6) [OF c] Some] have "content ct s w = ct (files s) (Some ?n) ?b" by (intro st False) simp_all
      then show ?thesis using Some st [OF v _ _ False] by (simp add: file_view_def)
    qed
  qed
qed

lemma view_byte:
  assumes inv: "pager_inv ok s" and v: "lookup_va s pid (page_base addr) = Some v"
  shows "ideal_byte (view ct s) pid addr = Some (content ct s v (addr mod VM_PAGESIZE))"
proof -
  have c: "core ok s" using inv by (simp add: pager_inv_iff)
  have "live s v" unfolding core_facts(7) [OF c] mapped_def using v by blast
  with file_page_view [OF inv this, of ct] show ?thesis using v by (simp add: ideal_byte_def view_def cell_of_def)
qed

lemma view_byte_None: "lookup_va s pid (page_base addr) = None \<Longrightarrow> ideal_byte (view ct s) pid addr = None"
  by (simp add: ideal_byte_def view_def)

section \<open>The name of a file\<close>

definition window :: "'f contents \<Rightarrow> 'f pager \<Rightarrow> nat \<Rightarrow> nat \<Rightarrow> bool" where
  "window ct s va f \<longleftrightarrow> (\<exists>v. lookup_va s (current_pid s) (page_base va) = Some v \<and> content ct s v = vm_physmem s f)"

lemma frame_of_view:
  assumes inv: "pager_inv ok s" and a: "alive s" and l: "content_laws fo ok ct" "file_laws fo ok" and m: "mem_ok ct s"
    and t: "frame_of fo va s = Some (fr, t)"
  shows "quiet ok ct s t \<and> (\<forall>f. fr = Some f \<longrightarrow> window ct t va f)"
proof -
  let ?s = "touch_va (current_pid s) s"
  have q: "quiet ok ct s ?s" by (rule quiet_touch [OF inv a m])
  then have i: "pager_inv ok ?s" "alive ?s" "mem_ok ct ?s" using a by (simp_all add: quiet_def alive_def)
  show ?thesis
  proof (cases "lookup_va s (current_pid s) (page_base va)")
    case None
    with t q show ?thesis by (simp add: frame_of_def Let_def)
  next
    case (Some v)
    then have lk: "lookup_va ?s (current_pid ?s) (page_base va) = Some v" by simp
    then have mv: "mapped ?s v" by (auto simp: mapped_def)
    obtain e where e: "first_pte ?s v = Some e" using first_pte_spec [OF i(1) mv] by metis
    obtain r u where u: "(if \<not> read_enable e then vm_fault_read fo va ?s else Some (0, ?s)) = Some (r, u)"
      "(if r = -1 then Some (None, u) else do { v' \<leftarrow> lookup_va u (current_pid u) (page_base va); pp \<leftarrow> physicalPage (vpages u v'); Some (Some (PPN pp), u) }) = Some (fr, t)"
      using t Some e by (auto simp: frame_of_def Let_def bind_eq_Some_conv split: if_splits)
    have qu: "quiet ok ct ?s u"
    proof (cases "read_enable e")
      case True
      with u(1) i show ?thesis by (simp add: quiet_def)
    next
      case False
      then have nn: "\<not> is_null (vpages ?s v)" using null_first_pte [OF i(1) mv _ e] by blast
      with False u(1) show ?thesis using vm_fault_read_quiet [OF i(1,2) l i(3) lk] by simp
    qed
    have ut: "u = t" using u(2) by (auto simp: bind_eq_Some_conv split: if_splits)
    have "window ct t va f" if "fr = Some f" for f
      using u(2) that unfolding window_def ut by (auto simp: bind_eq_Some_conv content_def split: if_splits)
    with quiet_trans [OF q qu] ut show ?thesis by blast
  qed
qed

lemma page_base_Suc:
  assumes b: "blk0 mod VM_PAGESIZE = 0" and va: "blk0 \<le> va" "Suc va < blk0 + VM_PAGESIZE"
  shows "page_base (Suc va) = page_base va"
proof -
  have "page_base x = blk0" if x: "blk0 \<le> x" "x < blk0 + VM_PAGESIZE" for x
  proof -
    obtain d where d: "x = blk0 + d" "d < VM_PAGESIZE" using x le_Suc_ex by fastforce
    then have "x mod VM_PAGESIZE = d" using b mod_add_left_eq [of blk0 VM_PAGESIZE d] by simp
    then show ?thesis using d by (simp add: page_base_def)
  qed
  with va show ?thesis by simp
qed

lemma window_byte: "pager_inv ok s \<Longrightarrow> window ct s va f \<Longrightarrow> ideal_byte (view ct s) (current_pid s) va = Some (vm_physmem s f (va mod VM_PAGESIZE))"
  using view_byte [of ok s "current_pid s" va _ ct] by (auto simp: window_def)

lemma copy_filename_view:
  assumes "copy_filename fo blk0 va f run s = Some x" "pager_inv ok s" "alive s" "content_laws fo ok ct" "file_laws fo ok" "mem_ok ct s"
    "blk0 mod VM_PAGESIZE = 0" "blk0 \<le> va" "window ct s va f"
  shows "quiet ok ct s (snd x) \<and> (\<forall>name. fst x = Some name \<longrightarrow> (\<exists>cs. name = run @ cs \<and> ideal_string (view ct s) (current_pid s) va cs))"
  using assms
proof (induction rule: copy_filename.raw_induct [rotated, consumes 1])
  case (1 copy fo blk0 va f run s x)
  note IH = 1(1) and body = 1(2) and inv = 1(3) and a = 1(4) and l = 1(5,6) and m = 1(7) and b = 1(8,9) and w = 1(10)
  let ?c = "vm_physmem s f (va mod VM_PAGESIZE)" and ?p = "current_pid s"
  have byte: "ideal_byte (view ct s) ?p va = Some ?c" by (rule window_byte [OF inv w])
  have next_char: "quiet ok ct s (snd x) \<and> (\<forall>name. fst x = Some name \<longrightarrow> (\<exists>cs. name = run @ cs \<and> ideal_string (view ct s) ?p va cs))"
    if c: "?c \<noteq> NUL" and u: "quiet ok ct s u" "window ct u (Suc va) g" "copy fo blk0 (Suc va) g (run @ [?c]) u = Some x" for u g
  proof -
    have k: "pager_inv ok u" "alive u" "mem_ok ct u" "view ct u = view ct s" "current_pid u = ?p"
      using u(1) a kept_alive [of s u] by (auto simp: quiet_def kept_def)
    from IH [OF u(3) k(1,2) l k(3) b(1) _ u(2)] b(2) have q: "quiet ok ct u (snd x)"
      and n: "\<And>name. fst x = Some name \<Longrightarrow> \<exists>cs. name = (run @ [?c]) @ cs \<and> ideal_string (view ct s) ?p (Suc va) cs" unfolding k(4,5) by auto
    have "\<exists>cs. name = run @ cs \<and> ideal_string (view ct s) ?p va cs" if name: "fst x = Some name" for name
    proof -
      obtain cs where "name = (run @ [?c]) @ cs" "ideal_string (view ct s) ?p (Suc va) cs" using n [OF name] by blast
      then show ?thesis using byte c by (intro exI [of _ "?c # cs"]) simp
    qed
    with quiet_trans [OF u(1) q] show ?thesis by blast
  qed
  show ?case
  proof (cases "?c = NUL")
    case True
    then have "x = (Some run, s)" using body by (simp add: Let_def)
    then show ?thesis using inv m byte True by (auto simp: quiet_def intro!: exI [of _ "[]"])
  next
    case False
    show ?thesis
    proof (cases "blk0 + VM_PAGESIZE \<le> Suc va")
      case True
      then obtain g u where u: "frame_of fo (Suc va) s = Some (g, u)" "(case g of None \<Rightarrow> Some (None, u) | Some f' \<Rightarrow> copy fo blk0 (Suc va) f' (run @ [?c]) u) = Some x"
        using body False by (auto simp: Let_def bind_eq_Some_conv)
      from frame_of_view [OF inv a l m u(1)] have fv: "quiet ok ct s u" "\<And>f'. g = Some f' \<Longrightarrow> window ct u (Suc va) f'" by auto
      show ?thesis
      proof (cases g)
        case None
        with u(2) fv(1) show ?thesis by auto
      next
        case (Some f')
        with u(2) show ?thesis using next_char [OF False fv(1) fv(2) [OF Some]] by simp
      qed
    next
      case in_page: False
      have "page_base (Suc va) = page_base va" by (rule page_base_Suc [OF b]) (use in_page in simp)
      then have "window ct s (Suc va) f" using w by (simp add: window_def)
      moreover have "quiet ok ct s s" using inv m by (simp add: quiet_def)
      moreover have "copy fo blk0 (Suc va) f (run @ [?c]) s = Some x" using body False in_page by (simp add: Let_def)
      ultimately show ?thesis using next_char [OF False] by blast
    qed
  qed
qed

lemma translate_view:
  assumes inv: "pager_inv ok s" and a: "alive s" and l: "content_laws fo ok ct" "file_laws fo ok" and m: "mem_ok ct s"
    and t: "translate_from_other_addr_space fo va s = Some (nm, t)"
  shows "quiet ok ct s t \<and> (\<forall>name. nm = Some name \<longrightarrow> ideal_string (view ct s) (current_pid s) va name)"
proof -
  obtain g u where u: "frame_of fo va s = Some (g, u)" "(case g of None \<Rightarrow> Some (None, u) | Some f \<Rightarrow> copy_filename fo (page_base va) va f [] u) = Some (nm, t)"
    using t by (auto simp: translate_from_other_addr_space_def bind_eq_Some_conv)
  from frame_of_view [OF inv a l m u(1)] have q: "quiet ok ct s u" "\<And>f. g = Some f \<Longrightarrow> window ct u va f" by auto
  show ?thesis
  proof (cases g)
    case None
    with u(2) q(1) show ?thesis by simp
  next
    case (Some f)
    have k: "pager_inv ok u" "alive u" "mem_ok ct u" "view ct u = view ct s" "current_pid u = current_pid s"
      using q(1) a kept_alive [of s u] by (auto simp: quiet_def kept_def)
    have "page_base va mod VM_PAGESIZE = 0" "page_base va \<le> va" by (simp_all add: page_base_def minus_mod_eq_mult_div)
    with copy_filename_view [OF _ k(1,2) l k(3) _ _ q(2) [OF Some], of "page_base va" "[]"] u(2) Some
    have "quiet ok ct u t \<and> (\<forall>name. nm = Some name \<longrightarrow> ideal_string (view ct u) (current_pid u) va name)" by fastforce
    with quiet_trans [OF q(1)] k(4,5) show ?thesis by simp
  qed
qed

section \<open>New mappings\<close>

definition ideal_map :: "nat \<Rightarrow> nat \<Rightarrow> cell \<Rightarrow> ideal \<Rightarrow> ideal" where
  "ideal_map pid va x a = a\<lparr>spaces := (spaces a)(pid := (spaces a pid)(va \<mapsto> x))\<rparr>"

lemma view_mapped:
  assumes c: "core ok s" and sp: "same_pages s t" and ct: "\<And>w. live s w \<Longrightarrow> content ct t w = content ct s w" and fv: "file_view ct t = file_view ct s"
    and l: "lookup_va t = (lookup_va s)(pid := (lookup_va s pid)(va \<mapsto> v))" "current_pid t = current_pid s"
  shows "view ct t = ideal_map pid va (cell_of ct t v) (view ct s)"
proof -
  have "cell_of ct t w = cell_of ct s w" if "live s w" for w using sp ct [OF that] that by (simp add: cell_of_def same_pages_def)
  then have "map_option (cell_of ct t) (lookup_va s p x) = map_option (cell_of ct s) (lookup_va s p x)" for p x
    using core_facts(7) [OF c] by (cases "lookup_va s p x") (auto simp: mapped_def)
  then show ?thesis by (simp add: view_def ideal_map_def l fv fun_eq_iff)
qed

lemma live_mapped:
  assumes c: "core ok s" and wf: "wf_maps t" and l: "lookup_va t = (lookup_va s)(pid := (lookup_va s pid)(va \<mapsto> v))"
    and r: "registered t w \<Longrightarrow> registered s w \<or> w = v" and w: "live t w"
  shows "live s w \<or> w = v"
proof -
  have "mapped s w \<or> w = v" if "mapped t w" using that unfolding mapped_def l by (auto split: if_splits)
  with r w show ?thesis unfolding live_iff [OF wf] core_facts(7) [OF c] by blast
qed

lemma swap_view:
  assumes c: "core ok s" and m: "mem_ok ct s"
  shows "view ct (swap_eff va pid s) = ideal_map pid va (Private zero_page) (view ct s)"
    "live (swap_eff va pid s) w \<Longrightarrow> clean_ok ct (swap_eff va pid s) w" "vm_physmem (swap_eff va pid s) 0 = zero_page"
    "live s w \<Longrightarrow> content ct (swap_eff va pid s) w = content ct s w"
proof -
  let ?t = "swap_eff va pid s" and ?n = "next_vpage s"
  have f: "vm_physmem ?t = vm_physmem s" "files ?t = files s" "filename_block_to_vpage ?t = filename_block_to_vpage s" "current_pid ?t = current_pid s"
    "lookup_va ?t = (lookup_va s)(pid := (lookup_va s pid)(va \<mapsto> ?n))" "vpages ?t = (vpages s)(?n := null_page (hd (next_free_swap s)) va pid)"
    by (auto simp: swap_eff_def fun_eq_iff)
  have wn: "w \<noteq> ?n" if "live s w" for w using core_bounds [OF c that] by simp
  have z: "vm_physmem s 0 = zero_page" using m by (simp add: mem_ok_def)
  show ct: "content ct ?t w = content ct s w" if "live s w" for w
    using wn [OF that] by (simp add: content_def stored_def f split: option.splits)
  have sp: "same_pages s ?t" using wn by (auto simp: same_pages_def f)
  have fv: "file_view ct ?t = file_view ct s" by (rule file_view_same [OF c _ sp]) (simp_all add: file_step_def f ct)
  have "cell_of ct ?t ?n = Private zero_page" using z by (simp add: cell_of_def content_def f null_page_def new_virtual_page_def)
  with view_mapped [OF c sp ct fv f(5,4)] show "view ct ?t = ideal_map pid va (Private zero_page) (view ct s)" by simp
  have wf: "wf_maps ?t" using wf_maps_set_va(1) [OF core_facts(1) [OF c]] by (simp add: swap_eff_def)
  have lt: "live s w \<or> w = ?n" if "live ?t w" by (rule live_mapped [OF c wf f(5) _ that]) (simp add: registered_def f)
  show "clean_ok ct ?t w" if "live ?t w"
  proof (cases "w = ?n")
    case True
    then show ?thesis by (simp add: clean_ok_def f null_page_def new_virtual_page_def)
  next
    case False
    then have "clean_ok ct s w" using lt [OF that] m by (simp add: mem_ok_def)
    then show ?thesis using False by (simp add: clean_ok_def stored_def f)
  qed
  show "vm_physmem ?t 0 = zero_page" by (simp add: f z)
qed

lemma alias_view:
  assumes c: "core ok s" and m: "mem_ok ct s" and v: "live s v"
  shows "view ct (alias_eff va pid v s) = ideal_map pid va (cell_of ct s v) (view ct s)" "mem_ok ct (alias_eff va pid v s)"
    "live s w \<Longrightarrow> content ct (alias_eff va pid v s) w = content ct s w"
proof -
  let ?t = "alias_eff va pid v s"
  have f: "vm_physmem ?t = vm_physmem s" "files ?t = files s" "filename_block_to_vpage ?t = filename_block_to_vpage s" "current_pid ?t = current_pid s"
    "lookup_va ?t = (lookup_va s)(pid := (lookup_va s pid)(va \<mapsto> v))" "vpages ?t = (vpages s)(v := alias_page va pid (next_free_swap s) (vpages s v))"
    by (auto simp: alias_eff_def fun_eq_iff upd_vpage_def lookup_va_def mappings_def set_va_def update_conv')
  have b: "(blocks (vpages s v) @ xs) ! 0 = blocks (vpages s v) ! 0" for xs using page_okD(3) [OF c v] by (simp add: nth_append)
  have vp: "isSwap (vpages ?t w) = isSwap (vpages s w)" "filename (vpages ?t w) = filename (vpages s w)" "blocks (vpages ?t w) ! 0 = blocks (vpages s w) ! 0"
    "physicalPage (vpages ?t w) = physicalPage (vpages s w)" "backing (vpages ?t w) = backing (vpages s w)" for w
    by (cases "w = v"; simp add: f alias_page_def b)+
  have ct': "content ct ?t = content ct s" by (rule ext) (simp add: content_def stored_def vp f(1-5) split: option.splits)
  show "live s w \<Longrightarrow> content ct ?t w = content ct s w" by (simp add: ct')
  have sp: "same_pages s ?t" by (simp add: same_pages_def vp)
  have fv: "file_view ct ?t = file_view ct s" by (rule file_view_same [OF c _ sp]) (simp_all add: file_step_def f ct')
  have "cell_of ct ?t v = cell_of ct s v" by (simp add: cell_of_def vp ct')
  with view_mapped [OF c sp _ fv f(5,4)] ct' show "view ct ?t = ideal_map pid va (cell_of ct s v) (view ct s)" by simp
  have wf: "wf_maps ?t" using wf_maps_set_va(1) [OF core_facts(1) [OF c]] by (simp add: alias_eff_def)
  have "live s w" if "live ?t w" for w using live_mapped [OF c wf f(5) _ that] v by (auto simp: registered_def f)
  then show "mem_ok ct ?t" using m by (simp add: mem_ok_def clean_ok_def stored_def vp f(1-5))
qed

lemma file_eff_view:
  assumes c: "core ok s" and m: "mem_ok ct s" and n: "map_of (filename_block_to_vpage s) (name, b) = None"
  shows "view ct (file_eff va pid name b s) = ideal_map pid va (Shared name b) (view ct s)" "mem_ok ct (file_eff va pid name b s)"
proof -
  let ?t = "file_eff va pid name b s" and ?n = "next_vpage s"
  have f: "vm_physmem ?t = vm_physmem s" "files ?t = files s" "map_of (filename_block_to_vpage ?t) = (map_of (filename_block_to_vpage s))((name, b) \<mapsto> ?n)"
    "current_pid ?t = current_pid s" "lookup_va ?t = (lookup_va s)(pid := (lookup_va s pid)(va \<mapsto> ?n))" "vpages ?t = (vpages s)(?n := file_page name b va pid)"
    by (auto simp: file_eff_def fun_eq_iff update_conv')
  have wn: "w \<noteq> ?n" if "live s w" for w using core_bounds [OF c that] by simp
  have ct': "content ct ?t w = content ct s w" if "live s w" for w
    using wn [OF that] by (simp add: content_def stored_def f split: option.splits)
  have sp: "same_pages s ?t" using wn by (auto simp: same_pages_def f)
  have new: "content ct ?t ?n = ct (files s) (Some name) b" "cell_of ct ?t ?n = Shared name b"
    by (simp_all add: content_def stored_def cell_of_def f file_page_def new_virtual_page_def backing_def)
  have reg: "live s w" if "map_of (filename_block_to_vpage s) k = Some w" for k w unfolding core_facts(7) [OF c] registered_def using that by blast
  have "file_view ct ?t x y = file_view ct s x y" for x y
    using new(1) n ct' [OF reg] by (cases "map_of (filename_block_to_vpage s) (x, y)") (auto simp: file_view_def f)
  then have fv: "file_view ct ?t = file_view ct s" by blast
  from view_mapped [OF c sp ct' fv f(5,4)] new(2) show "view ct ?t = ideal_map pid va (Shared name b) (view ct s)" by simp
  have wf: "wf_maps ?t"
    using wf_maps_set_va(1) [OF core_facts(1) [OF c], of pid va ?n] core_facts(1) [OF c] by (simp add: file_eff_def wf_maps_def distinct_update)
  have lt: "live s w \<or> w = ?n" if "live ?t w" for w
    by (rule live_mapped [OF c wf f(5) _ that]) (auto simp: registered_def f split: if_splits)
  have "clean_ok ct ?t w" if "live ?t w" for w
  proof (cases "w = ?n")
    case True
    then show ?thesis by (simp add: clean_ok_def f file_page_def new_virtual_page_def)
  next
    case False
    then have "clean_ok ct s w" using lt [OF that] m by (simp add: mem_ok_def)
    then show ?thesis using False by (simp add: clean_ok_def stored_def f)
  qed
  then show "mem_ok ct ?t" using m by (simp add: mem_ok_def f)
qed
end
