(* ===== verification/Pager_Refinement.thy ===== *)
theory Pager_Refinement
  imports Pager_Ideal
begin

text \<open>
  The operations of the pager against those of the ideal memory: \<^verbatim>\<open>vm_map\<close>, \<^verbatim>\<open>vm_create\<close>, \<^verbatim>\<open>vm_destroy\<close>,
  loads and stores. The simulation is put together at the end.
\<close>

lemma view_lookup:
  assumes c: "core ok s" and wf: "wf_maps t" and l: "lookup_va t = lookup_va s" and e: "vpages t = vpages s" "files t = files s" "vm_physmem t = vm_physmem s"
    "filename_block_to_vpage t = filename_block_to_vpage s" "current_pid t = current_pid s"
  shows "view ct t = view ct s \<and> mem_ok ct t = mem_ok ct s"
proof -
  have lv: "live t = live s" by (simp add: fun_eq_iff live_iff [OF wf] core_facts(7) [OF c] mapped_def registered_def l e)
  have ct: "content ct t = content ct s" "clean_ok ct t = clean_ok ct s"
    by (rule ext, simp add: content_def clean_ok_def stored_def e split: option.splits)+
  have "view ct t = view ct s" using l e by (intro view_same [OF c]) (simp_all add: file_step_def same_pages_def ct)
  then show ?thesis by (simp add: mem_ok_def lv ct e)
qed

section \<open>\<^verbatim>\<open>vm_map\<close>\<close>

lemma map_file_view:
  assumes inv: "pager_inv ok s" and m: "mem_ok ct s" and va: "next_free_VA s (current_pid s) = Some va" "va < VM_ARENA_MAXADDR"
    and t: "map_file_page va name b s = Some t"
  shows "view ct t = ideal_map (current_pid s) va (Shared name b) (view ct s) \<and> mem_ok ct t"
proof -
  have i: "core ok s" "shows_all s {v. live s v}" "page_table_base_register s = current_pid s" using inv by (simp_all add: pager_inv_iff processes_ok_def)
  let ?e = "map_file_eff va name b s"
  have "same_but_tables ?e t" using returnsD [OF map_file_page_spec(2) [OF core_bump [OF i(1) va] i(2,3) refl] t] by simp
  moreover have "view ct ?e = ideal_map (current_pid s) va (Shared name b) (view ct s) \<and> mem_ok ct ?e"
  proof (cases "map_of (filename_block_to_vpage s) (name, b)")
    case None
    then show ?thesis using file_eff_view [OF i(1) m] by (simp add: map_file_eff_def)
  next
    case (Some v)
    have "live s v" unfolding core_facts(7) [OF i(1)] registered_def using Some by blast
    with files_okD(1) [OF core_facts(6) [OF i(1)] Some] show ?thesis using Some alias_view [OF i(1) m] by (simp add: map_file_eff_def cell_of_def)
  qed
  ultimately show ?thesis using view_tables by metis
qed

lemma make_swap_view:
  assumes inv: "pager_inv ok s" and m: "mem_ok ct s" and va: "next_free_VA s (current_pid s) = Some va" "va < VM_ARENA_MAXADDR"
    and t: "make_swap_to_nullpage va (current_pid s) s = Some (Some v, t)"
  shows "view ct t = ideal_map (current_pid s) va (Private zero_page) (view ct s) \<and> mem_ok ct t"
proof -
  have i: "core ok s" "shows_all s {v. live s v}" using inv by (simp_all add: pager_inv_iff)
  have "next_free_swap s \<noteq> []" using t by (auto simp: make_swap_to_nullpage_def bind_eq_Some_conv)
  from returnsD [OF make_swap_spec [OF core_bump [OF i(1) va] this i(2)] t] have "same_but_tables (swap_eff va (current_pid s) s) t" by simp
  with swap_view [OF i(1) m, of va "current_pid s"] view_tables show ?thesis by (metis mem_ok_def)
qed

text \<open>What a successful \<^verbatim>\<open>vm_map\<close> adds: a zero page, or the block of the file whose name is at the pointer.\<close>

definition ideal_mapping :: "nat option \<Rightarrow> nat \<Rightarrow> nat \<Rightarrow> ideal \<Rightarrow> ideal \<Rightarrow> bool" where
  "ideal_mapping name_ptr block va a a' \<longleftrightarrow> (case name_ptr of
     None \<Rightarrow> a' = ideal_map (runner a) va (Private zero_page) a
   | Some ptr \<Rightarrow> (\<exists>name. ideal_string a (runner a) ptr name \<and> a' = ideal_map (runner a) va (Shared name block) a))"

lemma vm_map_view:
  assumes inv: "pager_inv ok s" and a: "alive s" and l: "content_laws fo ok ct" "file_laws fo ok" and m: "mem_ok ct s"
    and t: "vm_map fo name_ptr block s = Some (r, t)"
  shows "mem_ok ct t \<and> (case r of None \<Rightarrow> view ct t = view ct s | Some va \<Rightarrow> ideal_mapping name_ptr block va (view ct s) (view ct t))"
proof -
  obtain va where va: "next_free_VA s (current_pid s) = Some va" using a by (auto simp: alive_def)
  then have g: "get_next_free_VA s (current_pid s) = va" by (simp add: get_next_free_VA_def)
  have r: "runner (view ct s) = current_pid s" by (simp add: view_def)
  consider (full) "VM_ARENA_MAXADDR \<le> va" | (swap) "va < VM_ARENA_MAXADDR" "name_ptr = None" | (named) ptr where "va < VM_ARENA_MAXADDR" "name_ptr = Some ptr"
    by fastforce
  then show ?thesis
  proof cases
    case full
    then show ?thesis using t m by (auto simp: vm_map_def g Let_def bind_eq_Some_conv)
  next
    case swap
    obtain v u where u: "make_swap_to_nullpage va (current_pid s) s = Some (v, u)"
      "(case v of None \<Rightarrow> r = None \<and> t = u | Some _ \<Rightarrow> r = Some va \<and> (\<exists>n. t = u\<lparr>next_free_VA := n\<rparr>))"
      using t swap by (fastforce simp: vm_map_def g Let_def bind_eq_Some_conv split: option.splits)
    show ?thesis
    proof (cases v)
      case None
      then have "r = None" "t = s" using u make_swap_None [of va "current_pid s" s u] by simp_all
      then show ?thesis using m by simp
    next
      case (Some w)
      with u make_swap_view [OF inv m va swap(1)] show ?thesis by (auto simp: ideal_mapping_def swap(2) r)
    qed
  next
    case named
    obtain nm u where u: "translate_from_other_addr_space fo ptr s = Some (nm, u)"
      "(case nm of None \<Rightarrow> r = None \<and> t = u | Some name \<Rightarrow> r = Some va \<and> (\<exists>w n. map_file_page va name block u = Some w \<and> t = w\<lparr>next_free_VA := n\<rparr>))"
      using t named by (fastforce simp: vm_map_def g Let_def bind_eq_Some_conv split: option.splits)
    from translate_view [OF inv a l m u(1)] have q: "quiet ok ct s u" "\<And>name. nm = Some name \<Longrightarrow> ideal_string (view ct s) (current_pid s) ptr name" by auto
    then have k: "pager_inv ok u" "mem_ok ct u" "view ct u = view ct s" "current_pid u = current_pid s" "next_free_VA u (current_pid u) = Some va"
      using va by (simp_all add: quiet_def kept_def)
    show ?thesis
    proof (cases nm)
      case None
      then show ?thesis using u k by simp
    next
      case (Some name)
      with u map_file_view [OF k(1,2,5) named(1), of name block] show ?thesis using q(2) k(3,4) by (auto simp: ideal_mapping_def named(2) r)
    qed
  qed
qed

section \<open>\<^verbatim>\<open>vm_create\<close>\<close>

lemma share_view:
  assumes inv: "pager_inv ok s" and m: "mem_ok ct s" and v: "lookup_va s parent va = Some v"
  shows "view ct (share_eff child va v s) = ideal_map child va (the (spaces (view ct s) parent va)) (view ct s) \<and> mem_ok ct (share_eff child va v s)"
proof -
  have c: "core ok s" using inv by (simp add: pager_inv_iff)
  have lv: "live s v" unfolding core_facts(7) [OF c] mapped_def using v by blast
  have x: "the (spaces (view ct s) parent va) = cell_of ct s v" using v by (simp add: view_def)
  show ?thesis
  proof (cases "is_null (vpages s v)")
    case True
    then have "cell_of ct s v = Private zero_page"
      using page_okD(7) [OF c lv] m by (auto simp: is_null_def cell_of_def content_def mem_ok_def split: option.splits)
    with swap_view [OF c m, of va child] True show ?thesis unfolding x by (simp add: share_eff_def mem_ok_def)
  next
    case False
    then show ?thesis using alias_view [OF c m lv] unfolding x by (simp add: share_eff_def)
  qed
qed

lemma share_chain_view:
  assumes "share_chain ok parent child l s t" "pager_inv ok s" "mem_ok ct s" "parent \<noteq> child"
  shows "mem_ok ct t \<and> view ct t = (view ct s)\<lparr>spaces := (spaces (view ct s))(child := (\<lambda>a. if a \<in> fst ` set l then spaces (view ct s) parent a else spaces (view ct s) child a))\<rparr>"
  using assms
proof (induction l arbitrary: s)
  case (Cons m l)
  then obtain u where u: "lookup_va s parent (fst m) = Some (snd m)" "same_but_tables (share_eff child (fst m) (snd m) s) u" "pager_inv ok u"
    "share_chain ok parent child l u t" by auto
  from share_view [OF Cons.prems(2,3) u(1)] view_tables [OF u(2), of ct]
  have k: "view ct u = ideal_map child (fst m) (the (spaces (view ct s) parent (fst m))) (view ct s)" "mem_ok ct u" by metis+
  have p: "Some (the (spaces (view ct s) parent (fst m))) = spaces (view ct s) parent (fst m)" using u(1) by (simp add: view_def)
  from Cons.IH [OF u(4,3) k(2) Cons.prems(4)] show ?case
    using Cons.prems(4) p unfolding k(1) by (auto simp: ideal_map_def fun_eq_iff)
qed simp

definition ideal_create :: "nat \<Rightarrow> nat \<Rightarrow> ideal \<Rightarrow> ideal" where
  "ideal_create parent child a = a\<lparr>spaces := (spaces a)(child := spaces a parent)\<rparr>"

lemma vm_create_view:
  assumes inv: "pager_inv ok s" and f: "process_table s child = None" and ord: "traversal ord" and m: "mem_ok ct s"
    and t: "vm_create ord parent child s = Some (r, t)"
  shows "mem_ok ct t \<and> (if r = 0 then view ct t = (ideal_create parent child (view ct s))\<lparr>runner := current_pid t\<rparr> else view ct t = view ct s)"
proof -
  have base: "VM_ARENA_BASEADDR \<le> VM_ARENA_BASEADDR" "VM_ARENA_BASEADDR \<le> VM_ARENA_MAXADDR" "VM_ARENA_BASEADDR mod VM_PAGESIZE = 0"
    by (simp_all add: vm_const_defs)
  note nc = new_process(2-4) [OF inv f base]
  let ?s = "\<lambda>n. s\<lparr>process_table := (process_table s)(child \<mapsto> new_page_table), next_free_VA := (next_free_VA s)(child \<mapsto> n)\<rparr>"
  have empty: "spaces (view ct s) child = Map.empty" using nc(2) by (simp add: view_def fun_eq_iff)
  have fin: "mem_ok ct t \<and> view ct t = (ideal_create parent child (view ct s))\<lparr>runner := current_pid t\<rparr>"
    if "view ct u = ideal_create parent child (view ct s)" "mem_ok ct u" "t = u \<or> t = u\<lparr>current_pid := child, page_table_base_register := child\<rparr>" for u
  proof -
    have "runner (view ct u) = current_pid u" by (simp add: view_def)
    with that show ?thesis by auto
  qed
  consider (new) "map_of (translateVA s) parent = None" | (no_swap) m where "map_of (translateVA s) parent = Some m"
      "length (next_free_swap s) < length (filter (\<lambda>m. isSwap (vpages s (snd m))) (mappings s parent))"
    | (share) m where "map_of (translateVA s) parent = Some m" "length (filter (\<lambda>m. isSwap (vpages s (snd m))) (mappings s parent)) \<le> length (next_free_swap s)"
    by fastforce
  then show ?thesis
  proof cases
    case new
    then have "lookup_va s parent = Map.empty" by (simp add: fun_eq_iff lookup_va_def mappings_def)
    then have "ideal_create parent child (view ct s) = view ct s" using nc(2) by (simp add: ideal_create_def view_def fun_eq_iff)
    moreover have "r = 0" "t = ?s VM_ARENA_BASEADDR \<or> t = (?s VM_ARENA_BASEADDR)\<lparr>current_pid := child, page_table_base_register := child\<rparr>"
      using t f new by (auto simp: vm_create_def Let_def bind_eq_Some_conv split: if_splits)
    ultimately show ?thesis using fin [of "?s VM_ARENA_BASEADDR"] m by simp
  next
    case no_swap
    then have "r = -1" using t f by (auto simp: vm_create_def Let_def mappings_def)
    with returnsD [OF vm_create_spec [OF inv f ord] t] m show ?thesis by simp
  next
    case share
    then have pc: "parent \<noteq> child" using nc(3) by auto
    obtain n where n: "next_free_VA s parent = Some n" using inv share(1) by (auto simp: pager_inv_iff processes_ok_def)
    have base': "VM_ARENA_BASEADDR \<le> n" "n \<le> VM_ARENA_MAXADDR" "n mod VM_PAGESIZE = 0"
      using inv core_facts(2) n unfolding pager_inv_iff arena_ok_def by blast+
    obtain u where u: "fold_option (share_page child) (ord (mappings s parent)) (?s n) = Some u" "share_chain ok parent child (ord (mappings s parent)) (?s n) u"
      by (rule create_loop [OF inv f ord share(1) n share(2) refl])
    have k: "map_of (ord (mappings s parent)) = map_of (mappings s parent)"
      using traversal_facts(3) [OF ord mappings_distinct] inv core_facts(1) by (auto simp: pager_inv_iff)
    from share_chain_view [OF u(2) new_process(1) [OF inv f base'] _ pc, of ct] m
    have v: "mem_ok ct u" "view ct u = (view ct s)\<lparr>spaces := (spaces (view ct s))(child :=
        (\<lambda>a. if a \<in> fst ` set (ord (mappings s parent)) then spaces (view ct s) parent a else spaces (view ct s) child a))\<rparr>" by (simp_all cong: if_cong)
    have "spaces (view ct s) parent a = None" if "a \<notin> fst ` set (ord (mappings s parent))" for a
      using that k by (simp add: view_def lookup_va_def map_of_eq_None_iff [symmetric])
    then have "view ct u = ideal_create parent child (view ct s)" unfolding v(2) ideal_create_def by (auto simp: empty fun_eq_iff)
    moreover have "r = 0" "t = u \<or> t = u\<lparr>current_pid := child, page_table_base_register := child\<rparr>"
      using t f share pc u(1) n by (auto simp: vm_create_def Let_def bind_eq_Some_conv mappings_def get_next_free_VA_def split: if_splits)
    ultimately show ?thesis using fin v(1) by simp
  qed
qed

section \<open>\<^verbatim>\<open>vm_destroy\<close>\<close>

definition ideal_destroy :: "ideal \<Rightarrow> ideal" where
  "ideal_destroy a = a\<lparr>spaces := (spaces a)(runner a := Map.empty)\<rparr>"

lemma destroy_view:
  assumes inv: "pager_inv ok (remaining ((va, v) # l) s)" and m: "mem_ok ct (remaining ((va, v) # l) s)"
  shows "view ct (remaining l (destroy_eff va v s)) = (view ct (remaining ((va, v) # l) s))\<lparr>spaces :=
      (spaces (view ct (remaining ((va, v) # l) s)))(current_pid s := (spaces (view ct (remaining ((va, v) # l) s)) (current_pid s))(va := None))\<rparr>
    \<and> mem_ok ct (remaining l (destroy_eff va v s))"
proof -
  let ?g = "remaining ((va, v) # l) s" and ?e = "destroy_eff va v s" and ?p = "current_pid s"
  let ?t = "remaining l ?e"
  note rd = remaining_destroy [OF inv]
  have c: "core ok ?g" using inv by (simp add: pager_inv_iff)
  have f: "vm_physmem ?e = vm_physmem s" "files ?e = files s"
    by (cases "gives_back (vpages s v)"; simp add: destroy_eff_def upd_vpage_def return_eff_def)+
  have vp: "vpages ?e w = (if w = v then drop_page va ?p (if gives_back (vpages s v) then (vpages s v)\<lparr>resident := False, physicalPage := None\<rparr> else vpages s v)
      else vpages s w)" for w by (simp add: destroy_eff_def upd_vpage_def return_eff_vpages)
  have same: "isSwap (vpages ?e w) = isSwap (vpages s w) \<and> filename (vpages ?e w) = filename (vpages s w) \<and> blocks (vpages ?e w) ! 0 = blocks (vpages s w) ! 0
      \<and> physicalPage (vpages ?e w) = physicalPage (vpages s w)" if w: "live ?t w" for w
  proof (cases "w = v")
    case True
    have "blocks (vpages ?e v) \<noteq> []" using page_okD(3) [OF rd(1)] w True by simp
    then have "isSwap (vpages s v) \<Longrightarrow> butlast (blocks (vpages s v)) \<noteq> []" by (auto simp: vp drop_page_def split: if_splits)
    then have "\<not> gives_back (vpages s v)" "isSwap (vpages s v) \<Longrightarrow> 1 < length (blocks (vpages s v))"
      by (auto simp: gives_back_def butlast_conv_take neq_Nil_conv)
    then show ?thesis using True by (auto simp: vp drop_page_def nth_butlast)
  qed (simp add: vp)
  have st: "stored ct ?t w = stored ct ?g w" if "live ?t w" for w using same [OF that] by (simp add: stored_def backing_def f)
  have ct': "content ct ?t w = content ct ?g w" if "live ?t w" for w
    using same [OF that] st [OF that] by (simp add: content_def f split: option.splits)
  have cell: "cell_of ct ?t w = cell_of ct ?g w" if "live ?t w" for w using same [OF that] ct' [OF that] by (simp add: cell_of_def)
  have clean: "clean_ok ct ?t w" if "live ?t w" for w
  proof -
    have "clean_ok ct ?g w" using m rd(2) [OF that] by (simp add: mem_ok_def)
    then show ?thesis using same [OF that] st [OF that] by (simp add: clean_ok_def f)
  qed
  have reg: "live ?t w" if "map_of (filename_block_to_vpage s) k = Some w" for k w unfolding core_facts(7) [OF rd(1)] registered_def remaining_fields destroy_eff_fields using that by blast
  have "file_view ct ?t x y = file_view ct ?g x y" for x y
    using ct' [OF reg] by (cases "map_of (filename_block_to_vpage s) (x, y)") (simp_all add: file_view_def f)
  then have fv: "file_view ct ?t = file_view ct ?g" by blast
  have "map_of l va = None" using wf_remaining(1) [OF core_facts(1) [OF c]] by (simp add: map_of_eq_None_iff)
  moreover have "lookup_va ?e = lookup_va s" by (simp add: fun_eq_iff lookup_va_def mappings_def)
  ultimately have lt: "lookup_va ?t q a = (if q = ?p \<and> a = va then None else lookup_va ?g q a)" for q a by (simp add: lookup_remaining)
  have "map_option (cell_of ct ?t) (lookup_va ?t q a) = map_option (cell_of ct ?g) (lookup_va ?t q a)" for q a
  proof (cases "lookup_va ?t q a")
    case (Some w)
    then have "live ?t w" unfolding core_facts(7) [OF rd(1)] mapped_def by blast
    with cell Some show ?thesis by simp
  qed simp
  then have "view ct ?t = (view ct ?g)\<lparr>spaces := (spaces (view ct ?g))(?p := (spaces (view ct ?g) ?p)(va := None))\<rparr>"
    by (simp add: view_def fv fun_eq_iff lt)
  moreover have "mem_ok ct ?t" using m clean by (simp add: mem_ok_def f)
  ultimately show ?thesis by blast
qed

lemma destroy_loop_view:
  assumes "pager_inv ok (remaining l s)" "mem_ok ct (remaining l s)" "fold_option destroy_mapping l s = Some t"
  shows "mem_ok ct (remaining [] t) \<and> view ct (remaining [] t) = (view ct (remaining l s))\<lparr>spaces := (spaces (view ct (remaining l s)))(current_pid s := Map.empty)\<rparr>
    \<and> current_pid t = current_pid s"
  using assms
proof (induction l arbitrary: s)
  case Nil
  have "spaces (view ct (remaining [] s)) (current_pid s) = Map.empty" by (simp add: view_def lookup_remaining fun_eq_iff)
  with Nil show ?case by (simp add: fun_upd_idem)
next
  case (Cons m l)
  obtain va v where m: "m = (va, v)" by (cases m)
  obtain u where u: "destroy_mapping (va, v) s = Some u" "fold_option destroy_mapping l u = Some t" using Cons.prems(3) m by (auto simp: bind_eq_Some_conv)
  from returnsD [OF destroy_mapping_spec [OF Cons.prems(1) [unfolded m]] u(1)]
  have k: "same_but_tables (destroy_eff va v s) u" "pager_inv ok (remaining l u)" by simp_all
  have cp: "current_pid u = current_pid s" by (simp add: same_but_tables_fields [OF k(1)])
  have "same_but_tables (remaining l (destroy_eff va v s)) (remaining l u)"
    using same_but_tables_upd2(2) [OF k(1)] by (simp add: remaining_def same_but_tables_fields [OF k(1)])
  from view_tables [OF this, of ct] destroy_view [OF Cons.prems(1,2) [unfolded m]]
  have w: "mem_ok ct (remaining l u)" "view ct (remaining l u) = (view ct (remaining ((va, v) # l) s))\<lparr>spaces :=
      (spaces (view ct (remaining ((va, v) # l) s)))(current_pid s := (spaces (view ct (remaining ((va, v) # l) s)) (current_pid s))(va := None))\<rparr>" by simp_all
  from Cons.IH [OF k(2) w(1) u(2)] show ?case unfolding m w(2) cp by (simp add: fun_upd_def cong: if_cong)
qed

lemma vm_destroy_view:
  assumes inv: "pager_inv ok s" and a: "alive s" and ord: "traversal ord" and m: "mem_ok ct s" and t: "vm_destroy ord s = Some t"
  shows "view ct t = ideal_destroy (view ct s) \<and> mem_ok ct t"
proof -
  let ?p = "current_pid s" and ?u = "touch_va (current_pid s) s"
  let ?l = "ord (mappings s (current_pid s))"
  obtain u where u: "fold_option destroy_mapping ?l ?u = Some u"
    "t = u\<lparr>translateVA := AList.delete (current_pid u) (translateVA u), process_table := (process_table u)(current_pid u := None), next_free_VA := (next_free_VA u)(current_pid u := None)\<rparr>"
    using t by (auto simp: vm_destroy_def Let_def bind_eq_Some_conv)
  have c: "core ok s" "core ok ?u" using inv inv_touch [OF inv a] by (simp_all add: pager_inv_iff)
  note rs = remaining_start [OF inv a ord]
  have "wf_maps (remaining ?l ?u)" using rs core_facts(1) by (auto simp: pager_inv_iff)
  moreover have "map_of ?l = map_of (mappings s ?p)" by (rule traversal_facts(3) [OF ord mappings_distinct [OF core_facts(1) [OF c(1)]]])
  then have "lookup_va (remaining ?l ?u) = lookup_va s" by (auto simp: fun_eq_iff lookup_remaining) (simp add: lookup_va_def)
  ultimately have "view ct (remaining ?l ?u) = view ct s \<and> mem_ok ct (remaining ?l ?u)" using view_lookup [OF c(1)] m by simp
  then have "mem_ok ct (remaining [] u)" "view ct (remaining [] u) = ideal_destroy (view ct s)" "current_pid u = ?p"
    using destroy_loop_view [OF rs _ u(1)] by (auto simp: ideal_destroy_def view_def)
  moreover have "view ct t = view ct (remaining [] u) \<and> mem_ok ct t = mem_ok ct (remaining [] u)"
  proof (rule view_lookup)
    from returnsD [OF destroy_loop [OF rs] u(1)] show "core ok (remaining [] u)" by (simp add: pager_inv_iff)
    from returnsD [OF vm_destroy_spec [OF inv a ord] t] core_facts(1) show "wf_maps t" by (auto simp: pager_inv_iff)
    show "lookup_va t = lookup_va (remaining [] u)"
      by (auto simp: u(2) fun_eq_iff lookup_remaining) (auto simp: lookup_va_def mappings_def delete_conv' split: option.splits)
  qed (simp_all add: u(2))
  ultimately show ?thesis by simp
qed

section \<open>Loads and stores\<close>

lemma load_byte_view:
  assumes inv: "pager_inv ok s" "tidy s" and va: "arena_va (page_base addr)" and l: "load_byte addr s = Some c"
  shows "ideal_byte (view ct s) (current_pid s) addr = Some c"
proof -
  have p: "page_table_base_register s = current_pid s" using inv(1) by (simp add: pager_inv_iff processes_ok_def)
  obtain f where f: "reaches s (current_pid s) (page_base addr) False = Some f" "c = vm_physmem s f (addr mod VM_PAGESIZE)"
    using l by (auto simp: load_byte_def p)
  from reaches_page [OF inv va f(1)] obtain v pp where v: "lookup_va s (current_pid s) (page_base addr) = Some v" "physicalPage (vpages s v) = Some pp" "f = PPN pp" .
  from view_byte [OF inv(1) v(1), of ct] f(2) v(2,3) show ?thesis by (simp add: content_def)
qed

definition ideal_store :: "nat \<Rightarrow> char \<Rightarrow> ideal \<Rightarrow> ideal" where
  "ideal_store addr c a = (let va = page_base addr; i = addr mod VM_PAGESIZE in
     case spaces a (runner a) va of
       None \<Rightarrow> a
     | Some (Private p) \<Rightarrow> ideal_map (runner a) va (Private (p(i := c))) a
     | Some (Shared name b) \<Rightarrow> a\<lparr>shared := (shared a)(name := (shared a name)(b := (shared a name b)(i := c)))\<rparr>)"

text \<open>A page with one mapping.\<close>

lemma only_mapping:
  assumes c: "core ok s" and v: "lookup_va s pid va = Some v" "length (affiliated (vpages s v)) = 1" and w: "lookup_va s q a = Some v"
  shows "q = pid \<and> a = va"
proof -
  have lv: "live s v" unfolding core_facts(7) [OF c] mapped_def using v by blast
  obtain e where "affiliated (vpages s v) = [e]" using v(2) by (cases "affiliated (vpages s v)") auto
  then have "entries_of s v = {e}" using page_okD(1) [OF c lv] by simp
  moreover have "VA_to_PTE a q \<in> entries_of s v" "VA_to_PTE va pid \<in> entries_of s v" using v(1) w by (auto simp: entries_of_def)
  ultimately have "VA_to_PTE a q = VA_to_PTE va pid" by simp
  from VA_to_PTE_inj [OF arena_okD(2) [OF core_facts(2) [OF c] w] arena_okD(2) [OF core_facts(2) [OF c] v(1)] this] show ?thesis .
qed

lemma store_contents:
  assumes c: "core ok s" and v: "live s v" "physicalPage (vpages s v) = Some pp" "PPN pp \<noteq> 0" and w: "live s w"
  shows "content ct (s\<lparr>vm_physmem := (vm_physmem s)(PPN pp := x)\<rparr>) w = (if w = v then x else content ct s w)"
    "w \<noteq> v \<Longrightarrow> clean_ok ct s w \<Longrightarrow> clean_ok ct (s\<lparr>vm_physmem := (vm_physmem s)(PPN pp := x)\<rparr>) w"
proof -
  have ne: "PPN pw \<noteq> PPN pp" if "w \<noteq> v" "physicalPage (vpages s w) = Some pw" for pw
    using frames_distinct [OF c v(1) w] that v(2,3) by (cases "PPN pw = 0") (auto simp: in_frame_def frame_def)
  then show "content ct (s\<lparr>vm_physmem := (vm_physmem s)(PPN pp := x)\<rparr>) w = (if w = v then x else content ct s w)"
    "w \<noteq> v \<Longrightarrow> clean_ok ct s w \<Longrightarrow> clean_ok ct (s\<lparr>vm_physmem := (vm_physmem s)(PPN pp := x)\<rparr>) w"
    using v(2) by (auto simp: content_def clean_ok_def stored_def split: option.splits)
qed

lemma store_view:
  assumes inv: "pager_inv ok s" "tidy s" and m: "mem_ok ct s" and va: "arena_va (page_base addr)" and t: "store addr c s = Some t"
  shows "view ct t = ideal_store addr c (view ct s) \<and> mem_ok ct t"
proof -
  let ?p = "current_pid s" and ?va = "page_base addr" and ?i = "addr mod VM_PAGESIZE"
  have co: "core ok s" and ro: "resident_ok ok s" and p: "page_table_base_register s = ?p" using inv(1) by (simp_all add: pager_inv_iff processes_ok_def)
  obtain f where f: "reaches s ?p ?va True = Some f" "t = s\<lparr>vm_physmem := (vm_physmem s)(f := (vm_physmem s f)(?i := c))\<rparr>"
    using t by (auto simp: store_def p)
  from reaches_page [OF inv va f(1)] obtain v pp where v: "lookup_va s ?p ?va = Some v" "live s v" "physicalPage (vpages s v) = Some pp" "f = PPN pp"
    "PPN pp \<noteq> 0" "dirty pp" "isSwap (vpages s v) \<Longrightarrow> length (affiliated (vpages s v)) = 1" by metis
  let ?x = "(content ct s v)(?i := c)"
  have tx: "t = s\<lparr>vm_physmem := (vm_physmem s)(PPN pp := ?x)\<rparr>" using f(2) v(3,4) by (simp add: content_def)
  have ct': "content ct t w = (if w = v then ?x else content ct s w)" if "live s w" for w
    unfolding tx by (rule store_contents(1) [OF co v(2,3,5) that])
  have lk: "lookup_va t = lookup_va s" "filename_block_to_vpage t = filename_block_to_vpage s" "vpages t = vpages s" "files t = files s" "live t = live s"
    "current_pid t = ?p" by (simp_all add: tx)
  have "clean_ok ct t w" if "live s w" for w
    using store_contents(2) [OF co v(2,3,5) that] m that v(3,6) unfolding tx by (cases "w = v") (auto simp: mem_ok_def clean_ok_def)
  moreover have "vm_physmem t 0 = zero_page" using m v(5) by (simp add: tx mem_ok_def)
  ultimately have mt: "mem_ok ct t" by (simp add: mem_ok_def lk)
  have lm: "live s w" if "lookup_va s q a = Some w" for q a w unfolding core_facts(7) [OF co] mapped_def using that by blast
  have lr: "live s w" if "map_of (filename_block_to_vpage s) k = Some w" for k w unfolding core_facts(7) [OF co] registered_def using that by blast
  have rn: "runner (view ct s) = ?p" by (simp add: view_def)
  have "view ct t = ideal_store addr c (view ct s)"
  proof (cases "isSwap (vpages s v)")
    case True
    have "file_view ct t x y = file_view ct s x y" for x y
      using ct' [OF lr] files_okD(1) [OF core_facts(6) [OF co], of "(x, y)"] True
      by (cases "map_of (filename_block_to_vpage s) (x, y)") (auto simp: file_view_def lk)
    then have fv: "file_view ct t = file_view ct s" by blast
    have cells: "map_option (cell_of ct t) (lookup_va s q a) = (if q = ?p \<and> a = ?va then Some (Private ?x) else map_option (cell_of ct s) (lookup_va s q a))" for q a
    proof (cases "lookup_va s q a")
      case (Some w)
      then show ?thesis using ct' [OF lm [OF Some]] only_mapping [OF co v(1) v(7) [OF True], of q a] v(1) True by (auto simp: cell_of_def lk)
    qed (use v(1) in auto)
    have "spaces (view ct s) ?p ?va = Some (Private (content ct s v))" using v(1) True by (simp add: view_def cell_of_def)
    then have "ideal_store addr c (view ct s) = ideal_map ?p ?va (Private ?x) (view ct s)" by (simp add: ideal_store_def Let_def rn)
    then show ?thesis by (simp add: ideal_map_def) (simp add: view_def lk fv cells fun_eq_iff)
  next
    case False
    let ?n = "filename (vpages s v)" and ?b = "blocks (vpages s v) ! 0"
    have "resident (vpages s v)" using page_okD(6) [OF co v(2)] v(3) by simp
    then have reg: "map_of (filename_block_to_vpage s) (?n, ?b) = Some v"
      using files_okD(2) [OF core_facts(6) [OF co] v(2) False] ro v(2) False unfolding resident_ok_def by blast
    have other: "w \<noteq> v" if "map_of (filename_block_to_vpage s) (x, y) = Some w" "(x, y) \<noteq> (?n, ?b)" for x y w
      using files_okD(1) [OF core_facts(6) [OF co] that(1)] that(2) by auto
    have "file_view ct t x y = (if x = ?n \<and> y = ?b then ?x else file_view ct s x y)" for x y
      using ct' [OF lr] reg other by (cases "map_of (filename_block_to_vpage s) (x, y)") (auto simp: file_view_def lk)
    then have fv: "file_view ct t = (file_view ct s)(?n := (file_view ct s ?n)(?b := ?x))" by (intro ext) simp
    have fs: "file_view ct s ?n ?b = content ct s v" using reg by (simp add: file_view_def)
    have cells: "map_option (cell_of ct t) (lookup_va s q a) = map_option (cell_of ct s) (lookup_va s q a)" for q a
    proof (cases "lookup_va s q a")
      case (Some w)
      then show ?thesis using ct' [OF lm [OF Some]] False by (auto simp: cell_of_def lk)
    qed simp
    have "spaces (view ct s) ?p ?va = Some (Shared ?n ?b)" using v(1) False by (simp add: view_def cell_of_def)
    then have "ideal_store addr c (view ct s) = (view ct s)\<lparr>shared := (file_view ct s)(?n := (file_view ct s ?n)(?b := ?x))\<rparr>"
      by (simp add: ideal_store_def Let_def rn fs [symmetric]) (simp add: view_def)
    then show ?thesis by (simp add: view_def lk fv cells)
  qed
  with mt show ?thesis by blast
qed

section \<open>The simulation\<close>

text \<open>
  The ideal memory: a new process has the contents of its parent, a mapping at a new address adds a
  zero page or a block of a file, faults do nothing, exit empties the address space.
\<close>

primrec ideal_step :: "call \<Rightarrow> ideal \<Rightarrow> ideal \<Rightarrow> bool" where
  "ideal_step (Create_Call parent child r) a a' \<longleftrightarrow>
     (if r = 0 then spaces a child = Map.empty \<and> (\<exists>pid \<in> {runner a, child}. a' = (ideal_create parent child a)\<lparr>runner := pid\<rparr>) else r = -1 \<and> a' = a)"
| "ideal_step (Switch_Call pid) a a' \<longleftrightarrow> a' = a\<lparr>runner := pid\<rparr>"
| "ideal_step (Map_Call name_ptr block r) a a' \<longleftrightarrow> (case r of
     None \<Rightarrow> a' = a
   | Some va \<Rightarrow> arena_va va \<and> spaces a (runner a) va = None \<and> ideal_mapping name_ptr block va a a')"
| "ideal_step (Fault_Call addr write r) a a' \<longleftrightarrow> a' = a \<and> (if r = 0 then spaces a (runner a) (page_base addr) \<noteq> None else r = -1)"
| "ideal_step Destroy_Call a a' \<longleftrightarrow> a' = ideal_destroy a"
| "ideal_step (Store_Call addr c) a a' \<longleftrightarrow> spaces a (runner a) (page_base addr) \<noteq> None \<and> a' = ideal_store addr c a"

definition memory_ok :: "(string \<Rightarrow> nat \<Rightarrow> bool) \<Rightarrow> 'f contents \<Rightarrow> 'f pager \<Rightarrow> bool" where
  "memory_ok ok ct s \<longleftrightarrow> run_ok ok s \<and> mem_ok ct s"

lemma booted_memory: "booted s \<Longrightarrow> memory_ok ok ct s"
proof -
  assume b: "booted s"
  then obtain n w s0 where s: "pristine s0" "s = vm_init n w s0" by (auto simp: booted_def)
  then have "\<not> live s v" for v by (simp add: live_def vm_init_def pristine_def)
  then show ?thesis using booted_ok [OF b] s(2) by (simp add: memory_ok_def mem_ok_def vm_init_def)
qed

lemma runner_view [simp]: "runner (view ct s) = current_pid s"
  by (simp add: view_def)

lemma spaces_view: "spaces (view ct s) pid va = None \<longleftrightarrow> lookup_va s pid va = None"
  by (simp add: view_def)

lemma pager_simulates:
  assumes l: "content_laws fo ok ct" "file_laws fo ok" and ok: "memory_ok ok ct s" and st: "pager_step fo call s t"
  shows "memory_ok ok ct t \<and> ideal_step call (view ct s) (view ct t)"
proof -
  have inv: "pager_inv ok s" "tidy s" and m: "mem_ok ct s" using ok by (simp_all add: memory_ok_def run_ok_def)
  have r: "run_ok ok t" by (rule pager_step_inv [OF l(2) inv st])
  have "mem_ok ct t \<and> ideal_step call (view ct s) (view ct t)" using st
  proof cases
    case (Create ord child parent r)
    have "lookup_va s child va = None" for va
    proof (cases "lookup_va s child va")
      case (Some v)
      with inv(1) arena_okD(3) [OF core_facts(2) Some] process_alive [OF inv(1), of child] Create(3) show ?thesis by (auto simp: pager_inv_iff)
    qed
    then have "spaces (view ct s) child = Map.empty" by (simp add: fun_eq_iff spaces_view)
    moreover from returnsD [OF vm_create_spec [OF inv(1) Create(3,2)] Create(4)]
    have "r = 0 \<and> current_pid t \<in> {current_pid s, child} \<or> r = -1 \<and> t = s" by auto
    ultimately show ?thesis using vm_create_view [OF inv(1) Create(3,2) m Create(4)] unfolding Create(1) by auto
  next
    case (Switch pid)
    from returnsD [OF vm_switch_spec [OF inv(1) Switch(2)] Switch(3)]
    have "t = s\<lparr>current_pid := pid, page_table_base_register := pid\<rparr>" by blast
    with m show ?thesis by (simp add: Switch(1))
  next
    case (Map name_ptr block a)
    then have al: "alive s" using running_alive [OF inv(1)] by simp
    from returnsD [OF vm_map_spec [OF inv(1) al l(2)] Map(3)] have e: "case a of None \<Rightarrow> True | Some va \<Rightarrow> extended s va t" by (auto split: option.splits)
    have fresh: "arena_va va \<and> lookup_va s (current_pid s) va = None" if "extended s va t" for va
    proof -
      have va: "next_free_VA s (current_pid s) = Some va" "va < VM_ARENA_MAXADDR" using that by (simp_all add: extended_def)
      from core_bump(2) [OF _ va] inv(1) show ?thesis by (auto simp: pager_inv_iff fresh_va_def)
    qed
    from vm_map_view [OF inv(1) al l m Map(3)] e fresh show ?thesis by (auto simp: Map(1) spaces_view split: option.splits)
  next
    case (Fault addr "write" r)
    then have al: "alive s" using running_alive [OF inv(1)] by simp
    from returnsD [OF vm_fault_spec [OF inv(1) al l(2) genuine_fault [OF Fault(3)]] Fault(4)]
    have "if r = 0 then lookup_va s (current_pid s) (page_base addr) \<noteq> None else r = -1" by (auto simp: fault_result_def split: if_splits)
    with vm_fault_view [OF inv(1) al l m Fault(3,4)] show ?thesis by (simp add: Fault(1) spaces_view split: if_splits)
  next
    case (Destroy ord)
    then have al: "alive s" using running_alive [OF inv(1)] by simp
    from vm_destroy_view [OF inv(1) al Destroy(2) m Destroy(4)] show ?thesis by (simp add: Destroy(1))
  next
    case (Store addr c)
    have p: "page_table_base_register s = current_pid s" using inv(1) by (simp add: pager_inv_iff processes_ok_def)
    obtain f where "reaches s (current_pid s) (page_base addr) True = Some f" using Store(4) by (auto simp: store_def p)
    then have "lookup_va s (current_pid s) (page_base addr) \<noteq> None" using reaches_page [OF inv Store(3)] by (metis option.distinct(1))
    with store_view [OF inv m Store(3,4)] show ?thesis by (simp add: Store(1) spaces_view)
  qed
  with r show ?thesis by (simp add: memory_ok_def)
qed

interpretation memory: refinement_system booted "\<lambda>c s t. content_laws fo ok ct \<and> file_laws fo ok \<and> pager_step fo c s t" "memory_ok ok ct" "view ct" ideal_step
  for fo ok ct
  by unfold_locales (auto simp: booted_memory dest: pager_simulates)

lemma run_memory:
  assumes "content_laws fo ok ct" "file_laws fo ok" "booted s" "run_of (pager_step fo) s cs t"
  shows "memory_ok ok ct t" "run_of ideal_step (view ct s) cs (view ct t)"
  using memory.inv_run_initial [of s fo ok ct cs t] memory.run_refines_initial [of s fo ok ct cs t] assms by simp_all

lemma address_parts: "page_base a = page_base b \<Longrightarrow> a mod VM_PAGESIZE = b mod VM_PAGESIZE \<Longrightarrow> a = b"
  by (metis page_base_def le_add_diff_inverse2 mod_less_eq_dividend)

lemma ideal_store_byte:
  assumes "(pid, a) \<noteq> (runner m, addr)"
    "\<And>name b. spaces m (runner m) (page_base addr) = Some (Shared name b) \<Longrightarrow> spaces m pid (page_base a) \<noteq> Some (Shared name b)"
  shows "ideal_byte (ideal_store addr c m) pid a = ideal_byte m pid a"
  using assms address_parts [of a addr]
  by (auto simp: ideal_store_def ideal_byte_def ideal_map_def Let_def split: option.splits cell.splits)

lemma store_load:
  assumes ok: "memory_ok ok ct t" and va: "arena_va (page_base addr)" and u: "store addr c t = Some u"
  shows "load_byte addr u = Some c
    \<and> (\<forall>pid a. (pid, a) \<noteq> (current_pid t, addr) \<longrightarrow>
        (\<forall>name b. spaces (view ct t) (current_pid t) (page_base addr) = Some (Shared name b) \<longrightarrow> spaces (view ct t) pid (page_base a) \<noteq> Some (Shared name b)) \<longrightarrow>
        ideal_byte (view ct u) pid a = ideal_byte (view ct t) pid a)"
proof -
  have inv: "pager_inv ok t" "tidy t" and m: "mem_ok ct t" using ok by (simp_all add: memory_ok_def run_ok_def)
  have v: "view ct u = ideal_store addr c (view ct t)" using store_view [OF inv m va u] by blast
  have "load_byte addr u = Some c" using u by (auto simp: store_def load_byte_def reaches_def get_pte_def split: option.splits if_splits)
  moreover have "ideal_byte (view ct u) pid a = ideal_byte (view ct t) pid a" if "(pid, a) \<noteq> (current_pid t, addr)"
    "\<forall>name b. spaces (view ct t) (current_pid t) (page_base addr) = Some (Shared name b) \<longrightarrow> spaces (view ct t) pid (page_base a) \<noteq> Some (Shared name b)" for pid a
    unfolding v by (rule ideal_store_byte) (use that in auto)
  ultimately show ?thesis by blast
qed

lemma run_loads:
  assumes "content_laws fo ok ct" "file_laws fo ok" "booted s" "run_of (pager_step fo) s cs t" "arena_va (page_base addr)" "load_byte addr t = Some c"
  shows "ideal_byte (view ct t) (current_pid t) addr = Some c"
proof -
  have "pager_inv ok t" "tidy t" using run_memory(1) [OF assms(1-4)] by (simp_all add: memory_ok_def run_ok_def)
  then show ?thesis by (rule load_byte_view [OF _ _ assms(5,6)])
qed

text \<open>A new process starts with the bytes of its parent.\<close>

lemma create_bytes:
  assumes ok: "memory_ok ok ct t" and c: "traversal ord" "process_table t child = None" "vm_create ord parent child t = Some (0, u)"
  shows "ideal_byte (view ct u) child a = ideal_byte (view ct t) parent a" "pid \<noteq> child \<Longrightarrow> ideal_byte (view ct u) pid a = ideal_byte (view ct t) pid a"
proof -
  have inv: "pager_inv ok t" and m: "mem_ok ct t" using ok by (simp_all add: memory_ok_def run_ok_def)
  from vm_create_view [OF inv c(2,1) m c(3)] have v: "view ct u = (ideal_create parent child (view ct t))\<lparr>runner := current_pid u\<rparr>" by simp
  show "ideal_byte (view ct u) child a = ideal_byte (view ct t) parent a" "pid \<noteq> child \<Longrightarrow> ideal_byte (view ct u) pid a = ideal_byte (view ct t) pid a"
    unfolding v by (simp_all add: ideal_byte_def ideal_create_def split: option.splits cell.splits)
qed

text \<open>Two addresses that reach one frame.\<close>

lemma frame_shared:
  assumes inv: "pager_inv ok t" "tidy t" and va: "arena_va va" "arena_va va'" and r: "reaches t pid va True = Some f" "reaches t pid' va' w = Some f"
  shows "f \<noteq> 0 \<and> f < mem_pages_cap t
    \<and> (\<exists>v. lookup_va t pid va = Some v \<and> lookup_va t pid' va' = Some v \<and> (\<not> isSwap (vpages t v) \<or> (pid', va') = (pid, va)))"
proof -
  have c: "core ok t" using inv(1) by (simp add: pager_inv_iff)
  from reaches_page [OF inv va(1) r(1)] obtain v pp where v: "lookup_va t pid va = Some v" "live t v" "physicalPage (vpages t v) = Some pp" "f = PPN pp"
    "f < mem_pages_cap t" "f \<noteq> 0" "isSwap (vpages t v) \<longrightarrow> length (affiliated (vpages t v)) = 1" by metis
  from reaches_page [OF inv va(2) r(2)] obtain v' pp' where v': "lookup_va t pid' va' = Some v'" "live t v'" "physicalPage (vpages t v') = Some pp'" "f = PPN pp'" by metis
  have "v = v'" using frames_distinct [OF c v(2) v'(2)] v v' by (auto simp: in_frame_def frame_def)
  with v v' only_mapping [OF c v(1)] show ?thesis by blast
qed

text \<open>A page is affiliated with as many entries as it has mappings.\<close>

lemma mappings_card:
  assumes c: "core ok s" and v: "live s v"
  shows "card {(q, a). lookup_va s q a = Some v} = length (affiliated (vpages s v))"
proof -
  let ?M = "{(q, a). lookup_va s q a = Some v}" and ?f = "\<lambda>(q, a). VA_to_PTE a q"
  have "inj_on ?f ?M" using VA_to_PTE_inj arena_okD(2) [OF core_facts(2) [OF c]] by (fastforce simp: inj_on_def)
  moreover have "?f ` ?M = entries_of s v" by (force simp: entries_of_def)
  ultimately show ?thesis using card_image [of ?f ?M] page_okD(1) [OF c v] distinct_card [OF page_okD(2) [OF c v]] by simp
qed

lemma resources:
  assumes inv: "pager_inv ok t"
  shows "process_table t pid = Some tab \<Longrightarrow> length tab = page_table_size"
    "lookup_va t pid va = Some v \<Longrightarrow> arena_va va \<and> va < get_next_free_VA t pid \<and> process_table t pid \<noteq> None
        \<and> (isSwap (vpages t v) \<longrightarrow> length (blocks (vpages t v)) = card {(q, a). lookup_va t q a = Some v})"
proof -
  have c: "core ok t" using inv by (simp add: pager_inv_iff)
  have "map_option length (process_table t pid) = map_option (\<lambda>_. page_table_size) (next_free_VA t pid)"
    using core_facts(2) [OF c] unfolding arena_ok_def by blast
  then show "process_table t pid = Some tab \<Longrightarrow> length tab = page_table_size" by (cases "next_free_VA t pid") auto
  assume l: "lookup_va t pid va = Some v"
  have lv: "live t v" unfolding core_facts(7) [OF c] mapped_def using l by blast
  from arena_okD [OF core_facts(2) [OF c] l] process_alive [OF inv, of pid] mappings_card [OF c lv] page_okD(4) [OF c lv]
  show "arena_va va \<and> va < get_next_free_VA t pid \<and> process_table t pid \<noteq> None
        \<and> (isSwap (vpages t v) \<longrightarrow> length (blocks (vpages t v)) = card {(q, a). lookup_va t q a = Some v})"
    by (auto simp: get_next_free_VA_def)
qed

end
