(* ===== verification/Pager_Example.thy ===== *)
theory Pager_Example
  imports Pager_Refinement "HOL-Library.Code_Target_Nat"
begin

text \<open>A small run of the pager: the example at which its properties are instantiated.\<close>

section \<open>Files in memory\<close>

text \<open>Every block can be read and written.\<close>

type_synonym block_files = "string option \<times> nat \<Rightarrow> page"

definition mem_files :: "block_files file_ops" where
  "mem_files = \<lparr>file_read = (\<lambda>f n b buf. (True, f (n, b), f)), file_write = (\<lambda>f n b p. (True, f((n, b) := p)))\<rparr>"

definition block_contents :: "block_files contents" where
  "block_contents f n b = f (n, b)"

lemma mem_files_laws: "file_laws mem_files (\<lambda>_ _. True)" "content_laws mem_files (\<lambda>_ _. True) block_contents"
  by (auto simp: file_laws_def content_laws_def mem_files_def block_contents_def fun_eq_iff)

definition blank_pager :: "'f \<Rightarrow> 'f pager" where
  "blank_pager f = \<lparr>process_table = (\<lambda>_. None), translateVA = [], next_free_VA = (\<lambda>_. None), filename_block_to_vpage = [],
     vpages = (\<lambda>_. new_virtual_page), next_vpage = 0, max_swap_blocks = 0, next_free_swap = [], next_free_PPN = [],
     clock_queue = [], mem_pages_cap = 0, current_pid = 0, page_table_base_register = 0, vm_physmem = (\<lambda>_. zero_page), files = f\<rparr>"

lemma blank_booted: "2 \<le> n \<Longrightarrow> n \<le> 2 ^ 20 \<Longrightarrow> booted (vm_init n w (blank_pager f))"
  unfolding booted_def by (rule exI [of _ n], rule exI [of _ w], rule exI [of _ "blank_pager f"])
    (simp add: pristine_def blank_pager_def new_virtual_page_def)

text \<open>One frame; a process maps a page, stores a byte there, and maps a second page.\<close>

definition demo0 :: "block_files pager" where "demo0 = vm_init 2 4 (blank_pager (\<lambda>_. zero_page))"
definition demo1 :: "block_files pager" where "demo1 = snd (the (vm_create id 0 1 demo0))"
definition demo2 :: "block_files pager" where "demo2 = snd (the (vm_map mem_files None 0 demo1))"
definition demo3 :: "block_files pager" where "demo3 = snd (the (vm_fault mem_files VM_ARENA_BASEADDR True demo2))"
definition demo4 :: "block_files pager" where "demo4 = the (store VM_ARENA_BASEADDR CHR ''x'' demo3)"
definition demo5 :: "block_files pager" where "demo5 = snd (the (vm_map mem_files None 0 demo4))"

lemma traversal_id: "traversal id"
  by (simp add: traversal_def)

lemma the_result: "map_option fst m = Some r \<Longrightarrow> m = Some (r, snd (the m))"
  by (cases m) auto

lemma base_page: "page_base VM_ARENA_BASEADDR = VM_ARENA_BASEADDR" "arena_va VM_ARENA_BASEADDR"
  "page_base (VM_ARENA_BASEADDR + VM_PAGESIZE) = VM_ARENA_BASEADDR + VM_PAGESIZE"
  by (simp_all add: page_base_def arena_va_def vm_const_defs)

lemma demo_create: "pager_step mem_files (Create_Call 0 1 0) demo0 demo1"
proof (rule Create [OF traversal_id])
  show "process_table demo0 1 = None" by (simp add: demo0_def blank_pager_def vm_init_def)
  show "vm_create id 0 1 demo0 = Some (0, demo1)" unfolding demo1_def by (rule the_result) code_simp
qed

lemma demo_map: "pager_step mem_files (Map_Call None 0 (Some VM_ARENA_BASEADDR)) demo1 demo2"
proof (rule Map)
  show "running demo1" unfolding running_def by code_simp
  show "vm_map mem_files None 0 demo1 = Some (Some VM_ARENA_BASEADDR, demo2)" unfolding demo2_def by (rule the_result) code_simp
qed

lemma demo_fault: "pager_step mem_files (Fault_Call VM_ARENA_BASEADDR True 0) demo2 demo3"
proof (rule Fault)
  show "running demo2" unfolding running_def by code_simp
  show "\<not> permits demo2 (page_base VM_ARENA_BASEADDR) True" by code_simp
  show "vm_fault mem_files VM_ARENA_BASEADDR True demo2 = Some (0, demo3)" unfolding demo3_def by (rule the_result) code_simp
qed

lemma demo_store: "pager_step mem_files (Store_Call VM_ARENA_BASEADDR CHR ''x'') demo3 demo4"
proof (rule Store)
  show "running demo3" unfolding running_def by code_simp
  show "arena_va (page_base VM_ARENA_BASEADDR)" by (simp add: base_page)
  have "store VM_ARENA_BASEADDR CHR ''x'' demo3 \<noteq> None" by code_simp
  then show "store VM_ARENA_BASEADDR CHR ''x'' demo3 = Some demo4" unfolding demo4_def by auto
qed

lemma demo_second: "pager_step mem_files (Map_Call None 0 (Some (VM_ARENA_BASEADDR + VM_PAGESIZE))) demo4 demo5"
proof (rule Map)
  show "running demo4" unfolding running_def by code_simp
  show "vm_map mem_files None 0 demo4 = Some (Some (VM_ARENA_BASEADDR + VM_PAGESIZE), demo5)" unfolding demo5_def by (rule the_result) code_simp
qed

definition demo_calls :: "call list" where
  "demo_calls = [Create_Call 0 1 0, Map_Call None 0 (Some VM_ARENA_BASEADDR), Fault_Call VM_ARENA_BASEADDR True 0,
     Store_Call VM_ARENA_BASEADDR CHR ''x'', Map_Call None 0 (Some (VM_ARENA_BASEADDR + VM_PAGESIZE))]"

lemma demo_booted: "booted demo0"
  unfolding demo0_def by (rule blank_booted) simp_all

lemma demo_runs: "run_of (pager_step mem_files) demo0 (take 2 demo_calls) demo2" "run_of (pager_step mem_files) demo0 (take 3 demo_calls) demo3"
  "run_of (pager_step mem_files) demo0 (take 4 demo_calls) demo4" "run_of (pager_step mem_files) demo0 demo_calls demo5"
  unfolding demo_calls_def using demo_create demo_map demo_fault demo_store demo_second by (simp_all) blast+

end
