(* ===== verification/Pager_Properties.thy ===== *)
theory Pager_Properties
  imports Pager_Example
begin

text \<open>The properties of the pager in the states of its runs.\<close>

section \<open>Memory\<close>







section \<open>Consistency\<close>







section \<open>Faults and frames\<close>







section \<open>A file that becomes readable\<close>




end
