(* ===== verification/Spec2Isabelle.thy ===== *)
theory Spec2Isabelle
  imports Server_Concurrent Thread_Properties Pager_Properties
begin

text \<open>
  A model of the three programs of the repository and theorems about them: the network file
  server (\<^verbatim>\<open>src/*.cpp\<close>), the thread library (\<^verbatim>\<open>src/thread_library\<close>) and the external pager
  (\<^verbatim>\<open>src/pager_library\<close>).

  \<^bold>\<open>Shared\<close>. \<^verbatim>\<open>Prelude\<close>: checked indexing, assertions as \<open>option\<close>, a small postcondition calculus
  (\<open>yields\<close>), and the locales \<open>invariant_system\<close>, \<open>labelled_system\<close>, \<open>refinement_system\<close> and
  \<open>forward_simulation\<close> of transition systems with an invariant, with labelled steps, with an abstraction
  that every step follows, and with an abstract system that follows by choice. They are interpreted on
  the server, the thread library, the pager and the concurrent requests of the file server.

  \<^bold>\<open>File server\<close>. \<^verbatim>\<open>main\<close> (\<^verbatim>\<open>fs_server.cpp\<close>, theory \<^verbatim>\<open>Server_Main\<close>) opens a socket, initialises the
  file system and accepts connections. A connection (\<^verbatim>\<open>networking.cpp\<close>, theory \<^verbatim>\<open>Networking\<close>) reads a
  header, has it parsed (\<^verbatim>\<open>parsing.cpp\<close>, theory \<^verbatim>\<open>Parsing\<close>) into a request (\<^verbatim>\<open>request.h\<close>, theory
  \<^verbatim>\<open>Requests\<close>), runs it on the file system (\<^verbatim>\<open>filesystem.cpp\<close>, theory \<^verbatim>\<open>Filesystem\<close>) and prints the
  response. The file system keeps inodes and directory entries as bytes in disk blocks
  (\<^verbatim>\<open>fs_server.h\<close>, theory \<^verbatim>\<open>Disk\<close>); its own state is the list of free blocks. The system calls,
  \<^verbatim>\<open>recv\<close>, \<^verbatim>\<open>disk_readblock\<close> and \<^verbatim>\<open>disk_writeblock\<close> are parameters with named laws (\<open>bind_laws\<close>,
  \<open>delivers\<close>, \<open>disk_laws\<close>). A handler also returns the sequence of its lock operations and disk writes.
  \<^item> \<^verbatim>\<open>Fs_Tree\<close>, \<^verbatim>\<open>Fs_Invariant\<close>: when the blocks of the disk hold a tree of directories and files and
    the free list is the complement of its blocks; path lookup on such a disk.
  \<^item> \<^verbatim>\<open>Fs_Files\<close>, \<^verbatim>\<open>Fs_Dirs\<close>, \<^verbatim>\<open>Fs_Delete\<close>, \<^verbatim>\<open>Fs_Init\<close>: what read, write, create, delete and start-up do
    to that tree. \<^verbatim>\<open>Fs_Properties\<close>: consistency is kept by every request, errors change nothing.
  \<^item> \<^verbatim>\<open>Fs_View\<close>, \<^verbatim>\<open>Fs_Spec\<close>: the tree as users see it (names, owners, contents), and what each request
    promises of it. \<^verbatim>\<open>Fs_Refinement\<close>: the handlers implement that specification. \<^verbatim>\<open>Fs_Contract\<close>: the
    promises to users: a read returns the last write, users are isolated, delete undoes create.
  \<^item> \<^verbatim>\<open>Fs_Locks\<close>: locks are taken hand over hand, writes happen under a lock, all are released.
  \<^item> \<^verbatim>\<open>Fs_Programs\<close>: the handlers once more, as programs of atomic actions (a lock operation, a call of the
    disk, a critical section of \<^verbatim>\<open>internal_lock_free_list\<close> or \<^verbatim>\<open>internal_lock_map\<close>); run alone they are the
    handlers of \<^verbatim>\<open>Filesystem\<close>. \<^verbatim>\<open>Fs_Concurrent\<close>: any number of connection threads whose actions
    interleave, with the locks of \<^verbatim>\<open>boost::shared_mutex\<close>; no schedule is endless.
  \<^item> \<^verbatim>\<open>Fs_Protocol\<close>: the protocol that the programs follow, with the action at which a request takes effect,
    and the invariant of the threads together. \<^verbatim>\<open>Fs_Stability\<close>, \<^verbatim>\<open>Fs_Interference\<close>, \<^verbatim>\<open>Fs_Simulation\<close>:
    every action that follows the protocol keeps the invariant. \<^verbatim>\<open>Fs_Conformance\<close>, \<^verbatim>\<open>Fs_Commits\<close>,
    \<^verbatim>\<open>Fs_Unlinks\<close>: traversal and handlers follow the protocol.
  \<^item> \<^verbatim>\<open>Fs_Linear\<close>, \<^verbatim>\<open>Fs_Progress\<close>, \<^verbatim>\<open>Fs_Service\<close>: concurrent requests happen as if at once, never deadlock,
    and have no races on the disk.
  \<^item> \<^verbatim>\<open>Server\<close>, \<^verbatim>\<open>Server_Main\<close>: whole connections, start-up, and runs in which connections are handled one
    after the other. \<^verbatim>\<open>Server_Concurrent\<close> and this theory: runs from \<^verbatim>\<open>main\<close> on with all connection threads at
    once.

  \<^bold>\<open>Thread library\<close>. \<^verbatim>\<open>Threads\<close>: CPUs, ready queue, threads, mutexes and condition variables
  (\<^verbatim>\<open>cpu.cpp\<close>, \<^verbatim>\<open>thread.cpp\<close>, \<^verbatim>\<open>mutex.cpp\<close>, \<^verbatim>\<open>cv.cpp\<close>, \<^verbatim>\<open>managed_uc.cpp\<close>) as operations on one state
  record; \<^verbatim>\<open>swapcontext\<close> is the point at which a context resumes. \<^verbatim>\<open>Thread_Ownership\<close>,
  \<^verbatim>\<open>Thread_Invariant\<close>, \<^verbatim>\<open>Thread_Steps\<close>: the invariant and that every step keeps it;
  \<^verbatim>\<open>Thread_Properties\<close>: mutual exclusion, absence of failed assertions, the behaviour of each
  operation.

  \<^bold>\<open>Pager\<close>. \<^verbatim>\<open>Pages\<close> (\<^verbatim>\<open>Page.cpp\<close>, \<^verbatim>\<open>vm_arena.h\<close>, \<^verbatim>\<open>vm_pager.h\<close>) and \<^verbatim>\<open>Pager\<close> (\<^verbatim>\<open>vm_pager.cpp\<close>): pages,
  page tables, eviction, faults, mapping, process creation and exit; \<^verbatim>\<open>file_read\<close> and
  \<^verbatim>\<open>file_write\<close> are parameters with named laws (\<open>file_laws\<close>, \<open>content_laws\<close>).
  \<^item> \<^verbatim>\<open>Pager_Clock\<close>: page table entries, the clock and eviction.
  \<^item> \<^verbatim>\<open>Pager_Invariant\<close>: the invariant. \<^verbatim>\<open>Pager_Frames\<close>, \<^verbatim>\<open>Pager_Faults\<close>, \<^verbatim>\<open>Pager_Mappings\<close>,
    \<^verbatim>\<open>Pager_Operations\<close>, \<^verbatim>\<open>Pager_Copy\<close>, \<^verbatim>\<open>Pager_Processes\<close>, \<^verbatim>\<open>Pager_Exit\<close>: what each operation does and
    that it keeps the invariant. \<^verbatim>\<open>Pager_Tables\<close>: only mapped pages are enabled in a page table.
  \<^item> \<^verbatim>\<open>Pager_Runs\<close>: runs of a pager started with 2 to \<open>2 ^ 20\<close> pages of memory, whose calls satisfy what
    the kernel and the hardware promise (a fault is raised only by an access the page table forbids,
    \<^verbatim>\<open>vm_switch\<close> names a process, a process that exits runs); loads and stores go through the page table.
  \<^item> \<^verbatim>\<open>Pager_Memory\<close>, \<^verbatim>\<open>Pager_Ideal\<close>, \<^verbatim>\<open>Pager_Refinement\<close>: the contents of pages wherever they are kept, an
    ideal memory without frames, swap or copy-on-write, and that every run of the pager is a run of it.
  \<^item> \<^verbatim>\<open>Pager_Example\<close>, \<^verbatim>\<open>Pager_Properties\<close>: a concrete run, and the results.

  \<^bold>\<open>Bounds\<close>. The start-up traversal has fuel \<open>FS_DISKSIZE\<close>, the number of blocks: a tree in the
  disk has no more nodes. The clock loop has fuel one more than the length of its queue: every
  turn clears a reference bit. The loop that copies a file name out of an address space is a
  \<open>partial_function\<close>; in the states of a run it is proved to end. The accept loop is modelled for
  any number of turns.

  \<^bold>\<open>Not modelled\<close>. Signal and context switching primitives of the operating system, the client
  libraries (only headers are present), diagnostic output, the tests. In the concurrent runs of the
  server a thread receives and parses its request in one step, since it shares nothing with others
  before the file system is called. A mutex of \<^verbatim>\<open>boost\<close> may be taken whenever its holders permit it;
  which of several waiting threads gets it is left open.
\<close>

section \<open>The server as a whole\<close>

text \<open>
  C6. Whatever bytes a client sends, a connection to a server with a consistent file system either
  ends with the exception the parser lets escape or returns with a consistent file system; no
  assertion of the file system fails and no response is built from a missing block.
\<close>

theorem connections_keep_consistency:
  assumes "disk_laws io" "fs_inv io s" "wf_inode junk" "delivers so pend"
  shows "(\<exists>e. handle_connection so io junk k s = Terminated e)
    \<or> (\<exists>st sent s' evs. handle_connection so io junk k s = Returned st sent s' evs \<and> fs_inv io s')"
  by (rule connection_safe [OF assms])

theorem connections_keep_consistency_witness:
  "\<forall>bytes. (\<exists>e. handle_connection sent_bytes mem_disk root_inode bytes fresh_fs = Terminated e)
    \<or> (\<exists>st sent s' evs. handle_connection sent_bytes mem_disk root_inode bytes fresh_fs = Returned st sent s' evs
         \<and> fs_inv mem_disk s')"
proof -
  have "fs_inv mem_disk fresh_fs" using fresh_fs_tree by (auto simp: fs_inv_def)
  then show ?thesis
    using connections_keep_consistency [OF mem_disk_laws _ formatted_root(2) sent_bytes_delivers] by blast
qed

text \<open>
  C7. From \<^verbatim>\<open>main\<close> on, with all connections at once: however the accept loop, arriving requests and the
  actions of connection threads interleave, requests happen as if one at a time, each between its
  arrival and its answer and as the abstract specification says; every answer has what it needs to be sent; some
  thread can move or all requests are answered, and then the file system on the disk is consistent.
\<close>

theorem server_serves_concurrently:
  assumes "disk_laws io" "holds_tree io d t"
    and "server_main os io junk d argv st = Some (Serving sockfd port unused st')"
    and "(conc_server_step os io sockfd)\<^sup>*\<^sup>* (conc_listening os sockfd st' d unused) v"
  shows "\<exists>cs a. run_of (alongside (conc_step io) (atomic_step io))
        (before_requests \<lparr>disk = d, free_disk_blocks = unused\<rparr> (\<lambda>_. 0), at_rest io \<lparr>disk = d, free_disk_blocks = unused\<rparr>) cs (world v, a)
    \<and> user_files a = view_of io (fsys (world v))
    \<and> (\<forall>i < length (workers (world v)). \<forall>res. activity (workers (world v) ! i) = Finished res \<longrightarrow>
         answers a ! i = Some res \<and> respond (request (workers (world v) ! i)) res \<noteq> None)
    \<and> ((\<exists>j w. conc_step io (Move j) (world v) w)
       \<or> list_all (\<lambda>wk. \<exists>res. activity wk = Finished res) (workers (world v)) \<and> fs_inv io (fsys (world v)))"
proof -
  let ?s = "\<lparr>disk = d, free_disk_blocks = unused\<rparr>"
  note inv = start_consistent [OF assms(1-3)]
  obtain cs where cs: "run_of (conc_step io) (before_requests ?s (\<lambda>_. 0)) cs (world v)"
    using conc_server_run [OF assms(4)] by (auto simp: conc_listening_def)
  obtain a where a: "run_of (alongside (conc_step io) (atomic_step io)) (before_requests ?s (\<lambda>_. 0), at_rest io ?s) cs (world v, a)" "served io (world v) a"
    using runs_served [OF assms(1) inv cs] .
  have "sendable (world v, a)" using answers.inv_run_initial [OF _ a(1)] by (simp add: before_requests_def)
  then have "respond (request (workers (world v) ! i)) res \<noteq> None" if "i < length (workers (world v))" "answers a ! i = Some res" for i res
    using that by (simp add: sendable_def)
  with a served_answers [OF a(2)] served_progress [OF a(2)] show ?thesis by blast
qed

theorem server_serves_concurrently_witness:
  "\<exists>port unused st' v. server_main one_socket mem_disk no_address formatted [''fs''] None = Some (Serving 3 port unused st')
     \<and> (conc_server_step one_socket mem_disk 3)\<^sup>*\<^sup>* (conc_listening one_socket 3 st' formatted unused) v
     \<and> (\<exists>res. activity (workers (world v) ! 0) = Finished res \<and> respond (request (workers (world v) ! 0)) res \<noteq> None)"
proof -
  have h: "holds_tree mem_disk formatted (Node 0 [])" using fs_tree_holds [OF fresh_fs_tree] by (simp add: fresh_fs_def)
  obtain port unused st' where m: "server_main one_socket mem_disk no_address formatted [''fs''] None = Some (Serving 3 port unused st')"
    using one_socket_serving .
  obtain v where v: "(conc_server_step one_socket mem_disk 3)\<^sup>*\<^sup>* (conc_listening one_socket 3 st' formatted unused) v"
    "length (workers (world v)) = 1" "list_all (\<lambda>wk. \<not> unfinished wk) (workers (world v))"
    using one_client [OF start_consistent [OF mem_disk_laws h m]] .
  then obtain res where res: "activity (workers (world v) ! 0) = Finished res" by (auto simp: list_all_length)
  have "respond (request (workers (world v) ! 0)) res \<noteq> None"
    using server_serves_concurrently [OF mem_disk_laws h m v(1)] v(2) res by fastforce
  with m v(1) res show ?thesis by blast
qed

text \<open>
  With connections handled one after the other: when start-up on a disk that holds a tree reaches the accept loop, the file
  system is consistent in every state of every run of the server, however turns of the loop and
  connections follow each other.
\<close>

theorem server_runs_consistent:
  assumes "disk_laws io" "holds_tree io d t"
    and "server_main os io junk d argv st = Some (Serving sockfd port unused st')"
    and "(server_step os io sockfd)\<^sup>*\<^sup>* (listening os sockfd st' d unused) v"
  shows "fs_inv io (file_system v)"
proof -
  have "started io (file_system (listening os sockfd st' d unused))"
    using server_main_serving [OF assms(3)] assms(1,2) by (auto simp: started_def listening_def)
  then show ?thesis by (rule server.inv_reachable [OF _ server_steps_files [OF assms(4)]])
qed

theorem server_runs_consistent_witness:
  "\<exists>port unused st' v. server_main one_socket mem_disk no_address formatted [''fs''] None = Some (Serving 3 port unused st')
     \<and> (server_step one_socket mem_disk 3)\<^sup>*\<^sup>* (listening one_socket 3 st' formatted unused) v
     \<and> detached v = [4, 4] \<and> fs_inv mem_disk (file_system v)"
proof -
  have h: "holds_tree mem_disk formatted (Node 0 [])" using fs_tree_holds [OF fresh_fs_tree] by (simp add: fresh_fs_def)
  obtain port unused st' where m: "server_main one_socket mem_disk no_address formatted [''fs''] None = Some (Serving 3 port unused st')"
    using one_socket_serving .
  have "server_listen one_socket 3 2 st' = (st', [4, 4])"
    by (simp add: server_listen_def accept_turn_def one_socket_def eval_nat_numeral)
  note run = server_listen_run [OF this, of mem_disk formatted unused]
  show ?thesis using server_runs_consistent [OF mem_disk_laws h m run] m run by fastforce
qed

text \<open>
  C8. What start-up announces: with a decimal port number between 1 and 65535 as its only argument the
  server either returns -1, when a socket call fails, or listens on and prints exactly that port,
  with the file system initialised from the disk; with no argument it prints the port that the
  system has chosen, a number below 65536.
\<close>

theorem server_main_port:
  assumes "bind_laws os" "disk_laws io" "holds_tree io d t" "0 < p" "p < 65536"
  defines "unused \<equiv> filter (\<lambda>b. b \<notin> set (blocks_of (image_of io d) t)) [1..<FS_DISKSIZE]"
  shows "server_main os io junk d [prog, to_string p] st =
      (case server_connect os junk st (int p) of (fd, st') \<Rightarrow>
         Some (if fd = -1 then Exited (-1) else Serving fd (word_of_nat p) unused st'))
    \<and> (\<exists>port < 65536. server_main os io junk d [prog] st =
      (case server_connect os junk st 0 of (fd, st') \<Rightarrow>
         Some (if fd = -1 then Exited (-1) else Serving fd (word_of_nat port) unused st')))"
proof
  obtain fd st' where c: "server_connect os junk st (int p) = (fd, st')" by fastforce
  have "(word_of_int (int p) :: 16 word) \<noteq> 0"
    using assms(4,5) by (simp add: word_of_nat_eq_0_iff nat_dvd_not_less)
  with server_connect_port(1) [OF assms(1) c] assms(5) have "fd \<noteq> -1 \<Longrightarrow> get_port_number os st' fd = int p"
    by simp
  moreover have "atoi (to_string p) = Some (int p)" using atoi_to_string [of p] assms(5) by simp
  ultimately show "server_main os io junk d [prog, to_string p] st =
      (case server_connect os junk st (int p) of (fd, st') \<Rightarrow>
         Some (if fd = -1 then Exited (-1) else Serving fd (word_of_nat p) unused st'))"
    using server_main_started [OF assms(2,3), of "[prog, to_string p]" "int p" os junk st] c by (auto simp: unused_def)
next
  obtain fd st' where c: "server_connect os junk st 0 = (fd, st')" by fastforce
  show "\<exists>port < 65536. server_main os io junk d [prog] st =
      (case server_connect os junk st 0 of (fd, st') \<Rightarrow>
         Some (if fd = -1 then Exited (-1) else Serving fd (word_of_nat port) unused st'))"
  proof (cases "fd = -1")
    case True
    with server_main_started [OF assms(2,3), of "[prog]" 0 os junk st] c show ?thesis by (intro exI [of _ 0]) auto
  next
    case False
    with server_connect_port(2) [OF assms(1) c] have "0 \<le> get_port_number os st' fd" "get_port_number os st' fd < 65536" by auto
    then obtain n where n: "get_port_number os st' fd = int n" "n < 65536"
      using that [of "nat (get_port_number os st' fd)"] by auto
    with False server_main_started [OF assms(2,3), of "[prog]" 0 os junk st] c show ?thesis
      by (auto simp: unused_def intro!: exI [of _ n])
  qed
qed

theorem server_main_port_witness:
  "\<exists>unused st'. server_main one_socket mem_disk no_address formatted [''fs'', ''8000''] None = Some (Serving 3 8000 unused st')"
proof -
  have h: "holds_tree mem_disk formatted (Node 0 [])" using fs_tree_holds [OF fresh_fs_tree] by (simp add: fresh_fs_def)
  have "to_string 8000 = ''8000''" by code_simp
  moreover have "\<exists>st'. server_connect one_socket no_address None 8000 = (3, st')"
    by (simp add: server_connect_def one_socket_def make_server_sockaddr_def)
  ultimately show ?thesis
    using server_main_port [OF one_socket_laws mem_disk_laws h, of 8000 no_address "''fs''" None] by auto
qed

end
